(* ===== verification/Prelude.thy ===== *)
theory Prelude
  imports Main "HOL-Library.Monad_Syntax"
begin

text \<open>
  Shared notions of the development.

  A C++ function that may throw is modelled by a value of type \<open>'a run\<close>:
  \<^item> \<open>None\<close>: the call does not return (a loop that never ends) or reads outside an array,
    which C++ leaves undefined;
  \<^item> \<open>Some (Inl e)\<close>: the call throws the exception \<open>e\<close>;
  \<^item> \<open>Some (Inr x)\<close>: the call returns \<open>x\<close>.
  The loops that chase array indices are \<^theory_text>\<open>partial_function (option)\<close> definitions, so that
  returning is something each component has to prove.
\<close>

subsection \<open>Exceptions\<close>

text \<open>The codes of \<open>mewa::Error::Code\<close> that the modelled functions throw.\<close>

datatype error_code =
    LogicError
  | IllegalFirstCharacterInLexer
  | SyntaxErrorInLexer
  | ArrayBoundReadInLexer
  | InvalidRegexInLexer
  | KeywordDefinedTwiceInLexer
  | CompiledSourceTooComplex
  | TooManyTypeArguments
  | DuplicateDefinition
  | BadRelationWeight
  | BadRelationTag
  | InvalidHandle
  | InvalidBoundary
  | AmbiguousReductionDefinitions
  | ScopeHierarchyError
  | InvalidReductionDefinition
  | PriorityConflictInGrammarDef
  | NoAcceptStatesInGrammarDef
  | ShiftReduceConflictInGrammarDef
  | ReduceReduceConflictInGrammarDef
  | ShiftShiftConflictInGrammarDef
  | ComplexityMaxStateInGrammarDef
  | ComplexityMaxNofProductionsInGrammarDef
  | ComplexityMaxProductionLengthInGrammarDef
  | ComplexityMaxProductionPriorityInGrammarDef
  | ComplexityMaxTerminalInGrammarDef
  | ComplexityLR1FollowSetsInGrammarDef
  | UnexpectedTokenNotOneOf
  | LanguageAutomatonCorrupted
  | LanguageAutomatonMissingGoto
  | LanguageAutomatonUnexpectedAccept
  | BadCharacterInGrammarDef
  | ValueOutOfRangeInGrammarDef
  | UnexpectedEofInGrammarDef
  | UnexpectedTokenInGrammarDef
  | DuplicateScopeInGrammarDef
  | NestedCallArgumentStructureInGrammarDef
  | DuplicateProductionInGrammarDef
  | PriorityDefNotForLexemsInGrammarDef
  | UnexpectedEndOfRuleInGrammarDef
  | CommandNumberOfArgumentsInGrammarDef
  | CommandNameUnknownInGrammarDef
  | ConflictingCommandInGrammarDef
  | DefinedAsTerminalAndNonterminalInGrammarDef
  | UnresolvedIdentifierInGrammarDef
  | UnreachableNonTerminalInGrammarDef
  | StartSymbolReferencedInGrammarDef
  | StartSymbolDefinedTwiceInGrammarDef
  | EmptyGrammarDef
  | ComplexityMaxNonterminalInGrammarDef
  | UsingReservedAttributeNameInGrammarDef

text \<open>
  An exception: its code, its argument string and the line in the source it is about, 0 if there is
  none. The source passes the file name and the line of the \<open>throw\<close> to every \<open>LogicError\<close> as argument
  string; the model leaves that argument empty.
\<close>

datatype error = ErrorAt (err_code: error_code) (err_arg: string) (err_line: int)

abbreviation Error :: "error_code \<Rightarrow> string \<Rightarrow> error" where
  "Error code arg \<equiv> ErrorAt code arg 0"

abbreviation logic_error :: error where
  "logic_error \<equiv> Error LogicError []"

type_synonym 'a run = "(error + 'a) option"

definition returnR :: "'a \<Rightarrow> 'a run" where
  "returnR x = Some (Inr x)"

definition throwR :: "error \<Rightarrow> 'a run" where
  "throwR e = Some (Inl e)"

definition bindR :: "'a run \<Rightarrow> ('a \<Rightarrow> 'b run) \<Rightarrow> 'b run" where
  "bindR m f = (case m of None \<Rightarrow> None | Some (Inl e) \<Rightarrow> Some (Inl e) | Some (Inr x) \<Rightarrow> f x)"

text \<open>A loop that cannot throw, used inside a function that may.\<close>

definition liftR :: "'a option \<Rightarrow> 'a run" where
  "liftR m = (case m of None \<Rightarrow> None | Some x \<Rightarrow> Some (Inr x))"

named_theorems run_simps \<open>evaluation of the exception monad\<close>

lemma returnR_bind [run_simps, simp]: "bindR (returnR x) f = f x"
  by (simp add: bindR_def returnR_def)

lemma throwR_bind [run_simps, simp]: "bindR (throwR e) f = throwR e"
  by (simp add: bindR_def throwR_def)

lemma None_bindR [run_simps, simp]: "bindR None f = None"
  by (simp add: bindR_def)

lemma Some_Inr_bindR [run_simps, simp]: "bindR (Some (Inr x)) f = f x"
  by (simp add: bindR_def)

lemma Some_Inl_bindR [run_simps, simp]: "bindR (Some (Inl e)) f = Some (Inl e)"
  by (simp add: bindR_def)

lemma liftR_Some [run_simps, simp]: "liftR (Some x) = returnR x"
  by (simp add: liftR_def returnR_def)

lemma liftR_None [run_simps, simp]: "liftR None = None"
  by (simp add: liftR_def)

lemma returnR_eq_iff [simp]: "returnR x = returnR y \<longleftrightarrow> x = y"
  by (simp add: returnR_def)

lemma throwR_eq_iff [simp]: "throwR x = throwR y \<longleftrightarrow> x = y"
  by (simp add: throwR_def)

lemma returnR_neq_throwR [simp]: "returnR x \<noteq> throwR e" "throwR e \<noteq> returnR x"
  by (simp_all add: returnR_def throwR_def)

lemma run_neq_None [simp]: "returnR x \<noteq> None" "throwR e \<noteq> None" "None \<noteq> returnR x" "None \<noteq> throwR e"
  by (simp_all add: returnR_def throwR_def)

lemma bindR_assoc: "bindR (bindR m f) g = bindR m (\<lambda>x. bindR (f x) g)"
  by (simp add: bindR_def split: option.splits sum.splits)

lemma bindR_eq_returnR: "bindR m f = returnR y \<longleftrightarrow> (\<exists>x. m = returnR x \<and> f x = returnR y)"
  by (auto simp: bindR_def returnR_def split: option.splits sum.splits)

lemma liftR_eq_returnR: "liftR m = returnR x \<longleftrightarrow> m = Some x"
  by (auto simp: liftR_def returnR_def split: option.splits)

lemma run_cases [case_names stuck throw return]:
  assumes "m = None \<Longrightarrow> P" "\<And>e. m = throwR e \<Longrightarrow> P" "\<And>x. m = returnR x \<Longrightarrow> P"
  shows P
proof (cases m)
  case None
  then show ?thesis by (rule assms(1))
next
  case (Some r)
  then show ?thesis
    using assms(2,3) by (cases r) (auto simp: throwR_def returnR_def)
qed

text \<open>A sequence of calls, each on the state the one before left, stopping at the first exception.\<close>

fun runR :: "('op \<Rightarrow> 's \<Rightarrow> 's run) \<Rightarrow> 'op list \<Rightarrow> 's \<Rightarrow> 's run" where
  "runR step [] s = returnR s"
| "runR step (x # xs) s = bindR (step x s) (runR step xs)"

lemma runR_append_fun: "runR step (xs @ ys) = (\<lambda>s. bindR (runR step xs s) (runR step ys))"
  by (induction xs) (rule ext, simp add: bindR_assoc)+

lemma runR_append: "runR step (xs @ ys) s = bindR (runR step xs s) (runR step ys)"
  by (simp add: runR_append_fun)

lemma runR_invariant:
  assumes "runR step xs s = returnR s'" "I s" "\<And>x s s'. x \<in> set xs \<Longrightarrow> I s \<Longrightarrow> step x s = returnR s' \<Longrightarrow> I s'"
  shows "I s'"
  using assms
proof (induction xs arbitrary: s)
  case (Cons x xs)
  then obtain s1 where s1: "step x s = returnR s1" "runR step xs s1 = returnR s'" by (auto simp: bindR_eq_returnR)
  then have "I s1" using Cons.prems(2) Cons.prems(3) [of x s s1] by simp
  from Cons.IH [OF s1(2) this] Cons.prems(3) show ?case by auto
qed simp

text \<open>Loops that may throw are monotone, so that a function may call itself inside them.\<close>

lemma bindR_bind: "bindR m f = Option.bind m (\<lambda>r. case r of Inl e \<Rightarrow> Some (Inl e) | Inr x \<Rightarrow> f x)"
  by (cases m) (auto simp: bindR_def)

lemma bindR_mono [partial_function_mono]:
  assumes "mono_option B" "\<And>y. mono_option (\<lambda>f. C y f)"
  shows "mono_option (\<lambda>f. bindR (B f) (\<lambda>y. C y f))"
  unfolding bindR_bind
proof (rule bind_mono [OF assms(1)])
  show "mono_option (\<lambda>f. case r of Inl e \<Rightarrow> Some (Inl e) | Inr x \<Rightarrow> C x f)" for r
    using assms(2) by (cases r) (simp_all add: option.const_mono)
qed

lemma runR_mono [partial_function_mono]:
  assumes "\<And>x s. mono_option (\<lambda>f. step f x s)"
  shows "mono_option (\<lambda>f. runR (step f) xs s)"
proof (induction xs arbitrary: s)
  case Nil
  show ?case by (simp add: option.const_mono)
next
  case (Cons x xs)
  show ?case by (simp add: bindR_mono [OF assms Cons])
qed

subsection \<open>Decimal numbers in messages\<close>

text \<open>What \<open>printf\<close> writes for \<open>%d\<close>.\<close>

function dec_nat :: "nat \<Rightarrow> string" where
  "dec_nat n = (if n < 10 then [char_of (48 + n)] else dec_nat (n div 10) @ [char_of (48 + n mod 10)])"
  by pat_completeness auto
termination
  by (relation "measure id") auto

declare dec_nat.simps [simp del]

definition dec_int :: "int \<Rightarrow> string" where
  "dec_int i = (if i < 0 then CHR ''-'' # dec_nat (nat (- i)) else dec_nat (nat i))"

subsection \<open>Arrays with C++ indices\<close>

text \<open>
  A \<open>std::vector\<close> read at an \<open>int\<close> index. Outside the array C++ leaves the read undefined: \<open>None\<close>.
\<close>

definition vec_at :: "'a list \<Rightarrow> int \<Rightarrow> 'a option" where
  "vec_at xs i = (if 0 \<le> i \<and> nat i < length xs then Some (xs ! nat i) else None)"

lemma vec_at_nat [simp]: "n < length xs \<Longrightarrow> vec_at xs (int n) = Some (xs ! n)"
  by (simp add: vec_at_def)

lemma vec_at_append_old: "vec_at xs i = Some x \<Longrightarrow> vec_at (xs @ ys) i = Some x"
  by (auto simp: vec_at_def nth_append split: if_splits)

lemma vec_at_Some_iff: "vec_at xs i = Some x \<longleftrightarrow> 0 \<le> i \<and> nat i < length xs \<and> xs ! nat i = x"
  by (auto simp: vec_at_def)

text \<open>The maximal value of a 32 bit \<open>int\<close> (\<open>std::numeric_limits<int>::max()\<close>).\<close>

definition int_max :: int where
  "int_max = 2147483647"

end
