(* ===== verification/StdMap.thy ===== *)
theory StdMap
  imports Prelude
begin

text \<open>
  \<open>std::map\<close> as the list of its pairs in the order the container keeps, ascending by key. An
  iterator is the list of the pairs from its position to the end, so \<open>end()\<close> is the empty list.
  \<open>std::multimap\<close> is the same with equal keys allowed, a new pair going behind the equal ones.
\<close>

type_synonym ('k, 'v) std_map = "('k \<times> 'v) list"

definition map_ok :: "('k::linorder, 'v) std_map \<Rightarrow> bool" where
  "map_ok m \<longleftrightarrow> sorted_wrt (<) (map fst m)"

text \<open>\<open>m.find(k)\<close>: the value at the key, if there is one.\<close>

definition map_find :: "('k, 'v) std_map \<Rightarrow> 'k \<Rightarrow> 'v option" where
  "map_find m k = map_of m k"

text \<open>\<open>m.upper_bound(k)\<close>: the iterator at the first pair with a greater key.\<close>

definition map_upper_bound :: "('k::linorder, 'v) std_map \<Rightarrow> 'k \<Rightarrow> ('k, 'v) std_map" where
  "map_upper_bound m k = dropWhile (\<lambda>p. fst p \<le> k) m"

text \<open>\<open>m.insert({k,v})\<close> of a key that is not there, and \<open>m[k] = v\<close>.\<close>

fun map_put :: "('k::linorder, 'v) std_map \<Rightarrow> 'k \<Rightarrow> 'v \<Rightarrow> ('k, 'v) std_map" where
  "map_put [] k v = [(k, v)]"
| "map_put ((k', v') # m) k v =
     (if k < k' then (k, v) # (k', v') # m
      else if k = k' then (k, v) # m
      else (k', v') # map_put m k v)"

text \<open>\<open>m.insert({k,v})\<close>: the pair is inserted if the key is new; the value at the key is returned.\<close>

definition map_insert :: "('k::linorder, 'v) std_map \<Rightarrow> 'k \<Rightarrow> 'v \<Rightarrow> ('k, 'v) std_map \<times> 'v \<times> bool" where
  "map_insert m k v = (case map_find m k of
     Some old \<Rightarrow> (m, old, False)
   | None \<Rightarrow> (map_put m k v, v, True))"

text \<open>\<open>std::multimap::insert\<close>: behind the pairs with an equal key.\<close>

fun multimap_insert :: "('k::linorder, 'v) std_map \<Rightarrow> 'k \<Rightarrow> 'v \<Rightarrow> ('k, 'v) std_map" where
  "multimap_insert [] k v = [(k, v)]"
| "multimap_insert ((k', v') # m) k v =
     (if k < k' then (k, v) # (k', v') # m else (k', v') # multimap_insert m k v)"

definition multimap_equal_range :: "('k, 'v) std_map \<Rightarrow> 'k \<Rightarrow> 'v list" where
  "multimap_equal_range m k = map snd (filter (\<lambda>p. fst p = k) m)"

subsection \<open>Laws of the ordered map\<close>

named_theorems std_map_simps \<open>lookup after update, order kept\<close>

lemma map_ok_Nil [simp]: "map_ok []"
  by (simp add: map_ok_def)

lemma map_ok_Cons: "map_ok ((k, v) # m) \<longleftrightarrow> (\<forall>p \<in> set m. k < fst p) \<and> map_ok m"
  by (auto simp: map_ok_def)

lemma map_find_Nil [simp]: "map_find [] k = None"
  by (simp add: map_find_def)

lemma map_find_put [std_map_simps, simp]:
  "map_find (map_put m k v) k' = (if k' = k then Some v else map_find m k')"
  by (induction m k v rule: map_put.induct) (auto simp: map_find_def)

lemma set_map_put: "map_ok m \<Longrightarrow> set (map_put m k v) = insert (k, v) {p \<in> set m. fst p \<noteq> k}"
  by (induction m k v rule: map_put.induct) (auto simp: map_ok_Cons)

lemma map_ok_put [simp]: "map_ok m \<Longrightarrow> map_ok (map_put m k v)"
  by (induction m k v rule: map_put.induct) (auto simp: map_ok_Cons set_map_put)

lemma map_ok_distinct: "map_ok m \<Longrightarrow> distinct (map fst m)"
  by (induction m) (force simp: map_ok_Cons)+

lemma map_find_iff_mem: "map_ok m \<Longrightarrow> map_find m k = Some v \<longleftrightarrow> (k, v) \<in> set m"
  by (simp add: map_find_def map_ok_distinct)

lemma map_find_None_iff: "map_find m k = None \<longleftrightarrow> k \<notin> fst ` set m"
  by (simp add: map_find_def map_of_eq_None_iff)

lemma map_put_absent:
  assumes "map_ok m" and "map_find m k = None"
  shows "map_put m k v = filter (\<lambda>p. fst p < k) m @ (k, v) # filter (\<lambda>p. k < fst p) m"
  using assms
proof (induction m k v rule: map_put.induct)
  case (2 k' v' m k v)
  have *: "k < k' \<Longrightarrow> filter (\<lambda>p. fst p < k) m = [] \<and> filter (\<lambda>p. k < fst p) m = m"
    using "2.prems"(1) by (auto simp: map_ok_Cons filter_empty_conv intro!: filter_True)
  show ?case
    using "2" * by (auto simp: map_ok_Cons map_find_def split: if_splits)
qed simp

lemma map_upper_bound_filter: "map_ok m \<Longrightarrow> map_upper_bound m k = filter (\<lambda>p. k < fst p) m"
proof (induction m)
  case (Cons p m)
  obtain k' v' where p: "p = (k', v')" by fastforce
  have "k < k' \<Longrightarrow> filter (\<lambda>p. k < fst p) m = m"
    using Cons.prems by (auto simp: p map_ok_Cons intro!: filter_True)
  with Cons p show ?case
    by (auto simp: map_upper_bound_def map_ok_Cons not_less)
qed (simp add: map_upper_bound_def)

lemma set_map_upper_bound: "map_ok m \<Longrightarrow> set (map_upper_bound m k) = {p \<in> set m. k < fst p}"
  by (simp add: map_upper_bound_filter)

lemma map_ok_upper_bound [simp]: "map_ok m \<Longrightarrow> map_ok (map_upper_bound m k)"
  unfolding map_ok_def map_upper_bound_def
  by (metis map_append sorted_wrt_append takeWhile_dropWhile_id)

text \<open>The first pair of \<open>upper_bound(k)\<close> has the least key above \<open>k\<close>.\<close>

lemma map_upper_bound_first:
  assumes "map_ok m" and "map_upper_bound m k = (e, i) # rest"
  shows "(e, i) \<in> set m" "k < e" "\<And>e' i'. (e', i') \<in> set m \<Longrightarrow> k < e' \<Longrightarrow> e \<le> e'"
proof -
  have mem: "set ((e, i) # rest) = {p \<in> set m. k < fst p}"
    using set_map_upper_bound [OF assms(1), of k] assms(2) by simp
  then have "(e, i) \<in> {p \<in> set m. k < fst p}" by (metis list.set_intros(1))
  then show "(e, i) \<in> set m" "k < e" by auto
  fix e' i'
  assume *: "(e', i') \<in> set m" "k < e'"
  have "map_ok ((e, i) # rest)"
    using map_ok_upper_bound [OF assms(1), of k] assms(2) by simp
  moreover have "(e', i') \<in> set ((e, i) # rest)"
    using * unfolding mem by simp
  ultimately show "e \<le> e'"
    by (auto simp: map_ok_Cons)
qed

lemma map_upper_bound_Nil: "map_ok m \<Longrightarrow> map_upper_bound m k = [] \<longleftrightarrow> (\<forall>p \<in> set m. fst p \<le> k)"
  by (simp add: map_upper_bound_def dropWhile_eq_Nil_conv)

subsection \<open>The map interface\<close>

text \<open>
  What the clients of \<open>std::map\<close> rely on: insertion of a new key, and that nothing is lost or
  overwritten.
\<close>

locale insert_map =
  fixes lookup :: "'m \<Rightarrow> 'k \<Rightarrow> 'v option"
    and ins :: "'m \<Rightarrow> 'k \<Rightarrow> 'v \<Rightarrow> 'm \<times> 'v \<times> bool"
  assumes insert_new: "lookup m k = None \<Longrightarrow> ins m k v = (m', r) \<Longrightarrow>
      r = (v, True) \<and> lookup m' k' = (if k' = k then Some v else lookup m k')"
    and insert_old: "lookup m k = Some old \<Longrightarrow> ins m k v = (m, old, False)"
begin

lemma find_insert_same: "lookup (fst (ins m k v)) k = Some (fst (snd (ins m k v)))"
proof (cases "lookup m k")
  case None
  obtain m' r where eq: "ins m k v = (m', r)" by (cases "ins m k v")
  show ?thesis using insert_new [OF None eq, of k] by (simp add: eq)
next
  case (Some old)
  then show ?thesis by (simp add: insert_old)
qed

lemma find_insert_keeps: "lookup m k' = Some x \<Longrightarrow> lookup (fst (ins m k v)) k' = Some x"
proof (cases "lookup m k")
  case None
  assume x: "lookup m k' = Some x"
  obtain m' r where eq: "ins m k v = (m', r)" by (cases "ins m k v")
  show ?thesis using insert_new [OF None eq, of k'] x None by (auto simp: eq)
next
  case (Some old)
  assume "lookup m k' = Some x"
  with Some show ?thesis by (simp add: insert_old)
qed

end

interpretation std_map: insert_map map_find map_insert
  by unfold_locales (auto simp: map_insert_def)

end
