(* ===== verification/Scopes.thy ===== *)
theory Scopes
  imports StdMap "HOL-Library.Word"
begin

unbundle bit_operations_syntax

text \<open>
  \<open>struct Scope\<close>, \<open>struct ScopeCompare\<close>, \<open>class ScopedKey\<close> and \<open>class TagMask\<close> of
  \<open>src/scope.hpp\<close>. A step is an \<open>int\<close>; no operation computes with steps, they are only compared,
  so the model uses the mathematical integers.
\<close>

subsection \<open>Scopes\<close>

datatype scope = Scope (s_start: int) (s_end: int)

lemma scope_eq_iff: "a = b \<longleftrightarrow> s_start a = s_start b \<and> s_end a = s_end b"
  by (cases a; cases b) simp

text \<open>The constructor: a negative start means 0, a negative end means the end of all steps.\<close>

definition mk_scope :: "int \<Rightarrow> int \<Rightarrow> scope" where
  "mk_scope start0 end0 =
     Scope (if start0 \<ge> 0 then start0 else 0) (if end0 \<ge> 0 then end0 else int_max)"

definition scope_defined :: "scope \<Rightarrow> bool" where
  "scope_defined s \<longleftrightarrow> s_end s > 0"

definition scope_contains :: "scope \<Rightarrow> scope \<Rightarrow> bool" where
  "scope_contains s ov \<longleftrightarrow> s_start ov \<ge> s_start s \<and> s_end ov \<le> s_end s"

definition scope_contains_step :: "scope \<Rightarrow> int \<Rightarrow> bool" where
  "scope_contains_step s step \<longleftrightarrow> step \<ge> s_start s \<and> step < s_end s"

definition scope_tostring :: "scope \<Rightarrow> string" where
  "scope_tostring s =
     (if s_end s = int_max then ''['' @ dec_int (s_start s) @ '',INF]''
      else ''['' @ dec_int (s_start s) @ '','' @ dec_int (s_end s) @ '']'')"

text \<open>\<open>ScopeCompare\<close>: by the end, then by the start.\<close>

instantiation scope :: linorder
begin

definition less_scope :: "scope \<Rightarrow> scope \<Rightarrow> bool" where
  "less_scope aa bb \<longleftrightarrow> (if s_end aa = s_end bb then s_start aa < s_start bb else s_end aa < s_end bb)"

definition less_eq_scope :: "scope \<Rightarrow> scope \<Rightarrow> bool" where
  "less_eq_scope aa bb \<longleftrightarrow> aa < bb \<or> aa = (bb::scope)"

instance
  by standard (auto simp: less_scope_def less_eq_scope_def scope_eq_iff split: if_splits)

end

named_theorems scope_simps \<open>the order of scopes by inclusion\<close>

lemma scope_contains_refl [scope_simps, simp]: "scope_contains s s"
  by (simp add: scope_contains_def)

lemma scope_contains_trans: "scope_contains a b \<Longrightarrow> scope_contains b c \<Longrightarrow> scope_contains a c"
  by (auto simp: scope_contains_def)

lemma scope_contains_antisym: "scope_contains a b \<Longrightarrow> scope_contains b a \<Longrightarrow> a = b"
  by (simp add: scope_contains_def scope_eq_iff)

lemma scope_contains_stepD:
  "scope_contains s t \<Longrightarrow> scope_contains_step t x \<Longrightarrow> scope_contains_step s x"
  by (auto simp: scope_contains_def scope_contains_step_def)

text \<open>
  The scopes of one name form a hierarchy: none is empty, and of two that share a step one covers
  the other. The grammar's scope counter only produces such scopes.
\<close>

definition scope_wf :: "scope \<Rightarrow> bool" where
  "scope_wf s \<longleftrightarrow> s_start s < s_end s"

definition scopes_nested :: "scope \<Rightarrow> scope \<Rightarrow> bool" where
  "scopes_nested a b \<longleftrightarrow>
     scope_contains a b \<or> scope_contains b a \<or> s_end a \<le> s_start b \<or> s_end b \<le> s_start a"

definition laminar :: "scope set \<Rightarrow> bool" where
  "laminar S \<longleftrightarrow> (\<forall>s \<in> S. scope_wf s) \<and> (\<forall>a \<in> S. \<forall>b \<in> S. scopes_nested a b)"

lemma laminar_subset: "laminar S \<Longrightarrow> T \<subseteq> S \<Longrightarrow> laminar T"
  by (auto simp: laminar_def)

lemma laminar_empty [simp]: "laminar {}"
  by (simp add: laminar_def)

lemma scopes_nested_iff_step:
  assumes "scope_wf a" "scope_wf b"
  shows "scopes_nested a b \<longleftrightarrow>
    (\<forall>x. scope_contains_step a x \<longrightarrow> scope_contains_step b x \<longrightarrow> scope_contains a b \<or> scope_contains b a)"
proof
  assume "scopes_nested a b"
  then show "\<forall>x. scope_contains_step a x \<longrightarrow> scope_contains_step b x \<longrightarrow> scope_contains a b \<or> scope_contains b a"
    by (auto simp: scopes_nested_def scope_contains_step_def)
next
  assume *: "\<forall>x. scope_contains_step a x \<longrightarrow> scope_contains_step b x \<longrightarrow> scope_contains a b \<or> scope_contains b a"
  show "scopes_nested a b"
    using * [rule_format, of "s_start a"] * [rule_format, of "s_start b"] assms
    by (cases "s_start a \<le> s_start b")
      (auto simp: scopes_nested_def scope_contains_step_def scope_wf_def not_le)
qed

subsection \<open>Keys of the scoped maps\<close>

datatype 'k scoped_key = ScopedKey (sk_key: 'k) (sk_end: int)

lemma scoped_key_eq_iff: "a = b \<longleftrightarrow> sk_key a = sk_key b \<and> sk_end a = sk_end b"
  by (cases a; cases b) simp

instantiation scoped_key :: (linorder) linorder
begin

definition less_scoped_key :: "'a scoped_key \<Rightarrow> 'a scoped_key \<Rightarrow> bool" where
  "less_scoped_key a b \<longleftrightarrow> (if sk_key a = sk_key b then sk_end a < sk_end b else sk_key a < sk_key b)"

definition less_eq_scoped_key :: "'a scoped_key \<Rightarrow> 'a scoped_key \<Rightarrow> bool" where
  "less_eq_scoped_key a b \<longleftrightarrow> a < b \<or> a = (b :: 'a scoped_key)"

instance
  by standard (auto simp: less_scoped_key_def less_eq_scoped_key_def scoped_key_eq_iff split: if_splits)

end

lemma scoped_key_less [simp]: "ScopedKey k a < ScopedKey k' b \<longleftrightarrow> k < k' \<or> k = k' \<and> a < (b::int)"
  by (auto simp: less_scoped_key_def)

subsection \<open>Tag masks\<close>

datatype tag_mask = TagMask (tm_mask: "32 word")

definition min_tag :: int where "min_tag = 1"
definition max_tag :: int where "max_tag = 32"

definition match_all :: tag_mask where
  "match_all = TagMask 0xffFFffFF"

definition match_nothing :: tag_mask where
  "match_nothing = TagMask 0"

text \<open>A tag value is an unsigned 8 bit integer.\<close>

definition tag_from_tag_val :: "nat \<Rightarrow> int" where
  "tag_from_tag_val tagval = int tagval + 1"

definition tag_val_from_tag :: "int \<Rightarrow> nat" where
  "tag_val_from_tag tag = nat ((tag - 1) mod 256)"

definition tm_matches :: "tag_mask \<Rightarrow> nat \<Rightarrow> bool" where
  "tm_matches m tagval \<longleftrightarrow> tm_mask m AND push_bit tagval 1 \<noteq> 0"

definition tm_add :: "tag_mask \<Rightarrow> int \<Rightarrow> error + tag_mask" where
  "tm_add m tag =
     (if tag > max_tag \<or> tag < min_tag then Inl (Error BadRelationTag (dec_int tag))
      else Inr (TagMask (tm_mask m OR push_bit (nat (tag - 1)) 1)))"

text \<open>\<open>operator |=\<close> adds to the mask; \<open>operator |\<close> adds to a mask it starts empty.\<close>

definition tm_or_assign :: "tag_mask \<Rightarrow> int \<Rightarrow> error + tag_mask" where
  "tm_or_assign m tag = tm_add m tag"

definition tm_or :: "tag_mask \<Rightarrow> int \<Rightarrow> error + tag_mask" where
  "tm_or m tag = tm_add match_nothing tag"

fun tm_tostring_loop :: "32 word \<Rightarrow> nat list \<Rightarrow> string \<Rightarrow> string" where
  "tm_tostring_loop bs [] rt = rt"
| "tm_tostring_loop bs (ii # iis) rt =
     tm_tostring_loop bs iis
       (if bs AND push_bit (ii - 1) 1 \<noteq> 0
        then rt @ (if rt = [] then dec_nat ii else CHR '','' # dec_nat ii) else rt)"

definition tm_tostring :: "tag_mask \<Rightarrow> string" where
  "tm_tostring m = tm_tostring_loop (tm_mask m) [1..<33] []"

lemma and_push_bit_one: "(w AND push_bit n 1 \<noteq> 0) \<longleftrightarrow> bit w n" for w :: "'a::len word"
  by (rule bit_iff_and_push_bit_not_eq_0 [symmetric])

lemma tm_matches_bit: "tm_matches m tagval \<longleftrightarrow> bit (tm_mask m) tagval"
  unfolding tm_matches_def by (rule and_push_bit_one)

lemma tm_add_matches:
  assumes "tm_add m tag = Inr m'" and "n < 32"
  shows "tm_matches m' n \<longleftrightarrow> tm_matches m n \<or> int n + 1 = tag"
  using assms
  by (auto simp: tm_add_def tm_matches_bit bit_simps max_tag_def min_tag_def split: if_splits)

lemma tm_add_error: "(\<exists>e. tm_add m tag = Inl e) \<longleftrightarrow> tag < 1 \<or> 32 < tag"
  by (auto simp: tm_add_def max_tag_def min_tag_def)

lemma match_all_matches: "n < 32 \<Longrightarrow> tm_matches match_all n"
proof -
  assume n: "n < 32"
  have *: "(0xffFFffFF :: 32 word) = mask 32"
    by (simp add: mask_eq_exp_minus_1)
  have "bit (mask 32 :: 32 word) n"
    unfolding bit_mask_iff using n by simp
  then show ?thesis
    unfolding tm_matches_bit match_all_def tag_mask.sel * .
qed

lemma match_nothing_matches [simp]: "\<not> tm_matches match_nothing n"
  by (simp add: tm_matches_bit match_nothing_def)

lemma tag_val_roundtrip:
  "1 \<le> tag \<Longrightarrow> tag \<le> 32 \<Longrightarrow> tag_from_tag_val (tag_val_from_tag tag) = tag"
  "1 \<le> tag \<Longrightarrow> tag \<le> 32 \<Longrightarrow> tag_val_from_tag tag < 32"
  by (auto simp: tag_from_tag_val_def tag_val_from_tag_def)

end
