(* ===== verification/InvTree.thy ===== *)
theory InvTree
  imports Scopes
begin

text \<open>
  \<open>ScopedUpValue\<close> and \<open>ScopedUpValueInvTree\<close> of \<open>src/scope.hpp\<close>: one array of values, each with its
  scope and the index \<open>prev\<close> of the value of the covering scope, -1 at the outermost.

  First the operations; then the invariant \<open>tree_inv\<close> (the link of every node leads to the next
  larger scope among the nodes of the same name) and what the loops compute under it; last the
  effect of inserting a node on the links.
\<close>

subsection \<open>The operations\<close>

record 'v up_value =
  uv_scope :: scope
  uv_value :: 'v
  uv_prev :: int

record 'v inv_tree =
  it_ar :: "'v up_value list"
  it_nullval :: 'v

definition it_new :: "'v \<Rightarrow> 'v inv_tree" where
  "it_new nullval = \<lparr>it_ar = [], it_nullval = nullval\<rparr>"

text \<open>
  The loop that follows the links until a condition holds. It ends at the index where the condition
  holds, or at the negative index behind the last node.
\<close>

partial_function (option) uplink_search :: "'v up_value list \<Rightarrow> ('v up_value \<Rightarrow> bool) \<Rightarrow> int \<Rightarrow> int option" where
  "uplink_search ar P ai =
     (if ai \<ge> 0 then
        (case vec_at ar ai of
           None \<Rightarrow> None
         | Some uv \<Rightarrow> if P uv then Some ai else uplink_search ar P (uv_prev uv))
      else Some ai)"

declare uplink_search.simps [code]

definition get_inner_value :: "'v inv_tree \<Rightarrow> int \<Rightarrow> int \<Rightarrow> 'v option" where
  "get_inner_value t index step =
     do { ai \<leftarrow> uplink_search (it_ar t) (\<lambda>uv. s_start (uv_scope uv) \<le> step) index;
          if ai \<ge> 0 then map_option uv_value (vec_at (it_ar t) ai) else Some (it_nullval t) }"

text \<open>A \<open>const_iterator\<close> is its index; \<open>end()\<close> is -1.\<close>

definition it_start :: "int \<Rightarrow> int" where
  "it_start index = (if index \<ge> 0 then index else -1)"

definition it_first :: "'v inv_tree \<Rightarrow> int \<Rightarrow> int \<Rightarrow> int option" where
  "it_first t index step =
     do { ai \<leftarrow> uplink_search (it_ar t) (\<lambda>uv. s_start (uv_scope uv) \<le> step) index;
          Some (if ai \<ge> 0 then ai else -1) }"

text \<open>The values from an iterator to \<open>end()\<close>, in the order of the iteration.\<close>

partial_function (option) it_range :: "'v up_value list \<Rightarrow> int \<Rightarrow> 'v up_value list option" where
  "it_range ar ai =
     (if ai = -1 then Some []
      else (case vec_at ar ai of
         None \<Rightarrow> None
       | Some uv \<Rightarrow> do { rest \<leftarrow> it_range ar (uv_prev uv); Some (uv # rest) }))"

declare it_range.simps [code]

definition next_index :: "'v inv_tree \<Rightarrow> int" where
  "next_index t = int (length (it_ar t))"

definition push_up_value :: "'v inv_tree \<Rightarrow> scope \<Rightarrow> 'v \<Rightarrow> int \<Rightarrow> 'v inv_tree \<times> int" where
  "push_up_value t scope value uplink =
     (t\<lparr>it_ar := it_ar t @ [\<lparr>uv_scope = scope, uv_value = value, uv_prev = uplink\<rparr>]\<rparr>,
      int (length (it_ar t)))"

definition set_prev :: "'v inv_tree \<Rightarrow> int \<Rightarrow> int \<Rightarrow> 'v inv_tree" where
  "set_prev t ai p = t\<lparr>it_ar := (it_ar t)[nat ai := (it_ar t ! nat ai)\<lparr>uv_prev := p\<rparr>]\<rparr>"

definition set_value :: "'v inv_tree \<Rightarrow> int \<Rightarrow> 'v \<Rightarrow> 'v inv_tree" where
  "set_value t ai v = t\<lparr>it_ar := (it_ar t)[nat ai := (it_ar t ! nat ai)\<lparr>uv_value := v\<rparr>]\<rparr>"

definition find_up_value :: "'v inv_tree \<Rightarrow> int \<Rightarrow> scope \<Rightarrow> 'v option" where
  "find_up_value t index scope =
     do { ai \<leftarrow> uplink_search (it_ar t)
            (\<lambda>uv. s_end (uv_scope uv) \<noteq> s_end scope \<or> s_start (uv_scope uv) \<le> s_start scope) index;
          if ai < 0 then Some (it_nullval t)
          else do { uv \<leftarrow> vec_at (it_ar t) ai;
                    Some (if s_end (uv_scope uv) = s_end scope \<and> s_start (uv_scope uv) = s_start scope
                          then uv_value uv else it_nullval t) } }"

text \<open>
  The climbing loop of \<open>insertUpValue\<close> and \<open>linkLeftNeighbours\<close>: past the nodes strictly inside the
  scope, keeping the last one passed in \<open>pred_ai\<close>.
\<close>

partial_function (option) uplink_climb :: "'v up_value list \<Rightarrow> scope \<Rightarrow> int \<Rightarrow> int \<Rightarrow> (int \<times> int) option" where
  "uplink_climb ar scope pred_ai ai =
     (if ai \<ge> 0 then
        (case vec_at ar ai of
           None \<Rightarrow> None
         | Some uv \<Rightarrow>
             if scope_contains scope (uv_scope uv) \<and> uv_scope uv \<noteq> scope
             then uplink_climb ar scope ai (uv_prev uv)
             else Some (pred_ai, ai))
      else Some (pred_ai, ai))"

declare uplink_climb.simps [code]

text \<open>
  \<open>insertUpValue\<close>: the new tree, the new value of the \<open>index\<close> passed by reference, the result, and
  what it stores at \<open>oldval\<close> (only if the caller passed a pointer).
\<close>

definition insert_up_value ::
    "'v inv_tree \<Rightarrow> int \<Rightarrow> scope \<Rightarrow> 'v \<Rightarrow> int \<Rightarrow> bool \<Rightarrow> ('v inv_tree \<times> int \<times> int \<times> 'v option) run" where
  "insert_up_value t index scope value uplink with_oldval =
     bindR (liftR (uplink_climb (it_ar t) scope (-1) index)) (\<lambda>(pred_ai, ai).
       if ai \<ge> 0 then
         bindR (liftR (vec_at (it_ar t) ai)) (\<lambda>uv.
           if scope_contains scope (uv_scope uv) then
             (if with_oldval then returnR (t, index, -1, Some (uv_value uv))
              else returnR (set_value t ai value, index, -1, None))
           else if \<not> scope_contains (uv_scope uv) scope then
             throwR (Error ScopeHierarchyError
               (scope_tostring (uv_scope uv) @ '' <-> '' @ scope_tostring scope))
           else if pred_ai = -1 then
             (let (t', rt) = push_up_value t scope value ai in returnR (t', rt, rt, None))
           else
             (let (t', rt) = push_up_value t scope value ai in
              returnR (set_prev t' pred_ai rt, index, rt, None)))
       else if ai = -1 then
         (if pred_ai = -1 then None
          else let (t', rt) = push_up_value t scope value uplink in
               returnR (set_prev t' pred_ai rt, index, rt, None))
       else returnR (t, index, -1, None))"

definition right_neighbor_up_link :: "'v inv_tree \<Rightarrow> int \<Rightarrow> scope \<Rightarrow> int option" where
  "right_neighbor_up_link t index scope =
     uplink_search (it_ar t) (\<lambda>uv. scope_contains (uv_scope uv) scope) index"

definition link_left_neighbours :: "'v inv_tree \<Rightarrow> int \<Rightarrow> scope \<Rightarrow> int \<Rightarrow> 'v inv_tree option" where
  "link_left_neighbours t index scope newindex =
     do { (pred_ai, ai) \<leftarrow> uplink_climb (it_ar t) scope (-1) index;
          equal \<leftarrow> (if ai \<ge> 0 then map_option (\<lambda>uv. scope = uv_scope uv) (vec_at (it_ar t) ai) else Some False);
          Some (if equal \<or> pred_ai = -1 then t else set_prev t pred_ai newindex) }"

subsection \<open>The invariant of the links\<close>

text \<open>
  \<open>sc\<close> gives the scope of a node, \<open>S\<close> is the set of the nodes of one name. A link of node \<open>n\<close> is right
  if it leads to the smallest scope that properly covers that of \<open>n\<close>.
\<close>

abbreviation sc_of :: "'v up_value list \<Rightarrow> nat \<Rightarrow> scope" where
  "sc_of ar n \<equiv> uv_scope (ar ! n)"

definition strictly_in :: "scope \<Rightarrow> scope \<Rightarrow> bool" where
  "strictly_in a b \<longleftrightarrow> scope_contains b a \<and> a \<noteq> b"

definition parent_link :: "(nat \<Rightarrow> scope) \<Rightarrow> nat set \<Rightarrow> scope \<Rightarrow> int \<Rightarrow> bool" where
  "parent_link sc S s link \<longleftrightarrow>
     (link = -1 \<and> (\<forall>m \<in> S. \<not> strictly_in s (sc m))) \<or>
     (\<exists>p \<in> S. link = int p \<and> strictly_in s (sc p) \<and>
        (\<forall>m \<in> S. strictly_in s (sc m) \<longrightarrow> scope_contains (sc m) (sc p)))"

definition tree_inv :: "'v up_value list \<Rightarrow> nat set \<Rightarrow> bool" where
  "tree_inv ar S \<longleftrightarrow>
     S \<subseteq> {..<length ar} \<and> inj_on (sc_of ar) S \<and> laminar (sc_of ar ` S) \<and>
     (\<forall>n \<in> S. parent_link (sc_of ar) S (sc_of ar n) (uv_prev (ar ! n)))"

lemma strictly_in_irrefl [simp]: "\<not> strictly_in a a"
  by (simp add: strictly_in_def)

lemma strictly_in_trans: "strictly_in a b \<Longrightarrow> strictly_in b c \<Longrightarrow> strictly_in a c"
  unfolding strictly_in_def by (metis scope_contains_antisym scope_contains_trans)

lemma strictly_in_le_trans: "scope_contains b a \<Longrightarrow> strictly_in b c \<Longrightarrow> strictly_in a c"
  unfolding strictly_in_def by (metis scope_contains_antisym scope_contains_trans)

lemma strictly_in_le_trans2: "strictly_in a b \<Longrightarrow> scope_contains c b \<Longrightarrow> strictly_in a c"
  unfolding strictly_in_def by (metis scope_contains_antisym scope_contains_trans)

lemma tree_invD:
  assumes "tree_inv ar S" and "n \<in> S"
  shows "n < length ar" "scope_wf (sc_of ar n)"
    "parent_link (sc_of ar) S (sc_of ar n) (uv_prev (ar ! n))"
  using assms by (auto simp: tree_inv_def laminar_def)

lemma tree_inv_nested: "tree_inv ar S \<Longrightarrow> m \<in> S \<Longrightarrow> n \<in> S \<Longrightarrow> scopes_nested (sc_of ar m) (sc_of ar n)"
  by (auto simp: tree_inv_def laminar_def)

lemma tree_inv_finite: "tree_inv ar S \<Longrightarrow> finite S"
  by (auto simp: tree_inv_def intro: finite_subset)

lemma tree_inv_inj: "tree_inv ar S \<Longrightarrow> m \<in> S \<Longrightarrow> n \<in> S \<Longrightarrow> sc_of ar m = sc_of ar n \<Longrightarrow> m = n"
  by (auto simp: tree_inv_def dest: inj_onD)

text \<open>Two nodes that cover a common node are nested.\<close>

lemma laminar_common:
  assumes "scopes_nested a b" "scope_wf c" "scope_contains a c" "scope_contains b c"
  shows "scope_contains a b \<or> scope_contains b a"
  using assms by (auto simp: scopes_nested_def scope_contains_def scope_wf_def)

definition above :: "(nat \<Rightarrow> scope) \<Rightarrow> nat set \<Rightarrow> nat \<Rightarrow> nat set" where
  "above sc S n = {m \<in> S. scope_contains (sc m) (sc n)}"

lemma above_self: "n \<in> S \<Longrightarrow> n \<in> above sc S n"
  by (simp add: above_def)

lemma above_parent:
  assumes "tree_inv ar S" "n \<in> S" "p \<in> S" "uv_prev (ar ! n) = int p"
  shows "above (sc_of ar) S n = insert n (above (sc_of ar) S p)" "n \<notin> above (sc_of ar) S p"
proof -
  have p: "strictly_in (sc_of ar n) (sc_of ar p)"
    "\<forall>m \<in> S. strictly_in (sc_of ar n) (sc_of ar m) \<longrightarrow> scope_contains (sc_of ar m) (sc_of ar p)"
    using tree_invD(3) [OF assms(1,2)] assms(4) by (auto simp: parent_link_def)
  show "n \<notin> above (sc_of ar) S p"
    using p(1) unfolding above_def strictly_in_def by (auto dest: scope_contains_antisym)
  show "above (sc_of ar) S n = insert n (above (sc_of ar) S p)"
  proof (intro set_eqI iffI)
    fix m
    assume "m \<in> above (sc_of ar) S n"
    then have m: "m \<in> S" "scope_contains (sc_of ar m) (sc_of ar n)" by (auto simp: above_def)
    show "m \<in> insert n (above (sc_of ar) S p)"
    proof (cases "m = n")
      case False
      then have "sc_of ar n \<noteq> sc_of ar m"
        using tree_inv_inj [OF assms(1) m(1) assms(2)] by auto
      with m p(2) show ?thesis by (auto simp: above_def strictly_in_def)
    qed simp
  next
    fix m
    assume "m \<in> insert n (above (sc_of ar) S p)"
    with assms(2) p(1) show "m \<in> above (sc_of ar) S n"
      by (auto simp: above_def strictly_in_def intro: scope_contains_trans)
  qed
qed

lemma above_root:
  assumes "tree_inv ar S" "n \<in> S" "uv_prev (ar ! n) < 0"
  shows "above (sc_of ar) S n = {n}"
proof -
  have *: "\<forall>m \<in> S. \<not> strictly_in (sc_of ar n) (sc_of ar m)"
    using tree_invD(3) [OF assms(1,2)] assms(3) by (auto simp: parent_link_def)
  have "m = n" if "m \<in> above (sc_of ar) S n" for m
  proof (rule tree_inv_inj [OF assms(1) _ assms(2)])
    show "m \<in> S" "sc_of ar m = sc_of ar n"
      using that * by (auto simp: above_def strictly_in_def)
  qed
  then show ?thesis
    using above_self [OF assms(2), of "sc_of ar"] by blast
qed

text \<open>Induction along the links.\<close>

lemma uplink_induct [consumes 2, case_names root link]:
  assumes inv: "tree_inv ar S" and "n \<in> S"
    and root: "\<And>n. n \<in> S \<Longrightarrow> uv_prev (ar ! n) = -1 \<Longrightarrow> Q n"
    and link: "\<And>n p. n \<in> S \<Longrightarrow> p \<in> S \<Longrightarrow> uv_prev (ar ! n) = int p \<Longrightarrow> Q p \<Longrightarrow> Q n"
  shows "Q n"
  using \<open>n \<in> S\<close>
proof (induction "card (above (sc_of ar) S n)" arbitrary: n rule: less_induct)
  case less
  have "uv_prev (ar ! n) = -1 \<or> (\<exists>p \<in> S. uv_prev (ar ! n) = int p)"
    using tree_invD(3) [OF inv less.prems] by (auto simp: parent_link_def)
  then show ?case
  proof
    assume "\<exists>p \<in> S. uv_prev (ar ! n) = int p"
    then obtain p where p: "p \<in> S" "uv_prev (ar ! n) = int p" by blast
    have "finite (above (sc_of ar) S p)"
      using tree_inv_finite [OF inv] by (simp add: above_def)
    then have "card (above (sc_of ar) S p) < card (above (sc_of ar) S n)"
      using above_parent [OF inv less.prems p] by simp
    from less.hyps [OF this p(1)] show ?case using link less.prems p by blast
  qed (use root less.prems in blast)
qed

text \<open>What the searching loop returns: the smallest covering scope with the property.\<close>

definition search_result :: "'v up_value list \<Rightarrow> nat set \<Rightarrow> ('v up_value \<Rightarrow> bool) \<Rightarrow> nat \<Rightarrow> int \<Rightarrow> bool" where
  "search_result ar S P n q \<longleftrightarrow>
     (q = -1 \<and> (\<forall>m \<in> above (sc_of ar) S n. \<not> P (ar ! m))) \<or>
     (\<exists>j. q = int j \<and> j \<in> above (sc_of ar) S n \<and> P (ar ! j) \<and>
        (\<forall>m \<in> above (sc_of ar) S n. P (ar ! m) \<longrightarrow> scope_contains (sc_of ar m) (sc_of ar j)))"

lemma uplink_search_spec:
  assumes inv: "tree_inv ar S" and "n \<in> S"
  shows "\<exists>q. uplink_search ar P (int n) = Some q \<and> search_result ar S P n q"
  using assms
proof (induction rule: uplink_induct)
  case (root n)
  then have "n < length ar" using tree_invD(1) [OF inv] by blast
  moreover have "above (sc_of ar) S n = {n}" using above_root [OF inv] root by simp
  ultimately show ?case
    using root by (subst uplink_search.simps)
      (auto simp: uplink_search.simps [of _ _ "- 1"] search_result_def)
next
  case (link n p)
  have "n < length ar" using link.hyps tree_invD(1) [OF inv] by blast
  moreover have ab: "above (sc_of ar) S n = insert n (above (sc_of ar) S p)"
    using above_parent [OF inv] link.hyps by blast
  moreover have "\<forall>m \<in> above (sc_of ar) S n. scope_contains (sc_of ar m) (sc_of ar n)"
    by (simp add: above_def)
  ultimately show ?case
    using link by (subst uplink_search.simps) (auto simp: search_result_def)
qed

lemma uplink_search_neg: "ai < 0 \<Longrightarrow> uplink_search ar P ai = Some ai"
  by (subst uplink_search.simps) simp

subsection \<open>Climbing inside a scope\<close>

text \<open>A largest node among those strictly inside a scope.\<close>

definition maximal_in :: "(nat \<Rightarrow> scope) \<Rightarrow> nat set \<Rightarrow> scope \<Rightarrow> nat \<Rightarrow> bool" where
  "maximal_in sc S s p \<longleftrightarrow>
     p \<in> S \<and> strictly_in (sc p) s \<and> (\<forall>m \<in> S. strictly_in (sc m) s \<longrightarrow> \<not> strictly_in (sc p) (sc m))"

definition climb_ok :: "'v up_value list \<Rightarrow> nat set \<Rightarrow> scope \<Rightarrow> bool" where
  "climb_ok ar S s \<longleftrightarrow> finite S \<and> S \<subseteq> {..<length ar} \<and>
     (\<forall>n \<in> S. strictly_in (sc_of ar n) s \<longrightarrow>
        (\<exists>m \<in> S. uv_prev (ar ! n) = int m \<and> strictly_in (sc_of ar m) s \<and>
           strictly_in (sc_of ar n) (sc_of ar m)) \<or>
        (maximal_in (sc_of ar) S s n \<and>
           (uv_prev (ar ! n) = -1 \<or>
            (\<exists>m < length ar. uv_prev (ar ! n) = int m \<and> \<not> strictly_in (sc_of ar m) s))))"

lemma climb_ok_tree:
  assumes inv: "tree_inv ar S"
  shows "climb_ok ar S s"
  unfolding climb_ok_def
proof (intro conjI ballI impI)
  show "finite S" "S \<subseteq> {..<length ar}" using tree_inv_finite [OF inv] inv by (auto simp: tree_inv_def)
  fix n
  assume n: "n \<in> S" "strictly_in (sc_of ar n) s"
  show "(\<exists>m \<in> S. uv_prev (ar ! n) = int m \<and> strictly_in (sc_of ar m) s \<and>
       strictly_in (sc_of ar n) (sc_of ar m)) \<or>
    (maximal_in (sc_of ar) S s n \<and>
       (uv_prev (ar ! n) = -1 \<or>
        (\<exists>m < length ar. uv_prev (ar ! n) = int m \<and> \<not> strictly_in (sc_of ar m) s)))"
  proof (cases "\<exists>p \<in> S. uv_prev (ar ! n) = int p \<and> strictly_in (sc_of ar p) s")
    case True
    with tree_invD(3) [OF inv n(1)] show ?thesis by (auto simp: parent_link_def)
  next
    case False
    have "maximal_in (sc_of ar) S s n"
      unfolding maximal_in_def
    proof (intro conjI ballI impI notI)
      fix m
      assume m: "m \<in> S" "strictly_in (sc_of ar m) s" "strictly_in (sc_of ar n) (sc_of ar m)"
      then obtain p where "p \<in> S" "uv_prev (ar ! n) = int p" "scope_contains (sc_of ar m) (sc_of ar p)"
        using tree_invD(3) [OF inv n(1)] unfolding parent_link_def by blast
      with m(2) False show False using strictly_in_le_trans by blast
    qed (use n in auto)
    then show ?thesis
      using False tree_invD(3) [OF inv n(1)] tree_invD(1) [OF inv] unfolding parent_link_def by blast
  qed
qed

lemma uplink_climb_stop:
  assumes "h < length ar" "\<not> strictly_in (sc_of ar h) s"
  shows "uplink_climb ar s pred (int h) = Some (pred, int h)"
  using assms by (subst uplink_climb.simps) (auto simp: strictly_in_def)

lemma uplink_climb_end [simp]: "uplink_climb ar s pred (-1) = Some (pred, -1)"
  by (subst uplink_climb.simps) simp

lemma uplink_climb_spec:
  assumes ok: "climb_ok ar S s" and "n \<in> S" "strictly_in (sc_of ar n) s"
  shows "\<exists>p. uplink_climb ar s pred (int n) = Some (int p, uv_prev (ar ! p)) \<and>
    maximal_in (sc_of ar) S s p \<and> scope_contains (sc_of ar p) (sc_of ar n)"
  using assms(2,3)
proof (induction "card {m \<in> S. strictly_in (sc_of ar n) (sc_of ar m)}" arbitrary: n pred rule: less_induct)
  case less
  have n: "n < length ar" "scope_contains s (sc_of ar n)" "sc_of ar n \<noteq> s"
    using less.prems ok by (auto simp: climb_ok_def strictly_in_def)
  then have step: "uplink_climb ar s pred (int n) = uplink_climb ar s (int n) (uv_prev (ar ! n))"
    by (subst uplink_climb.simps) auto
  from ok less.prems consider
      (up) m where "m \<in> S" "uv_prev (ar ! n) = int m" "strictly_in (sc_of ar m) s"
        "strictly_in (sc_of ar n) (sc_of ar m)"
    | (stop) "maximal_in (sc_of ar) S s n"
        "uplink_climb ar s (int n) (uv_prev (ar ! n)) = Some (int n, uv_prev (ar ! n))"
    unfolding climb_ok_def by (metis uplink_climb_end uplink_climb_stop)
  then show ?case
  proof cases
    case up
    have "{k \<in> S. strictly_in (sc_of ar m) (sc_of ar k)} \<subset> {k \<in> S. strictly_in (sc_of ar n) (sc_of ar k)}"
    proof (rule psubsetI)
      show "{k \<in> S. strictly_in (sc_of ar m) (sc_of ar k)} \<subseteq> {k \<in> S. strictly_in (sc_of ar n) (sc_of ar k)}"
        using strictly_in_trans [OF up(4)] by blast
      show "{k \<in> S. strictly_in (sc_of ar m) (sc_of ar k)} \<noteq> {k \<in> S. strictly_in (sc_of ar n) (sc_of ar k)}"
        using up(1,4) strictly_in_irrefl by blast
    qed
    then have "card {k \<in> S. strictly_in (sc_of ar m) (sc_of ar k)} < card {k \<in> S. strictly_in (sc_of ar n) (sc_of ar k)}"
      using ok by (intro psubset_card_mono) (auto simp: climb_ok_def)
    from less.hyps [OF this up(1,3), of "int n"] show ?thesis
      using step up by (auto simp: strictly_in_def intro: scope_contains_trans)
  next
    case stop
    with step show ?thesis by (intro exI [of _ n]) simp
  qed
qed

subsection \<open>Inserting a node\<close>

text \<open>
  The array after a node with scope \<open>s\<close>, value \<open>v\<close> and link \<open>q\<close> has been pushed and the nodes in \<open>D\<close>
  have been linked to it.
\<close>

definition relinked :: "'v up_value list \<Rightarrow> scope \<Rightarrow> 'v \<Rightarrow> int \<Rightarrow> nat set \<Rightarrow> 'v up_value list" where
  "relinked ar s v q D =
     map (\<lambda>n. if n \<in> D then (ar ! n)\<lparr>uv_prev := int (length ar)\<rparr> else ar ! n) [0..<length ar]
     @ [\<lparr>uv_scope = s, uv_value = v, uv_prev = q\<rparr>]"

lemma length_relinked [simp]: "length (relinked ar s v q D) = Suc (length ar)"
  by (simp add: relinked_def)

lemma relinked_old [simp]:
  "n < length ar \<Longrightarrow> relinked ar s v q D ! n =
     (if n \<in> D then (ar ! n)\<lparr>uv_prev := int (length ar)\<rparr> else ar ! n)"
  by (simp add: relinked_def nth_append)

lemma relinked_new [simp]:
  "relinked ar s v q D ! length ar = \<lparr>uv_scope = s, uv_value = v, uv_prev = q\<rparr>"
  by (simp add: relinked_def nth_append)

lemma relinked_empty: "relinked ar s v q {} = ar @ [\<lparr>uv_scope = s, uv_value = v, uv_prev = q\<rparr>]"
  by (simp add: relinked_def map_nth)

lemma relinked_insert:
  assumes "p < length ar"
  shows "(relinked ar s v q D)[p := (relinked ar s v q D ! p)\<lparr>uv_prev := int (length ar)\<rparr>] =
    relinked ar s v q (insert p D)"
proof (rule nth_equalityI)
  fix i
  assume "i < length ((relinked ar s v q D)[p := (relinked ar s v q D ! p)\<lparr>uv_prev := int (length ar)\<rparr>])"
  then have "i < length ar \<or> i = length ar" by auto
  then show "(relinked ar s v q D)[p := (relinked ar s v q D ! p)\<lparr>uv_prev := int (length ar)\<rparr>] ! i =
      relinked ar s v q (insert p D) ! i"
    using assms by (auto simp: nth_list_update)
qed simp

lemma sc_of_relinked [simp]: "n < length ar \<Longrightarrow> sc_of (relinked ar s v q D) n = sc_of ar n"
  by simp

lemma maximal_in_cong:
  "(\<And>n. n \<in> S \<Longrightarrow> sc n = sc' n) \<Longrightarrow> maximal_in sc S s p \<longleftrightarrow> maximal_in sc' S s p"
  by (auto simp: maximal_in_def)

lemma climb_ok_relinked:
  assumes inv: "tree_inv ar S" and D: "\<And>n. n \<in> D \<Longrightarrow> maximal_in (sc_of ar) S s n"
  shows "climb_ok (relinked ar s v q D) S s"
proof -
  let ?ar = "relinked ar s v q D"
  have S: "S \<subseteq> {..<length ar}" using inv by (simp add: tree_inv_def)
  have sc: "n < length ar \<Longrightarrow> sc_of ?ar n = sc_of ar n" for n by simp
  have max: "maximal_in (sc_of ?ar) S s n \<longleftrightarrow> maximal_in (sc_of ar) S s n" for n
    using S by (intro maximal_in_cong) auto
  have "(\<exists>m \<in> S. uv_prev (?ar ! n) = int m \<and> strictly_in (sc_of ?ar m) s \<and>
           strictly_in (sc_of ?ar n) (sc_of ?ar m)) \<or>
        (maximal_in (sc_of ?ar) S s n \<and>
           (uv_prev (?ar ! n) = -1 \<or>
            (\<exists>m < length ?ar. uv_prev (?ar ! n) = int m \<and> \<not> strictly_in (sc_of ?ar m) s)))"
    if n: "n \<in> S" "strictly_in (sc_of ?ar n) s" for n
  proof (cases "n \<in> D")
    case True
    have "uv_prev (?ar ! n) = int (length ar)" "\<not> strictly_in (sc_of ?ar (length ar)) s"
      using True n(1) S by auto
    with D [OF True] show ?thesis by (auto simp: max)
  next
    case False
    have nl: "n < length ar" using n S by auto
    have ns: "strictly_in (sc_of ar n) s" using n(2) sc [OF nl] by simp
    have prev: "uv_prev (?ar ! n) = uv_prev (ar ! n)" using False nl by simp
    from climb_ok_tree [OF inv, of s] n(1) ns have
      "(\<exists>m \<in> S. uv_prev (ar ! n) = int m \<and> strictly_in (sc_of ar m) s \<and>
           strictly_in (sc_of ar n) (sc_of ar m)) \<or>
        (maximal_in (sc_of ar) S s n \<and>
           (uv_prev (ar ! n) = -1 \<or>
            (\<exists>m < length ar. uv_prev (ar ! n) = int m \<and> \<not> strictly_in (sc_of ar m) s)))"
      by (simp add: climb_ok_def)
    then show ?thesis
      unfolding max prev sc [OF nl]
    proof (elim disjE bexE conjE exE)
      fix m
      assume "m \<in> S" "uv_prev (ar ! n) = int m" "strictly_in (sc_of ar m) s" "strictly_in (sc_of ar n) (sc_of ar m)"
      then show "(\<exists>m \<in> S. uv_prev (ar ! n) = int m \<and> strictly_in (sc_of ?ar m) s \<and>
           strictly_in (sc_of ar n) (sc_of ?ar m)) \<or> maximal_in (sc_of ar) S s n \<and>
           (uv_prev (ar ! n) = -1 \<or>
            (\<exists>m < length ?ar. uv_prev (ar ! n) = int m \<and> \<not> strictly_in (sc_of ?ar m) s))"
        using sc [of m] S by auto
    next
      fix m
      assume "maximal_in (sc_of ar) S s n" "m < length ar" "uv_prev (ar ! n) = int m" "\<not> strictly_in (sc_of ar m) s"
      then show "(\<exists>m \<in> S. uv_prev (ar ! n) = int m \<and> strictly_in (sc_of ?ar m) s \<and>
           strictly_in (sc_of ar n) (sc_of ?ar m)) \<or> maximal_in (sc_of ar) S s n \<and>
           (uv_prev (ar ! n) = -1 \<or>
            (\<exists>m < length ?ar. uv_prev (ar ! n) = int m \<and> \<not> strictly_in (sc_of ?ar m) s))"
        using sc [of m] by (auto intro!: exI [of _ m])
    qed blast
  qed
  then show ?thesis
    unfolding climb_ok_def using S tree_inv_finite [OF inv] by auto
qed

text \<open>With every maximal node inside the new scope linked to it, the links are right again.\<close>

lemma tree_inv_relinked:
  assumes inv: "tree_inv ar S" and lam: "laminar (insert s (sc_of ar ` S))" and new: "s \<notin> sc_of ar ` S"
    and par: "parent_link (sc_of ar) S s q"
  shows "tree_inv (relinked ar s v q {n. maximal_in (sc_of ar) S s n}) (insert (length ar) S)"
proof -
  let ?D = "{n. maximal_in (sc_of ar) S s n}" and ?k = "length ar"
  let ?ar = "relinked ar s v q ?D"
  have S: "n \<in> S \<Longrightarrow> n < ?k" for n using inv by (auto simp: tree_inv_def)
  have sc [simp]: "n \<in> S \<Longrightarrow> sc_of ?ar n = sc_of ar n" for n using S by simp
  have img: "sc_of ?ar ` insert ?k S = insert s (sc_of ar ` S)" by (auto simp: image_iff S)
  have inj: "inj_on (sc_of ?ar) (insert ?k S)"
  proof (rule inj_onI)
    fix x y
    assume "x \<in> insert ?k S" "y \<in> insert ?k S" "sc_of ?ar x = sc_of ?ar y"
    with new show "x = y"
      by (auto intro: tree_inv_inj [OF inv] simp: image_iff)
  qed
  have "parent_link (sc_of ?ar) (insert ?k S) (sc_of ?ar n) (uv_prev (?ar ! n))"
    if "n \<in> insert ?k S" for n
  proof (cases "n = ?k")
    case True
    with par show ?thesis by (auto simp: parent_link_def)
  next
    case False
    then have n: "n \<in> S" "n < ?k" using that S by auto
    note old = tree_invD(3) [OF inv n(1)]
    show ?thesis
    proof (cases "maximal_in (sc_of ar) S s n")
      case True
      have "scope_contains (sc_of ar m) s" if m: "m \<in> S" "strictly_in (sc_of ar n) (sc_of ar m)" for m
      proof -
        have "scopes_nested s (sc_of ar m)" using lam m by (auto simp: laminar_def)
        moreover have "scope_contains s (sc_of ar n)" "scope_contains (sc_of ar m) (sc_of ar n)"
          "\<not> strictly_in (sc_of ar m) s"
          using True m by (auto simp: maximal_in_def strictly_in_def)
        ultimately show ?thesis
          using laminar_common tree_invD(2) [OF inv n(1)] unfolding strictly_in_def by blast
      qed
      then have "\<forall>m \<in> insert ?k S. strictly_in (sc_of ar n) (sc_of ?ar m) \<longrightarrow> scope_contains (sc_of ?ar m) s"
        by auto
      moreover have "strictly_in (sc_of ar n) s" using True by (simp add: maximal_in_def)
      ultimately show ?thesis
        using True n unfolding parent_link_def by simp
    next
      case notmax: False
      have "\<not> strictly_in (sc_of ar n) s \<or> (\<exists>m \<in> S. strictly_in (sc_of ar m) s \<and> strictly_in (sc_of ar n) (sc_of ar m))"
        using notmax n(1) by (auto simp: maximal_in_def)
      moreover have "scope_contains s (sc_of ar p)"
        if "strictly_in (sc_of ar n) s" "m \<in> S" "strictly_in (sc_of ar m) s" "strictly_in (sc_of ar n) (sc_of ar m)"
          "\<forall>m \<in> S. strictly_in (sc_of ar n) (sc_of ar m) \<longrightarrow> scope_contains (sc_of ar m) (sc_of ar p)" for m p
        using that by (auto simp: strictly_in_def intro: scope_contains_trans)
      ultimately show ?thesis
        using old n notmax unfolding parent_link_def by auto
    qed
  qed
  then show ?thesis
    unfolding tree_inv_def using img lam inj S by (auto simp: less_Suc_eq)
qed

text \<open>A tree of another name keeps its invariant: its nodes do not change.\<close>

lemma tree_inv_frame:
  assumes "tree_inv ar S" and "\<And>n. n \<in> S \<Longrightarrow> n < length ar' \<and> ar' ! n = ar ! n"
  shows "tree_inv ar' S"
proof -
  have eq: "n \<in> S \<Longrightarrow> sc_of ar' n = sc_of ar n" for n using assms(2) by simp
  have "sc_of ar' ` S = sc_of ar ` S" "inj_on (sc_of ar') S \<longleftrightarrow> inj_on (sc_of ar) S"
    using eq by (auto simp: inj_on_def image_iff)
  moreover have "parent_link (sc_of ar') S s l \<longleftrightarrow> parent_link (sc_of ar) S s l" for s l
    using eq by (auto simp: parent_link_def)
  ultimately show ?thesis
    using assms eq by (auto simp: tree_inv_def)
qed

end
