(* ===== verification/Sections.thy ===== *)
theory Sections
  imports InvTree
begin

text \<open>
  The part that \<open>ScopedInstance\<close> and \<open>ScopedMap\<close> of \<open>src/scope.hpp\<close> share: the entries of one name,
  ordered by the scope end, each with the index of the innermost node that ends there. The theory
  shows what an update does to such a section of a map and to the nodes it leads to.
\<close>

subsection \<open>The loop over the left neighbours\<close>

text \<open>
  \<open>for (; leftnode->first != end; ++leftnode) linkLeftNeighbours(..)\<close>, the condition as an argument.
  C++ leaves it undefined to run past the last entry.
\<close>

fun link_left_loop ::
    "('k \<Rightarrow> bool) \<Rightarrow> scope \<Rightarrow> int \<Rightarrow> ('k, int) std_map \<Rightarrow> 'v inv_tree \<Rightarrow> 'v inv_tree option" where
  "link_left_loop stop scope newindex [] t = None"
| "link_left_loop stop scope newindex ((k, i) # rest) t =
     (if stop k then Some t
      else do { t' \<leftarrow> link_left_neighbours t i scope newindex;
                link_left_loop stop scope newindex rest t' })"

subsection \<open>Sections\<close>

definition head_of :: "'v up_value list \<Rightarrow> nat set \<Rightarrow> int \<Rightarrow> int \<Rightarrow> bool" where
  "head_of ar S e i \<longleftrightarrow>
     (\<exists>h \<in> S. i = int h \<and> s_end (sc_of ar h) = e \<and>
        (\<forall>m \<in> S. s_end (sc_of ar m) = e \<longrightarrow> scope_contains (sc_of ar m) (sc_of ar h)))"

definition sec_inv :: "'v up_value list \<Rightarrow> nat set \<Rightarrow> (int, int) std_map \<Rightarrow> bool" where
  "sec_inv ar S sec \<longleftrightarrow>
     tree_inv ar S \<and> map_ok sec \<and> (\<forall>(e, i) \<in> set sec. head_of ar S e i) \<and>
     (\<forall>n \<in> S. \<exists>i. (s_end (sc_of ar n), i) \<in> set sec)"

text \<open>The definitions a section holds, as a map from scopes to values.\<close>

definition sec_rep :: "'v up_value list \<Rightarrow> nat set \<Rightarrow> (int, int) std_map \<Rightarrow> (scope \<rightharpoonup> 'v) \<Rightarrow> bool" where
  "sec_rep ar S sec A \<longleftrightarrow>
     sec_inv ar S sec \<and> (\<forall>s v. A s = Some v \<longleftrightarrow> (\<exists>n \<in> S. sc_of ar n = s \<and> uv_value (ar ! n) = v))"

text \<open>The definition that is visible at a step: the one with the smallest covering scope.\<close>

definition innermost :: "(scope \<rightharpoonup> 'v) \<Rightarrow> int \<Rightarrow> scope \<Rightarrow> bool" where
  "innermost A step s \<longleftrightarrow>
     s \<in> dom A \<and> scope_contains_step s step \<and>
     (\<forall>t \<in> dom A. scope_contains_step t step \<longrightarrow> scope_contains t s)"

definition visible :: "(scope \<rightharpoonup> 'v) \<Rightarrow> int \<Rightarrow> 'v option \<Rightarrow> bool" where
  "visible A step r \<longleftrightarrow>
     (case r of
        None \<Rightarrow> (\<forall>s \<in> dom A. \<not> scope_contains_step s step)
      | Some v \<Rightarrow> (\<exists>s. innermost A step s \<and> A s = Some v))"

lemma sec_invD:
  assumes "sec_inv ar S sec"
  shows "tree_inv ar S" "map_ok sec"
    "\<And>e i. (e, i) \<in> set sec \<Longrightarrow> head_of ar S e i"
    "\<And>n. n \<in> S \<Longrightarrow> \<exists>i. (s_end (sc_of ar n), i) \<in> set sec"
  using assms by (auto simp: sec_inv_def)

lemma sec_rep_dom: "sec_rep ar S sec A \<Longrightarrow> dom A = sc_of ar ` S"
  by (auto simp: sec_rep_def dom_def)

text \<open>The nodes above the first entry behind a step are those that reach the step or go beyond it.\<close>

lemma upper_bound_above:
  assumes inv: "sec_inv ar S sec" and ub: "map_upper_bound sec x = (e, i) # rest"
  obtains h where "h \<in> S" "i = int h" "s_end (sc_of ar h) = e" "x < e"
    "\<And>m. m \<in> S \<Longrightarrow> x < s_end (sc_of ar m) \<Longrightarrow> s_start (sc_of ar m) < e \<Longrightarrow> m \<in> above (sc_of ar) S h"
proof -
  note tree = sec_invD(1) [OF inv]
  note first = map_upper_bound_first [OF sec_invD(2) [OF inv] ub]
  from sec_invD(3) [OF inv first(1)] obtain h where h: "h \<in> S" "i = int h" "s_end (sc_of ar h) = e"
    "\<forall>m \<in> S. s_end (sc_of ar m) = e \<longrightarrow> scope_contains (sc_of ar m) (sc_of ar h)"
    by (auto simp: head_of_def)
  have "m \<in> above (sc_of ar) S h" if m: "m \<in> S" "x < s_end (sc_of ar m)" "s_start (sc_of ar m) < e" for m
  proof -
    obtain j where "(s_end (sc_of ar m), j) \<in> set sec" using sec_invD(4) [OF inv m(1)] by blast
    then have le: "e \<le> s_end (sc_of ar m)" using first(3) m(2) by blast
    have "scopes_nested (sc_of ar m) (sc_of ar h)" using tree_inv_nested [OF tree m(1) h(1)] .
    moreover have "s_start (sc_of ar h) < s_end (sc_of ar h)"
      using tree_invD(2) [OF tree h(1)] by (simp add: scope_wf_def)
    ultimately have "scope_contains (sc_of ar m) (sc_of ar h) \<or> scope_contains (sc_of ar h) (sc_of ar m)"
      using le h(3) m(3) by (auto simp: scopes_nested_def)
    moreover have "scope_contains (sc_of ar h) (sc_of ar m) \<Longrightarrow> s_end (sc_of ar m) = e"
      using le h(3) by (auto simp: scope_contains_def)
    ultimately show ?thesis using m(1) h(4) by (auto simp: above_def)
  qed
  with h first(2) show thesis using that by blast
qed

lemma upper_bound_Nil_above:
  assumes "sec_inv ar S sec" "map_upper_bound sec x = []" "m \<in> S"
  shows "s_end (sc_of ar m) \<le> x"
  using assms map_upper_bound_Nil [of sec x] sec_invD(2,4) [OF assms(1)] by force

subsection \<open>Lookup\<close>

definition sec_get :: "'v inv_tree \<Rightarrow> (int, int) std_map \<Rightarrow> int \<Rightarrow> 'v option" where
  "sec_get t sec step =
     (case map_upper_bound sec step of
        [] \<Rightarrow> Some (it_nullval t)
      | (_, i) # _ \<Rightarrow> get_inner_value t i step)"

text \<open>The node found at a step is the innermost one that covers the step.\<close>

lemma sec_search:
  assumes inv: "sec_inv ar S sec" and ub: "map_upper_bound sec step = (e, i) # rest"
  shows "\<exists>q. uplink_search ar (\<lambda>uv. s_start (uv_scope uv) \<le> step) i = Some q \<and>
    ((q = -1 \<and> (\<forall>m \<in> S. \<not> scope_contains_step (sc_of ar m) step)) \<or>
     (\<exists>j \<in> S. q = int j \<and> scope_contains_step (sc_of ar j) step \<and>
        (\<forall>m \<in> S. scope_contains_step (sc_of ar m) step \<longrightarrow> scope_contains (sc_of ar m) (sc_of ar j))))"
proof -
  obtain h where h: "h \<in> S" "i = int h" "s_end (sc_of ar h) = e" "step < e"
    "\<And>m. m \<in> S \<Longrightarrow> step < s_end (sc_of ar m) \<Longrightarrow> s_start (sc_of ar m) < e \<Longrightarrow> m \<in> above (sc_of ar) S h"
    using upper_bound_above [OF inv ub] by blast
  let ?P = "\<lambda>uv. s_start (uv_scope uv) \<le> step"
  obtain q where q: "uplink_search ar ?P (int h) = Some q" "search_result ar S ?P h q"
    using uplink_search_spec [OF sec_invD(1) [OF inv] h(1)] by blast
  have ab: "m \<in> S \<and> scope_contains_step (sc_of ar m) step \<longleftrightarrow> m \<in> above (sc_of ar) S h \<and> s_start (sc_of ar m) \<le> step" for m
    using h by (auto simp: scope_contains_step_def above_def scope_contains_def)
  show ?thesis
    using q ab unfolding h(2) search_result_def by (intro exI [of _ q]) (simp, blast)
qed

lemma sec_get_visible:
  assumes rep: "sec_rep ar S sec A" and t: "it_ar t = ar"
  shows "\<exists>r. sec_get t sec step = Some (case r of None \<Rightarrow> it_nullval t | Some v \<Rightarrow> v) \<and> visible A step r"
proof -
  have inv: "sec_inv ar S sec" using rep by (simp add: sec_rep_def)
  have dom: "dom A = sc_of ar ` S" using sec_rep_dom [OF rep] .
  show ?thesis
  proof (cases "map_upper_bound sec step")
    case Nil
    then have "\<forall>s \<in> dom A. \<not> scope_contains_step s step"
      unfolding dom scope_contains_step_def using upper_bound_Nil_above [OF inv Nil] by (auto simp: not_less)
    then show ?thesis using Nil by (intro exI [of _ None]) (simp add: sec_get_def visible_def)
  next
    case (Cons p rest)
    obtain e i where p: "p = (e, i)" by fastforce
    obtain q where q: "uplink_search ar (\<lambda>uv. s_start (uv_scope uv) \<le> step) i = Some q"
      "(q = -1 \<and> (\<forall>m \<in> S. \<not> scope_contains_step (sc_of ar m) step)) \<or>
       (\<exists>j \<in> S. q = int j \<and> scope_contains_step (sc_of ar j) step \<and>
        (\<forall>m \<in> S. scope_contains_step (sc_of ar m) step \<longrightarrow> scope_contains (sc_of ar m) (sc_of ar j)))"
      using sec_search [OF inv Cons [unfolded p]] by (elim exE conjE)
    from q(2) show ?thesis
    proof
      assume "q = -1 \<and> (\<forall>m \<in> S. \<not> scope_contains_step (sc_of ar m) step)"
      then show ?thesis
        using q(1) Cons p t
        by (intro exI [of _ None]) (auto simp: sec_get_def get_inner_value_def visible_def dom)
    next
      assume "\<exists>j \<in> S. q = int j \<and> scope_contains_step (sc_of ar j) step \<and>
        (\<forall>m \<in> S. scope_contains_step (sc_of ar m) step \<longrightarrow> scope_contains (sc_of ar m) (sc_of ar j))"
      then obtain j where j: "j \<in> S" "q = int j" "innermost A step (sc_of ar j)"
        by (auto simp: innermost_def dom)
      have "A (sc_of ar j) = Some (uv_value (ar ! j))" using rep j(1) by (auto simp: sec_rep_def)
      moreover have "j < length ar" using tree_invD(1) [OF sec_invD(1) [OF inv] j(1)] .
      ultimately show ?thesis
        using q(1) Cons p t j
        by (intro exI [of _ "Some (uv_value (ar ! j))"])
          (auto simp: sec_get_def get_inner_value_def visible_def)
    qed
  qed
qed

text \<open>The definition of exactly a scope (\<open>getThis\<close>, \<open>getDef\<close>).\<close>

lemma find_up_value_spec:
  assumes rep: "sec_rep ar S sec A" and t: "it_ar t = ar" and e: "(s_end s, i) \<in> set sec"
  shows "find_up_value t i s = Some (case A s of None \<Rightarrow> it_nullval t | Some v \<Rightarrow> v)"
proof -
  have inv: "sec_inv ar S sec" using rep by (simp add: sec_rep_def)
  note tree = sec_invD(1) [OF inv]
  obtain h where h: "h \<in> S" "i = int h" "s_end (sc_of ar h) = s_end s"
    "\<forall>m \<in> S. s_end (sc_of ar m) = s_end s \<longrightarrow> scope_contains (sc_of ar m) (sc_of ar h)"
    using sec_invD(3) [OF inv e] by (auto simp: head_of_def)
  let ?P = "\<lambda>uv. s_end (uv_scope uv) \<noteq> s_end s \<or> s_start (uv_scope uv) \<le> s_start s"
  obtain q where q: "uplink_search ar ?P (int h) = Some q" "search_result ar S ?P h q"
    using uplink_search_spec [OF tree h(1)] by blast
  have A: "A s = Some v \<longleftrightarrow> (\<exists>n \<in> S. sc_of ar n = s \<and> uv_value (ar ! n) = v)" for v
    using rep by (simp add: sec_rep_def)
  show ?thesis
  proof (cases "\<exists>n \<in> S. sc_of ar n = s")
    case True
    then obtain n where n: "n \<in> S" "sc_of ar n = s" by blast
    have "n \<in> above (sc_of ar) S h" using n h(4) by (auto simp: above_def)
    then obtain j where j: "q = int j" "j \<in> S" "scope_contains (sc_of ar j) (sc_of ar h)" "?P (ar ! j)"
      "scope_contains s (sc_of ar j)"
      using q(2) n by (auto simp: search_result_def above_def)
    then have "sc_of ar j = s"
      using h(3) by (auto simp: scope_contains_def scope_eq_iff)
    then have "j = n" using tree_inv_inj [OF tree j(2) n(1)] n(2) by simp
    moreover have "A s = Some (uv_value (ar ! n))" using A n by blast
    ultimately show ?thesis
      using q(1) j(1) n t h(2) tree_invD(1) [OF tree n(1)] by (auto simp: find_up_value_def)
  next
    case False
    then have "A s = None" using A by (metis not_Some_eq)
    moreover have "q < 0 \<or> (\<exists>j < length ar. q = int j \<and> sc_of ar j \<noteq> s)"
      using q(2) False tree_invD(1) [OF tree] by (auto simp: search_result_def above_def)
    ultimately show ?thesis
      using q(1) t h(2) by (auto simp: find_up_value_def scope_eq_iff)
  qed
qed

subsection \<open>Where a new scope belongs\<close>

text \<open>The result of \<open>rightNeighborUpLink\<close>: the smallest covering scope that ends further right.\<close>

definition right_parent :: "'v up_value list \<Rightarrow> nat set \<Rightarrow> scope \<Rightarrow> int \<Rightarrow> bool" where
  "right_parent ar S s q \<longleftrightarrow>
     (q = -1 \<and> (\<forall>m \<in> S. s_end s < s_end (sc_of ar m) \<longrightarrow> \<not> scope_contains (sc_of ar m) s)) \<or>
     (\<exists>p \<in> S. q = int p \<and> s_end s < s_end (sc_of ar p) \<and> scope_contains (sc_of ar p) s \<and>
        (\<forall>m \<in> S. s_end s < s_end (sc_of ar m) \<longrightarrow> scope_contains (sc_of ar m) s \<longrightarrow>
           scope_contains (sc_of ar m) (sc_of ar p)))"

definition sec_uplink :: "'v inv_tree \<Rightarrow> (int, int) std_map \<Rightarrow> scope \<Rightarrow> int option" where
  "sec_uplink t sec s =
     (case map_upper_bound sec (s_end s) of
        [] \<Rightarrow> Some (-1)
      | (_, i) # _ \<Rightarrow> right_neighbor_up_link t i s)"

lemma sec_uplink_right_parent:
  assumes inv: "sec_inv ar S sec" and t: "it_ar t = ar" and wf: "scope_wf s"
  shows "\<exists>q. sec_uplink t sec s = Some q \<and> right_parent ar S s q"
proof (cases "map_upper_bound sec (s_end s)")
  case Nil
  then have "\<forall>m \<in> S. s_end (sc_of ar m) \<le> s_end s"
    using upper_bound_Nil_above [OF inv] by blast
  then show ?thesis using Nil by (auto simp: sec_uplink_def right_parent_def)
next
  case (Cons p rest)
  obtain e i where p: "p = (e, i)" by fastforce
  obtain h where h: "h \<in> S" "i = int h" "s_end (sc_of ar h) = e" "s_end s < e"
    "\<And>m. m \<in> S \<Longrightarrow> s_end s < s_end (sc_of ar m) \<Longrightarrow> s_start (sc_of ar m) < e \<Longrightarrow> m \<in> above (sc_of ar) S h"
    using upper_bound_above [OF inv Cons [unfolded p]] by metis
  let ?P = "\<lambda>uv. scope_contains (uv_scope uv) s"
  obtain q where q: "uplink_search ar ?P (int h) = Some q" "search_result ar S ?P h q"
    using uplink_search_spec [OF sec_invD(1) [OF inv] h(1)] by blast
  have ab: "m \<in> S \<and> s_end s < s_end (sc_of ar m) \<and> scope_contains (sc_of ar m) s \<longleftrightarrow>
      m \<in> above (sc_of ar) S h \<and> scope_contains (sc_of ar m) s" for m
    using h wf by (auto simp: above_def scope_contains_def scope_wf_def)
  have "right_parent ar S s q"
    using q(2) ab unfolding search_result_def right_parent_def by blast
  with q(1) Cons p h(2) t show ?thesis
    by (auto simp: sec_uplink_def right_neighbor_up_link_def)
qed

lemma right_parent_fresh:
  assumes "right_parent ar S s q" "\<And>m. m \<in> S \<Longrightarrow> s_end (sc_of ar m) \<noteq> s_end s"
  shows "parent_link (sc_of ar) S s q"
proof -
  have "strictly_in s (sc_of ar m) \<longleftrightarrow> s_end s < s_end (sc_of ar m) \<and> scope_contains (sc_of ar m) s"
    if "m \<in> S" for m
    using assms(2) [OF that] by (auto simp: strictly_in_def scope_contains_def)
  then show ?thesis
    using assms(1) unfolding right_parent_def parent_link_def by blast
qed

subsection \<open>Insertion beside nodes with the same end\<close>

text \<open>The maximal nodes inside the new scope that have its end: one at most.\<close>

definition same_end_inside :: "'v up_value list \<Rightarrow> nat set \<Rightarrow> scope \<Rightarrow> nat set" where
  "same_end_inside ar S s = {n. maximal_in (sc_of ar) S s n \<and> s_end (sc_of ar n) = s_end s}"

lemma same_end_nested:
  "scope_wf a \<Longrightarrow> scope_wf b \<Longrightarrow> s_end a = s_end b \<Longrightarrow> scope_contains a b \<or> scope_contains b a"
  by (auto simp: scope_contains_def)

lemma maximal_in_unique:
  assumes inv: "tree_inv ar S" and p: "maximal_in (sc_of ar) S s p" and n: "maximal_in (sc_of ar) S s n"
    and nest: "scope_contains (sc_of ar p) (sc_of ar n) \<or> scope_contains (sc_of ar n) (sc_of ar p)"
  shows "p = n"
proof (rule tree_inv_inj [OF inv])
  show "p \<in> S" "n \<in> S" using p n by (auto simp: maximal_in_def)
  show "sc_of ar p = sc_of ar n"
    using p n nest unfolding maximal_in_def strictly_in_def by metis
qed

lemma same_end_inside_maximal:
  assumes inv: "tree_inv ar S" and p: "maximal_in (sc_of ar) S s p" "s_end (sc_of ar p) = s_end s"
  shows "same_end_inside ar S s = {p}"
proof -
  have "n = p" if "n \<in> same_end_inside ar S s" for n
  proof -
    have n: "maximal_in (sc_of ar) S s n" "s_end (sc_of ar n) = s_end s"
      using that by (simp_all add: same_end_inside_def)
    then have "scope_wf (sc_of ar n)" "scope_wf (sc_of ar p)"
      using tree_invD(2) [OF inv] p(1) by (auto simp: maximal_in_def)
    then have "scope_contains (sc_of ar n) (sc_of ar p) \<or> scope_contains (sc_of ar p) (sc_of ar n)"
      using same_end_nested n(2) p(2) by simp
    then show ?thesis using maximal_in_unique [OF inv n(1) p(1)] by blast
  qed
  moreover have "p \<in> same_end_inside ar S s" using p by (simp add: same_end_inside_def)
  ultimately show ?thesis by blast
qed

text \<open>The head of the new scope's end after the insertion.\<close>

definition new_head :: "'v up_value list \<Rightarrow> nat set \<Rightarrow> scope \<Rightarrow> int \<Rightarrow> int" where
  "new_head ar S s i = (if same_end_inside ar S s = {} then int (length ar) else i)"

lemma insert_up_value_old:
  assumes inv: "tree_inv ar S" and t: "it_ar t = ar" and hd: "head_of ar S (s_end s) i"
    and d: "d \<in> S" "sc_of ar d = s"
  shows "insert_up_value t i s v uplink b =
    returnR (if b then (t, i, -1, Some (uv_value (ar ! d))) else (set_value t (int d) v, i, -1, None))"
proof -
  obtain h where h: "h \<in> S" "i = int h" "s_end (sc_of ar h) = s_end s" "scope_contains s (sc_of ar h)"
    using hd d by (auto simp: head_of_def)
  have "\<exists>pr. uplink_climb ar s (-1) (int h) = Some (pr, int d)"
  proof (cases "sc_of ar h = s")
    case True
    then have "h = d" using tree_inv_inj [OF inv h(1) d(1)] d(2) by simp
    then show ?thesis
      using uplink_climb_stop [of h ar s] tree_invD(1) [OF inv h(1)] True by auto
  next
    case False
    then have hs: "strictly_in (sc_of ar h) s" using h(4) by (simp add: strictly_in_def)
    obtain p where p: "uplink_climb ar s (-1) (int h) = Some (int p, uv_prev (ar ! p))"
      "maximal_in (sc_of ar) S s p"
      using uplink_climb_spec [OF climb_ok_tree [OF inv] h(1) hs] by blast
    then have pS: "p \<in> S" "strictly_in (sc_of ar p) s" by (auto simp: maximal_in_def)
    then obtain a where a: "a \<in> S" "uv_prev (ar ! p) = int a" "strictly_in (sc_of ar p) (sc_of ar a)"
      "scope_contains s (sc_of ar a)"
      using tree_invD(3) [OF inv pS(1)] d by (auto simp: parent_link_def)
    then have "sc_of ar a = s" using p(2) by (auto simp: maximal_in_def strictly_in_def)
    then have "a = d" using tree_inv_inj [OF inv a(1) d(1)] d(2) by simp
    then show ?thesis using p(1) a(2) by auto
  qed
  then show ?thesis
    using tree_invD(1) [OF inv d(1)] d(2) t h(2) by (auto simp: insert_up_value_def)
qed

text \<open>A scope that is not there yet: the node is pushed and linked to the next larger scope.\<close>

lemma new_scope_nested:
  assumes "laminar (insert s (sc_of ar ` S))" "m \<in> S"
  shows "scopes_nested s (sc_of ar m)" "scope_wf s"
  using assms by (auto simp: laminar_def)

lemma insert_up_value_new:
  assumes inv: "tree_inv ar S" and t: "it_ar t = ar" and hd: "head_of ar S (s_end s) i"
    and lam: "laminar (insert s (sc_of ar ` S))" and new: "s \<notin> sc_of ar ` S"
    and right: "right_parent ar S s uplink"
  shows "\<exists>q. (\<forall>b. insert_up_value t i s v uplink b =
      returnR (t\<lparr>it_ar := relinked ar s v q (same_end_inside ar S s)\<rparr>, new_head ar S s i, int (length ar), None)) \<and>
    parent_link (sc_of ar) S s q"
proof -
  obtain h where h: "h \<in> S" "i = int h" "s_end (sc_of ar h) = s_end s"
    "\<forall>m \<in> S. s_end (sc_of ar m) = s_end s \<longrightarrow> scope_contains (sc_of ar m) (sc_of ar h)"
    using hd by (auto simp: head_of_def)
  have hl: "h < length ar" using tree_invD(1) [OF inv h(1)] .
  have hwf: "scope_wf (sc_of ar h)" using tree_invD(2) [OF inv h(1)] .
  note nest = new_scope_nested(1) [OF lam]
  have neq: "m \<in> S \<Longrightarrow> sc_of ar m \<noteq> s" for m using new by auto
  have swf: "scope_wf s" using new_scope_nested(2) [OF lam h(1)] .
  have hs: "scope_contains s (sc_of ar h) \<or> scope_contains (sc_of ar h) s"
    using same_end_nested [OF swf hwf] h(3) by simp
  show ?thesis
  proof (cases "strictly_in (sc_of ar h) s")
    case True
    obtain p where p: "uplink_climb ar s (-1) (int h) = Some (int p, uv_prev (ar ! p))"
      "maximal_in (sc_of ar) S s p" "scope_contains (sc_of ar p) (sc_of ar h)"
      using uplink_climb_spec [OF climb_ok_tree [OF inv] h(1) True] by blast
    then have pS: "p \<in> S" "strictly_in (sc_of ar p) s" "p < length ar"
      using tree_invD(1) [OF inv] by (auto simp: maximal_in_def)
    have pend: "s_end (sc_of ar p) = s_end s"
      using p(3) pS(2) h(3) by (auto simp: scope_contains_def strictly_in_def)
    have D: "same_end_inside ar S s = {p}" using same_end_inside_maximal [OF inv p(2) pend] .
    have set: "set_prev (t\<lparr>it_ar := ar @ [\<lparr>uv_scope = s, uv_value = v, uv_prev = q\<rparr>]\<rparr>) (int p) (int (length ar)) =
        t\<lparr>it_ar := relinked ar s v q {p}\<rparr>" for q
      using relinked_insert [OF pS(3), of s v q "{}"] by (simp add: set_prev_def relinked_empty)
    have cover: "strictly_in (sc_of ar p) (sc_of ar m)" if "m \<in> S" "strictly_in s (sc_of ar m)" for m
      using that pS(2) strictly_in_trans by blast
    show ?thesis
    proof (cases "uv_prev (ar ! p) = -1")
      case root: True
      then have none: "\<forall>m \<in> S. \<not> strictly_in s (sc_of ar m)"
        using tree_invD(3) [OF inv pS(1)] cover by (auto simp: parent_link_def)
      then have "uplink = -1"
        using right by (auto simp: right_parent_def strictly_in_def)
      with p(1) root none show ?thesis
        by (intro exI [of _ "-1"])
          (simp add: insert_up_value_def t h(2) push_up_value_def set D new_head_def parent_link_def)
    next
      case False
      then obtain a where a: "a \<in> S" "uv_prev (ar ! p) = int a" "strictly_in (sc_of ar p) (sc_of ar a)"
        "\<forall>m \<in> S. strictly_in (sc_of ar p) (sc_of ar m) \<longrightarrow> scope_contains (sc_of ar m) (sc_of ar a)"
        using tree_invD(3) [OF inv pS(1)] by (auto simp: parent_link_def)
      have notin: "\<not> scope_contains s (sc_of ar a)"
        using p(2) a(1,3) neq [OF a(1)] by (auto simp: maximal_in_def strictly_in_def)
      then have sa: "scope_contains (sc_of ar a) s"
        using laminar_common [OF nest [OF a(1)] tree_invD(2) [OF inv pS(1)]] pS(2) a(3)
        by (auto simp: strictly_in_def)
      have "parent_link (sc_of ar) S s (int a)"
        using a sa neq [OF a(1)] cover by (auto simp: parent_link_def strictly_in_def)
      with p(1) a(2) notin sa tree_invD(1) [OF inv a(1)] show ?thesis
        by (intro exI [of _ "int a"])
          (simp add: insert_up_value_def t h(2) push_up_value_def set D new_head_def)
    qed
  next
    case False
    then have notin: "\<not> scope_contains s (sc_of ar h)" "scope_contains (sc_of ar h) s"
      using hs neq [OF h(1)] by (auto simp: strictly_in_def)
    have D: "same_end_inside ar S s = {}"
    proof -
      have "\<not> strictly_in (sc_of ar n) s" if "n \<in> S" "s_end (sc_of ar n) = s_end s" for n
        using that h(4) notin scope_contains_trans unfolding strictly_in_def by blast
      then show ?thesis by (auto simp: same_end_inside_def maximal_in_def)
    qed
    have "scope_contains (sc_of ar m) (sc_of ar h)" if m: "m \<in> S" "strictly_in s (sc_of ar m)" for m
    proof -
      have "scope_contains (sc_of ar m) (sc_of ar h) \<or> scope_contains (sc_of ar h) (sc_of ar m)"
        using laminar_common [OF tree_inv_nested [OF inv m(1) h(1)] swf] m(2) notin(2)
        by (auto simp: strictly_in_def)
      moreover have "scope_contains (sc_of ar h) (sc_of ar m) \<Longrightarrow> s_end (sc_of ar m) = s_end s"
        using m(2) h(3) by (auto simp: strictly_in_def scope_contains_def)
      ultimately show ?thesis using h(4) m(1) by blast
    qed
    then have "parent_link (sc_of ar) S s (int h)"
      using h(1) notin(2) neq [OF h(1)] by (auto simp: parent_link_def strictly_in_def)
    with notin hl uplink_climb_stop [OF hl False, of "-1"] show ?thesis
      by (intro exI [of _ "int h"])
        (simp add: insert_up_value_def t h(2) push_up_value_def D new_head_def relinked_empty)
  qed
qed

subsection \<open>Linking the left neighbours\<close>

lemma link_left_neighbours_spec:
  assumes inv: "tree_inv ar S" and new: "s \<notin> sc_of ar ` S"
    and D: "\<And>n. n \<in> D \<Longrightarrow> maximal_in (sc_of ar) S s n"
    and h: "h \<in> S" "strictly_in (sc_of ar h) s" and t: "it_ar t = relinked ar s v q D"
  shows "\<exists>p. link_left_neighbours t (int h) s (int (length ar)) =
      Some (t\<lparr>it_ar := relinked ar s v q (insert p D)\<rparr>) \<and>
    maximal_in (sc_of ar) S s p \<and> scope_contains (sc_of ar p) (sc_of ar h)"
proof -
  let ?ar = "relinked ar s v q D" and ?k = "length ar"
  have S: "n \<in> S \<Longrightarrow> n < ?k" for n using tree_invD(1) [OF inv] .
  have sc: "n \<in> S \<Longrightarrow> sc_of ?ar n = sc_of ar n" for n using S by simp
  obtain p where p: "uplink_climb ?ar s (-1) (int h) = Some (int p, uv_prev (?ar ! p))"
    "maximal_in (sc_of ?ar) S s p" "scope_contains (sc_of ?ar p) (sc_of ?ar h)"
    using uplink_climb_spec [OF climb_ok_relinked [OF inv D] h(1)] h sc by metis
  have max: "maximal_in (sc_of ar) S s p"
    using p(2) maximal_in_cong [of S "sc_of ?ar" "sc_of ar"] sc by blast
  then have pS: "p \<in> S" by (simp add: maximal_in_def)
  have ph: "scope_contains (sc_of ar p) (sc_of ar h)"
    using p(3) sc [OF pS] sc [OF h(1)] by simp
  have step: "link_left_neighbours t (int h) s (int ?k) = Some (t\<lparr>it_ar := relinked ar s v q (insert p D)\<rparr>)"
  proof (cases "p \<in> D")
    case True
    then have "uv_prev (?ar ! p) = int ?k" using S [OF pS] by simp
    then have "link_left_neighbours t (int h) s (int ?k) = Some t"
      using p(1) t by (simp add: link_left_neighbours_def)
    moreover have "t = t\<lparr>it_ar := relinked ar s v q (insert p D)\<rparr>"
      using t True by (simp add: insert_absorb)
    ultimately show ?thesis by simp
  next
    case False
    then have prev: "uv_prev (?ar ! p) = uv_prev (ar ! p)" using S [OF pS] by simp
    have "uv_prev (ar ! p) = -1 \<or> (\<exists>a \<in> S. uv_prev (ar ! p) = int a)"
      using tree_invD(3) [OF inv pS] by (auto simp: parent_link_def)
    then have "link_left_neighbours t (int h) s (int ?k) = Some (set_prev t (int p) (int ?k))"
    proof
      assume "uv_prev (ar ! p) = -1"
      then show ?thesis using p(1) prev t by (simp add: link_left_neighbours_def)
    next
      assume "\<exists>a \<in> S. uv_prev (ar ! p) = int a"
      then obtain a where a: "a \<in> S" "uv_prev (ar ! p) = int a" by blast
      then have "s \<noteq> sc_of ?ar a" using sc [OF a(1)] new by auto
      then show ?thesis
        using p(1) prev t a S [OF a(1)] by (auto simp: link_left_neighbours_def)
    qed
    then show ?thesis
      using relinked_insert [OF S [OF pS], of s v q D] t by (simp add: set_prev_def)
  qed
  show ?thesis
    by (intro exI [of _ p] conjI step max ph)
qed

lemma maximal_in_common:
  assumes inv: "tree_inv ar S" and h: "h \<in> S"
    and p: "maximal_in (sc_of ar) S s p" "scope_contains (sc_of ar p) (sc_of ar h)"
    and n: "maximal_in (sc_of ar) S s n" "scope_contains (sc_of ar n) (sc_of ar h)"
  shows "p = n"
proof (rule maximal_in_unique [OF inv p(1) n(1)])
  have "p \<in> S" "n \<in> S" using p n by (simp_all add: maximal_in_def)
  then show "scope_contains (sc_of ar p) (sc_of ar n) \<or> scope_contains (sc_of ar n) (sc_of ar p)"
    using laminar_common [OF tree_inv_nested [OF inv]] tree_invD(2) [OF inv h] p(2) n(2) by blast
qed

lemma link_left_loop_spec:
  assumes inv: "tree_inv ar S" and new: "s \<notin> sc_of ar ` S" and stop: "stop k0"
    and es: "\<And>k i. (k, i) \<in> set es \<Longrightarrow> \<not> stop k \<and> (\<exists>h \<in> S. i = int h \<and> strictly_in (sc_of ar h) s)"
    and D: "\<And>n. n \<in> D \<Longrightarrow> maximal_in (sc_of ar) S s n" and t: "it_ar t = relinked ar s v q D"
  shows "\<exists>D'. link_left_loop stop s (int (length ar)) (es @ (k0, i0) # rest) t =
      Some (t\<lparr>it_ar := relinked ar s v q D'\<rparr>) \<and>
    D \<subseteq> D' \<and> (\<forall>n \<in> D'. maximal_in (sc_of ar) S s n) \<and>
    (\<forall>k h p. (k, int h) \<in> set es \<longrightarrow> h \<in> S \<longrightarrow> maximal_in (sc_of ar) S s p \<longrightarrow>
       scope_contains (sc_of ar p) (sc_of ar h) \<longrightarrow> p \<in> D')"
  using es D t
proof (induction es arbitrary: t D)
  case Nil
  then show ?case using stop by (intro exI [of _ D]) simp
next
  case (Cons e es)
  obtain k i where e: "e = (k, i)" by fastforce
  obtain h where h: "\<not> stop k" "h \<in> S" "i = int h" "strictly_in (sc_of ar h) s"
    using Cons.prems(1) [of k i] e by auto
  obtain p where p: "link_left_neighbours t (int h) s (int (length ar)) =
      Some (t\<lparr>it_ar := relinked ar s v q (insert p D)\<rparr>)"
    "maximal_in (sc_of ar) S s p" "scope_contains (sc_of ar p) (sc_of ar h)"
    using link_left_neighbours_spec [OF inv new Cons.prems(2) h(2,4) Cons.prems(3)] by blast
  let ?t = "t\<lparr>it_ar := relinked ar s v q (insert p D)\<rparr>"
  have IH: "\<exists>D'. link_left_loop stop s (int (length ar)) (es @ (k0, i0) # rest) ?t =
      Some (?t\<lparr>it_ar := relinked ar s v q D'\<rparr>) \<and>
    insert p D \<subseteq> D' \<and> (\<forall>n \<in> D'. maximal_in (sc_of ar) S s n) \<and>
    (\<forall>k h p. (k, int h) \<in> set es \<longrightarrow> h \<in> S \<longrightarrow> maximal_in (sc_of ar) S s p \<longrightarrow>
       scope_contains (sc_of ar p) (sc_of ar h) \<longrightarrow> p \<in> D')"
  proof (rule Cons.IH)
    show "\<not> stop k \<and> (\<exists>h \<in> S. i = int h \<and> strictly_in (sc_of ar h) s)" if "(k, i) \<in> set es" for k i
      using Cons.prems(1) [of k i] that by simp
    show "maximal_in (sc_of ar) S s n" if "n \<in> insert p D" for n
      using that p(2) Cons.prems(2) by blast
  qed simp
  obtain D' where D': "link_left_loop stop s (int (length ar)) (es @ (k0, i0) # rest) ?t =
      Some (?t\<lparr>it_ar := relinked ar s v q D'\<rparr>)" "insert p D \<subseteq> D'"
    "\<forall>n \<in> D'. maximal_in (sc_of ar) S s n"
    "\<forall>k h p. (k, int h) \<in> set es \<longrightarrow> h \<in> S \<longrightarrow> maximal_in (sc_of ar) S s p \<longrightarrow>
       scope_contains (sc_of ar p) (sc_of ar h) \<longrightarrow> p \<in> D'"
    using IH by (elim exE conjE) (rule that, simp_all)
  have "p' \<in> D'" if "(k', int h') \<in> set (e # es)" "h' \<in> S" "maximal_in (sc_of ar) S s p'"
    "scope_contains (sc_of ar p') (sc_of ar h')" for k' h' p'
  proof (cases "(k', int h') \<in> set es")
    case True
    with D'(4) that show ?thesis by blast
  next
    case False
    with that(1) e h(3) have "h' = h" by simp
    then have "p' = p" using maximal_in_common [OF inv h(2)] that p by blast
    with D'(2) show ?thesis by blast
  qed
  then show ?case
    using D' h p(1) e by (intro exI [of _ D']) auto
qed

text \<open>An entry between the start and the end of the new scope leads to a node inside it.\<close>

lemma head_strictly_in:
  assumes inv: "tree_inv ar S" and lam: "laminar (insert s (sc_of ar ` S))"
    and hd: "head_of ar S e i" and e: "s_start s < e" "e < s_end s"
  shows "\<exists>h \<in> S. i = int h \<and> s_end (sc_of ar h) = e \<and> strictly_in (sc_of ar h) s"
proof -
  obtain h where h: "h \<in> S" "i = int h" "s_end (sc_of ar h) = e"
    using hd by (auto simp: head_of_def)
  have "scopes_nested s (sc_of ar h)" "scope_wf (sc_of ar h)"
    using new_scope_nested(1) [OF lam h(1)] tree_invD(2) [OF inv h(1)] by auto
  then have "strictly_in (sc_of ar h) s"
    using e h(3) by (auto simp: scopes_nested_def strictly_in_def scope_contains_def scope_wf_def)
  with h show ?thesis by blast
qed

lemma sec_link_left:
  assumes inv: "sec_inv ar S sec" and lam: "laminar (insert s (sc_of ar ` S))" and new: "s \<notin> sc_of ar ` S"
    and entries: "entries = map (\<lambda>(e, i). (wrap e, i)) (map_upper_bound (map_put sec (s_end s) i') (s_start s)) @ others"
    and stop: "\<And>e. stop (wrap e) \<longleftrightarrow> e = s_end s"
    and t: "it_ar t = relinked ar s v q (same_end_inside ar S s)"
  shows "link_left_loop stop s (int (length ar)) entries t =
    Some (t\<lparr>it_ar := relinked ar s v q {n. maximal_in (sc_of ar) S s n}\<rparr>)"
proof -
  note tree = sec_invD(1) [OF inv] and ok = sec_invD(2) [OF inv]
  let ?sec = "map_put sec (s_end s) i'"
  have wf: "s_start s < s_end s" using lam by (auto simp: laminar_def scope_wf_def)
  have ok': "map_ok (map_upper_bound ?sec (s_start s))" using ok by simp
  have mem: "set (map_upper_bound ?sec (s_start s)) =
      {p \<in> insert (s_end s, i') {p \<in> set sec. fst p \<noteq> s_end s}. s_start s < fst p}"
    using set_map_upper_bound [OF map_ok_put [OF ok]] set_map_put [OF ok] by simp
  then have "(s_end s, i') \<in> set (map_upper_bound ?sec (s_start s))" using wf by simp
  then obtain as bs where split: "map_upper_bound ?sec (s_start s) = as @ (s_end s, i') # bs"
    by (meson split_list)
  have less: "e < s_end s" if "(e, i) \<in> set as" for e i
    using ok' that unfolding split by (force simp: map_ok_def sorted_wrt_append)
  have as: "(e, i) \<in> set as \<longleftrightarrow> (e, i) \<in> set sec \<and> s_start s < e \<and> e < s_end s" for e i
  proof
    assume a: "(e, i) \<in> set as"
    then have "(e, i) \<in> set (map_upper_bound ?sec (s_start s))" by (simp add: split)
    with less [OF a] show "(e, i) \<in> set sec \<and> s_start s < e \<and> e < s_end s"
      unfolding mem by auto
  next
    assume a: "(e, i) \<in> set sec \<and> s_start s < e \<and> e < s_end s"
    then have "(e, i) \<in> set (map_upper_bound ?sec (s_start s))" unfolding mem by auto
    moreover have "(e, i) \<notin> set bs"
      using ok' a unfolding split by (force simp: map_ok_def sorted_wrt_append)
    ultimately show "(e, i) \<in> set as" using a by (auto simp: split)
  qed
  have es: "\<not> stop k \<and> (\<exists>h \<in> S. i = int h \<and> strictly_in (sc_of ar h) s)"
    if a: "(k, i) \<in> set (map (\<lambda>(e, i). (wrap e, i)) as)" for k i
  proof -
    obtain e where e: "k = wrap e" "(e, i) \<in> set as" using a by auto
    then have e': "(e, i) \<in> set sec" "s_start s < e" "e < s_end s" using as by auto
    have "\<not> stop k" using e(1) e'(3) stop by simp
    moreover have "\<exists>h \<in> S. i = int h \<and> strictly_in (sc_of ar h) s"
      using head_strictly_in [OF tree lam sec_invD(3) [OF inv e'(1)] e'(2,3)] by blast
    ultimately show ?thesis by blast
  qed
  let ?es = "map (\<lambda>(e, i). (wrap e, i)) as"
  have ent: "entries = ?es @ (wrap (s_end s), i') # map (\<lambda>(e, i). (wrap e, i)) bs @ others"
    by (simp add: entries split)
  have "\<exists>D'. link_left_loop stop s (int (length ar)) entries t =
        Some (t\<lparr>it_ar := relinked ar s v q D'\<rparr>) \<and>
      same_end_inside ar S s \<subseteq> D' \<and> (\<forall>n \<in> D'. maximal_in (sc_of ar) S s n) \<and>
      (\<forall>k h p. (k, int h) \<in> set ?es \<longrightarrow> h \<in> S \<longrightarrow> maximal_in (sc_of ar) S s p \<longrightarrow>
         scope_contains (sc_of ar p) (sc_of ar h) \<longrightarrow> p \<in> D')"
    unfolding ent
    by (rule link_left_loop_spec [OF tree new _ es _ t]) (simp_all add: stop same_end_inside_def)
  then obtain D' where D': "link_left_loop stop s (int (length ar)) entries t =
        Some (t\<lparr>it_ar := relinked ar s v q D'\<rparr>)"
      "same_end_inside ar S s \<subseteq> D'" "\<forall>n \<in> D'. maximal_in (sc_of ar) S s n"
      "\<forall>k h p. (k, int h) \<in> set ?es \<longrightarrow> h \<in> S \<longrightarrow> maximal_in (sc_of ar) S s p \<longrightarrow>
         scope_contains (sc_of ar p) (sc_of ar h) \<longrightarrow> p \<in> D'"
    by (elim exE conjE)
  have "n \<in> D'" if n: "maximal_in (sc_of ar) S s n" for n
  proof (cases "s_end (sc_of ar n) = s_end s")
    case True
    with n D'(2) show ?thesis by (auto simp: same_end_inside_def)
  next
    case False
    have "n \<in> S" "scope_contains s (sc_of ar n)" using n by (simp_all add: maximal_in_def strictly_in_def)
    then have nS: "n \<in> S" "s_start s < s_end (sc_of ar n)" "s_end (sc_of ar n) < s_end s"
      using False tree_invD(2) [OF tree, of n] by (auto simp: scope_contains_def scope_wf_def)
    obtain i where i: "(s_end (sc_of ar n), i) \<in> set sec" using sec_invD(4) [OF inv nS(1)] by blast
    then obtain h where h: "h \<in> S" "i = int h" "scope_contains (sc_of ar n) (sc_of ar h)"
      using sec_invD(3) [OF inv i] nS(1) by (auto simp: head_of_def)
    have "(wrap (s_end (sc_of ar n)), int h) \<in> set (map (\<lambda>(e, i). (wrap e, i)) as)"
      using as i nS h(2) by force
    with D'(4) h n show ?thesis by blast
  qed
  then have "D' = {n. maximal_in (sc_of ar) S s n}" using D'(3) by blast
  with D'(1) show ?thesis by simp
qed

subsection \<open>The section after the insertion\<close>

lemma maximal_in_exists:
  assumes "tree_inv ar S" "n \<in> S" "strictly_in (sc_of ar n) s"
  shows "\<exists>p. maximal_in (sc_of ar) S s p \<and> scope_contains (sc_of ar p) (sc_of ar n)"
  using uplink_climb_spec [OF climb_ok_tree [OF assms(1)] assms(2,3), of 0] by blast

lemma new_head_spec:
  assumes inv: "sec_inv ar S sec" and lam: "laminar (insert s (sc_of ar ` S))" and new: "s \<notin> sc_of ar ` S"
    and i: "map_find sec (s_end s) = None \<or> map_find sec (s_end s) = Some i"
  shows "head_of (relinked ar s v q D) (insert (length ar) S) (s_end s) (new_head ar S s i)"
proof -
  note tree = sec_invD(1) [OF inv]
  let ?ar = "relinked ar s v q D" and ?k = "length ar"
  have sc: "n \<in> S \<Longrightarrow> sc_of ?ar n = sc_of ar n" for n using tree_invD(1) [OF tree] by simp
  note swf = new_scope_nested(2) [OF lam]
  show ?thesis
  proof (cases "same_end_inside ar S s = {}")
    case True
    have "scope_contains (sc_of ar m) s" if m: "m \<in> S" "s_end (sc_of ar m) = s_end s" for m
    proof (rule ccontr)
      assume "\<not> scope_contains (sc_of ar m) s"
      then have "strictly_in (sc_of ar m) s"
        using same_end_nested [OF swf [OF m(1)] tree_invD(2) [OF tree m(1)]] m new
        by (auto simp: strictly_in_def)
      then obtain p where p: "maximal_in (sc_of ar) S s p" "scope_contains (sc_of ar p) (sc_of ar m)"
        using maximal_in_exists [OF tree m(1)] by blast
      then have "s_end (sc_of ar p) = s_end s"
        using m(2) by (auto simp: maximal_in_def strictly_in_def scope_contains_def)
      with p(1) True show False by (auto simp: same_end_inside_def)
    qed
    then show ?thesis using True sc by (auto simp: head_of_def new_head_def)
  next
    case False
    then obtain p where p: "p \<in> S" "strictly_in (sc_of ar p) s" "s_end (sc_of ar p) = s_end s"
      by (auto simp: same_end_inside_def maximal_in_def)
    obtain j where "(s_end s, j) \<in> set sec" using sec_invD(4) [OF inv p(1)] p(3) by auto
    then have "map_find sec (s_end s) = Some j" using map_find_iff_mem [OF sec_invD(2) [OF inv]] by simp
    with i have e: "(s_end s, i) \<in> set sec" using map_find_iff_mem [OF sec_invD(2) [OF inv]] by auto
    obtain h where h: "h \<in> S" "i = int h" "s_end (sc_of ar h) = s_end s"
      "\<forall>m \<in> S. s_end (sc_of ar m) = s_end s \<longrightarrow> scope_contains (sc_of ar m) (sc_of ar h)"
      using sec_invD(3) [OF inv e] by (auto simp: head_of_def)
    have "scope_contains s (sc_of ar h)"
      using h(4) p scope_contains_trans unfolding strictly_in_def by blast
    then show ?thesis using False h sc by (auto simp: head_of_def new_head_def)
  qed
qed

lemma sec_rep_insert:
  assumes rep: "sec_rep ar S sec A" and lam: "laminar (insert s (sc_of ar ` S))" and new: "s \<notin> sc_of ar ` S"
    and par: "parent_link (sc_of ar) S s q"
    and i: "map_find sec (s_end s) = None \<or> map_find sec (s_end s) = Some i"
  shows "sec_rep (relinked ar s v q {n. maximal_in (sc_of ar) S s n}) (insert (length ar) S)
    (map_put sec (s_end s) (new_head ar S s i)) (A(s \<mapsto> v))"
proof -
  have inv: "sec_inv ar S sec" using rep by (simp add: sec_rep_def)
  note tree = sec_invD(1) [OF inv] and ok = sec_invD(2) [OF inv]
  let ?ar = "relinked ar s v q {n. maximal_in (sc_of ar) S s n}" and ?k = "length ar"
  let ?sec = "map_put sec (s_end s) (new_head ar S s i)"
  have S: "n \<in> S \<Longrightarrow> n < ?k" for n using tree_invD(1) [OF tree] .
  have sc: "n \<in> S \<Longrightarrow> sc_of ?ar n = sc_of ar n \<and> uv_value (?ar ! n) = uv_value (ar ! n)" for n using S by simp
  have "head_of ?ar (insert ?k S) e j" if "(e, j) \<in> set ?sec" for e j
  proof (cases "e = s_end s")
    case True
    with that have "j = new_head ar S s i" by (auto simp: set_map_put [OF ok])
    with True new_head_spec [OF inv lam new i] show ?thesis by simp
  next
    case False
    with that have "head_of ar S e j" using sec_invD(3) [OF inv] by (auto simp: set_map_put [OF ok])
    with False sc show ?thesis by (auto simp: head_of_def)
  qed
  moreover have "\<exists>j. (s_end (sc_of ?ar n), j) \<in> set ?sec" if "n \<in> insert ?k S" for n
  proof (cases "n = ?k")
    case True
    then show ?thesis by (auto simp: set_map_put [OF ok])
  next
    case False
    with that obtain j where "(s_end (sc_of ar n), j) \<in> set sec" "n \<in> S" using sec_invD(4) [OF inv] by blast
    with sc [of n] show ?thesis by (auto simp: set_map_put [OF ok])
  qed
  moreover have "tree_inv ?ar (insert ?k S)" using tree_inv_relinked [OF tree lam new par] .
  ultimately have "sec_inv ?ar (insert ?k S) ?sec" using ok by (auto simp: sec_inv_def)
  moreover have "(A(s \<mapsto> v)) s' = Some v' \<longleftrightarrow>
      (\<exists>n \<in> insert ?k S. sc_of ?ar n = s' \<and> uv_value (?ar ! n) = v')" for s' v'
  proof -
    have A: "A s' = Some v' \<longleftrightarrow> (\<exists>n \<in> S. sc_of ar n = s' \<and> uv_value (ar ! n) = v')"
      using rep by (simp add: sec_rep_def)
    have "(\<exists>n \<in> S. sc_of ?ar n = s' \<and> uv_value (?ar ! n) = v') \<longleftrightarrow>
        (\<exists>n \<in> S. sc_of ar n = s' \<and> uv_value (ar ! n) = v')"
      using sc by metis
    then show ?thesis using A new by auto
  qed
  ultimately show ?thesis by (simp add: sec_rep_def)
qed

text \<open>Overwriting the value of an existing node keeps the section.\<close>

lemma sec_rep_set_value:
  assumes rep: "sec_rep ar S sec A" and d: "d \<in> S"
    and ar': "ar' = ar[d := (ar ! d)\<lparr>uv_value := v\<rparr>]"
  shows "sec_rep ar' S sec (A(sc_of ar d \<mapsto> v))"
proof -
  have inv: "sec_inv ar S sec" using rep by (simp add: sec_rep_def)
  note tree = sec_invD(1) [OF inv]
  have dl: "d < length ar" using tree_invD(1) [OF tree d] .
  have sc: "sc_of ar' n = sc_of ar n" "uv_prev (ar' ! n) = uv_prev (ar ! n)" for n
    using dl by (cases "n = d"; simp add: ar')+
  have val: "uv_value (ar' ! n) = (if n = d then v else uv_value (ar ! n))" for n
    using dl by (cases "n = d") (simp_all add: ar')
  have "sec_inv ar' S sec"
    using inv by (simp add: sec_inv_def tree_inv_def head_of_def sc) (simp add: ar')
  moreover have "(A(sc_of ar d \<mapsto> v)) s' = Some v' \<longleftrightarrow>
      (\<exists>n \<in> S. sc_of ar' n = s' \<and> uv_value (ar' ! n) = v')" for s' v'
  proof -
    have "A s' = Some v' \<longleftrightarrow> (\<exists>n \<in> S. sc_of ar n = s' \<and> uv_value (ar ! n) = v')"
      using rep by (simp add: sec_rep_def)
    moreover have "n \<in> S \<and> sc_of ar n = sc_of ar d \<longleftrightarrow> n = d" for n
      using tree_inv_inj [OF tree _ d] d by blast
    ultimately show ?thesis
      unfolding sc(1) val by (cases "s' = sc_of ar d") (auto split: if_splits)
  qed
  ultimately show ?thesis by (simp add: sec_rep_def)
qed

subsection \<open>Iteration along the links\<close>

lemma it_range_end: "it_range ar (-1) = Some []"
  by (subst it_range.simps) simp

text \<open>An iteration from a node visits the nodes that cover it, from the inside out.\<close>

fun uv_chain :: "'v up_value list \<Rightarrow> int \<Rightarrow> nat list \<Rightarrow> bool" where
  "uv_chain ar ai [] \<longleftrightarrow> ai = -1"
| "uv_chain ar ai (n # ns) \<longleftrightarrow> ai = int n \<and> n < length ar \<and> uv_chain ar (uv_prev (ar ! n)) ns"

lemma uv_chain_range: "uv_chain ar ai ns \<Longrightarrow> it_range ar ai = Some (map ((!) ar) ns)"
proof (induction ns arbitrary: ai)
  case (Cons n ns)
  then show ?case by (subst it_range.simps) simp
qed (simp add: it_range_end)

lemma uv_chain_above:
  assumes inv: "tree_inv ar S" and "n \<in> S"
  shows "\<exists>ns. uv_chain ar (int n) ns \<and> set ns = above (sc_of ar) S n \<and>
    sorted_wrt (\<lambda>a b. strictly_in (sc_of ar a) (sc_of ar b)) ns"
  using assms
proof (induction rule: uplink_induct)
  case (root n)
  then have "n < length ar" using tree_invD(1) [OF inv] by blast
  then show ?case
    using root above_root [OF inv] by (intro exI [of _ "[n]"]) simp
next
  case (link n p)
  have n: "n < length ar" using link.hyps tree_invD(1) [OF inv] by blast
  obtain ns where ns: "uv_chain ar (int p) ns" "set ns = above (sc_of ar) S p"
    "sorted_wrt (\<lambda>a b. strictly_in (sc_of ar a) (sc_of ar b)) ns"
    using link.IH by blast
  have "strictly_in (sc_of ar n) (sc_of ar p)"
    using tree_invD(3) [OF inv link.hyps(1)] link.hyps(3) by (auto simp: parent_link_def)
  then have "\<forall>m \<in> set ns. strictly_in (sc_of ar n) (sc_of ar m)"
    unfolding ns(2) by (auto simp: above_def intro: strictly_in_le_trans2)
  moreover have "uv_chain ar (int n) (n # ns)" using n ns(1) link.hyps(3) by simp
  ultimately show ?case
    using ns(2,3) above_parent(1) [OF inv link.hyps(1-3)] by (intro exI [of _ "n # ns"]) simp
qed

lemma it_range_spec:
  assumes "tree_inv ar S" and "n \<in> S"
  shows "\<exists>ns. it_range ar (int n) = Some (map ((!) ar) ns) \<and> set ns = above (sc_of ar) S n \<and>
    sorted_wrt (\<lambda>a b. strictly_in (sc_of ar a) (sc_of ar b)) ns"
  using uv_chain_above [OF assms] uv_chain_range by blast

end
