(* ===== verification/ScopedStore.thy ===== *)
theory ScopedStore
  imports Sections
begin

text \<open>
  \<open>ScopedInstance\<close> and \<open>ScopedMap\<close> of \<open>src/scope.hpp\<close>, the interface they provide to the type
  database (the locale \<open>scoped_store\<close>) and its interpretation on both.
\<close>

subsection \<open>ScopedInstance\<close>

record 'v scoped_instance =
  si_map :: "(int, int) std_map"
  si_tree :: "'v inv_tree"

definition si_new :: "'v \<Rightarrow> 'v scoped_instance" where
  "si_new nullval = \<lparr>si_map = [], si_tree = it_new nullval\<rparr>"

definition si_set :: "scope \<Rightarrow> 'v \<Rightarrow> 'v scoped_instance \<Rightarrow> 'v scoped_instance run" where
  "si_set scope value si =
     bindR (liftR (case map_upper_bound (si_map si) (s_end scope) of
         [] \<Rightarrow> Some (-1)
       | (_, ri) # _ \<Rightarrow> right_neighbor_up_link (si_tree si) ri scope)) (\<lambda>uplink.
     case map_insert (si_map si) (s_end scope) (next_index (si_tree si)) of (m, idx, inserted) \<Rightarrow>
     bindR (if inserted then
              (case push_up_value (si_tree si) scope value uplink of (t, newindex) \<Rightarrow> returnR (m, t, newindex))
            else
              bindR (insert_up_value (si_tree si) idx scope value uplink False)
                (\<lambda>(t, idx', newindex, _). returnR (map_put m (s_end scope) idx', t, newindex)))
       (\<lambda>(m, t, newindex).
         if newindex \<ge> 0 then
           (case map_upper_bound m (s_start scope) of
              [] \<Rightarrow> throwR logic_error
            | e # es \<Rightarrow>
                bindR (liftR (link_left_loop (\<lambda>k. k = s_end scope) scope newindex (e # es) t))
                  (\<lambda>t. returnR \<lparr>si_map = m, si_tree = t\<rparr>))
         else returnR \<lparr>si_map = m, si_tree = t\<rparr>))"

definition si_get :: "'v scoped_instance \<Rightarrow> int \<Rightarrow> 'v option" where
  "si_get si step =
     (case map_upper_bound (si_map si) step of
        [] \<Rightarrow> Some (it_nullval (si_tree si))
      | (_, i) # _ \<Rightarrow> get_inner_value (si_tree si) i step)"

definition si_get_this :: "'v scoped_instance \<Rightarrow> scope \<Rightarrow> 'v option" where
  "si_get_this si scope =
     (case map_find (si_map si) (s_end scope) of
        None \<Rightarrow> Some (it_nullval (si_tree si))
      | Some i \<Rightarrow> find_up_value (si_tree si) i scope)"

subsection \<open>ScopedMap\<close>

record ('k, 'v) scoped_map =
  sm_map :: "('k scoped_key, int) std_map"
  sm_tree :: "'v inv_tree"

definition sm_new :: "'v \<Rightarrow> ('k, 'v) scoped_map" where
  "sm_new nullval = \<lparr>sm_map = [], sm_tree = it_new nullval\<rparr>"

text \<open>The parts \<open>set\<close> and \<open>getOrSet\<close> have in common: the uplink before and the relinking after.\<close>

definition sm_uplink :: "('k::linorder, 'v) scoped_map \<Rightarrow> scope \<Rightarrow> 'k \<Rightarrow> int option" where
  "sm_uplink sm scope key =
     (case map_upper_bound (sm_map sm) (ScopedKey key (s_end scope)) of
        [] \<Rightarrow> Some (-1)
      | (sk, ri) # _ \<Rightarrow>
          if sk_key sk \<noteq> key then Some (-1) else right_neighbor_up_link (sm_tree sm) ri scope)"

definition sm_link_left ::
    "scope \<Rightarrow> 'k::linorder \<Rightarrow> int \<Rightarrow> ('k scoped_key, int) std_map \<Rightarrow> 'v inv_tree \<Rightarrow> 'v inv_tree run" where
  "sm_link_left scope key newindex m t =
     (case map_upper_bound m (ScopedKey key (s_start scope)) of
        [] \<Rightarrow> throwR logic_error
      | (sk, i) # es \<Rightarrow>
          if sk_key sk \<noteq> key then throwR logic_error
          else liftR (link_left_loop (\<lambda>sk. sk_end sk = s_end scope) scope newindex ((sk, i) # es) t))"

definition sm_set :: "scope \<Rightarrow> 'k::linorder \<Rightarrow> 'v \<Rightarrow> ('k, 'v) scoped_map \<Rightarrow> (('k, 'v) scoped_map \<times> bool) run" where
  "sm_set scope key value sm =
     bindR (liftR (sm_uplink sm scope key)) (\<lambda>uplink.
     case map_insert (sm_map sm) (ScopedKey key (s_end scope)) (next_index (sm_tree sm)) of (m, idx, inserted) \<Rightarrow>
     bindR (if inserted then
              (case push_up_value (sm_tree sm) scope value uplink of (t, newindex) \<Rightarrow> returnR (m, t, newindex))
            else
              bindR (insert_up_value (sm_tree sm) idx scope value uplink True)
                (\<lambda>(t, idx', newindex, _). returnR (map_put m (ScopedKey key (s_end scope)) idx', t, newindex)))
       (\<lambda>(m, t, newindex).
         if newindex \<ge> 0 then
           bindR (sm_link_left scope key newindex m t) (\<lambda>t. returnR (\<lparr>sm_map = m, sm_tree = t\<rparr>, True))
         else if \<not> inserted then returnR (\<lparr>sm_map = m, sm_tree = t\<rparr>, False)
         else returnR (\<lparr>sm_map = m, sm_tree = t\<rparr>, True)))"

definition sm_get_or_set :: "scope \<Rightarrow> 'k::linorder \<Rightarrow> 'v \<Rightarrow> ('k, 'v) scoped_map \<Rightarrow> (('k, 'v) scoped_map \<times> 'v) run" where
  "sm_get_or_set scope key value sm =
     bindR (liftR (sm_uplink sm scope key)) (\<lambda>uplink.
     case map_insert (sm_map sm) (ScopedKey key (s_end scope)) (next_index (sm_tree sm)) of (m, idx, inserted) \<Rightarrow>
     bindR (if inserted then
              (case push_up_value (sm_tree sm) scope value uplink of
                 (t, newindex) \<Rightarrow> returnR (m, t, newindex, it_nullval (sm_tree sm)))
            else
              bindR (insert_up_value (sm_tree sm) idx scope value uplink True)
                (\<lambda>(t, idx', newindex, oldval).
                   returnR (map_put m (ScopedKey key (s_end scope)) idx', t, newindex,
                     case oldval of None \<Rightarrow> it_nullval (sm_tree sm) | Some v \<Rightarrow> v)))
       (\<lambda>(m, t, newindex, rt).
         if newindex \<ge> 0 then
           bindR (sm_link_left scope key newindex m t) (\<lambda>t. returnR (\<lparr>sm_map = m, sm_tree = t\<rparr>, rt))
         else returnR (\<lparr>sm_map = m, sm_tree = t\<rparr>, rt)))"

definition sm_get :: "('k::linorder, 'v) scoped_map \<Rightarrow> int \<Rightarrow> 'k \<Rightarrow> 'v option" where
  "sm_get sm step key =
     (case map_upper_bound (sm_map sm) (ScopedKey key step) of
        [] \<Rightarrow> Some (it_nullval (sm_tree sm))
      | (sk, i) # _ \<Rightarrow>
          if sk_key sk = key then get_inner_value (sm_tree sm) i step
          else Some (it_nullval (sm_tree sm)))"

definition sm_get_def :: "('k, 'v) scoped_map \<Rightarrow> scope \<Rightarrow> 'k \<Rightarrow> 'v option" where
  "sm_get_def sm scope key =
     (case map_find (sm_map sm) (ScopedKey key (s_end scope)) of
        None \<Rightarrow> Some (it_nullval (sm_tree sm))
      | Some i \<Rightarrow> find_up_value (sm_tree sm) i scope)"

text \<open>\<open>match_range\<close>: the first iterator of the range; the second is \<open>end()\<close>.\<close>

definition sm_match_range :: "('k::linorder, 'v) scoped_map \<Rightarrow> int \<Rightarrow> 'k \<Rightarrow> int option" where
  "sm_match_range sm step key =
     (case map_upper_bound (sm_map sm) (ScopedKey key step) of
        [] \<Rightarrow> Some (-1)
      | (sk, i) # _ \<Rightarrow> if sk_key sk = key then it_first (sm_tree sm) i step else Some (-1))"

subsection \<open>The interface\<close>

text \<open>
  \<open>rep s A\<close>: the store \<open>s\<close> holds for each name \<open>k\<close> the definitions \<open>A k\<close>. \<open>upd\<close> says what a
  repeated definition does. As long as the scopes of a name are hierarchical, a definition is
  accepted and a lookup finds the innermost definition that covers the step.
\<close>

locale scoped_store =
  fixes rep :: "'s \<Rightarrow> ('k \<Rightarrow> scope \<rightharpoonup> 'v) \<Rightarrow> bool"
    and new :: 's
    and def_in :: "scope \<Rightarrow> 'k \<Rightarrow> 'v \<Rightarrow> 's \<Rightarrow> 's run"
    and lookup :: "'s \<Rightarrow> int \<Rightarrow> 'k \<Rightarrow> 'v option"
    and nullval :: 'v
    and upd :: "(scope \<rightharpoonup> 'v) \<Rightarrow> scope \<Rightarrow> 'v \<Rightarrow> (scope \<rightharpoonup> 'v)"
  assumes rep_new: "rep new (\<lambda>_. Map.empty)"
    and rep_def: "rep s A \<Longrightarrow> laminar (insert sc (dom (A k))) \<Longrightarrow>
      \<exists>s'. def_in sc k v s = returnR s' \<and> rep s' (A(k := upd (A k) sc v))"
    and rep_lookup: "rep s A \<Longrightarrow>
      \<exists>r. lookup s step k = Some (case r of None \<Rightarrow> nullval | Some v \<Rightarrow> v) \<and> visible (A k) step r"
    and dom_upd: "dom (upd B sc v) = insert sc (dom B)"
begin

abbreviation step_def :: "scope \<times> 'k \<times> 'v \<Rightarrow> 's \<Rightarrow> 's run" where
  "step_def \<equiv> (\<lambda>(sc, k, v). def_in sc k v)"

lemma run_rep:
  assumes "rep s A" "\<And>k. laminar (dom (A k) \<union> {sc. \<exists>v. (sc, k, v) \<in> set ds})"
  shows "\<exists>s'. runR step_def ds s = returnR s' \<and>
    rep s' (fold (\<lambda>(sc, k, v) A. A(k := upd (A k) sc v)) ds A)"
  using assms
proof (induction ds arbitrary: s A)
  case Nil
  then show ?case by auto
next
  case (Cons d ds)
  obtain sc k v where d: "d = (sc, k, v)" by (cases d) auto
  let ?A = "A(k := upd (A k) sc v)"
  have "laminar (insert sc (dom (A k)))"
    by (rule laminar_subset [OF Cons.prems(2) [of k]]) (auto simp: d)
  then obtain s' where s': "def_in sc k v s = returnR s'" "rep s' ?A"
    using rep_def [OF Cons.prems(1)] by blast
  have "laminar (dom (?A k') \<union> {sc. \<exists>v. (sc, k', v) \<in> set ds})" for k'
  proof (rule laminar_subset [OF Cons.prems(2) [of k']], rule subsetI)
    fix x
    assume "x \<in> dom (?A k') \<union> {sc. \<exists>v. (sc, k', v) \<in> set ds}"
    then show "x \<in> dom (A k') \<union> {sc. \<exists>v. (sc, k', v) \<in> set (d # ds)}"
      using dom_upd [of "A k" sc v] by (cases "k' = k") (auto simp: d)
  qed
  from Cons.IH [OF s'(2) this] s'(1) show ?case by (simp add: d)
qed

lemma lookup_after_run:
  assumes "\<And>k. laminar {sc. \<exists>v. (sc, k, v) \<in> set ds}"
  shows "\<exists>s r. runR step_def ds new = returnR s \<and>
    lookup s step k = Some (case r of None \<Rightarrow> nullval | Some v \<Rightarrow> v) \<and>
    visible (fold (\<lambda>(sc, k, v) A. A(k := upd (A k) sc v)) ds (\<lambda>_. Map.empty) k) step r"
proof -
  obtain s where s: "runR step_def ds new = returnR s"
    "rep s (fold (\<lambda>(sc, k, v) A. A(k := upd (A k) sc v)) ds (\<lambda>_. Map.empty))"
    using run_rep [OF rep_new, of ds] assms by auto
  then show ?thesis using rep_lookup [OF s(2), of step k] by blast
qed

end

lemma innermost_unique: "innermost A step s \<Longrightarrow> innermost A step s' \<Longrightarrow> s = s'"
  by (auto simp: innermost_def intro: scope_contains_antisym)

lemma visible_Some: "visible A step (Some v) \<longleftrightarrow> (\<exists>s. innermost A step s \<and> A s = Some v)"
  by (simp add: visible_def)

lemma visible_None: "visible A step None \<Longrightarrow> \<not> innermost A step s"
  by (auto simp: visible_def innermost_def)

lemma visible_unique: "visible A step r \<Longrightarrow> visible A step r' \<Longrightarrow> r = r'"
  by (cases r; cases r') (auto simp: visible_Some dest: visible_None innermost_unique)

subsection \<open>Both updates on a section\<close>

lemma sec_step_new:
  assumes rep: "sec_rep ar S sec A" and t: "it_ar t = ar"
    and lam: "laminar (insert s (dom A))" and new: "A s = None"
  shows "\<exists>uplink q. sec_uplink t sec s = Some uplink \<and> parent_link (sc_of ar) S s q \<and>
    (map_find sec (s_end s) = None \<longrightarrow>
       push_up_value t s v uplink = (t\<lparr>it_ar := relinked ar s v q (same_end_inside ar S s)\<rparr>, int (length ar)) \<and>
       (\<forall>i. new_head ar S s i = int (length ar))) \<and>
    (\<forall>i b. map_find sec (s_end s) = Some i \<longrightarrow>
       insert_up_value t i s v uplink b =
         returnR (t\<lparr>it_ar := relinked ar s v q (same_end_inside ar S s)\<rparr>, new_head ar S s i, int (length ar), None))"
proof -
  have inv: "sec_inv ar S sec" using rep by (simp add: sec_rep_def)
  note tree = sec_invD(1) [OF inv]
  have dom: "dom A = sc_of ar ` S" using sec_rep_dom [OF rep] .
  have lam': "laminar (insert s (sc_of ar ` S))" and new': "s \<notin> sc_of ar ` S"
    using lam new by (auto simp: dom [symmetric])
  have wf: "scope_wf s" using lam by (simp add: laminar_def)
  obtain u where u: "sec_uplink t sec s = Some u" "right_parent ar S s u"
    using sec_uplink_right_parent [OF inv t wf] by blast
  show ?thesis
  proof (cases "map_find sec (s_end s)")
    case None
    have fresh: "m \<in> S \<Longrightarrow> s_end (sc_of ar m) \<noteq> s_end s" for m
      using sec_invD(4) [OF inv] None by (fastforce simp: map_find_None_iff image_iff)
    then have "same_end_inside ar S s = {}" by (auto simp: same_end_inside_def maximal_in_def)
    with u right_parent_fresh [OF u(2) fresh] None t show ?thesis
      by (intro exI [of _ u]) (simp add: push_up_value_def relinked_empty new_head_def)
  next
    case (Some i)
    have "head_of ar S (s_end s) i"
      using sec_invD(2,3) [OF inv] Some by (simp add: map_find_iff_mem)
    from insert_up_value_new [OF tree t this lam' new' u(2)]
    obtain q where q: "parent_link (sc_of ar) S s q" "\<forall>b. insert_up_value t i s v u b =
      returnR (t\<lparr>it_ar := relinked ar s v q (same_end_inside ar S s)\<rparr>, new_head ar S s i, int (length ar), None)"
      by blast
    with u Some show ?thesis by (intro exI [of _ u] exI [of _ q]) simp
  qed
qed

lemma sec_rep_step:
  assumes rep: "sec_rep ar S sec A" and lam: "laminar (insert s (dom A))" and new: "A s = None"
    and par: "parent_link (sc_of ar) S s q"
    and i: "map_find sec (s_end s) = None \<or> map_find sec (s_end s) = Some i"
  shows "sec_rep (relinked ar s v q {n. maximal_in (sc_of ar) S s n}) (insert (length ar) S)
    (map_put sec (s_end s) (new_head ar S s i)) (A(s \<mapsto> v))"
proof (rule sec_rep_insert [OF rep _ _ par i])
  show "laminar (insert s (sc_of ar ` S))" "s \<notin> sc_of ar ` S"
    using lam new sec_rep_dom [OF rep] by auto
qed

lemma sec_step_old:
  assumes rep: "sec_rep ar S sec A" and t: "it_ar t = ar" and old: "A s = Some w"
  shows "\<exists>i d. map_find sec (s_end s) = Some i \<and> d \<in> S \<and> sc_of ar d = s \<and> d < length ar \<and>
    (\<forall>v uplink b. insert_up_value t i s v uplink b =
       returnR (if b then (t, i, -1, Some w) else (set_value t (int d) v, i, -1, None)))"
proof -
  have inv: "sec_inv ar S sec" using rep by (simp add: sec_rep_def)
  note tree = sec_invD(1) [OF inv]
  obtain d where d: "d \<in> S" "sc_of ar d = s" "uv_value (ar ! d) = w"
    using rep old by (auto simp: sec_rep_def)
  obtain i where i: "(s_end s, i) \<in> set sec" using sec_invD(4) [OF inv d(1)] d(2) by auto
  have "insert_up_value t i s v uplink b =
      returnR (if b then (t, i, -1, Some w) else (set_value t (int d) v, i, -1, None))" for v uplink b
    using insert_up_value_old [OF tree t sec_invD(3) [OF inv i] d(1,2)] d(3) by simp
  then show ?thesis
    using i d tree_invD(1) [OF tree d(1)] map_find_iff_mem [OF sec_invD(2) [OF inv]] by blast
qed

lemma sec_uplink_total:
  assumes rep: "sec_rep ar S sec A" and t: "it_ar t = ar" and wf: "scope_wf s"
  shows "\<exists>u. sec_uplink t sec s = Some u"
  using sec_uplink_right_parent [of ar S sec t s] t wf rep by (auto simp: sec_rep_def)

lemma map_put_same: "map_ok m \<Longrightarrow> map_find m k = Some v \<Longrightarrow> map_put m k v = m"
  by (induction m k v rule: map_put.induct)
    (auto simp: map_ok_Cons map_find_def split: if_splits dest!: map_of_SomeD)

lemma map_put_put: "map_ok m \<Longrightarrow> map_put (map_put m k v) k w = map_put m k w"
  by (induction m k v rule: map_put.induct) (auto simp: map_ok_Cons)

subsection \<open>ScopedInstance provides the interface\<close>

definition si_rep :: "'v \<Rightarrow> 'v scoped_instance \<Rightarrow> (scope \<rightharpoonup> 'v) \<Rightarrow> bool" where
  "si_rep nullval si A \<longleftrightarrow>
     it_nullval (si_tree si) = nullval \<and>
     sec_rep (it_ar (si_tree si)) {..<length (it_ar (si_tree si))} (si_map si) A"

lemma sec_rep_empty: "sec_rep [] {} [] Map.empty"
  by (simp add: sec_rep_def sec_inv_def tree_inv_def)

lemma si_rep_new: "si_rep nullval (si_new nullval) Map.empty"
  using sec_rep_empty by (simp add: si_rep_def si_new_def it_new_def)

lemma si_set_sec_uplink:
  "si_set scope value si =
     bindR (liftR (sec_uplink (si_tree si) (si_map si) scope)) (\<lambda>uplink.
     case map_insert (si_map si) (s_end scope) (next_index (si_tree si)) of (m, idx, inserted) \<Rightarrow>
     bindR (if inserted then
              (case push_up_value (si_tree si) scope value uplink of (t, newindex) \<Rightarrow> returnR (m, t, newindex))
            else
              bindR (insert_up_value (si_tree si) idx scope value uplink False)
                (\<lambda>(t, idx', newindex, _). returnR (map_put m (s_end scope) idx', t, newindex)))
       (\<lambda>(m, t, newindex).
         if newindex \<ge> 0 then
           (case map_upper_bound m (s_start scope) of
              [] \<Rightarrow> throwR logic_error
            | e # es \<Rightarrow>
                bindR (liftR (link_left_loop (\<lambda>k. k = s_end scope) scope newindex (e # es) t))
                  (\<lambda>t. returnR \<lparr>si_map = m, si_tree = t\<rparr>))
         else returnR \<lparr>si_map = m, si_tree = t\<rparr>))"
  by (simp add: si_set_def sec_uplink_def)

lemma si_set_rep:
  assumes rep: "si_rep nullval si A" and lam: "laminar (insert s (dom A))"
  shows "\<exists>si'. si_set s v si = returnR si' \<and> si_rep nullval si' (A(s \<mapsto> v))"
proof -
  let ?t = "si_tree si" and ?sec = "si_map si"
  let ?ar = "it_ar ?t"
  let ?S = "{..<length ?ar}"
  have sec: "sec_rep ?ar ?S ?sec A" and null: "it_nullval ?t = nullval" using rep by (auto simp: si_rep_def)
  then have inv: "sec_inv ?ar ?S ?sec" by (simp add: sec_rep_def)
  have ok: "map_ok ?sec" using sec_invD(2) [OF inv] .
  have wf: "scope_wf s" using lam by (simp add: laminar_def)
  show ?thesis
  proof (cases "A s")
    case (Some w)
    obtain u where u: "sec_uplink ?t ?sec s = Some u" using sec_uplink_total [OF sec refl wf] by blast
    obtain i d where d: "map_find ?sec (s_end s) = Some i" "d \<in> ?S" "sc_of ?ar d = s" "d < length ?ar"
      "\<forall>v uplink b. insert_up_value ?t i s v uplink b =
         returnR (if b then (?t, i, -1, Some w) else (set_value ?t (int d) v, i, -1, None))"
      using sec_step_old [OF sec refl Some] by blast
    have "si_set s v si = returnR \<lparr>si_map = ?sec, si_tree = set_value ?t (int d) v\<rparr>"
      using u d by (simp add: si_set_sec_uplink map_insert_def map_put_same [OF ok])
    moreover have "si_rep nullval \<lparr>si_map = ?sec, si_tree = set_value ?t (int d) v\<rparr> (A(s \<mapsto> v))"
      using sec_rep_set_value [OF sec d(2) refl, of v] null d(3) by (simp add: si_rep_def set_value_def)
    ultimately show ?thesis by blast
  next
    case None
    obtain u q where u: "sec_uplink ?t ?sec s = Some u" "parent_link (sc_of ?ar) ?S s q"
      "map_find ?sec (s_end s) = None \<longrightarrow>
         push_up_value ?t s v u = (?t\<lparr>it_ar := relinked ?ar s v q (same_end_inside ?ar ?S s)\<rparr>, int (length ?ar)) \<and>
         (\<forall>i. new_head ?ar ?S s i = int (length ?ar))"
      "\<forall>i b. map_find ?sec (s_end s) = Some i \<longrightarrow>
         insert_up_value ?t i s v u b =
         returnR (?t\<lparr>it_ar := relinked ?ar s v q (same_end_inside ?ar ?S s)\<rparr>, new_head ?ar ?S s i, int (length ?ar), None)"
      using sec_step_new [OF sec refl lam None, of v] by (elim exE conjE)
    define i where "i = (case map_find ?sec (s_end s) of None \<Rightarrow> 0 | Some i \<Rightarrow> i)"
    let ?m = "map_put ?sec (s_end s) (new_head ?ar ?S s i)"
    let ?t1 = "?t\<lparr>it_ar := relinked ?ar s v q (same_end_inside ?ar ?S s)\<rparr>"
    let ?t2 = "?t\<lparr>it_ar := relinked ?ar s v q {n. maximal_in (sc_of ?ar) ?S s n}\<rparr>"
    have lam': "laminar (insert s (sc_of ?ar ` ?S))" and new': "s \<notin> sc_of ?ar ` ?S"
      using lam None by (auto simp: sec_rep_dom [OF sec, symmetric])
    have "link_left_loop (\<lambda>k. k = s_end s) s (int (length ?ar)) (map_upper_bound ?m (s_start s)) ?t1 =
        Some (?t1\<lparr>it_ar := relinked ?ar s v q {n. maximal_in (sc_of ?ar) ?S s n}\<rparr>)"
      by (rule sec_link_left [OF inv lam' new', where wrap = id and others = "[]"]) auto
    moreover have "map_upper_bound ?m (s_start s) \<noteq> []"
      using wf ok by (auto simp: map_upper_bound_Nil set_map_put scope_wf_def)
    then obtain e es where e: "map_upper_bound ?m (s_start s) = e # es" by (meson list.exhaust)
    ultimately have loop: "link_left_loop (\<lambda>k. k = s_end s) s (int (length ?ar)) (e # es) ?t1 = Some ?t2" by simp
    have "si_set s v si = returnR \<lparr>si_map = ?m, si_tree = ?t2\<rparr>"
    proof (cases "map_find ?sec (s_end s)")
      case no: None
      then show ?thesis
        using u e loop by (simp add: si_set_sec_uplink map_insert_def next_index_def)
    next
      case (Some j)
      then show ?thesis
        using u e loop by (simp add: si_set_sec_uplink map_insert_def next_index_def i_def)
    qed
    moreover have "si_rep nullval \<lparr>si_map = ?m, si_tree = ?t2\<rparr> (A(s \<mapsto> v))"
    proof -
      have i: "map_find ?sec (s_end s) = None \<or> map_find ?sec (s_end s) = Some i"
        by (simp add: i_def split: option.splits)
      show ?thesis
        using sec_rep_step [OF sec lam None u(2) i, of v] null by (simp add: si_rep_def lessThan_Suc)
    qed
    ultimately show ?thesis by blast
  qed
qed

lemma si_get_rep:
  assumes "si_rep nullval si A"
  shows "\<exists>r. si_get si step = Some (case r of None \<Rightarrow> nullval | Some v \<Rightarrow> v) \<and> visible A step r"
proof -
  have sec: "sec_rep (it_ar (si_tree si)) {..<length (it_ar (si_tree si))} (si_map si) A"
    and null: "nullval = it_nullval (si_tree si)"
    using assms by (auto simp: si_rep_def)
  show ?thesis
    using sec_get_visible [OF sec refl, of step] unfolding null si_get_def sec_get_def .
qed

lemma si_get_this_rep:
  assumes "si_rep nullval si A"
  shows "si_get_this si s = Some (case A s of None \<Rightarrow> nullval | Some v \<Rightarrow> v)"
proof -
  let ?ar = "it_ar (si_tree si)"
  have sec: "sec_rep ?ar {..<length ?ar} (si_map si) A" and null: "nullval = it_nullval (si_tree si)"
    using assms by (auto simp: si_rep_def)
  show ?thesis
  proof (cases "map_find (si_map si) (s_end s)")
    case None
    then have "A s = None"
      using sec_step_old [OF sec refl, of s] by (cases "A s") auto
    then show ?thesis using None by (simp add: si_get_this_def null)
  next
    case (Some i)
    then have "(s_end s, i) \<in> set (si_map si)"
      using sec by (simp add: sec_rep_def sec_inv_def map_find_iff_mem)
    then show ?thesis
      unfolding null using find_up_value_spec [OF sec refl] Some by (simp add: si_get_this_def)
  qed
qed

interpretation scoped_inst: scoped_store
  "\<lambda>si A. si_rep nullval si (A ())" "si_new nullval" "\<lambda>sc (_::unit) v. si_set sc v"
  "\<lambda>si step (_::unit). si_get si step" nullval "\<lambda>A sc v. A(sc \<mapsto> v)"
  for nullval
  by unfold_locales (use si_rep_new si_set_rep si_get_rep in auto)

subsection \<open>Properties of ScopedInstance\<close>

text \<open>The last definition of a list for a scope.\<close>

definition last_in :: "(scope \<times> 'v) list \<Rightarrow> (scope \<rightharpoonup> 'v)" where
  "last_in ds = map_of (rev ds)"

lemma fold_last_def: "fold (\<lambda>(sc, v) A. A(sc \<mapsto> v)) ds A = A ++ last_in ds"
proof (induction ds arbitrary: A)
  case (Cons d ds)
  then show ?case by (cases d) (simp add: last_in_def map_add_def fun_eq_iff split: option.splits)
qed (simp add: last_in_def)

lemma si_after_run:
  assumes "si_rep nullval si A" "laminar (dom A \<union> fst ` set ds)"
  shows "\<exists>si'. runR (\<lambda>(sc, v). si_set sc v) ds si = returnR si' \<and> si_rep nullval si' (A ++ last_in ds)"
proof -
  let ?ds = "map (\<lambda>(sc, v). (sc, (), v)) ds"
  have "runR (\<lambda>(sc, _, v). si_set sc v) ?ds = runR (\<lambda>(sc, v). si_set sc v) ds"
    by (induction ds) (rule ext, auto)+
  then have run: "runR (\<lambda>(sc, _, v). si_set sc v) ?ds si = runR (\<lambda>(sc, v). si_set sc v) ds si" by simp
  have "fold (\<lambda>(sc, k, v) A. A(k := (A k)(sc \<mapsto> v))) ?ds A () = fold (\<lambda>(sc, v) A. A(sc \<mapsto> v)) ds (A ())" for A :: "unit \<Rightarrow> scope \<rightharpoonup> 'a"
    by (induction ds arbitrary: A) auto
  moreover have "{sc. \<exists>v. (sc, k, v) \<in> set ?ds} = fst ` set ds" for k by (cases k) force
  ultimately show ?thesis
    using scoped_inst.run_rep [of nullval si "\<lambda>_. A" ?ds] assms run by (simp add: fold_last_def)
qed

text \<open>
  C15: A reduction list, a type tree, any value kept in a \<open>ScopedInstance\<close>: after any sequence of
  definitions with hierarchical scopes, all accepted, \<open>get\<close> at a step returns the last value given
  to the innermost scope that covers the step, or the null value if there is none.
\<close>

theorem scoped_instance_lookup:
  assumes "laminar (fst ` set ds)"
  shows "\<exists>si r. runR (\<lambda>(sc, v). si_set sc v) ds (si_new nullval) = returnR si \<and>
    si_get si step = Some (case r of None \<Rightarrow> nullval | Some v \<Rightarrow> v) \<and> visible (last_in ds) step r"
  using si_after_run [OF si_rep_new, of ds nullval] si_get_rep [of nullval _ "last_in ds" step] assms by auto

lemma scoped_instance_lookup_witness:
  "\<exists>si r. runR (\<lambda>(sc, v). si_set sc v) [(Scope 0 9, ''a''), (Scope 2 5, ''b''), (Scope 1 9, ''c'')] (si_new []) = returnR si \<and>
    si_get si 1 = Some (case r of None \<Rightarrow> [] | Some v \<Rightarrow> v) \<and>
    visible (last_in [(Scope 0 9, ''a''), (Scope 2 5, ''b''), (Scope 1 9, ''c'')]) 1 r"
  by (rule scoped_instance_lookup) (simp add: laminar_def scope_wf_def scopes_nested_def scope_contains_def)

text \<open>
  \<open>getThis\<close> after any sequence of definitions with hierarchical scopes returns the last value
  given to exactly the scope asked for, or the null value if the scope has no value of its own.
\<close>

theorem scoped_instance_get_this:
  assumes "laminar (fst ` set ds)"
  shows "\<exists>si. runR (\<lambda>(sc, v). si_set sc v) ds (si_new nullval) = returnR si \<and>
    si_get_this si s = Some (case map_of (rev ds) s of None \<Rightarrow> nullval | Some v \<Rightarrow> v)"
  using si_after_run [OF si_rep_new, of ds nullval] si_get_this_rep [of nullval _ "last_in ds" s] assms
  by (auto simp: last_in_def)

lemma scoped_instance_get_this_witness:
  "\<exists>si. runR (\<lambda>(sc, v). si_set sc v) [(Scope 0 9, ''a''), (Scope 2 9, ''b''), (Scope 0 9, ''c'')] (si_new []) = returnR si \<and>
    si_get_this si (Scope 0 9) = Some ''c''"
  using scoped_instance_get_this [of "[(Scope 0 9, ''a''), (Scope 2 9, ''b''), (Scope 0 9, ''c'')]" "[]" "Scope 0 9"]
  by (simp add: laminar_def scope_wf_def scopes_nested_def scope_contains_def)

end
