(* ===== verification/ScopedMaps.thy ===== *)
theory ScopedMaps
  imports ScopedStore
begin

text \<open>
  \<open>ScopedMap\<close> of \<open>src/scope.hpp\<close> keeps the entries of all names in one map ordered by name and scope
  end, and the nodes of all names in one array. The theory splits the map into the sections of the
  names, lifts the results on sections to it, and interprets the interface \<open>scoped_store\<close> on it.
\<close>

subsection \<open>The section of a name\<close>

definition section_of :: "('k scoped_key, int) std_map \<Rightarrow> 'k \<Rightarrow> (int, int) std_map" where
  "section_of m k = map (\<lambda>p. (sk_end (fst p), snd p)) (filter (\<lambda>p. sk_key (fst p) = k) m)"

abbreviation in_section :: "'k \<Rightarrow> int \<times> int \<Rightarrow> 'k scoped_key \<times> int" where
  "in_section k \<equiv> (\<lambda>(e, i). (ScopedKey k e, i))"

lemma section_of_Nil [simp]: "section_of [] k = []"
  by (simp add: section_of_def)

lemma section_of_Cons [simp]:
  "section_of ((sk, i) # m) k = (if sk_key sk = k then (sk_end sk, i) # section_of m k else section_of m k)"
  by (simp add: section_of_def)

lemma set_section_of: "(e, i) \<in> set (section_of m k) \<longleftrightarrow> (ScopedKey k e, i) \<in> set m"
proof
  assume "(ScopedKey k e, i) \<in> set m"
  then show "(e, i) \<in> set (section_of m k)" by (force simp: section_of_def)
qed (auto simp: section_of_def)

lemma map_find_section_of: "map_find (section_of m k) e = map_find m (ScopedKey k e)"
proof (induction m)
  case (Cons p m)
  obtain k' e' i where "p = (ScopedKey k' e', i)" by (metis prod.collapse scoped_key.collapse)
  with Cons show ?case by (auto simp: map_find_def)
qed simp

lemma map_ok_section_of: "map_ok m \<Longrightarrow> map_ok (section_of m k)"
proof (induction m)
  case (Cons p m)
  obtain k' e' i where p: "p = (ScopedKey k' e', i)" by (metis prod.collapse scoped_key.collapse)
  have ok: "\<forall>q \<in> set m. ScopedKey k' e' < fst q" "map_ok m" using Cons.prems by (auto simp: p map_ok_Cons)
  have "e' < e" if "(e, j) \<in> set (section_of m k')" for e j
    using ok(1) that by (force simp: set_section_of)
  then show ?case using Cons.IH ok(2) by (auto simp: p map_ok_Cons)
qed simp

lemma map_put_front: "\<forall>p \<in> set m. k < fst p \<Longrightarrow> map_put m k v = (k, v) # m"
  by (cases m) auto

lemma section_of_map_put:
  "map_ok m \<Longrightarrow> section_of (map_put m (ScopedKey k e) i) k' =
     (if k' = k then map_put (section_of m k) e i else section_of m k')"
proof (induction m)
  case (Cons p m)
  obtain k1 e1 i1 where p: "p = (ScopedKey k1 e1, i1)" by (metis prod.collapse scoped_key.collapse)
  have ok: "\<forall>q \<in> set m. ScopedKey k1 e1 < fst q" "map_ok m" using Cons.prems by (auto simp: p map_ok_Cons)
  have "map_put (section_of m k) e i = (e, i) # section_of m k" if less: "ScopedKey k e < ScopedKey k1 e1"
  proof (rule map_put_front, clarify)
    fix e2 i2
    assume "(e2, i2) \<in> set (section_of m k)"
    then have "ScopedKey k1 e1 < ScopedKey k e2" using ok(1) by (force simp: set_section_of)
    with less show "e < fst (e2, i2)" by auto
  qed
  then show ?case using Cons.IH [OF ok(2)] by (auto simp: p)
qed simp

lemma map_upper_bound_section_of:
  assumes "map_ok m"
  shows "map_upper_bound m (ScopedKey k x) =
    map (in_section k) (map_upper_bound (section_of m k) x) @ filter (\<lambda>p. k < sk_key (fst p)) m"
  unfolding map_upper_bound_filter [OF assms] map_upper_bound_filter [OF map_ok_section_of [OF assms]]
  using assms
proof (induction m)
  case (Cons p m)
  obtain k1 e1 i1 where p: "p = (ScopedKey k1 e1, i1)" by (metis prod.collapse scoped_key.collapse)
  have ok: "\<forall>q \<in> set m. ScopedKey k1 e1 < fst q" "map_ok m" using Cons.prems by (auto simp: p map_ok_Cons)
  have "section_of m k = []" if less: "k < k1"
  proof (rule ccontr)
    assume "section_of m k \<noteq> []"
    then obtain e2 i2 where "(e2, i2) \<in> set (section_of m k)" by (cases "section_of m k") auto
    then have "ScopedKey k1 e1 < ScopedKey k e2" using ok(1) by (force simp: set_section_of)
    with less show False by auto
  qed
  with Cons.IH [OF ok(2)] show ?case by (auto simp: p)
qed simp

subsection \<open>The operations by section\<close>

lemma other_names_behind:
  "(case filter (\<lambda>p. (k::'k::linorder) < sk_key (fst p)) m of
      [] \<Rightarrow> a
    | (sk, i) # es \<Rightarrow> if sk_key sk = k then f sk i es else a) = a"
proof (cases "filter (\<lambda>p. k < sk_key (fst p)) m")
  case (Cons p es)
  then have "k < sk_key (fst p)" by (metis (no_types, lifting) filter_eq_Cons_iff)
  with Cons show ?thesis by (cases p) (auto dest: less_imp_neq)
qed simp

lemma case_upper_bound_section:
  assumes "map_ok m"
  shows "(case map_upper_bound m (ScopedKey k x) of
      [] \<Rightarrow> a
    | (sk, i) # es \<Rightarrow> if sk_key sk = k then f i else a) =
   (case map_upper_bound (section_of m k) x of [] \<Rightarrow> a | (e, i) # es \<Rightarrow> f i)"
  unfolding map_upper_bound_section_of [OF assms]
  by (cases "map_upper_bound (section_of m k) x") (auto simp: other_names_behind split: prod.splits)

lemma if_neq: "(if a \<noteq> b then x else y) = (if a = b then y else x)"
  by simp

lemma sm_uplink_section:
  "map_ok (sm_map sm) \<Longrightarrow> sm_uplink sm s k = sec_uplink (sm_tree sm) (section_of (sm_map sm) k) s"
  using case_upper_bound_section [where m = "sm_map sm" and k = k and x = "s_end s" and a = "Some (-1)"
      and f = "\<lambda>i. right_neighbor_up_link (sm_tree sm) i s"]
  unfolding sm_uplink_def sec_uplink_def if_neq by simp

lemma sm_get_section:
  "map_ok (sm_map sm) \<Longrightarrow> sm_get sm step k = sec_get (sm_tree sm) (section_of (sm_map sm) k) step"
  using case_upper_bound_section [where m = "sm_map sm" and k = k and x = step and a = "Some (it_nullval (sm_tree sm))"
      and f = "\<lambda>i. get_inner_value (sm_tree sm) i step"]
  by (simp add: sm_get_def sec_get_def)

lemma sm_match_range_section:
  "map_ok (sm_map sm) \<Longrightarrow> sm_match_range sm step k =
     (case map_upper_bound (section_of (sm_map sm) k) step of
        [] \<Rightarrow> Some (-1) | (_, i) # _ \<Rightarrow> it_first (sm_tree sm) i step)"
  using case_upper_bound_section [where m = "sm_map sm" and k = k and x = step and a = "Some (-1)"
      and f = "\<lambda>i. it_first (sm_tree sm) i step"]
  by (simp add: sm_match_range_def)

lemma sm_get_def_section:
  "sm_get_def sm s k =
     (case map_find (section_of (sm_map sm) k) (s_end s) of
        None \<Rightarrow> Some (it_nullval (sm_tree sm))
      | Some i \<Rightarrow> find_up_value (sm_tree sm) i s)"
  by (simp add: sm_get_def_def map_find_section_of)

subsection \<open>What a scoped map holds\<close>

text \<open>Every node belongs to one name, its owner.\<close>

abbreviation owned :: "'v up_value list \<Rightarrow> (nat \<Rightarrow> 'k) \<Rightarrow> 'k \<Rightarrow> nat set" where
  "owned ar owner k \<equiv> {n. n < length ar \<and> owner n = k}"

definition sm_owner_rep ::
    "(nat \<Rightarrow> 'k::linorder) \<Rightarrow> ('k, 'v) scoped_map \<Rightarrow> ('k \<Rightarrow> scope \<rightharpoonup> 'v) \<Rightarrow> bool" where
  "sm_owner_rep owner sm A \<longleftrightarrow>
     map_ok (sm_map sm) \<and>
     (\<forall>k. sec_rep (it_ar (sm_tree sm)) (owned (it_ar (sm_tree sm)) owner k) (section_of (sm_map sm) k) (A k))"

definition sm_rep :: "'v \<Rightarrow> ('k::linorder, 'v) scoped_map \<Rightarrow> ('k \<Rightarrow> scope \<rightharpoonup> 'v) \<Rightarrow> bool" where
  "sm_rep nullval sm A \<longleftrightarrow> it_nullval (sm_tree sm) = nullval \<and> (\<exists>owner. sm_owner_rep owner sm A)"

lemma sm_rep_new: "sm_rep nullval (sm_new nullval) (\<lambda>_. Map.empty)"
  using sec_rep_empty by (auto simp: sm_rep_def sm_owner_rep_def sm_new_def it_new_def)

lemma sec_rep_frame:
  assumes rep: "sec_rep ar S sec A" and eq: "\<And>n. n \<in> S \<Longrightarrow> n < length ar' \<and> ar' ! n = ar ! n"
  shows "sec_rep ar' S sec A"
proof -
  have "tree_inv ar' S" using tree_inv_frame [of ar S ar'] rep eq by (simp add: sec_rep_def sec_inv_def)
  moreover have "head_of ar' S e i \<longleftrightarrow> head_of ar S e i" for e i using eq by (auto simp: head_of_def)
  moreover have "sc_of ar' n = sc_of ar n" "uv_value (ar' ! n) = uv_value (ar ! n)" if "n \<in> S" for n
    using eq [OF that] by auto
  ultimately show ?thesis using rep by (simp add: sec_rep_def sec_inv_def)
qed

lemma sm_owner_rep_insert:
  assumes rep: "sm_owner_rep owner sm A" and lam: "laminar (insert s (dom (A k)))" and new: "A k s = None"
    and par: "parent_link (sc_of (it_ar (sm_tree sm))) (owned (it_ar (sm_tree sm)) owner k) s q"
    and i: "map_find (section_of (sm_map sm) k) (s_end s) = None \<or>
      map_find (section_of (sm_map sm) k) (s_end s) = Some i"
  shows "sm_owner_rep (owner(length (it_ar (sm_tree sm)) := k))
    \<lparr>sm_map = map_put (sm_map sm) (ScopedKey k (s_end s)) (new_head (it_ar (sm_tree sm)) (owned (it_ar (sm_tree sm)) owner k) s i),
     sm_tree = (sm_tree sm)\<lparr>it_ar := relinked (it_ar (sm_tree sm)) s v q
       {n. maximal_in (sc_of (it_ar (sm_tree sm))) (owned (it_ar (sm_tree sm)) owner k) s n}\<rparr>\<rparr>
    (A(k := (A k)(s \<mapsto> v)))"
proof -
  let ?ar = "it_ar (sm_tree sm)"
  let ?S = "owned ?ar owner k"
  let ?ar' = "relinked ?ar s v q {n. maximal_in (sc_of ?ar) ?S s n}"
  let ?owner = "owner(length ?ar := k)"
  have ok: "map_ok (sm_map sm)"
    and sec: "sec_rep ?ar (owned ?ar owner k') (section_of (sm_map sm) k') (A k')" for k'
    using rep by (auto simp: sm_owner_rep_def)
  have mine: "owned ?ar' ?owner k = insert (length ?ar) ?S" by auto
  have others: "owned ?ar' ?owner k' = owned ?ar owner k'" if "k' \<noteq> k" for k' using that by auto
  have keep: "?ar' ! n = ?ar ! n" if "k' \<noteq> k" "n \<in> owned ?ar owner k'" for k' n
    using that by (auto simp: maximal_in_def)
  have "sec_rep ?ar' (owned ?ar' ?owner k') (section_of (map_put (sm_map sm) (ScopedKey k (s_end s)) (new_head ?ar ?S s i)) k')
      ((A(k := (A k)(s \<mapsto> v))) k')" for k'
  proof (cases "k' = k")
    case True
    show ?thesis
      unfolding True mine section_of_map_put [OF ok]
      using sec_rep_step [OF sec lam new par i, of v] by simp
  next
    case False
    show ?thesis
      unfolding others [OF False] section_of_map_put [OF ok]
      using sec_rep_frame [OF sec, of k' ?ar'] keep [OF False] False by simp
  qed
  then show ?thesis using ok by (simp add: sm_owner_rep_def)
qed

subsection \<open>A new definition\<close>

text \<open>The two ways a new definition takes, a new end or a node put into the chain of an old one.\<close>

definition added_by :: "scope \<Rightarrow> 'k::linorder \<Rightarrow> 'v \<Rightarrow> ('k, 'v) scoped_map \<Rightarrow> ('k, 'v) scoped_map \<Rightarrow> bool" where
  "added_by s k v sm sm' \<longleftrightarrow> (\<exists>uplink t1 i' newindex.
     sm_uplink sm s k = Some uplink \<and> newindex \<ge> 0 \<and>
     sm_map sm' = map_put (sm_map sm) (ScopedKey k (s_end s)) i' \<and>
     sm_link_left s k newindex (sm_map sm') t1 = returnR (sm_tree sm') \<and>
     (map_find (sm_map sm) (ScopedKey k (s_end s)) = None \<longrightarrow>
        i' = next_index (sm_tree sm) \<and> push_up_value (sm_tree sm) s v uplink = (t1, newindex)) \<and>
     (\<forall>i b. map_find (sm_map sm) (ScopedKey k (s_end s)) = Some i \<longrightarrow>
        insert_up_value (sm_tree sm) i s v uplink b = returnR (t1, i', newindex, None)))"

lemma added_by_set:
  assumes "added_by s k v sm sm'"
  shows "sm_set s k v sm = returnR (sm', True)"
proof -
  obtain u t1 i' n where *: "sm_uplink sm s k = Some u" "n \<ge> 0"
    "sm_map sm' = map_put (sm_map sm) (ScopedKey k (s_end s)) i'"
    "sm_link_left s k n (sm_map sm') t1 = returnR (sm_tree sm')"
    "map_find (sm_map sm) (ScopedKey k (s_end s)) = None \<Longrightarrow>
       i' = next_index (sm_tree sm) \<and> push_up_value (sm_tree sm) s v u = (t1, n)"
    "\<And>i b. map_find (sm_map sm) (ScopedKey k (s_end s)) = Some i \<Longrightarrow>
       insert_up_value (sm_tree sm) i s v u b = returnR (t1, i', n, None)"
    using assms unfolding added_by_def by (elim exE conjE) simp
  show ?thesis
    using *(1-5) *(6) [of _ True] by (cases "map_find (sm_map sm) (ScopedKey k (s_end s))") (auto simp: sm_set_def map_insert_def)
qed

lemma added_by_get_or_set:
  assumes "added_by s k v sm sm'"
  shows "sm_get_or_set s k v sm = returnR (sm', it_nullval (sm_tree sm))"
proof -
  obtain u t1 i' n where *: "sm_uplink sm s k = Some u" "n \<ge> 0"
    "sm_map sm' = map_put (sm_map sm) (ScopedKey k (s_end s)) i'"
    "sm_link_left s k n (sm_map sm') t1 = returnR (sm_tree sm')"
    "map_find (sm_map sm) (ScopedKey k (s_end s)) = None \<Longrightarrow>
       i' = next_index (sm_tree sm) \<and> push_up_value (sm_tree sm) s v u = (t1, n)"
    "\<And>i b. map_find (sm_map sm) (ScopedKey k (s_end s)) = Some i \<Longrightarrow>
       insert_up_value (sm_tree sm) i s v u b = returnR (t1, i', n, None)"
    using assms unfolding added_by_def by (elim exE conjE) simp
  show ?thesis
    using *(1-5) *(6) [of _ True] by (cases "map_find (sm_map sm) (ScopedKey k (s_end s))") (auto simp: sm_get_or_set_def map_insert_def)
qed

lemma sm_link_left_spec:
  assumes ok: "map_ok m" and inv: "sec_inv ar S (section_of m k)"
    and lam: "laminar (insert s (sc_of ar ` S))" and new: "s \<notin> sc_of ar ` S"
    and t: "it_ar t = relinked ar s v q (same_end_inside ar S s)"
  shows "sm_link_left s k (int (length ar)) (map_put m (ScopedKey k (s_end s)) i') t =
    returnR (t\<lparr>it_ar := relinked ar s v q {n. maximal_in (sc_of ar) S s n}\<rparr>)"
proof -
  let ?m = "map_put m (ScopedKey k (s_end s)) i'"
  let ?es = "map_upper_bound (map_put (section_of m k) (s_end s) i') (s_start s)"
  let ?others = "filter (\<lambda>p. k < sk_key (fst p)) ?m"
  have ub: "map_upper_bound ?m (ScopedKey k (s_start s)) = map (in_section k) ?es @ ?others"
    using map_upper_bound_section_of [OF map_ok_put [OF ok]] section_of_map_put [OF ok] by simp
  have loop: "link_left_loop (\<lambda>sk. sk_end sk = s_end s) s (int (length ar)) (map (in_section k) ?es @ ?others) t =
      Some (t\<lparr>it_ar := relinked ar s v q {n. maximal_in (sc_of ar) S s n}\<rparr>)"
    by (rule sec_link_left [OF inv lam new, where wrap = "ScopedKey k" and others = ?others]) (simp_all add: t)
  have "s_start s < s_end s" using lam by (auto simp: laminar_def scope_wf_def)
  then have "?es \<noteq> []"
    using map_ok_section_of [OF ok, of k] by (auto simp: map_upper_bound_Nil set_map_put)
  then obtain e i es where "?es = (e, i) # es" by (metis list.exhaust prod.exhaust)
  with loop show ?thesis by (simp add: sm_link_left_def ub)
qed

lemma sm_add:
  assumes rep: "sm_owner_rep owner sm A" and lam: "laminar (insert s (dom (A k)))" and new: "A k s = None"
  shows "\<exists>owner' sm'. added_by s k v sm sm' \<and> sm_owner_rep owner' sm' (A(k := (A k)(s \<mapsto> v))) \<and>
    it_nullval (sm_tree sm') = it_nullval (sm_tree sm)"
proof -
  let ?t = "sm_tree sm" and ?key = "ScopedKey k (s_end s)"
  let ?ar = "it_ar ?t" and ?sec = "section_of (sm_map sm) k"
  let ?S = "owned ?ar owner k"
  have ok: "map_ok (sm_map sm)" and sec: "sec_rep ?ar ?S ?sec (A k)"
    using rep by (auto simp: sm_owner_rep_def)
  then have inv: "sec_inv ?ar ?S ?sec" by (simp add: sec_rep_def)
  obtain u q where u: "sec_uplink ?t ?sec s = Some u" "parent_link (sc_of ?ar) ?S s q"
    "map_find ?sec (s_end s) = None \<longrightarrow>
       push_up_value ?t s v u = (?t\<lparr>it_ar := relinked ?ar s v q (same_end_inside ?ar ?S s)\<rparr>, int (length ?ar)) \<and>
       (\<forall>i. new_head ?ar ?S s i = int (length ?ar))"
    "\<forall>i b. map_find ?sec (s_end s) = Some i \<longrightarrow>
       insert_up_value ?t i s v u b =
       returnR (?t\<lparr>it_ar := relinked ?ar s v q (same_end_inside ?ar ?S s)\<rparr>, new_head ?ar ?S s i, int (length ?ar), None)"
    using sec_step_new [OF sec refl lam new, of v] by (elim exE conjE)
  define i where "i = (case map_find ?sec (s_end s) of None \<Rightarrow> 0 | Some i \<Rightarrow> i)"
  have i: "map_find ?sec (s_end s) = None \<or> map_find ?sec (s_end s) = Some i"
    by (simp add: i_def split: option.splits)
  let ?i' = "new_head ?ar ?S s i"
  let ?t1 = "?t\<lparr>it_ar := relinked ?ar s v q (same_end_inside ?ar ?S s)\<rparr>"
  let ?t2 = "?t\<lparr>it_ar := relinked ?ar s v q {n. maximal_in (sc_of ?ar) ?S s n}\<rparr>"
  let ?sm' = "\<lparr>sm_map = map_put (sm_map sm) ?key ?i', sm_tree = ?t2\<rparr>"
  have lam': "laminar (insert s (sc_of ?ar ` ?S))" and new': "s \<notin> sc_of ?ar ` ?S"
    using lam new by (auto simp: sec_rep_dom [OF sec, symmetric])
  have link: "sm_link_left s k (int (length ?ar)) (sm_map ?sm') ?t1 = returnR (sm_tree ?sm')"
    using sm_link_left_spec [OF ok inv lam' new', of ?t1 v q ?i'] by simp
  have "added_by s k v sm ?sm'"
    unfolding added_by_def
  proof (intro exI conjI allI impI)
    show "sm_uplink sm s k = Some u" using u(1) sm_uplink_section [OF ok] by simp
    show "sm_link_left s k (int (length ?ar)) (sm_map ?sm') ?t1 = returnR (sm_tree ?sm')" using link .
    show "?i' = next_index ?t" "push_up_value ?t s v u = (?t1, int (length ?ar))"
      if "map_find (sm_map sm) ?key = None"
      using that u(3) by (auto simp: map_find_section_of next_index_def)
    show "insert_up_value ?t j s v u b = returnR (?t1, ?i', int (length ?ar), None)"
      if "map_find (sm_map sm) ?key = Some j" for j b
      using that u(4) by (simp add: map_find_section_of i_def)
  qed simp_all
  moreover have "sm_owner_rep (owner(length ?ar := k)) ?sm' (A(k := (A k)(s \<mapsto> v)))"
    using sm_owner_rep_insert [OF rep lam new u(2) i] .
  ultimately show ?thesis by fastforce
qed

subsection \<open>A repeated definition\<close>

lemma sm_keep:
  assumes rep: "sm_owner_rep owner sm A" and wf: "scope_wf s" and old: "A k s = Some w"
  shows "sm_set s k v sm = returnR (sm, False)" "sm_get_or_set s k v sm = returnR (sm, w)"
proof -
  let ?t = "sm_tree sm" and ?sec = "section_of (sm_map sm) k"
  have ok: "map_ok (sm_map sm)" and sec: "sec_rep (it_ar ?t) (owned (it_ar ?t) owner k) ?sec (A k)"
    using rep by (auto simp: sm_owner_rep_def)
  obtain u where u: "sm_uplink sm s k = Some u"
    using sec_uplink_total [OF sec refl wf] sm_uplink_section [OF ok] by auto
  obtain i where i: "map_find (sm_map sm) (ScopedKey k (s_end s)) = Some i"
    "insert_up_value ?t i s v u True = returnR (?t, i, -1, Some w)"
    using sec_step_old [OF sec refl old] unfolding map_find_section_of by auto
  show "sm_set s k v sm = returnR (sm, False)" "sm_get_or_set s k v sm = returnR (sm, w)"
    using u i by (simp_all add: sm_set_def sm_get_or_set_def map_insert_def map_put_same [OF ok])
qed

text \<open>The first definition wins.\<close>

definition first_def :: "(scope \<rightharpoonup> 'v) \<Rightarrow> scope \<Rightarrow> 'v \<Rightarrow> (scope \<rightharpoonup> 'v)" where
  "first_def A s v = (if A s = None then A(s \<mapsto> v) else A)"

lemma sm_set_rep:
  assumes rep: "sm_rep nullval sm A" and lam: "laminar (insert s (dom (A k)))"
  shows "\<exists>sm'. sm_set s k v sm = returnR (sm', A k s = None) \<and> sm_rep nullval sm' (A(k := first_def (A k) s v))"
proof -
  obtain owner where o: "sm_owner_rep owner sm A" "it_nullval (sm_tree sm) = nullval"
    using rep by (auto simp: sm_rep_def)
  show ?thesis
  proof (cases "A k s")
    case None
    then show ?thesis
      using sm_add [OF o(1) lam None, of v] o(2) added_by_set unfolding sm_rep_def first_def_def by fastforce
  next
    case (Some w)
    have "scope_wf s" using lam by (simp add: laminar_def)
    then show ?thesis
      using sm_keep(1) [where k = k and A = A, OF o(1) _ Some] rep Some by (simp add: first_def_def fun_upd_idem)
  qed
qed

lemma sm_get_or_set_rep:
  assumes rep: "sm_rep nullval sm A" and lam: "laminar (insert s (dom (A k)))"
  shows "\<exists>sm'. sm_get_or_set s k v sm = returnR (sm', case A k s of None \<Rightarrow> nullval | Some w \<Rightarrow> w) \<and>
    sm_rep nullval sm' (A(k := first_def (A k) s v))"
proof -
  obtain owner where o: "sm_owner_rep owner sm A" "it_nullval (sm_tree sm) = nullval"
    using rep by (auto simp: sm_rep_def)
  show ?thesis
  proof (cases "A k s")
    case None
    then show ?thesis
      using sm_add [OF o(1) lam None, of v] o(2) added_by_get_or_set unfolding sm_rep_def first_def_def by fastforce
  next
    case (Some w)
    have "scope_wf s" using lam by (simp add: laminar_def)
    then show ?thesis
      using sm_keep(2) [where k = k and A = A, OF o(1) _ Some] rep Some by (simp add: first_def_def fun_upd_idem)
  qed
qed

lemma sm_get_rep:
  assumes "sm_rep nullval sm A"
  shows "\<exists>r. sm_get sm step k = Some (case r of None \<Rightarrow> nullval | Some v \<Rightarrow> v) \<and> visible (A k) step r"
proof -
  obtain owner where o: "sm_owner_rep owner sm A" "it_nullval (sm_tree sm) = nullval"
    using assms by (auto simp: sm_rep_def)
  then have ok: "map_ok (sm_map sm)" and sec: "sec_rep (it_ar (sm_tree sm)) (owned (it_ar (sm_tree sm)) owner k)
      (section_of (sm_map sm) k) (A k)"
    by (auto simp: sm_owner_rep_def)
  show ?thesis
    using sec_get_visible [OF sec refl, of step] unfolding sm_get_section [OF ok] o(2) .
qed

lemma sm_get_def_rep:
  assumes "sm_rep nullval sm A"
  shows "sm_get_def sm s k = Some (case A k s of None \<Rightarrow> nullval | Some v \<Rightarrow> v)"
proof -
  obtain owner where o: "sm_owner_rep owner sm A" and null: "nullval = it_nullval (sm_tree sm)"
    using assms by (auto simp: sm_rep_def)
  let ?t = "sm_tree sm" and ?sec = "section_of (sm_map sm) k"
  have sec: "sec_rep (it_ar ?t) (owned (it_ar ?t) owner k) ?sec (A k)"
    using o by (auto simp: sm_owner_rep_def)
  show ?thesis
  proof (cases "map_find ?sec (s_end s)")
    case None
    then have "A k s = None"
      using sec_step_old [OF sec refl, of s] by (cases "A k s") auto
    then show ?thesis using None by (simp add: sm_get_def_section null)
  next
    case (Some i)
    then have "(s_end s, i) \<in> set ?sec"
      using sec by (simp add: sec_rep_def sec_inv_def map_find_iff_mem)
    then show ?thesis
      unfolding null using find_up_value_spec [OF sec refl] Some by (simp add: sm_get_def_section)
  qed
qed

text \<open>\<open>set\<close> without its result, as the interface has it.\<close>

definition sm_define :: "scope \<Rightarrow> 'k::linorder \<Rightarrow> 'v \<Rightarrow> ('k, 'v) scoped_map \<Rightarrow> ('k, 'v) scoped_map run" where
  "sm_define s k v sm = bindR (sm_set s k v sm) (\<lambda>(sm', _). returnR sm')"

lemma sm_define_rep:
  assumes "sm_rep nullval sm A" "laminar (insert s (dom (A k)))"
  shows "\<exists>sm'. sm_define s k v sm = returnR sm' \<and> sm_rep nullval sm' (A(k := first_def (A k) s v))"
  using sm_set_rep [OF assms, of v] by (auto simp: sm_define_def)

interpretation scoped_name_map: scoped_store
  "sm_rep nullval" "sm_new nullval" sm_define sm_get nullval first_def
  for nullval
  by unfold_locales
    (rule sm_rep_new, erule (1) sm_define_rep, erule sm_get_rep, auto simp: first_def_def)

subsection \<open>The enumeration of the visible definitions\<close>

lemma sec_match_range:
  assumes rep: "sec_rep (it_ar t) S sec A"
  shows "\<exists>i uvs. (case map_upper_bound sec step of [] \<Rightarrow> Some (-1) | (_, i) # _ \<Rightarrow> it_first t i step) = Some i \<and>
    it_range (it_ar t) i = Some uvs \<and>
    set (map (\<lambda>uv. (uv_scope uv, uv_value uv)) uvs) = {(s, v). A s = Some v \<and> scope_contains_step s step} \<and>
    sorted_wrt (\<lambda>a b. strictly_in (uv_scope a) (uv_scope b)) uvs"
proof -
  let ?ar = "it_ar t"
  have inv: "sec_inv ?ar S sec" using rep by (simp add: sec_rep_def)
  note tree = sec_invD(1) [OF inv]
  have A: "A s = Some v \<longleftrightarrow> (\<exists>n \<in> S. sc_of ?ar n = s \<and> uv_value (?ar ! n) = v)" for s v
    using rep by (simp add: sec_rep_def)
  have none: "\<exists>i uvs. Some (-1) = Some i \<and> it_range ?ar i = Some uvs \<and>
      set (map (\<lambda>uv. (uv_scope uv, uv_value uv)) uvs) = {(s, v). A s = Some v \<and> scope_contains_step s step} \<and>
      sorted_wrt (\<lambda>a b. strictly_in (uv_scope a) (uv_scope b)) uvs"
    if "\<forall>m \<in> S. \<not> scope_contains_step (sc_of ?ar m) step"
    using that A by (intro exI [of _ "-1"] exI [of _ "[]"]) (auto simp: it_range_end)
  show ?thesis
  proof (cases "map_upper_bound sec step")
    case Nil
    have "\<forall>m \<in> S. \<not> scope_contains_step (sc_of ?ar m) step"
      using upper_bound_Nil_above [OF inv Nil] by (auto simp: scope_contains_step_def not_less)
    with none Nil show ?thesis by simp
  next
    case (Cons p rest)
    obtain e i where p: "p = (e, i)" by fastforce
    obtain q where q: "uplink_search ?ar (\<lambda>uv. s_start (uv_scope uv) \<le> step) i = Some q"
      "(q = -1 \<and> (\<forall>m \<in> S. \<not> scope_contains_step (sc_of ?ar m) step)) \<or>
       (\<exists>j \<in> S. q = int j \<and> scope_contains_step (sc_of ?ar j) step \<and>
        (\<forall>m \<in> S. scope_contains_step (sc_of ?ar m) step \<longrightarrow> scope_contains (sc_of ?ar m) (sc_of ?ar j)))"
      using sec_search [OF inv Cons [unfolded p]] by (elim exE conjE)
    have first: "it_first t i step = Some q"
      using q by (auto simp: it_first_def)
    from q(2) show ?thesis
    proof
      assume "q = -1 \<and> (\<forall>m \<in> S. \<not> scope_contains_step (sc_of ?ar m) step)"
      with none first Cons p show ?thesis by simp
    next
      assume "\<exists>j \<in> S. q = int j \<and> scope_contains_step (sc_of ?ar j) step \<and>
        (\<forall>m \<in> S. scope_contains_step (sc_of ?ar m) step \<longrightarrow> scope_contains (sc_of ?ar m) (sc_of ?ar j))"
      then obtain j where j: "j \<in> S" "q = int j" "scope_contains_step (sc_of ?ar j) step"
        "\<forall>m \<in> S. scope_contains_step (sc_of ?ar m) step \<longrightarrow> scope_contains (sc_of ?ar m) (sc_of ?ar j)"
        by blast
      obtain ns where ns: "it_range ?ar (int j) = Some (map ((!) ?ar) ns)" "set ns = above (sc_of ?ar) S j"
        "sorted_wrt (\<lambda>a b. strictly_in (sc_of ?ar a) (sc_of ?ar b)) ns"
        using it_range_spec [OF tree j(1)] by blast
      have "above (sc_of ?ar) S j = {m \<in> S. scope_contains_step (sc_of ?ar m) step}"
        using j(3,4) by (auto simp: above_def intro: scope_contains_stepD)
      then have "set (map (\<lambda>uv. (uv_scope uv, uv_value uv)) (map ((!) ?ar) ns)) =
          {(s, v). A s = Some v \<and> scope_contains_step s step}"
        unfolding A by (auto simp: ns(2))
      then show ?thesis
        using ns(1,3) first Cons p j(2) by (intro exI [of _ q] exI [of _ "map ((!) ?ar) ns"]) (simp add: sorted_wrt_map)
    qed
  qed
qed

lemma sm_match_range_rep:
  assumes "sm_rep nullval sm A"
  shows "\<exists>i uvs. sm_match_range sm step k = Some i \<and> it_range (it_ar (sm_tree sm)) i = Some uvs \<and>
    set (map (\<lambda>uv. (uv_scope uv, uv_value uv)) uvs) = {(s, v). A k s = Some v \<and> scope_contains_step s step} \<and>
    sorted_wrt (\<lambda>a b. strictly_in (uv_scope a) (uv_scope b)) uvs"
proof -
  obtain owner where "sm_owner_rep owner sm A" using assms by (auto simp: sm_rep_def)
  then have ok: "map_ok (sm_map sm)" and sec: "sec_rep (it_ar (sm_tree sm)) (owned (it_ar (sm_tree sm)) owner k)
      (section_of (sm_map sm) k) (A k)"
    by (auto simp: sm_owner_rep_def)
  show ?thesis using sec_match_range [OF sec] unfolding sm_match_range_section [OF ok] .
qed

subsection \<open>Properties\<close>

text \<open>The first and the last definition of a list for a scope and a name.\<close>

definition first_in :: "(scope \<times> 'k \<times> 'v) list \<Rightarrow> 'k \<Rightarrow> (scope \<rightharpoonup> 'v)" where
  "first_in ds k = map_of (map (\<lambda>(sc, _, v). (sc, v)) (filter (\<lambda>(_, k', _). k' = k) ds))"

lemma fold_first_def:
  "fold (\<lambda>(sc, k, v) A. A(k := first_def (A k) sc v)) ds A k = first_in ds k ++ A k"
proof (induction ds arbitrary: A)
  case (Cons d ds)
  obtain sc k' v where d: "d = (sc, k', v)" by (cases d) auto
  show ?case
    unfolding d using Cons.IH [of "A(k' := first_def (A k') sc v)"]
    by (auto simp: first_in_def first_def_def map_add_def split: option.splits)
qed (simp add: first_in_def)

lemma sm_after_run:
  assumes "\<forall>k. laminar {sc. \<exists>v. (sc, k, v) \<in> set ds}"
  shows "\<exists>sm. runR (\<lambda>(sc, k, v). sm_define sc k v) ds (sm_new nullval) = returnR sm \<and> sm_rep nullval sm (first_in ds)"
proof -
  have eq: "fold (\<lambda>(sc, k, v) A. A(k := first_def (A k) sc v)) ds (\<lambda>_. Map.empty) = first_in ds"
    by (rule ext) (simp add: fold_first_def)
  show ?thesis
    using scoped_name_map.run_rep [OF sm_rep_new, of ds nullval] assms by (simp add: eq)
qed

text \<open>
  C8: After any sequence of definitions whose scopes are hierarchical for each name, all accepted,
  \<open>ScopedMap::get\<close> finds at a step the definition of the name with the innermost scope that covers
  the step, and the null value exactly if no scope of a definition of the name covers it.
\<close>

theorem scoped_map_lookup:
  assumes "\<forall>k. laminar {sc. \<exists>v. (sc, k, v) \<in> set ds}"
  shows "\<exists>sm r. runR (\<lambda>(sc, k, v). sm_define sc k v) ds (sm_new nullval) = returnR sm \<and>
    sm_get sm step k = Some (case r of None \<Rightarrow> nullval | Some v \<Rightarrow> v) \<and> visible (first_in ds k) step r"
  using sm_after_run [OF assms, of nullval] sm_get_rep [of nullval _ "first_in ds" step k] by auto

lemma scoped_map_lookup_witness:
  "\<exists>sm r. runR (\<lambda>(sc, k, v). sm_define sc k v)
       [(Scope 0 9, 1 :: int, ''a''), (Scope 2 5, 1, ''b''), (Scope 1 6, 2, ''c'')] (sm_new []) = returnR sm \<and>
    sm_get sm 3 1 = Some (case r of None \<Rightarrow> [] | Some v \<Rightarrow> v) \<and>
    visible (first_in [(Scope 0 9, 1 :: int, ''a''), (Scope 2 5, 1, ''b''), (Scope 1 6, 2, ''c'')] 1) 3 r"
  by (rule scoped_map_lookup) (auto simp: laminar_def scope_wf_def scopes_nested_def scope_contains_def)

lemma sm_after_run_one:
  assumes "\<forall>k. laminar {sc. \<exists>v. (sc, k, v) \<in> set ds}" and "laminar (insert s {sc. \<exists>v. (sc, k, v) \<in> set ds})"
  shows "\<exists>sm. runR (\<lambda>(sc, k, v). sm_define sc k v) ds (sm_new nullval) = returnR sm \<and> sm_rep nullval sm (first_in ds) \<and>
    laminar (insert s (dom (first_in ds k)))"
proof -
  have "dom (first_in ds k) \<subseteq> {sc. \<exists>v. (sc, k, v) \<in> set ds}"
    by (force simp: first_in_def dest!: map_of_SomeD)
  then have "laminar (insert s (dom (first_in ds k)))"
    by (intro laminar_subset [OF assms(2)]) auto
  then show ?thesis using sm_after_run [OF assms(1)] by blast
qed

lemma first_in_snoc: "(first_in ds)(k := first_def (first_in ds k) s v) = first_in (ds @ [(s, k, v)])"
  by (rule ext) (auto simp: first_in_def first_def_def map_add_def fun_eq_iff split: option.splits)

text \<open>
  C16: \<open>ScopedMap::set\<close> reports \<open>false\<close> exactly if the name is already defined with this very scope,
  and then the old definition stays; after it, \<open>getDef\<close> returns for every name and scope the first
  value defined for them, the null value if there is none.
\<close>

theorem scoped_map_set_first_wins:
  assumes "\<forall>k. laminar {sc. \<exists>v. (sc, k, v) \<in> set ds}" and "laminar (insert s {sc. \<exists>v. (sc, k, v) \<in> set ds})"
  shows "\<exists>sm sm'. runR (\<lambda>(sc, k, v). sm_define sc k v) ds (sm_new nullval) = returnR sm \<and>
    sm_set s k v sm = returnR (sm', \<forall>w. (s, k, w) \<notin> set ds) \<and>
    (\<forall>s' k'. sm_get_def sm' s' k' =
       Some (case first_in (ds @ [(s, k, v)]) k' s' of None \<Rightarrow> nullval | Some w \<Rightarrow> w))"
proof -
  obtain sm where sm: "runR (\<lambda>(sc, k, v). sm_define sc k v) ds (sm_new nullval) = returnR sm"
    "sm_rep nullval sm (first_in ds)" "laminar (insert s (dom (first_in ds k)))"
    using sm_after_run_one [OF assms] by blast
  have "(first_in ds k s = None) = (\<forall>w. (s, k, w) \<notin> set ds)"
    by (force simp: first_in_def map_of_eq_None_iff)
  then show ?thesis
    using sm sm_set_rep [OF sm(2,3), of v] sm_get_def_rep [of nullval _ "first_in (ds @ [(s, k, v)])"]
    by (auto simp: first_in_snoc)
qed

lemma scoped_map_set_first_wins_witness:
  "\<exists>sm sm'. runR (\<lambda>(sc, k, v). sm_define sc k v) [(Scope 0 9, 1 :: int, ''a'')] (sm_new []) = returnR sm \<and>
    sm_set (Scope 0 9) 1 ''b'' sm = returnR (sm', False) \<and> sm_get_def sm' (Scope 0 9) 1 = Some ''a''"
  using scoped_map_set_first_wins [of "[(Scope 0 9, 1, ''a'')]" "Scope 0 9" 1 "[]" "''b''"]
  by (fastforce simp: laminar_def scope_wf_def scopes_nested_def scope_contains_def first_in_def)

text \<open>
  \<open>ScopedMap::getOrSet\<close> returns the value already defined for this name and scope, and the null
  value if it inserted its own; it never replaces a value.
\<close>

theorem scoped_map_get_or_set:
  assumes "\<forall>k. laminar {sc. \<exists>v. (sc, k, v) \<in> set ds}" and "laminar (insert s {sc. \<exists>v. (sc, k, v) \<in> set ds})"
  shows "\<exists>sm sm'. runR (\<lambda>(sc, k, v). sm_define sc k v) ds (sm_new nullval) = returnR sm \<and>
    sm_get_or_set s k v sm = returnR (sm', case first_in ds k s of None \<Rightarrow> nullval | Some w \<Rightarrow> w) \<and>
    (\<forall>s' k'. sm_get_def sm' s' k' =
       Some (case first_in (ds @ [(s, k, v)]) k' s' of None \<Rightarrow> nullval | Some w \<Rightarrow> w))"
proof -
  obtain sm where sm: "runR (\<lambda>(sc, k, v). sm_define sc k v) ds (sm_new nullval) = returnR sm"
    "sm_rep nullval sm (first_in ds)" "laminar (insert s (dom (first_in ds k)))"
    using sm_after_run_one [OF assms] by blast
  then show ?thesis
    using sm_get_or_set_rep [OF sm(2,3), of v] sm_get_def_rep [of nullval _ "first_in (ds @ [(s, k, v)])"]
    by (auto simp: first_in_snoc)
qed

lemma scoped_map_get_or_set_witness:
  "\<exists>sm sm'. runR (\<lambda>(sc, k, v). sm_define sc k v) [(Scope 0 9, 1 :: int, ''a'')] (sm_new []) = returnR sm \<and>
    sm_get_or_set (Scope 2 9) 1 ''b'' sm = returnR (sm', []) \<and> sm_get_def sm' (Scope 2 9) 1 = Some ''b''"
  using scoped_map_get_or_set [of "[(Scope 0 9, 1, ''a'')]" "Scope 2 9" 1 "[]" "''b''"]
  by (fastforce simp: laminar_def scope_wf_def scopes_nested_def scope_contains_def first_in_def)

text \<open>
  C17: The range \<open>match_range\<close> returns enumerates, from the innermost scope to the outermost, exactly
  the definitions of the name whose scope covers the step, and the iteration ends.
\<close>

theorem scoped_map_match_range:
  assumes "\<forall>k. laminar {sc. \<exists>v. (sc, k, v) \<in> set ds}"
  shows "\<exists>sm i uvs. runR (\<lambda>(sc, k, v). sm_define sc k v) ds (sm_new nullval) = returnR sm \<and>
    sm_match_range sm step k = Some i \<and> it_range (it_ar (sm_tree sm)) i = Some uvs \<and>
    set (map (\<lambda>uv. (uv_scope uv, uv_value uv)) uvs) = {(s, v). first_in ds k s = Some v \<and> scope_contains_step s step} \<and>
    sorted_wrt (\<lambda>a b. strictly_in (uv_scope a) (uv_scope b)) uvs"
  using sm_after_run [OF assms, of nullval] sm_match_range_rep [of nullval _ "first_in ds" step k] by blast

lemma scoped_map_match_range_witness:
  "\<exists>sm i uvs. runR (\<lambda>(sc, k, v). sm_define sc k v)
       [(Scope 0 9, 1 :: int, ''a''), (Scope 2 5, 1, ''b''), (Scope 1 6, 2, ''c'')] (sm_new []) = returnR sm \<and>
    sm_match_range sm 3 1 = Some i \<and> it_range (it_ar (sm_tree sm)) i = Some uvs \<and>
    set (map (\<lambda>uv. (uv_scope uv, uv_value uv)) uvs) =
      {(s, v). first_in [(Scope 0 9, 1 :: int, ''a''), (Scope 2 5, 1, ''b''), (Scope 1 6, 2, ''c'')] 1 s = Some v \<and>
        scope_contains_step s 3} \<and>
    sorted_wrt (\<lambda>a b. strictly_in (uv_scope a) (uv_scope b)) uvs"
  by (rule scoped_map_match_range) (auto simp: laminar_def scope_wf_def scopes_nested_def scope_contains_def)

end
