(* ===== verification/Float32.thy ===== *)
theory Float32
  imports Prelude
begin

text \<open>
  The weights of the reductions are C++ \<open>float\<close> values. A finite IEEE binary32 number is a multiple
  of \<open>2^-149\<close>, so the model keeps a weight as the integer number of these units; infinity is
  \<open>2^277\<close> units, the first power of two that is not representable. NaN is left out: the only
  operations on weights are comparison, addition and division by a constant, and none of them
  yields NaN on the weights the type database accepts.
\<close>

type_synonym f32 = int

definition f32_inf :: f32 where
  "f32_inf = 2 ^ 277"

definition f32_one :: f32 where
  "f32_one = 2 ^ 149"

text \<open>\<open>std::numeric_limits<float>::epsilon()\<close>, which is \<open>2^-23\<close>.\<close>

definition f32_epsilon :: f32 where
  "f32_epsilon = 2 ^ 126"

text \<open>Halving with ties to even, for one step and for the bits that do not fit.\<close>

definition round_div :: "nat \<Rightarrow> nat \<Rightarrow> nat" where
  "round_div n s =
     (let q = n div 2 ^ s; r = n mod 2 ^ s in
      if 2 * r < 2 ^ s then q else if 2 * r > 2 ^ s then q + 1 else if even q then q else q + 1)"

function excess_bits :: "nat \<Rightarrow> nat" where
  "excess_bits n = (if n < 2 ^ 24 then 0 else Suc (excess_bits (n div 2)))"
  by pat_completeness auto
termination
  by (relation "measure id") auto

declare excess_bits.simps [simp del]

definition round24 :: "nat \<Rightarrow> nat" where
  "round24 n = round_div n (excess_bits n) * 2 ^ excess_bits n"

definition f32_round :: "int \<Rightarrow> f32" where
  "f32_round x =
     (if x < 0 then - min (int (round24 (nat (- x)))) f32_inf else min (int (round24 (nat x))) f32_inf)"

text \<open>The rounded sum of two numbers.\<close>

definition f32_add :: "f32 \<Rightarrow> f32 \<Rightarrow> f32" where
  "f32_add a b = f32_round (a + b)"

text \<open>The text \<open>printf\<close> makes of a number with \<open>%.4f\<close>.\<close>

definition fmt_4f :: "f32 \<Rightarrow> string" where
  "fmt_4f x =
     (let n = round_div (nat \<bar>x\<bar> * 10000) 149; frac = dec_nat (n mod 10000) in
      (if x < 0 then ''-'' else '''') @
      (if \<bar>x\<bar> \<ge> f32_inf then ''inf''
       else dec_nat (n div 10000) @ ''.'' @ replicate (4 - length frac) CHR ''0'' @ frac))"

text \<open>The numbers that exist in the format.\<close>

definition f32_rep :: "f32 \<Rightarrow> bool" where
  "f32_rep x \<longleftrightarrow> 0 \<le> x \<and> x \<le> f32_inf \<and> (\<exists>m e. m < 2 ^ 24 \<and> nat x = m * 2 ^ e)"

subsection \<open>Rounding keeps order\<close>

lemma excess_bits_less: "n div 2 ^ excess_bits n < 2 ^ 24"
proof (induction n rule: excess_bits.induct)
  case (1 n)
  show ?case
  proof (cases "n < 2 ^ 24")
    case True
    then show ?thesis by (simp add: excess_bits.simps [of n])
  next
    case False
    then show ?thesis
      using 1 by (simp add: excess_bits.simps [of n] div_mult2_eq)
  qed
qed

lemma excess_bits_ge: "excess_bits n = Suc k \<Longrightarrow> 2 ^ 23 \<le> n div 2 ^ Suc k"
proof (induction n arbitrary: k rule: excess_bits.induct)
  case (1 n)
  then have n: "\<not> n < 2 ^ 24" "excess_bits (n div 2) = k"
    by (auto simp: excess_bits.simps [of n] split: if_splits)
  show ?case
  proof (cases k)
    case 0
    with n(1) show ?thesis by simp
  next
    case (Suc j)
    have "2 ^ 23 \<le> (n div 2) div 2 ^ Suc j" using "1.IH" n Suc by simp
    moreover have "n div 2 div 2 ^ Suc j = n div 2 ^ Suc (Suc j)" by (metis div_mult2_eq power_Suc)
    ultimately show ?thesis by (simp only: Suc)
  qed
qed

lemma excess_bits_mono: "m \<le> n \<Longrightarrow> excess_bits m \<le> excess_bits n"
proof (induction n arbitrary: m rule: excess_bits.induct)
  case (1 n)
  show ?case
  proof (cases "m < 2 ^ 24")
    case True
    then show ?thesis by (simp add: excess_bits.simps [of m])
  next
    case False
    then have n: "\<not> n < 2 ^ 24" using "1.prems" by simp
    have "excess_bits (m div 2) \<le> excess_bits (n div 2)"
      by (rule "1.IH" [OF n]) (use "1.prems" in \<open>simp add: div_le_mono\<close>)
    then show ?thesis using False n by (simp add: excess_bits.simps [of m] excess_bits.simps [of n])
  qed
qed

lemma round_div_bounds: "n div 2 ^ s \<le> round_div n s" "round_div n s \<le> n div 2 ^ s + 1"
  by (auto simp: round_div_def Let_def)

lemma round_div_mono: "m \<le> n \<Longrightarrow> round_div m s \<le> round_div n s"
proof -
  assume mn: "m \<le> n"
  then have le: "m div 2 ^ s \<le> n div 2 ^ s" by (rule div_le_mono)
  show ?thesis
  proof (cases "m div 2 ^ s = n div 2 ^ s")
    case True
    have "m div 2 ^ s * 2 ^ s + m mod 2 ^ s \<le> n div 2 ^ s * 2 ^ s + n mod 2 ^ s"
      using mn by (simp only: div_mult_mod_eq)
    with True have "m mod 2 ^ s \<le> n mod 2 ^ s" by simp
    then show ?thesis using True by (auto simp: round_div_def Let_def)
  next
    case False
    then have "m div 2 ^ s + 1 \<le> n div 2 ^ s" using le by simp
    then show ?thesis using round_div_bounds [of m s] round_div_bounds [of n s] by linarith
  qed
qed

lemma round_div_exact: "round_div (q * 2 ^ s) s = q"
  by (simp add: round_div_def)

lemma round24_upper: "excess_bits n = s \<Longrightarrow> round24 n \<le> 2 ^ (24 + s)"
proof -
  assume s: "excess_bits n = s"
  have "round_div n s \<le> 2 ^ 24"
    using excess_bits_less [of n] round_div_bounds(2) [of n s] s by simp
  then have "round_div n s * 2 ^ s \<le> 2 ^ 24 * 2 ^ s" by (rule mult_right_mono) simp
  then show ?thesis by (simp add: round24_def s power_add)
qed

lemma round24_lower: "excess_bits n = Suc k \<Longrightarrow> 2 ^ (24 + k) \<le> round24 n"
proof -
  assume s: "excess_bits n = Suc k"
  have "2 ^ 23 \<le> round_div n (Suc k)"
    using excess_bits_ge [OF s] round_div_bounds(1) [of n "Suc k"] by linarith
  then have "2 ^ 23 * 2 ^ Suc k \<le> round_div n (Suc k) * 2 ^ Suc k" by (rule mult_right_mono) simp
  moreover have "(2::nat) ^ 23 * 2 ^ Suc k = 2 ^ (24 + k)" by (simp add: power_add)
  ultimately show ?thesis by (simp only: round24_def s)
qed

lemma round24_mono: "m \<le> n \<Longrightarrow> round24 m \<le> round24 n"
proof -
  assume mn: "m \<le> n"
  show ?thesis
  proof (cases "excess_bits m = excess_bits n")
    case True
    then show ?thesis using round_div_mono [OF mn] by (simp add: round24_def)
  next
    case False
    then have less: "excess_bits m < excess_bits n" using excess_bits_mono [OF mn] by simp
    then obtain k where k: "excess_bits n = Suc k" by (cases "excess_bits n") auto
    have "round24 m \<le> 2 ^ (24 + excess_bits m)" by (rule round24_upper) simp
    also have "\<dots> \<le> 2 ^ (24 + k)" by (rule power_increasing) (use less k in auto)
    also have "\<dots> \<le> round24 n" by (rule round24_lower [OF k])
    finally show ?thesis .
  qed
qed

lemma round24_small: "n < 2 ^ 24 \<Longrightarrow> round24 n = n"
  using round_div_exact [of n 0] by (simp add: round24_def excess_bits.simps [of n])

lemma excess_bits_shift: "m < 2 ^ 24 \<Longrightarrow> excess_bits (m * 2 ^ e) \<le> e"
proof (induction e)
  case 0
  then show ?case by (simp add: excess_bits.simps [of m])
next
  case (Suc e)
  have "m * 2 ^ Suc e div 2 = m * 2 ^ e" by simp
  then show ?case using Suc by (subst excess_bits.simps) simp
qed

lemma round24_exact: "m < 2 ^ 24 \<Longrightarrow> round24 (m * 2 ^ e) = m * 2 ^ e"
proof -
  assume m: "m < 2 ^ 24"
  let ?s = "excess_bits (m * 2 ^ e)"
  have "m * 2 ^ e = (m * 2 ^ (e - ?s)) * 2 ^ ?s"
    using excess_bits_shift [OF m, of e] by (simp add: power_add [symmetric] mult.assoc)
  then show ?thesis by (metis round24_def round_div_exact)
qed

lemma f32_round_rep: "f32_rep x \<Longrightarrow> f32_round x = x"
proof -
  assume x: "f32_rep x"
  then obtain m e where m: "m < 2 ^ 24" "nat x = m * 2 ^ e" by (auto simp: f32_rep_def)
  then have "int (round24 (nat x)) = int (nat x)" by (simp only: round24_exact [OF m(1)])
  then show ?thesis using x by (simp add: f32_rep_def f32_round_def)
qed

lemma f32_round_mono: "0 \<le> x \<Longrightarrow> x \<le> y \<Longrightarrow> f32_round x \<le> f32_round y"
proof -
  assume *: "0 \<le> x" "x \<le> y"
  then have "round24 (nat x) \<le> round24 (nat y)" by (intro round24_mono nat_mono)
  then show ?thesis using * by (simp add: f32_round_def min_def)
qed

lemma round24_rep: "\<exists>m e. m < 2 ^ 24 \<and> round24 n = m * 2 ^ e"
proof (cases "round_div n (excess_bits n) < 2 ^ 24")
  case True
  then show ?thesis by (auto simp: round24_def)
next
  case False
  then have "round_div n (excess_bits n) = 2 ^ 24"
    using excess_bits_less [of n] round_div_bounds(2) [of n "excess_bits n"] by linarith
  then have "round24 n = 1 * 2 ^ (24 + excess_bits n)" by (simp add: round24_def power_add)
  moreover have "(1::nat) < 2 ^ 24" by simp
  ultimately show ?thesis by blast
qed

lemma f32_round_is_rep: "0 \<le> x \<Longrightarrow> f32_rep (f32_round x)"
proof -
  assume x: "0 \<le> x"
  have inf: "nat f32_inf = 1 * 2 ^ 277" by (simp add: f32_inf_def nat_power_eq)
  show ?thesis
  proof (cases "int (round24 (nat x)) \<le> f32_inf")
    case True
    then show ?thesis using x round24_rep [of "nat x"] by (simp add: f32_rep_def f32_round_def)
  next
    case False
    then have "f32_round x = f32_inf" using x by (simp add: f32_round_def)
    moreover have "0 \<le> f32_inf" by (simp add: f32_inf_def)
    moreover have "\<exists>m e. m < 2 ^ 24 \<and> nat f32_inf = m * 2 ^ e"
      unfolding inf by (intro exI [of _ 1] exI [of _ 277]) simp
    ultimately show ?thesis by (simp add: f32_rep_def)
  qed
qed

text \<open>A sum of weights is again a weight, and not smaller than what was added.\<close>

lemma f32_add_rep: "0 \<le> a \<Longrightarrow> 0 \<le> b \<Longrightarrow> f32_rep (f32_add a b)"
  by (simp add: f32_add_def f32_round_is_rep)

lemma f32_add_ge: "f32_rep a \<Longrightarrow> 0 \<le> b \<Longrightarrow> a \<le> f32_add a b"
  using f32_round_mono [of a "a + b"] f32_round_rep [of a] by (simp add: f32_add_def f32_rep_def)

lemma f32_add_mono: "0 \<le> a \<Longrightarrow> a \<le> a' \<Longrightarrow> 0 \<le> b \<Longrightarrow> f32_add a b \<le> f32_add a' b"
  by (simp add: f32_add_def f32_round_mono)

lemma f32_add_nonneg: "0 \<le> a \<Longrightarrow> 0 \<le> b \<Longrightarrow> 0 \<le> f32_add a b"
  using f32_add_rep [of a b] by (simp add: f32_rep_def)

lemma f32_rep_0: "f32_rep 0"
  unfolding f32_rep_def f32_inf_def by (intro conjI exI [of _ 0]) simp_all

end
