(* ===== verification/RelationMap.thy ===== *)
theory RelationMap
  imports ScopedMaps Float32
begin

text \<open>
  \<open>ScopedRelationMap\<close> of \<open>src/scope.hpp\<close>: for a left type and a scope a list of relations, linked by
  indices in one array, the head of the list in a \<open>ScopedMap\<close>. The type database keeps its
  reductions in it.
\<close>

subsection \<open>The operations\<close>

record ('k, 'c) list_element =
  le_related :: 'k
  le_value :: 'c
  le_weight :: f32
  le_next :: int
  le_tagval :: nat

record ('k, 'c) result_element =
  re_right :: 'k
  re_value :: 'c
  re_weight :: f32
  re_tagval :: nat

record ('k, 'c) relation_map =
  rm_map :: "('k, int) scoped_map"
  rm_list :: "('k, 'c) list_element list"

definition rm_new :: "('k, 'c) relation_map" where
  "rm_new = \<lparr>rm_map = sm_new (-1), rm_list = []\<rparr>"

declare rm_new_def [code_unfold]

text \<open>The loop of \<open>set\<close> over the list of the left type and the scope: how it ends.\<close>

datatype slot = SlotEqual | SlotConflict | SlotEnd (slot_prev: int)

partial_function (option) rm_slot ::
    "('k, 'c) list_element list \<Rightarrow> 'k \<Rightarrow> nat \<Rightarrow> 'c \<Rightarrow> int \<Rightarrow> int \<Rightarrow> slot option" where
  "rm_slot list right tagval value prev_li li =
     (if li \<ge> 0 then
        (case vec_at list li of
           None \<Rightarrow> None
         | Some le \<Rightarrow>
             if le_related le = right \<and> tagval = le_tagval le
             then Some (if le_value le = value then SlotEqual else SlotConflict)
             else rm_slot list right tagval value li (le_next le))
      else Some (SlotEnd prev_li))"

declare rm_slot.simps [code]

definition rm_set ::
    "scope \<Rightarrow> 'k::linorder \<Rightarrow> 'k \<Rightarrow> 'c \<Rightarrow> int \<Rightarrow> f32 \<Rightarrow> ('k, 'c) relation_map \<Rightarrow> ('k, 'c) relation_map run" where
  "rm_set scope left right value tag weight rm =
     (if tag > max_tag \<or> tag < min_tag then throwR (Error BadRelationTag (dec_int tag))
      else if weight < 0 then throwR (Error BadRelationWeight (fmt_4f weight))
      else
        let tagval = tag_val_from_tag tag; newlistindex = int (length (rm_list rm)) in
        bindR (sm_get_or_set scope left newlistindex (rm_map rm)) (\<lambda>(m, li).
        bindR (liftR (rm_slot (rm_list rm) right tagval value (-1) li)) (\<lambda>slot.
          case slot of
            SlotEqual \<Rightarrow> returnR (rm\<lparr>rm_map := m\<rparr>)
          | SlotConflict \<Rightarrow> throwR (Error DuplicateDefinition [])
          | SlotEnd prev_li \<Rightarrow>
              let list = rm_list rm @
                [\<lparr>le_related = right, le_value = value, le_weight = weight, le_next = -1, le_tagval = tagval\<rparr>] in
              returnR \<lparr>rm_map = m,
                rm_list = if prev_li \<ge> 0 then list[nat prev_li := (list ! nat prev_li)\<lparr>le_next := newlistindex\<rparr>] else list\<rparr>)))"

text \<open>The inner loop of \<open>get\<close> over one list; \<open>candidatemap\<close> as the rights already in the result.\<close>

partial_function (option) rm_collect ::
    "('k, 'c) list_element list \<Rightarrow> tag_mask \<Rightarrow> int \<Rightarrow> ('k, 'c) result_element list \<Rightarrow> ('k, 'c) result_element list option" where
  "rm_collect list select li rt =
     (if li \<ge> 0 then
        (case vec_at list li of
           None \<Rightarrow> None
         | Some le \<Rightarrow>
             rm_collect list select (le_next le)
               (if tm_matches select (le_tagval le) \<and> le_related le \<notin> re_right ` set rt
                then rt @ [\<lparr>re_right = le_related le, re_value = le_value le, re_weight = le_weight le, re_tagval = le_tagval le\<rparr>]
                else rt))
      else Some rt)"

declare rm_collect.simps [code]

fun rm_collect_range ::
    "('k, 'c) list_element list \<Rightarrow> tag_mask \<Rightarrow> int up_value list \<Rightarrow> ('k, 'c) result_element list \<Rightarrow> ('k, 'c) result_element list option" where
  "rm_collect_range list select [] rt = Some rt"
| "rm_collect_range list select (uv # uvs) rt =
     do { rt' \<leftarrow> rm_collect list select (uv_value uv) rt; rm_collect_range list select uvs rt' }"

definition rm_get :: "('k::linorder, 'c) relation_map \<Rightarrow> int \<Rightarrow> 'k \<Rightarrow> tag_mask \<Rightarrow> ('k, 'c) result_element list option" where
  "rm_get rm step key select =
     do { first \<leftarrow> sm_match_range (rm_map rm) step key;
          range \<leftarrow> it_range (it_ar (sm_tree (rm_map rm))) first;
          rm_collect_range (rm_list rm) select range [] }"

subsection \<open>Lists in the array\<close>

definition rel_of :: "('k, 'c) list_element \<Rightarrow> ('k, 'c) result_element" where
  "rel_of le = \<lparr>re_right = le_related le, re_value = le_value le, re_weight = le_weight le, re_tagval = le_tagval le\<rparr>"

text \<open>\<open>li\<close> leads through the elements \<open>ids\<close> of the array to the end.\<close>

fun chain :: "('k, 'c) list_element list \<Rightarrow> int \<Rightarrow> nat list \<Rightarrow> bool" where
  "chain list li [] \<longleftrightarrow> li = -1"
| "chain list li (n # ns) \<longleftrightarrow> li = int n \<and> n < length list \<and> chain list (le_next (list ! n)) ns"

lemma chain_in: "chain list li ns \<Longrightarrow> n \<in> set ns \<Longrightarrow> n < length list"
  by (induction ns arbitrary: li) auto

lemma chain_frame:
  "chain list li ns \<Longrightarrow> (\<And>n. n \<in> set ns \<Longrightarrow> n < length list' \<and> list' ! n = list ! n) \<Longrightarrow> chain list' li ns"
  by (induction ns arbitrary: li) auto

text \<open>Pushing an element and linking the last one to it.\<close>

definition appended :: "('k, 'c) list_element list \<Rightarrow> ('k, 'c) list_element \<Rightarrow> nat list \<Rightarrow> ('k, 'c) list_element list" where
  "appended list le ns =
     (if ns = [] then list @ [le]
      else (list @ [le])[last ns := ((list @ [le]) ! last ns)\<lparr>le_next := int (length list)\<rparr>])"

lemma length_appended [simp]: "length (appended list le ns) = Suc (length list)"
  by (simp add: appended_def)

lemma appended_new: "chain list li ns \<Longrightarrow> appended list le ns ! length list = le"
  using chain_in [of list li ns "last ns"] by (auto simp: appended_def nth_list_update)

lemma appended_other: "n < length list \<Longrightarrow> ns = [] \<or> n \<noteq> last ns \<Longrightarrow> appended list le ns ! n = list ! n"
  by (auto simp: appended_def nth_append)

lemma appended_last:
  "chain list li ns \<Longrightarrow> ns \<noteq> [] \<Longrightarrow>
    appended list le ns ! last ns = (list ! last ns)\<lparr>le_next := int (length list)\<rparr>"
  using chain_in [of list li ns "last ns"] by (simp add: appended_def nth_append)

lemma chain_extend:
  assumes "chain list li ns" "ns \<noteq> []" "distinct ns" "n' < length list'"
    and "\<And>n. n \<in> set ns \<Longrightarrow> n \<noteq> last ns \<Longrightarrow> n < length list' \<and> list' ! n = list ! n"
    and "last ns < length list'" "le_next (list' ! last ns) = int n'" "le_next (list' ! n') = -1"
  shows "chain list' li (ns @ [n'])"
  using assms
proof (induction ns arbitrary: li)
  case (Cons n ns)
  show ?case
  proof (cases "ns = []")
    case True
    then show ?thesis using Cons.prems by simp
  next
    case False
    then have "n \<noteq> last ns" using Cons.prems(3) by auto
    moreover have "chain list' (le_next (list ! n)) (ns @ [n'])"
      by (rule Cons.IH) (use Cons.prems False in auto)
    ultimately show ?thesis using Cons.prems False by simp
  qed
qed simp

lemma chain_appended:
  assumes "chain list li ns" "distinct ns" "le_next le = -1"
  shows "chain (appended list le ns) (if ns = [] then int (length list) else li) (ns @ [length list])"
proof (cases "ns = []")
  case True
  then show ?thesis using assms(3) by (simp add: appended_def)
next
  case False
  then show ?thesis
    using assms chain_in [OF assms(1)]
    by (auto intro!: chain_extend [OF assms(1)] simp: appended_other appended_new [OF assms(1)] appended_last [OF assms(1)] less_SucI)
qed

text \<open>What the loops compute on a list.\<close>

fun slot_of :: "nat list \<Rightarrow> ('k, 'c) list_element list \<Rightarrow> 'k \<Rightarrow> nat \<Rightarrow> 'c \<Rightarrow> int \<Rightarrow> slot" where
  "slot_of [] list right tagval value prev = SlotEnd prev"
| "slot_of (n # ns) list right tagval value prev =
     (if le_related (list ! n) = right \<and> tagval = le_tagval (list ! n)
      then (if le_value (list ! n) = value then SlotEqual else SlotConflict)
      else slot_of ns list right tagval value (int n))"

lemma rm_slot_chain: "chain list li ns \<Longrightarrow> rm_slot list right tagval value prev li = Some (slot_of ns list right tagval value prev)"
  by (induction ns arbitrary: li prev) (subst rm_slot.simps, simp)+

lemma slot_of_End: "slot_of ns list right tagval value prev = SlotEnd p \<Longrightarrow> p = (if ns = [] then prev else int (last ns))"
  by (induction ns arbitrary: prev) (auto split: if_splits)

text \<open>The first relation to each right type, in the order of the list.\<close>

fun add_firsts :: "tag_mask \<Rightarrow> ('k, 'c) result_element list \<Rightarrow> ('k, 'c) result_element list \<Rightarrow> ('k, 'c) result_element list" where
  "add_firsts select [] rt = rt"
| "add_firsts select (r # rs) rt =
     add_firsts select rs
       (if tm_matches select (re_tagval r) \<and> re_right r \<notin> re_right ` set rt then rt @ [r] else rt)"

lemma add_firsts_append: "add_firsts select (rs @ rs') rt = add_firsts select rs' (add_firsts select rs rt)"
  by (induction rs arbitrary: rt) auto

lemma rm_collect_chain:
  "chain list li ns \<Longrightarrow> rm_collect list select li rt = Some (add_firsts select (map (\<lambda>n. rel_of (list ! n)) ns) rt)"
proof (induction ns arbitrary: li rt)
  case Nil
  then show ?case by (subst rm_collect.simps) simp
next
  case (Cons n ns)
  then show ?case by (subst rm_collect.simps) (simp add: rel_of_def)
qed

subsection \<open>What a relation map holds\<close>

text \<open>\<open>R k s\<close>: the relations of the left type \<open>k\<close> defined with the scope \<open>s\<close>, in this order.\<close>

definition rm_inv ::
    "('k \<Rightarrow> scope \<Rightarrow> nat list) \<Rightarrow> ('k::linorder \<Rightarrow> scope \<rightharpoonup> int) \<Rightarrow> ('k, 'c) relation_map \<Rightarrow>
     ('k \<Rightarrow> scope \<Rightarrow> ('k, 'c) result_element list) \<Rightarrow> bool" where
  "rm_inv ids A rm R \<longleftrightarrow> sm_rep (-1) (rm_map rm) A \<and>
     (\<forall>k s. chain (rm_list rm) (case A k s of None \<Rightarrow> -1 | Some li \<Rightarrow> li) (ids k s) \<and> (A k s = None \<longleftrightarrow> ids k s = []) \<and>
        distinct (ids k s) \<and> R k s = map (\<lambda>n. rel_of (rm_list rm ! n)) (ids k s)) \<and>
     (\<forall>k s k' s'. (k, s) \<noteq> (k', s') \<longrightarrow> set (ids k s) \<inter> set (ids k' s') = {})"

definition rm_rep :: "('k::linorder, 'c) relation_map \<Rightarrow> ('k \<Rightarrow> scope \<Rightarrow> ('k, 'c) result_element list) \<Rightarrow> bool" where
  "rm_rep rm R \<longleftrightarrow> (\<exists>ids A. rm_inv ids A rm R)"

definition rel_insert :: "('k, 'c) result_element list \<Rightarrow> ('k, 'c) result_element \<Rightarrow> error + ('k, 'c) result_element list" where
  "rel_insert rs r =
     (case find (\<lambda>x. re_right x = re_right r \<and> re_tagval x = re_tagval r) rs of
        None \<Rightarrow> Inr (rs @ [r])
      | Some x \<Rightarrow> if re_value x = re_value r then Inr rs else Inl (Error DuplicateDefinition []))"

lemma rm_rep_new: "rm_rep rm_new (\<lambda>_ _. [])"
  unfolding rm_rep_def rm_inv_def
  by (intro exI [of _ "\<lambda>_ _. []"] exI [of _ "\<lambda>_. Map.empty"]) (simp add: rm_new_def sm_rep_new)

lemma rm_inv_dom: "rm_inv ids A rm R \<Longrightarrow> dom (A k) = {s. R k s \<noteq> []}"
  by (auto simp: rm_inv_def) (metis option.distinct(1))

lemma slot_of_find:
  fixes list :: "('k, 'c) list_element list"
  shows "slot_of ns list right tagval value prev =
    (case find (\<lambda>x. re_right x = right \<and> re_tagval x = tagval) (map (\<lambda>n. rel_of (list ! n)) ns) of
       None \<Rightarrow> SlotEnd (if ns = [] then prev else int (last ns))
     | Some x \<Rightarrow> if re_value x = value then SlotEqual else SlotConflict)"
  by (induction ns arbitrary: prev) (auto simp: rel_of_def split: option.splits)

lemma rel_of_appended:
  assumes "chain list li ns" "n < length list"
  shows "rel_of (appended list le ns ! n) = rel_of (list ! n)"
  using appended_last [OF assms(1), of le] assms(2) by (cases "ns = [] \<or> n \<noteq> last ns") (auto simp: appended_other rel_of_def)

lemma rm_inv_append:
  assumes inv: "rm_inv ids A rm R" and m: "sm_rep (-1) m (A(k := first_def (A k) s (int (length (rm_list rm)))))"
    and le: "le_next le = -1"
  shows "rm_inv (ids(k := (ids k)(s := ids k s @ [length (rm_list rm)])))
    (A(k := first_def (A k) s (int (length (rm_list rm)))))
    \<lparr>rm_map = m, rm_list = appended (rm_list rm) le (ids k s)\<rparr>
    (R(k := (R k)(s := R k s @ [rel_of le])))"
proof -
  let ?list = "rm_list rm" and ?ns = "ids k s"
  let ?n = "length ?list" and ?list' = "appended ?list le ?ns"
  have ch: "chain ?list (case A k' s' of None \<Rightarrow> -1 | Some li \<Rightarrow> li) (ids k' s')"
      "A k' s' = None \<longleftrightarrow> ids k' s' = []" "distinct (ids k' s')"
      "R k' s' = map (\<lambda>n. rel_of (?list ! n)) (ids k' s')" for k' s'
    using inv by (auto simp: rm_inv_def)
  have disj: "(k', s') \<noteq> (k'', s'') \<Longrightarrow> set (ids k' s') \<inter> set (ids k'' s'') = {}" for k' s' k'' s''
    using inv by (auto simp: rm_inv_def)
  note bound = chain_in [OF ch(1)]
  have rel: "map (\<lambda>n. rel_of (?list' ! n)) (ids k' s') = map (\<lambda>n. rel_of (?list ! n)) (ids k' s')" for k' s'
    using rel_of_appended [OF ch(1)] bound by auto
  let ?A = "A(k := first_def (A k) s (int ?n))"
  let ?ids = "ids(k := (ids k)(s := ?ns @ [?n]))"
  have "chain ?list' (case ?A k' s' of None \<Rightarrow> -1 | Some li \<Rightarrow> li) (?ids k' s') \<and> (?A k' s' = None \<longleftrightarrow> ?ids k' s' = []) \<and>
      distinct (?ids k' s') \<and> (R(k := (R k)(s := R k s @ [rel_of le]))) k' s' = map (\<lambda>n. rel_of (?list' ! n)) (?ids k' s')" for k' s'
  proof (cases "(k', s') = (k, s)")
    case True
    have "chain ?list' (if ?ns = [] then int ?n else (case A k s of None \<Rightarrow> -1 | Some li \<Rightarrow> li)) (?ns @ [?n])"
      by (rule chain_appended [OF ch(1) ch(3) le])
    moreover have "?n \<notin> set ?ns" using bound by blast
    ultimately show ?thesis
      using True ch(2-4) [of k s] rel appended_new [OF ch(1), of le k s] by (auto simp: first_def_def)
  next
    case False
    then have ids: "?ids k' s' = ids k' s'" and A: "?A k' s' = A k' s'" by (auto simp: first_def_def)
    have "chain ?list' (case A k' s' of None \<Rightarrow> -1 | Some li \<Rightarrow> li) (ids k' s')"
    proof (rule chain_frame [OF ch(1)])
      fix n
      assume n: "n \<in> set (ids k' s')"
      have "?ns = [] \<or> n \<noteq> last ?ns" using disj [OF False] n by auto
      then show "n < length ?list' \<and> ?list' ! n = ?list ! n" using bound [OF n] appended_other by simp
    qed
    then show ?thesis unfolding ids A using ch(2-4) [of k' s'] rel False by auto
  qed
  moreover have "set (?ids k1 s1) \<inter> set (?ids k2 s2) = {}" if "(k1, s1) \<noteq> (k2, s2)" for k1 s1 k2 s2
    using disj [OF that] bound that by auto
  ultimately show ?thesis unfolding rm_inv_def using m by auto
qed

definition new_rel :: "'k \<Rightarrow> 'c \<Rightarrow> int \<Rightarrow> f32 \<Rightarrow> ('k, 'c) result_element" where
  "new_rel right value tag weight =
     \<lparr>re_right = right, re_value = value, re_weight = weight, re_tagval = tag_val_from_tag tag\<rparr>"

lemma rm_set_rep:
  assumes rep: "rm_rep rm R" and lam: "laminar (insert s {s. R k s \<noteq> []})"
    and tag: "1 \<le> tag" "tag \<le> 32" and weight: "0 \<le> weight"
  shows "case rel_insert (R k s) (new_rel right value tag weight) of
      Inl e \<Rightarrow> rm_set s k right value tag weight rm = throwR e
    | Inr rs \<Rightarrow> \<exists>rm'. rm_set s k right value tag weight rm = returnR rm' \<and> rm_rep rm' (R(k := (R k)(s := rs)))"
proof -
  obtain ids A where inv: "rm_inv ids A rm R" using rep by (auto simp: rm_rep_def)
  let ?list = "rm_list rm"
  have ch: "chain ?list (case A k s of None \<Rightarrow> -1 | Some li \<Rightarrow> li) (ids k s)" "A k s = None \<longleftrightarrow> ids k s = []"
    "R k s = map (\<lambda>n. rel_of (?list ! n)) (ids k s)"
    using inv by (auto simp: rm_inv_def)
  have smr: "sm_rep (-1) (rm_map rm) A" using inv by (simp add: rm_inv_def)
  have lam': "laminar (insert s (dom (A k)))" using lam rm_inv_dom [OF inv] by simp
  obtain m where m: "sm_get_or_set s k (int (length ?list)) (rm_map rm) =
      returnR (m, case A k s of None \<Rightarrow> -1 | Some li \<Rightarrow> li)"
    "sm_rep (-1) m (A(k := first_def (A k) s (int (length ?list))))"
    using sm_get_or_set_rep [OF smr lam'] by blast
  let ?slot = "slot_of (ids k s) ?list right (tag_val_from_tag tag) value (-1)"
  have slot: "rm_slot ?list right (tag_val_from_tag tag) value (-1) (case A k s of None \<Rightarrow> -1 | Some li \<Rightarrow> li) = Some ?slot"
    using rm_slot_chain [OF ch(1)] .
  have tagok: "\<not> (tag > max_tag \<or> tag < min_tag)" using tag by (simp add: max_tag_def min_tag_def)
  note set_def = rm_set_def Let_def if_not_P [OF tagok] m(1) returnR_bind slot
  show ?thesis
  proof (cases "find (\<lambda>x. re_right x = right \<and> re_tagval x = tag_val_from_tag tag) (R k s)")
    case None
    let ?le = "\<lparr>le_related = right, le_value = value, le_weight = weight, le_next = -1, le_tagval = tag_val_from_tag tag\<rparr>"
    have "?slot = SlotEnd (if ids k s = [] then -1 else int (last (ids k s)))"
      using None ch(3) by (simp add: slot_of_find)
    then have "rm_set s k right value tag weight rm = returnR \<lparr>rm_map = m, rm_list = appended ?list ?le (ids k s)\<rparr>"
      using weight by (simp add: set_def appended_def)
    moreover have "rel_of ?le = new_rel right value tag weight" by (simp add: rel_of_def new_rel_def)
    ultimately show ?thesis
      using rm_inv_append [OF inv m(2), of ?le] None by (auto simp: rel_insert_def new_rel_def rm_rep_def)
  next
    case (Some x)
    then have eq: "?slot = (if re_value x = value then SlotEqual else SlotConflict)"
      using ch(3) by (simp add: slot_of_find)
    have "x \<in> set (R k s)" using Some by (auto simp: find_Some_iff)
    then have "A k s \<noteq> None" using ch(2,3) by auto
    then have keep: "A(k := first_def (A k) s (int (length ?list))) = A" by (auto simp: first_def_def)
    have rm': "rm_inv ids A (rm\<lparr>rm_map := m\<rparr>) R"
      using inv m(2) unfolding keep by (simp add: rm_inv_def)
    show ?thesis
    proof (cases "re_value x = value")
      case True
      then have "rm_set s k right value tag weight rm = returnR (rm\<lparr>rm_map := m\<rparr>)"
        using weight eq by (simp add: set_def)
      then show ?thesis using Some True rm' by (auto simp: rel_insert_def new_rel_def rm_rep_def)
    next
      case False
      then have "rm_set s k right value tag weight rm = throwR (Error DuplicateDefinition [])"
        using weight eq by (simp add: set_def)
      then show ?thesis using Some False by (auto simp: rel_insert_def new_rel_def)
    qed
  qed
qed

lemma rm_collect_range_chain:
  assumes "\<And>uv. uv \<in> set uvs \<Longrightarrow> chain list (uv_value uv) (ids (uv_scope uv))"
  shows "rm_collect_range list select uvs rt =
    Some (add_firsts select (concat (map (\<lambda>uv. map (\<lambda>n. rel_of (list ! n)) (ids (uv_scope uv))) uvs)) rt)"
  using assms
proof (induction uvs arbitrary: rt)
  case (Cons a uvs)
  have "rm_collect list select (uv_value a) rt =
      Some (add_firsts select (map (\<lambda>n. rel_of (list ! n)) (ids (uv_scope a))) rt)"
    by (rule rm_collect_chain) (use Cons.prems in simp)
  then show ?case using Cons by (simp add: add_firsts_append)
qed simp

lemma rm_get_rep:
  assumes rep: "rm_rep rm R"
  shows "\<exists>scopes. sorted_wrt strictly_in scopes \<and> set scopes = {s. R k s \<noteq> [] \<and> scope_contains_step s step} \<and>
    rm_get rm step k select = Some (add_firsts select (concat (map (R k) scopes)) [])"
proof -
  obtain ids A where inv: "rm_inv ids A rm R" using rep by (auto simp: rm_rep_def)
  have ch: "chain (rm_list rm) (case A k s of None \<Rightarrow> -1 | Some li \<Rightarrow> li) (ids k s)"
    "R k s = map (\<lambda>n. rel_of (rm_list rm ! n)) (ids k s)" for s
    using inv by (auto simp: rm_inv_def)
  have smr: "sm_rep (-1) (rm_map rm) A" using inv by (simp add: rm_inv_def)
  obtain i uvs where r: "sm_match_range (rm_map rm) step k = Some i" "it_range (it_ar (sm_tree (rm_map rm))) i = Some uvs"
    "set (map (\<lambda>uv. (uv_scope uv, uv_value uv)) uvs) = {(s, v). A k s = Some v \<and> scope_contains_step s step}"
    "sorted_wrt (\<lambda>a b. strictly_in (uv_scope a) (uv_scope b)) uvs"
    using sm_match_range_rep [OF smr] by blast
  have val: "A k (uv_scope uv) = Some (uv_value uv) \<and> scope_contains_step (uv_scope uv) step" if "uv \<in> set uvs" for uv
    using r(3) that by (auto simp: set_eq_iff)
  have "chain (rm_list rm) (uv_value uv) (ids k (uv_scope uv))" if "uv \<in> set uvs" for uv
    using ch(1) [of "uv_scope uv"] val [OF that] by simp
  then have "rm_collect_range (rm_list rm) select uvs [] =
      Some (add_firsts select (concat (map (\<lambda>uv. map (\<lambda>n. rel_of (rm_list rm ! n)) (ids k (uv_scope uv))) uvs)) [])"
    by (rule rm_collect_range_chain)
  then have "rm_get rm step k select = Some (add_firsts select (concat (map (R k) (map uv_scope uvs))) [])"
    using r(1,2) ch(2) by (simp add: rm_get_def comp_def)
  moreover have "set (map uv_scope uvs) = {s. R k s \<noteq> [] \<and> scope_contains_step s step}"
  proof -
    have "set (map uv_scope uvs) = fst ` set (map (\<lambda>uv. (uv_scope uv, uv_value uv)) uvs)" by force
    also have "\<dots> = {s. s \<in> dom (A k) \<and> scope_contains_step s step}" unfolding r(3) by force
    finally show ?thesis using rm_inv_dom [OF inv] by simp
  qed
  ultimately show ?thesis using r(4) by (intro exI [of _ "map uv_scope uvs"]) (simp add: sorted_wrt_map)
qed

subsection \<open>What a query selects\<close>

lemma add_firsts_spec:
  "distinct (map re_right rt) \<Longrightarrow>
     distinct (map re_right (add_firsts select rs rt)) \<and>
     re_right ` set (add_firsts select rs rt) =
       re_right ` set rt \<union> {re_right r | r. r \<in> set rs \<and> tm_matches select (re_tagval r)} \<and>
     set rt \<subseteq> set (add_firsts select rs rt) \<and>
     set (add_firsts select rs rt) \<subseteq> set rt \<union> {r \<in> set rs. tm_matches select (re_tagval r)}"
proof (induction rs arbitrary: rt)
  case (Cons r rs)
  show ?case
  proof (cases "tm_matches select (re_tagval r) \<and> re_right r \<notin> re_right ` set rt")
    case True
    then have "distinct (map re_right (rt @ [r]))" using Cons.prems by auto
    from Cons.IH [OF this] True show ?thesis by auto
  next
    case False
    with Cons.IH [OF Cons.prems] show ?thesis by auto
  qed
qed simp

text \<open>The element selected for a right type is the first that matches.\<close>

lemma add_firsts_first:
  assumes "r \<in> set (add_firsts select rs rt)" "r \<notin> set rt"
  shows "\<exists>as bs. rs = as @ r # bs \<and> (\<forall>x \<in> set as. tm_matches select (re_tagval x) \<longrightarrow> re_right x \<noteq> re_right r) \<and>
    tm_matches select (re_tagval r) \<and> re_right r \<notin> re_right ` set rt"
  using assms
proof (induction rs arbitrary: rt)
  case (Cons x rs)
  let ?rt = "if tm_matches select (re_tagval x) \<and> re_right x \<notin> re_right ` set rt then rt @ [x] else rt"
  show ?case
  proof (cases "r = x \<and> tm_matches select (re_tagval x) \<and> re_right x \<notin> re_right ` set rt")
    case True
    then show ?thesis by (intro exI [of _ "[]"] exI [of _ rs]) simp
  next
    case False
    then have "r \<notin> set ?rt" using Cons.prems(2) by (auto split: if_splits)
    moreover have "r \<in> set (add_firsts select rs ?rt)" using Cons.prems(1) by simp
    ultimately obtain as bs where *: "rs = as @ r # bs" "\<forall>y \<in> set as. tm_matches select (re_tagval y) \<longrightarrow> re_right y \<noteq> re_right r"
      "tm_matches select (re_tagval r)" "re_right r \<notin> re_right ` set ?rt"
      using Cons.IH by blast
    have "tm_matches select (re_tagval x) \<longrightarrow> re_right x \<noteq> re_right r" "re_right r \<notin> re_right ` set rt"
      using *(4) by (auto split: if_splits)
    with * show ?thesis by (intro exI [of _ "x # as"] exI [of _ bs]) auto
  qed
qed simp

subsection \<open>Properties\<close>

text \<open>A sequence of calls of \<open>set\<close>, on the array of linked lists and on the lists it stands for.\<close>

type_synonym ('k, 'c) rel_call = "scope \<times> 'k \<times> 'k \<times> 'c \<times> int \<times> f32"

definition rm_call :: "('k::linorder, 'c) rel_call \<Rightarrow> ('k, 'c) relation_map \<Rightarrow> ('k, 'c) relation_map run" where
  "rm_call = (\<lambda>(s, k, right, value, tag, weight). rm_set s k right value tag weight)"

fun rel_run :: "('k, 'c) rel_call list \<Rightarrow> ('k \<Rightarrow> scope \<Rightarrow> ('k, 'c) result_element list) \<Rightarrow>
    error + ('k \<Rightarrow> scope \<Rightarrow> ('k, 'c) result_element list)" where
  "rel_run [] R = Inr R"
| "rel_run ((s, k, right, value, tag, weight) # ds) R =
     (if tag > max_tag \<or> tag < min_tag then Inl (Error BadRelationTag (dec_int tag))
      else if weight < 0 then Inl (Error BadRelationWeight (fmt_4f weight))
      else case rel_insert (R k s) (new_rel right value tag weight) of
          Inl e \<Rightarrow> Inl e
        | Inr rs \<Rightarrow> rel_run ds (R(k := (R k)(s := rs))))"

lemma rel_insert_Nil: "rel_insert rs r = Inr rs' \<Longrightarrow> rs' \<noteq> []"
  by (auto simp: rel_insert_def split: option.splits if_splits)

lemma rm_run_rep:
  assumes "rm_rep rm R" "\<And>k. laminar ({s. R k s \<noteq> []} \<union> {s. \<exists>x. (s, k, x) \<in> set ds})"
  shows "case rel_run ds R of
      Inl e \<Rightarrow> runR rm_call ds rm = throwR e
    | Inr R' \<Rightarrow> \<exists>rm'. runR rm_call ds rm = returnR rm' \<and> rm_rep rm' R'"
  using assms
proof (induction ds R arbitrary: rm rule: rel_run.induct)
  case (2 s k right v tag weight ds R)
  show ?case
  proof (cases "tag > max_tag \<or> tag < min_tag \<or> weight < 0")
    case True
    then show ?thesis by (auto simp: rm_call_def rm_set_def)
  next
    case False
    then have ok: "\<not> (tag > max_tag \<or> tag < min_tag)" "\<not> weight < 0" "1 \<le> tag" "tag \<le> 32" "0 \<le> weight"
      by (auto simp: max_tag_def min_tag_def)
    have "laminar (insert s {s. R k s \<noteq> []})"
      by (rule laminar_subset [OF "2.prems"(2) [of k]]) auto
    note set = rm_set_rep [OF "2.prems"(1) this ok(3-5), of right v]
    show ?thesis
    proof (cases "rel_insert (R k s) (new_rel right v tag weight)")
      case (Inl e)
      with set ok show ?thesis by (simp add: rm_call_def)
    next
      case (Inr rs)
      then obtain rm1 where rm1: "rm_set s k right v tag weight rm = returnR rm1" "rm_rep rm1 (R(k := (R k)(s := rs)))"
        using set by auto
      have "laminar ({s'. (R(k := (R k)(s := rs))) k' s' \<noteq> []} \<union> {s. \<exists>x. (s, k', x) \<in> set ds})" for k'
        by (rule laminar_subset [OF "2.prems"(2) [of k']]) (auto split: if_splits)
      note IH = "2.IH" [OF ok(1,2) Inr rm1(2) this]
      have run: "runR rm_call ((s, k, right, v, tag, weight) # ds) rm = runR rm_call ds rm1"
        using rm1(1) by (simp add: rm_call_def)
      have abs: "rel_run ((s, k, right, v, tag, weight) # ds) R = rel_run ds (R(k := (R k)(s := rs)))"
        unfolding rel_run.simps if_not_P [OF ok(1)] if_not_P [OF ok(2)] Inr by simp
      show ?thesis unfolding run abs by (rule IH)
    qed
  qed
qed simp

text \<open>
  C9: \<open>ScopedRelationMap::set\<close>, the linked lists in one array behind a scoped map, implements lists of
  relations for each left type and scope: a call that repeats an equal definition changes nothing,
  one with another value for the same right type and tag throws \<open>DuplicateDefinition\<close>, a tag outside
  1..32 and a negative weight throw, every other call appends. A sequence of calls with scopes
  hierarchical for each left type throws the first of these errors, or ends with the lists it
  describes.
\<close>

theorem relation_map_refines:
  assumes "\<forall>k. laminar {s. \<exists>x. (s, k, x) \<in> set ds}"
  shows "case rel_run ds (\<lambda>_ _. []) of
      Inl e \<Rightarrow> runR rm_call ds rm_new = throwR e
    | Inr R \<Rightarrow> \<exists>rm. runR rm_call ds rm_new = returnR rm \<and> rm_rep rm R"
  by (rule rm_run_rep [OF rm_rep_new]) (use assms in simp)

lemma relation_map_refines_witness:
  "runR rm_call [(Scope 0 9, 1 :: int, 2, ''c'', 1, f32_one), (Scope 2 5, 1, 2, ''d'', 1, f32_one),
     (Scope 0 9, 1, 2, ''e'', 1, f32_one)] rm_new = throwR (Error DuplicateDefinition [])"
proof -
  let ?ds = "[(Scope 0 9, 1 :: int, 2, ''c'', 1, f32_one), (Scope 2 5, 1, 2, ''d'', 1, f32_one),
     (Scope 0 9, 1, 2, ''e'', 1, f32_one)]"
  have "\<forall>k. laminar {s. \<exists>x. (s, k, x) \<in> set ?ds}"
    by (auto simp: laminar_def scope_wf_def scopes_nested_def scope_contains_def)
  moreover have "rel_run ?ds (\<lambda>_ _. []) = Inl (Error DuplicateDefinition [])"
    by (simp add: max_tag_def min_tag_def f32_one_def rel_insert_def new_rel_def)
  ultimately show ?thesis using relation_map_refines [of ?ds] by simp
qed



end
