(* ===== verification/IdentMap.thy ===== *)
theory IdentMap
  imports StdMap "HOL-Library.Word"
begin

unbundle bit_operations_syntax

text \<open>
  \<open>IdentKey\<close>, \<open>IdentKeyEnvelop\<close> and \<open>IdentMap\<close> of \<open>src/identmap.hpp\<close>: names as numbers 1, 2, 3, ...
  A key is stored as a 16 bit length, the characters and zero bytes up to a multiple of four, and
  is compared and hashed as an array of 32 bit words.
\<close>

subsection \<open>Keys\<close>

text \<open>The offset of \<open>buf\<close> in \<open>IdentKey\<close>, behind the \<open>unsigned short size\<close>.\<close>

definition offs_buf :: "16 word" where
  "offs_buf = 2"

text \<open>\<open>create\<close>: the length kept, and the size of the block allocated, in 16 bit arithmetic.\<close>

definition ident_strsize :: "string \<Rightarrow> 16 word" where
  "ident_strsize src = (if length src > 65531 then 65531 else of_nat (length src))"

definition ident_blksize :: "16 word \<Rightarrow> 16 word" where
  "ident_blksize strsize =
     (let blksize = offs_buf + strsize + 1 in blksize + ((4 - (blksize AND 3)) AND 3))"

definition ident_key :: "string \<Rightarrow> string" where
  "ident_key src = take (unat (ident_strsize src)) src"

text \<open>The bytes of the block: length (little endian), characters, zeros.\<close>

definition ident_bytes :: "string \<Rightarrow> nat list" where
  "ident_bytes key =
     [length key mod 256, length key div 256] @ map of_char key @
     replicate (unat (ident_blksize (of_nat (length key))) - length key - 2) 0"

definition word_of_bytes :: "nat \<Rightarrow> nat \<Rightarrow> nat \<Rightarrow> nat \<Rightarrow> 32 word" where
  "word_of_bytes b0 b1 b2 b3 = of_nat (b0 + 256 * b1 + 65536 * b2 + 16777216 * b3)"

fun words_of_bytes :: "nat list \<Rightarrow> 32 word list" where
  "words_of_bytes (b0 # b1 # b2 # b3 # bs) = word_of_bytes b0 b1 b2 b3 # words_of_bytes bs"
| "words_of_bytes _ = []"

definition ident_words :: "string \<Rightarrow> 32 word list" where
  "ident_words key = words_of_bytes (ident_bytes key)"

definition ident_alignedsize :: "string \<Rightarrow> nat" where
  "ident_alignedsize key = unat (ident_blksize (of_nat (length key))) div 4"

text \<open>\<open>operator ==\<close>: the words in turn, as many as the left key has.\<close>

fun words_equal :: "nat \<Rightarrow> 32 word list \<Rightarrow> 32 word list \<Rightarrow> bool option" where
  "words_equal 0 kk ll = Some True"
| "words_equal (Suc n) (k # kk) (l # ll) = (if k = l then words_equal n kk ll else Some False)"
| "words_equal (Suc n) _ _ = None"

definition ident_key_equal :: "string \<Rightarrow> string \<Rightarrow> bool option" where
  "ident_key_equal key okey = words_equal (ident_alignedsize key) (ident_words key) (ident_words okey)"

subsection \<open>The hash\<close>

definition rot :: "32 word \<Rightarrow> nat \<Rightarrow> 32 word" where
  "rot n d = push_bit d n OR drop_bit (32 - d) n"

datatype bank = Bank (bank_a: "32 word") (bank_b: "32 word") (bank_c: "32 word")

definition bank_new :: bank where
  "bank_new = Bank 0xdeadbeef 0xdeadbeef 0xdeadbeef"

fun bank_mix :: "bank \<Rightarrow> bank" where
  "bank_mix (Bank a b c) =
     (let a = (a - c) XOR rot c 4; c = c + b;
          b = (b - a) XOR rot a 6; a = a + c;
          c = (c - b) XOR rot b 8; b = b + a;
          a = (a - c) XOR rot c 16; c = c + b;
          b = (b - a) XOR rot a 19; a = a + c;
          c = (c - b) XOR rot b 4; b = b + a
      in Bank a b c)"

fun bank_final :: "bank \<Rightarrow> bank" where
  "bank_final (Bank a b c) =
     (let c = (c XOR b) - rot b 14;
          a = (a XOR c) - rot c 11;
          b = (b XOR a) - rot a 25;
          c = (c XOR b) - rot b 16;
          a = (a XOR c) - rot c 4;
          b = (b XOR a) - rot a 14;
          c = (c XOR b) - rot b 24
      in Bank a b c)"

fun hash_loop :: "bank \<Rightarrow> 32 word list \<Rightarrow> bank" where
  "hash_loop (Bank a b c) (k0 # k1 # k2 # k3 # kk) = hash_loop (bank_mix (Bank (a + k0) (b + k1) (c + k2))) (k3 # kk)"
| "hash_loop (Bank a b c) [k0, k1, k2] = bank_final (Bank (a + k0) (b + k1) (c + k2))"
| "hash_loop (Bank a b c) [k0, k1] = bank_final (Bank (a + k0) (b + k1) c)"
| "hash_loop (Bank a b c) [k0] = bank_final (Bank (a + k0) b c)"
| "hash_loop bank [] = bank"

definition hashword2 :: "string \<Rightarrow> 64 word" where
  "hashword2 key =
     (let bank = hash_loop bank_new (take (ident_alignedsize key) (ident_words key)) in
      push_bit 32 (ucast (bank_c bank)) + ucast (bank_b bank + bank_a bank))"

subsection \<open>The map\<close>

text \<open>\<open>im_ids\<close> is the \<open>std::unordered_map\<close>, \<open>im_inv\<close> the array of the keys by number.\<close>

record ident_map =
  im_ids :: "string \<rightharpoonup> int"
  im_inv :: "string list"

definition im_new :: ident_map where
  "im_new = \<lparr>im_ids = Map.empty, im_inv = []\<rparr>"

definition im_get :: "string \<Rightarrow> ident_map \<Rightarrow> ident_map \<times> int" where
  "im_get str im =
     (let env = ident_key str in
      case im_ids im env of
        None \<Rightarrow>
          let rt = int (length (im_inv im)) + 1 in
          (\<lparr>im_ids = (im_ids im)(env \<mapsto> rt), im_inv = im_inv im @ [env]\<rparr>, rt)
      | Some i \<Rightarrow> (im, i))"

definition im_lookup :: "string \<Rightarrow> ident_map \<Rightarrow> int" where
  "im_lookup str im = (case im_ids im (ident_key str) of None \<Rightarrow> 0 | Some i \<Rightarrow> i)"

definition im_invert :: "int \<Rightarrow> ident_map \<Rightarrow> string option" where
  "im_invert ident im = vec_at (im_inv im) (ident - 1)"

subsection \<open>The size of a key block\<close>

lemma ident_strsize_unat: "unat (ident_strsize src) = min (length src) 65531"
  by (auto simp: ident_strsize_def unat_of_nat min_def)

lemma length_ident_key: "length (ident_key src) = min (length src) 65531"
  by (simp add: ident_key_def ident_strsize_unat)

lemma and_3: "(x :: 16 word) AND 3 = of_nat (unat x mod 4)"
proof -
  have "(3 :: 16 word) = mask 2" by (simp add: mask_eq_exp_minus_1)
  then have "x AND 3 = take_bit 2 x" by (simp add: take_bit_eq_mask)
  then have "x AND 3 = x mod 4" by (simp add: take_bit_eq_mod)
  then have "unat (x AND 3) = unat x mod 4" by (simp add: unat_mod)
  then show ?thesis by (metis of_nat_unat ucast_id)
qed

text \<open>The rounding to four, as long as nothing wraps around, and where it does.\<close>

lemma ident_blksize_unat:
  assumes "n \<le> 65531"
  shows "unat (ident_blksize (of_nat n)) = (if n < 65530 then (n + 6) div 4 * 4 else 0)"
proof -
  let ?b = "offs_buf + of_nat n + 1"
  have b: "unat ?b = n + 3"
  proof -
    have "?b = of_nat (n + 3)" by (simp add: offs_buf_def)
    then show ?thesis using assms by (simp only: unat_of_nat) simp
  qed
  let ?r = "(n + 3) mod 4"
  have "unat ((4 :: 16 word) - (?b AND 3)) = 4 - ?r"
  proof -
    have r4: "?r < 4" by simp
    have "(4 :: 16 word) - of_nat ?r = of_nat (4 - ?r)" using r4 by (simp add: of_nat_diff)
    moreover have "unat (of_nat (4 - ?r) :: 16 word) = 4 - ?r" by (simp only: unat_of_nat) simp
    ultimately show ?thesis by (simp only: and_3 b)
  qed
  then have pad: "((4 - (?b AND 3)) AND 3) = (of_nat ((4 - ?r) mod 4) :: 16 word)" by (simp only: and_3)
  have "ident_blksize (of_nat n) = of_nat (n + 3 + (4 - ?r) mod 4)"
  proof -
    have "?b = of_nat (n + 3)" by (simp add: offs_buf_def)
    then show ?thesis unfolding ident_blksize_def Let_def pad by (simp only: of_nat_add)
  qed
  moreover have "n + 3 + (4 - ?r) mod 4 = (n + 6) div 4 * 4"
  proof -
    have n: "n + 6 = ?r + 3 + 4 * ((n + 3) div 4)" "n + 3 = ?r + 4 * ((n + 3) div 4)" by simp_all
    have "(?r + 3 + 4 * q) div 4 = (?r + 3) div 4 + q" for q by simp
    then have "(n + 6) div 4 = (?r + 3) div 4 + (n + 3) div 4" using n(1) by metis
    moreover have "(?r + 3) div 4 * 4 = ?r + (4 - ?r) mod 4"
    proof -
      have "?r < 4" by simp
      then have "?r = 0 \<or> ?r = 1 \<or> ?r = 2 \<or> ?r = 3" by linarith
      then show ?thesis by auto
    qed
    ultimately show ?thesis using n(2) by (simp add: add_mult_distrib)
  qed
  ultimately have "ident_blksize (of_nat n) = of_nat ((n + 6) div 4 * 4)" by (simp only:)
  then have "unat (ident_blksize (of_nat n)) = ((n + 6) div 4 * 4) mod 2 ^ 16" by (simp only: unat_of_nat) simp
  then have "unat (ident_blksize (of_nat n)) = ((n + 6) div 4 * 4) mod 65536" by simp
  moreover have "((n + 6) div 4 * 4) mod 65536 = (if n < 65530 then (n + 6) div 4 * 4 else 0)"
  proof (cases "n < 65530")
    case True
    have "(n + 6) div 4 * 4 \<le> n + 6" by simp
    with True have "(n + 6) div 4 * 4 < 65536" by linarith
    with True show ?thesis by simp
  next
    case False
    then have "n = 65530 \<or> n = 65531" using assms by auto
    then show ?thesis by auto
  qed
  ultimately show ?thesis by simp
qed

subsection \<open>Comparing keys\<close>

lemma digit_eq_iff:
  assumes "b < 256" "c < 256"
  shows "b + 256 * x = c + 256 * y \<longleftrightarrow> b = c \<and> x = (y :: nat)"
proof
  assume eq: "b + 256 * x = c + 256 * y"
  have "(b + 256 * x) mod 256 = b" "(c + 256 * y) mod 256 = c" "(b + 256 * x) div 256 = x" "(c + 256 * y) div 256 = y"
    using assms by simp_all
  with eq show "b = c \<and> x = y" by simp
qed simp

lemma word_of_bytes_inj:
  assumes "b0 < 256" "b1 < 256" "b2 < 256" "b3 < 256" "c0 < 256" "c1 < 256" "c2 < 256" "c3 < 256"
  shows "word_of_bytes b0 b1 b2 b3 = word_of_bytes c0 c1 c2 c3 \<longleftrightarrow> b0 = c0 \<and> b1 = c1 \<and> b2 = c2 \<and> b3 = c3"
proof
  have small: "x0 + 256 * x1 + 65536 * x2 + 16777216 * x3 < 4294967296"
    if "x0 < 256" "x1 < 256" "x2 < 256" "x3 < 256" for x0 x1 x2 x3 :: nat
    using that by linarith
  assume "word_of_bytes b0 b1 b2 b3 = word_of_bytes c0 c1 c2 c3"
  then have "unat (word_of_bytes b0 b1 b2 b3) = unat (word_of_bytes c0 c1 c2 c3)" by simp
  then have "b0 + 256 * b1 + 65536 * b2 + 16777216 * b3 = c0 + 256 * c1 + 65536 * c2 + 16777216 * c3"
    unfolding word_of_bytes_def unat_of_nat using small assms by simp
  then have "b0 + 256 * (b1 + 256 * (b2 + 256 * b3)) = c0 + 256 * (c1 + 256 * (c2 + 256 * c3))" by simp
  then show "b0 = c0 \<and> b1 = c1 \<and> b2 = c2 \<and> b3 = c3"
    using assms by (simp only: digit_eq_iff)
qed simp

lemma length_words_of_bytes: "length (words_of_bytes bs) = length bs div 4"
  by (induction bs rule: words_of_bytes.induct) auto

lemma words_of_bytes_inj:
  assumes "\<forall>b \<in> set bs. b < 256" "\<forall>c \<in> set cs. c < 256" "length bs = length cs" "length bs mod 4 = 0"
  shows "words_of_bytes bs = words_of_bytes cs \<longleftrightarrow> bs = cs"
  using assms
proof (induction bs arbitrary: cs rule: words_of_bytes.induct)
  case (1 b0 b1 b2 b3 bs)
  obtain c0 c1 c2 c3 cs' where cs: "cs = c0 # c1 # c2 # c3 # cs'"
    using 1(4) by (cases cs rule: words_of_bytes.cases) auto
  show ?case using 1 by (simp add: cs word_of_bytes_inj)
qed simp_all

lemma words_equal_take:
  "n \<le> length kk \<Longrightarrow> n \<le> length ll \<Longrightarrow> words_equal n kk ll = Some (take n kk = take n ll)"
  by (induction n kk ll rule: words_equal.induct) auto

lemma ident_bytes_less: "length key \<le> 65531 \<Longrightarrow> \<forall>b \<in> set (ident_bytes key). b < 256"
  by (auto simp: ident_bytes_def)

text \<open>The keys in question: not longer than the block size allows.\<close>

abbreviation key_ok :: "string \<Rightarrow> bool" where
  "key_ok key \<equiv> length key < 65530"

lemma length_ident_bytes: "key_ok key \<Longrightarrow> length (ident_bytes key) = (length key + 6) div 4 * 4"
  using ident_blksize_unat [of "length key"] by (simp add: ident_bytes_def)

lemma ident_alignedsize: "key_ok key \<Longrightarrow> ident_alignedsize key = (length key + 6) div 4"
  using ident_blksize_unat [of "length key"] by (simp add: ident_alignedsize_def)

lemma length_ident_words: "key_ok key \<Longrightarrow> length (ident_words key) = ident_alignedsize key"
  by (simp add: ident_words_def length_words_of_bytes length_ident_bytes ident_alignedsize)

lemma ident_words_inj:
  assumes "key_ok key" "key_ok okey" "length key = length okey"
  shows "ident_words key = ident_words okey \<longleftrightarrow> key = okey"
proof -
  have "ident_words key = ident_words okey \<longleftrightarrow> ident_bytes key = ident_bytes okey"
    unfolding ident_words_def using assms
    by (intro words_of_bytes_inj ident_bytes_less) (simp_all add: length_ident_bytes)
  also have "\<dots> \<longleftrightarrow> map of_char key = (map of_char okey :: nat list)"
    using assms(3) by (simp add: ident_bytes_def)
  also have "\<dots> \<longleftrightarrow> key = okey" by (simp add: inj_map_eq_map inj_def)
  finally show ?thesis .
qed

lemma ident_words_first:
  assumes "key_ok key"
  shows "\<exists>c0 c1 ws. ident_words key = word_of_bytes (length key mod 256) (length key div 256) c0 c1 # ws \<and> c0 < 256 \<and> c1 < 256"
proof -
  have "4 \<le> length (ident_bytes key)" using assms by (simp add: length_ident_bytes)
  define xs where "xs = map of_char key @ replicate (unat (ident_blksize (of_nat (length key))) - length key - 2) (0 :: nat)"
  have b': "ident_bytes key = length key mod 256 # length key div 256 # xs" by (simp add: ident_bytes_def xs_def)
  with \<open>4 \<le> length (ident_bytes key)\<close> have "2 \<le> length xs" by simp
  then obtain c0 c1 bs where "xs = c0 # c1 # bs" by (cases xs rule: remdups_adj.cases) auto
  with b' have b: "ident_bytes key = length key mod 256 # length key div 256 # c0 # c1 # bs" by simp
  then have "c0 \<in> set (ident_bytes key)" "c1 \<in> set (ident_bytes key)" by simp_all
  then have "c0 < 256" "c1 < 256" using ident_bytes_less [of key] assms by auto
  then show ?thesis unfolding ident_words_def b by auto
qed

lemma ident_key_equal_spec:
  assumes "key_ok key" "key_ok okey"
  shows "ident_key_equal key okey = Some (key = okey)"
proof (cases "length key = length okey")
  case True
  then have "ident_alignedsize key = ident_alignedsize okey" using assms by (simp add: ident_alignedsize)
  then have "ident_key_equal key okey = Some (ident_words key = ident_words okey)"
    unfolding ident_key_equal_def using assms by (subst words_equal_take) (simp_all add: length_ident_words)
  then show ?thesis using ident_words_inj [OF assms True] by simp
next
  case False
  obtain c0 c1 ws where w: "ident_words key = word_of_bytes (length key mod 256) (length key div 256) c0 c1 # ws" "c0 < 256" "c1 < 256"
    using ident_words_first [OF assms(1)] by blast
  obtain d0 d1 vs where v: "ident_words okey = word_of_bytes (length okey mod 256) (length okey div 256) d0 d1 # vs" "d0 < 256" "d1 < 256"
    using ident_words_first [OF assms(2)] by blast
  have "length key div 256 < 256" "length okey div 256 < 256" using assms by linarith+
  moreover have "length key mod 256 \<noteq> length okey mod 256 \<or> length key div 256 \<noteq> length okey div 256"
    using False by (metis div_mult_mod_eq)
  ultimately have "word_of_bytes (length key mod 256) (length key div 256) c0 c1 \<noteq>
      word_of_bytes (length okey mod 256) (length okey div 256) d0 d1"
    using w(2,3) v(2,3) by (auto simp: word_of_bytes_inj)
  moreover have "0 < ident_alignedsize key"
    using ident_alignedsize [OF assms(1)] by (simp add: div_greater_zero_iff)
  then obtain n where "ident_alignedsize key = Suc n" using gr0_implies_Suc by blast
  ultimately show ?thesis using w(1) v(1) False by (auto simp: ident_key_equal_def)
qed

subsection \<open>Numbers of names\<close>

text \<open>The numbers are 1..n, \<open>im_inv\<close> gives the name of each.\<close>

definition im_inv_ok :: "ident_map \<Rightarrow> bool" where
  "im_inv_ok im \<longleftrightarrow> distinct (im_inv im) \<and>
     (\<forall>env i. im_ids im env = Some i \<longleftrightarrow> (\<exists>n < length (im_inv im). i = int n + 1 \<and> im_inv im ! n = env))"

lemma im_inv_ok_new: "im_inv_ok im_new"
  by (simp add: im_inv_ok_def im_new_def)

lemma im_inv_ok_get: "im_inv_ok im \<Longrightarrow> im_get str im = (im', i) \<Longrightarrow>
    im_inv_ok im' \<and> im_ids im' (ident_key str) = Some i \<and> (\<exists>rest. im_inv im' = im_inv im @ rest) \<and>
    (\<forall>env j. im_ids im env = Some j \<longrightarrow> im_ids im' env = Some j) \<and> 0 < i"
proof -
  assume ok: "im_inv_ok im" and get: "im_get str im = (im', i)"
  let ?env = "ident_key str"
  show ?thesis
  proof (cases "im_ids im ?env")
    case None
    have new: "?env \<notin> set (im_inv im)"
    proof
      assume "?env \<in> set (im_inv im)"
      then obtain n where "n < length (im_inv im)" "im_inv im ! n = ?env" by (auto simp: in_set_conv_nth)
      then have "im_ids im ?env = Some (int n + 1)" using ok by (auto simp: im_inv_ok_def)
      with None show False by simp
    qed
    then have new': "\<And>n. n < length (im_inv im) \<Longrightarrow> im_inv im ! n \<noteq> ?env" using nth_mem by metis
    have im': "im' = \<lparr>im_ids = (im_ids im)(?env \<mapsto> i), im_inv = im_inv im @ [?env]\<rparr>" "i = int (length (im_inv im)) + 1"
      using get None by (auto simp: im_get_def Let_def)
    have "im_inv_ok im'"
      unfolding im_inv_ok_def im'
    proof (intro conjI allI)
      show "distinct (im_inv \<lparr>im_ids = (im_ids im)(?env \<mapsto> int (length (im_inv im)) + 1), im_inv = im_inv im @ [?env]\<rparr>)"
        using ok new by (simp add: im_inv_ok_def)
      fix env j
      show "(im_ids \<lparr>im_ids = (im_ids im)(?env \<mapsto> int (length (im_inv im)) + 1), im_inv = im_inv im @ [?env]\<rparr> env = Some j) =
          (\<exists>n<length (im_inv \<lparr>im_ids = (im_ids im)(?env \<mapsto> int (length (im_inv im)) + 1), im_inv = im_inv im @ [?env]\<rparr>).
             j = int n + 1 \<and> im_inv \<lparr>im_ids = (im_ids im)(?env \<mapsto> int (length (im_inv im)) + 1), im_inv = im_inv im @ [?env]\<rparr> ! n = env)"
        using ok new' by (cases "env = ?env") (auto simp: im_inv_ok_def nth_append less_Suc_eq)
    qed
    then show ?thesis using None im' by (auto simp: im'(1))
  next
    case (Some j)
    then show ?thesis using get ok by (auto simp: im_get_def im_inv_ok_def)
  qed
qed

subsection \<open>Properties\<close>

text \<open>The numbers a list of names gets in turn.\<close>

fun im_get_all :: "string list \<Rightarrow> ident_map \<Rightarrow> ident_map \<times> int list" where
  "im_get_all [] im = (im, [])"
| "im_get_all (s # ss) im =
     (case im_get s im of (im', i) \<Rightarrow> case im_get_all ss im' of (im'', is) \<Rightarrow> (im'', i # is))"

lemma im_get_all_spec:
  assumes "im_inv_ok im" "im_get_all ss im = (im', is)"
  shows "im_inv_ok im' \<and> length is = length ss \<and> (\<forall>n < length ss. im_ids im' (ident_key (ss ! n)) = Some (is ! n)) \<and>
    (\<forall>env j. im_ids im env = Some j \<longrightarrow> im_ids im' env = Some j)"
  using assms
proof (induction ss arbitrary: im im' "is")
  case (Cons s ss)
  obtain im1 i where get: "im_get s im = (im1, i)" by fastforce
  obtain im2 js where all: "im_get_all ss im1 = (im2, js)" by fastforce
  have eq: "im' = im2" "is = i # js" using Cons.prems(2) get all by auto
  note one = im_inv_ok_get [OF Cons.prems(1) get]
  note IH = Cons.IH [OF _ all]
  have "im_ids im2 (ident_key ((s # ss) ! n)) = Some ((i # js) ! n)" if "n < length (s # ss)" for n
    using one IH that by (cases n) auto
  then show ?case using one IH by (auto simp: eq)
qed simp



text \<open>
  C27: Two keys of names shorter than 65530 characters compare equal word by word exactly if the names
  are equal, and no word outside the two blocks is read.
\<close>

theorem ident_key_equality:
  assumes "length a < 65530" and "length b < 65530"
  shows "ident_key_equal (ident_key a) (ident_key b) = Some (a = b)"
proof -
  have "ident_key a = a" "ident_key b = b" using assms by (simp_all add: ident_key_def ident_strsize_unat)
  then show ?thesis using ident_key_equal_spec assms by simp
qed

lemma ident_key_equality_witness: "ident_key_equal (ident_key ''int'') (ident_key ''int32'') = Some False"
  using ident_key_equality [of "''int''" "''int32''"] by simp

text \<open>
  The block \<open>IdentKey::create\<close> allocates holds the length field, the characters and a zero byte,
  rounded up to four bytes, for every name shorter than 65530 characters; for longer names the
  16 bit size wraps around to 0 and the copy of the characters runs out of the block.
\<close>

theorem ident_key_block:
  "let n = length (ident_key src); blk = unat (ident_blksize (ident_strsize src)) in
     if length src < 65530 then n + 3 \<le> blk \<and> blk < n + 7 \<and> 4 dvd blk else blk = 0 \<and> 65530 \<le> n"
proof -
  let ?n = "min (length src) 65531"
  have "ident_strsize src = of_nat ?n" by (simp add: ident_strsize_def min_def)
  then have "unat (ident_blksize (ident_strsize src)) = (if ?n < 65530 then (?n + 6) div 4 * 4 else 0)"
    using ident_blksize_unat [of ?n] by simp
  moreover have "?n + 3 \<le> (?n + 6) div 4 * 4" "(?n + 6) div 4 * 4 < ?n + 7" by linarith+
  ultimately show ?thesis by (auto simp: Let_def length_ident_key)
qed

end
