(* ===== verification/TypeDb.thy ===== *)
theory TypeDb
  imports RelationMap IdentMap
begin

text \<open>
  \<open>TypeDatabase\<close> of \<open>src/typedb.hpp\<close> and \<open>src/typedb.cpp\<close> without the two searches: objects by name
  and scope, types by context, name and parameters, reductions between types.

  A string view, an \<open>int\<close> list and a \<open>TypeConstructorPairList\<close> are lists. The memory buffers for the
  results have no counterpart. Functions declared \<open>const\<close> that enter a name into the identifier map
  return the changed database.
\<close>

subsection \<open>Data\<close>

datatype type_def = TypeDef (td_context: int) (td_ident: int)

lemma type_def_eq_iff: "a = b \<longleftrightarrow> td_context a = td_context b \<and> td_ident a = td_ident b"
  by (cases a; cases b) simp

instantiation type_def :: linorder
begin

definition less_type_def :: "type_def \<Rightarrow> type_def \<Rightarrow> bool" where
  "less_type_def a b \<longleftrightarrow>
     (if td_context a = td_context b then td_ident a < td_ident b else td_context a < td_context b)"

definition less_eq_type_def :: "type_def \<Rightarrow> type_def \<Rightarrow> bool" where
  "less_eq_type_def a b \<longleftrightarrow> a < b \<or> a = (b :: type_def)"

instance
  by standard (auto simp: less_type_def_def less_eq_type_def_def type_def_eq_iff split: if_splits)

end

datatype type_constructor_pair = TypeConstructorPair (tc_type: int) (tc_constructor: int)

record type_record =
  tr_scope :: scope
  tr_constructor :: int
  tr_parameterlen :: int
  tr_parameter :: int
  tr_next :: int
  tr_inv :: type_def

record type_database =
  db_objids :: "(int, int) std_map"
  db_objs :: "int scoped_instance list"
  db_types :: "(type_def, int) scoped_map"
  db_redus :: "(int, int) relation_map"
  db_idents :: ident_map
  db_params :: "type_constructor_pair list"
  db_recs :: "type_record list"

definition typedb_new :: type_database where
  "typedb_new = \<lparr>db_objids = [], db_objs = [si_new (-1)], db_types = sm_new 0, db_redus = rm_new,
     db_idents = im_new, db_params = [], db_recs = []\<rparr>"

definition max_nof_parameter :: int where
  "max_nof_parameter = 32768"

text \<open>The conversion of a size to \<open>int\<close>.\<close>

definition to_int32 :: "int \<Rightarrow> int" where
  "to_int32 x = (x + 2147483648) mod 4294967296 - 2147483648"

abbreviation nof_recs :: "type_database \<Rightarrow> int" where
  "nof_recs db \<equiv> int (length (db_recs db))"

definition invalid_handle :: "int \<Rightarrow> error" where
  "invalid_handle h = Error InvalidHandle (dec_int h)"

subsection \<open>Objects\<close>

definition set_object_instance :: "string \<Rightarrow> scope \<Rightarrow> int \<Rightarrow> type_database \<Rightarrow> type_database run" where
  "set_object_instance name scope handle db =
     (if handle \<le> 0 then throwR (invalid_handle handle)
      else
        case im_get name (db_idents db) of (idents, objid) \<Rightarrow>
        case map_insert (db_objids db) objid (int (length (db_objs db))) of (objids, idx, inserted) \<Rightarrow>
        let objs = (if inserted then db_objs db @ [si_new (-1)] else db_objs db) in
        bindR (liftR (vec_at objs idx)) (\<lambda>obj.
        bindR (si_set scope handle obj) (\<lambda>obj'.
          returnR (db\<lparr>db_idents := idents, db_objids := objids, db_objs := objs[nat idx := obj']\<rparr>))))"

definition get_object_instance :: "string \<Rightarrow> int \<Rightarrow> type_database \<Rightarrow> int option" where
  "get_object_instance name step db =
     (case map_find (db_objids db) (im_lookup name (db_idents db)) of
        None \<Rightarrow> Some (-1)
      | Some oi \<Rightarrow> do { obj \<leftarrow> vec_at (db_objs db) oi; si_get obj step })"

definition get_object_instance_of_scope :: "string \<Rightarrow> scope \<Rightarrow> type_database \<Rightarrow> int option" where
  "get_object_instance_of_scope name scope db =
     (case map_find (db_objids db) (im_lookup name (db_idents db)) of
        None \<Rightarrow> Some (-1)
      | Some oi \<Rightarrow> do { obj \<leftarrow> vec_at (db_objs db) oi; si_get_this obj scope })"

subsection \<open>Type handles\<close>

definition type_rec :: "type_database \<Rightarrow> int \<Rightarrow> type_record run" where
  "type_rec db type =
     (if type < 0 \<or> type > nof_recs db then throwR (Error InvalidHandle [])
      else liftR (vec_at (db_recs db) (type - 1)))"

definition type_name :: "type_database \<Rightarrow> int \<Rightarrow> string run" where
  "type_name db type =
     (if type = 0 then returnR []
      else bindR (type_rec db type) (\<lambda>rec. liftR (im_invert (td_ident (tr_inv rec)) (db_idents db))))"

definition type_context :: "type_database \<Rightarrow> int \<Rightarrow> int run" where
  "type_context db type =
     (if type = 0 then returnR 0 else bindR (type_rec db type) (\<lambda>rec. returnR (td_context (tr_inv rec))))"

definition type_constructor_of :: "type_database \<Rightarrow> int \<Rightarrow> int run" where
  "type_constructor_of db type =
     (if type = 0 then returnR 0 else bindR (type_rec db type) (\<lambda>rec. returnR (tr_constructor rec)))"

definition type_scope :: "type_database \<Rightarrow> int \<Rightarrow> scope run" where
  "type_scope db type =
     (if type = 0 then returnR (mk_scope 0 (-1)) else bindR (type_rec db type) (\<lambda>rec. returnR (tr_scope rec)))"

text \<open>The \<open>n\<close> elements of an array from an index on.\<close>

fun vec_range :: "'a list \<Rightarrow> int \<Rightarrow> nat \<Rightarrow> 'a list option" where
  "vec_range xs i 0 = Some []"
| "vec_range xs i (Suc n) = do { x \<leftarrow> vec_at xs i; rest \<leftarrow> vec_range xs (i + 1) n; Some (x # rest) }"

definition type_parameters :: "type_database \<Rightarrow> int \<Rightarrow> type_constructor_pair list run" where
  "type_parameters db type =
     (if type = 0 then returnR []
      else bindR (type_rec db type) (\<lambda>rec.
        if tr_parameter rec < 0 then returnR []
        else liftR (vec_range (db_params db) (tr_parameter rec - 1) (nat (tr_parameterlen rec)))))"

partial_function (option) append_type_to_string :: "type_database \<Rightarrow> string \<Rightarrow> int \<Rightarrow> string \<Rightarrow> string run" where
  "append_type_to_string db sep type res =
     (if type = 0 then returnR res
      else bindR (type_rec db type) (\<lambda>rec.
        bindR (if td_context (tr_inv rec) \<noteq> 0
               then bindR (append_type_to_string db sep (td_context (tr_inv rec)) res) (\<lambda>res. returnR (res @ sep))
               else returnR res) (\<lambda>res.
        bindR (liftR (im_invert (td_ident (tr_inv rec)) (db_idents db))) (\<lambda>name.
        if tr_parameterlen rec \<noteq> 0 then
          bindR (runR (\<lambda>pi res.
                   bindR (liftR (vec_at (db_params db) (tr_parameter rec + pi - 1))) (\<lambda>p.
                     append_type_to_string db sep (tc_type p) (if pi \<noteq> 0 then res @ '','' else res)))
                 [0..tr_parameterlen rec - 1] (res @ name @ ''(''))
            (\<lambda>res. returnR (res @ '')''))
        else returnR (res @ name)))))"

declare append_type_to_string.simps [code]

definition type_to_string :: "type_database \<Rightarrow> int \<Rightarrow> string \<Rightarrow> string run" where
  "type_to_string db type sep = append_type_to_string db sep type []"

subsection \<open>Types\<close>

text \<open>\<open>compareParameterSignature\<close>: both versions compare types only.\<close>

fun compare_parameter_types :: "type_constructor_pair list \<Rightarrow> int list \<Rightarrow> int \<Rightarrow> bool option" where
  "compare_parameter_types params [] i = Some True"
| "compare_parameter_types params (t # ts) i =
     (case vec_at params i of
        None \<Rightarrow> None
      | Some p \<Rightarrow> if t \<noteq> tc_type p then Some False else compare_parameter_types params ts (i + 1))"

definition compare_parameter_signature :: "type_database \<Rightarrow> int list \<Rightarrow> int \<Rightarrow> int \<Rightarrow> bool option" where
  "compare_parameter_signature db parameter param2 paramlen2 =
     (if int (length parameter) \<noteq> paramlen2 then Some False
      else compare_parameter_types (db_params db) parameter (param2 - 1))"

text \<open>\<open>findTypeWithSignature\<close>: the record found, or 0, and the last record before.\<close>

partial_function (option) find_type_with_signature :: "type_database \<Rightarrow> int list \<Rightarrow> int \<Rightarrow> int \<Rightarrow> (int \<times> int) option" where
  "find_type_with_signature db parameter lastIndex tri =
     (if tri = 0 then Some (0, lastIndex)
      else do { tr \<leftarrow> vec_at (db_recs db) (tri - 1);
                eq \<leftarrow> compare_parameter_signature db parameter (tr_parameter tr) (tr_parameterlen tr);
                if eq then Some (tri, lastIndex)
                else find_type_with_signature db parameter tri (tr_next tr) })"

declare find_type_with_signature.simps [code]

definition invalid_type :: "type_database \<Rightarrow> int \<Rightarrow> bool" where
  "invalid_type db type \<longleftrightarrow> type < 0 \<or> type > nof_recs db"

definition get_type :: "scope \<Rightarrow> int \<Rightarrow> string \<Rightarrow> int list \<Rightarrow> type_database \<Rightarrow> (type_database \<times> int) run" where
  "get_type scope contextType name parameter db =
     (if invalid_type db contextType then throwR (invalid_handle contextType)
      else
        case im_get name (db_idents db) of (idents, ident) \<Rightarrow>
        let db' = db\<lparr>db_idents := idents\<rparr> in
        bindR (liftR (sm_get_def (db_types db) scope (TypeDef contextType ident))) (\<lambda>typerec.
          if typerec \<noteq> 0 then
            bindR (liftR (find_type_with_signature db parameter 0 typerec)) (\<lambda>(tri, _). returnR (db', tri))
          else returnR (db', 0)))"

partial_function (option) type_list :: "type_record list \<Rightarrow> int \<Rightarrow> int list option" where
  "type_list recs tri =
     (if tri = 0 then Some []
      else do { tr \<leftarrow> vec_at recs (tri - 1); rest \<leftarrow> type_list recs (tr_next tr); Some (tri # rest) })"

declare type_list.simps [code]

definition get_types :: "scope \<Rightarrow> int \<Rightarrow> string \<Rightarrow> type_database \<Rightarrow> (type_database \<times> int list) run" where
  "get_types scope contextType name db =
     (if invalid_type db contextType then throwR (invalid_handle contextType)
      else
        case im_get name (db_idents db) of (idents, ident) \<Rightarrow>
        bindR (liftR (sm_get_def (db_types db) scope (TypeDef contextType ident))) (\<lambda>tri.
        bindR (liftR (type_list (db_recs db) tri)) (\<lambda>types. returnR (db\<lparr>db_idents := idents\<rparr>, types))))"

definition define_type ::
    "scope \<Rightarrow> int \<Rightarrow> string \<Rightarrow> int \<Rightarrow> type_constructor_pair list \<Rightarrow> type_database \<Rightarrow> (type_database \<times> int) run" where
  "define_type scope contextType name constructor parameter db =
     (if int (length parameter) \<ge> max_nof_parameter
      then throwR (Error TooManyTypeArguments (dec_nat (length parameter)))
      else if to_int32 (int (length (db_params db)) + int (length parameter)) \<ge> int_max
      then throwR (Error CompiledSourceTooComplex [])
      else if constructor < 0 then throwR (invalid_handle constructor)
      else if invalid_type db contextType then throwR (invalid_handle contextType)
      else
        let parameteridx = (if parameter = [] then 0 else int (length (db_params db)) + 1);
            params = db_params db @ parameter;
            typerec = nof_recs db + 1 in
        case im_get name (db_idents db) of (idents, ident) \<Rightarrow>
        let typeDef = TypeDef contextType ident;
            recs = db_recs db @ [\<lparr>tr_scope = scope, tr_constructor = constructor, tr_parameterlen = int (length parameter),
              tr_parameter = parameteridx, tr_next = 0, tr_inv = typeDef\<rparr>] in
        bindR (sm_get_or_set scope typeDef typerec (db_types db)) (\<lambda>(types, prev_typerec).
        let db' = db\<lparr>db_params := params, db_idents := idents, db_recs := recs, db_types := types\<rparr> in
        if prev_typerec \<noteq> 0 then
          bindR (liftR (find_type_with_signature db' (map tc_type parameter) 0 prev_typerec)) (\<lambda>(tri, lastListIndex).
            if tri \<noteq> 0 then returnR (db', -1)
            else if lastListIndex = 0 then throwR logic_error
            else returnR (db'\<lparr>db_recs := recs[nat (lastListIndex - 1) :=
              (recs ! nat (lastListIndex - 1))\<lparr>tr_next := typerec\<rparr>]\<rparr>, typerec))
        else returnR (db', typerec)))"

definition define_type_as :: "scope \<Rightarrow> int \<Rightarrow> string \<Rightarrow> int \<Rightarrow> type_database \<Rightarrow> (type_database \<times> int) run" where
  "define_type_as scope contextType name type db =
     (if invalid_type db contextType then throwR (invalid_handle contextType)
      else if type \<le> 0 \<or> type > nof_recs db then throwR (invalid_handle type)
      else
        case im_get name (db_idents db) of (idents, ident) \<Rightarrow>
        bindR (sm_set scope (TypeDef contextType ident) type (db_types db)) (\<lambda>(types, ok).
          returnR (db\<lparr>db_idents := idents, db_types := types\<rparr>, if ok then type else 0)))"

subsection \<open>Reductions\<close>

definition define_reduction :: "scope \<Rightarrow> int \<Rightarrow> int \<Rightarrow> int \<Rightarrow> int \<Rightarrow> f32 \<Rightarrow> type_database \<Rightarrow> type_database run" where
  "define_reduction scope toType fromType constructor tag weight db =
     (if constructor < 0 then throwR (invalid_handle constructor)
      else if invalid_type db toType then throwR (invalid_handle toType)
      else if fromType \<le> 0 \<or> fromType > nof_recs db then throwR (invalid_handle fromType)
      else if toType = fromType then
        bindR (type_to_string db toType '' '') (\<lambda>nam. throwR (Error InvalidReductionDefinition (nam @ '' <- '' @ nam)))
      else bindR (rm_set scope fromType toType constructor tag weight (db_redus db))
        (\<lambda>redus. returnR (db\<lparr>db_redus := redus\<rparr>)))"

record reduction_result =
  rr_weight :: f32
  rr_constructor :: int

definition rr_defined :: "reduction_result \<Rightarrow> bool" where
  "rr_defined rt \<longleftrightarrow> rr_constructor rt \<ge> 0"

definition rr_none :: reduction_result where
  "rr_none = \<lparr>rr_weight = 0, rr_constructor = -1\<rparr>"

definition get_reduction_step ::
    "type_database \<Rightarrow> int \<Rightarrow> int \<Rightarrow> (int, int) result_element \<Rightarrow> reduction_result \<Rightarrow> reduction_result run" where
  "get_reduction_step db toType fromType redu rt =
     (let taken = \<lparr>rr_weight = re_weight redu, rr_constructor = re_value redu\<rparr> in
      if toType = re_right redu then
        (if rr_defined rt then
           (if rr_weight rt < f32_round (re_weight redu - f32_epsilon) then returnR rt
            else if rr_weight rt \<le> f32_add (re_weight redu) f32_epsilon then
              bindR (type_to_string db toType '' '') (\<lambda>toTypeStr.
              bindR (type_to_string db fromType '' '') (\<lambda>fromTypeStr.
                throwR (Error AmbiguousReductionDefinitions (toTypeStr @ '' <- '' @ fromTypeStr))))
            else returnR taken)
         else returnR taken)
      else returnR rt)"

definition get_reduction :: "int \<Rightarrow> int \<Rightarrow> int \<Rightarrow> tag_mask \<Rightarrow> type_database \<Rightarrow> reduction_result run" where
  "get_reduction step toType fromType selectTags db =
     (if fromType \<le> 0 \<or> fromType > nof_recs db then throwR (invalid_handle fromType)
      else if invalid_type db toType then throwR (invalid_handle toType)
      else bindR (liftR (rm_get (db_redus db) step fromType selectTags)) (\<lambda>redulist.
        runR (get_reduction_step db toType fromType) redulist rr_none))"

record weighted_reduction =
  wr_type :: int
  wr_constructor :: int
  wr_weight :: f32
  wr_count :: bool

definition get_reductions :: "int \<Rightarrow> int \<Rightarrow> tag_mask \<Rightarrow> tag_mask \<Rightarrow> type_database \<Rightarrow> weighted_reduction list run" where
  "get_reductions step fromType selectTags selectTagsCount db =
     (if fromType \<le> 0 \<or> fromType > nof_recs db then throwR (invalid_handle fromType)
      else bindR (liftR (rm_get (db_redus db) step fromType selectTags)) (\<lambda>redulist.
        returnR (map (\<lambda>redu. \<lparr>wr_type = re_right redu, wr_constructor = re_value redu, wr_weight = re_weight redu,
          wr_count = tm_matches selectTagsCount (re_tagval redu)\<rparr>) redulist)))"

end
