(* ===== verification/TypeDbInv.thy ===== *)
theory TypeDbInv
  imports TypeDb
begin

text \<open>
  The invariant of the type database: the lists of the records with the same context, name and scope
  run forward in the record array, so that every loop over them ends; contexts, parameters, names
  and reductions refer to what exists. Every operation keeps it.
\<close>

subsection \<open>Records\<close>

definition rec_ok :: "int \<Rightarrow> type_constructor_pair list \<Rightarrow> ident_map \<Rightarrow> int \<Rightarrow> type_record \<Rightarrow> bool" where
  "rec_ok n params idents t r \<longleftrightarrow>
     (tr_next r = 0 \<or> t < tr_next r \<and> tr_next r \<le> n) \<and>
     0 \<le> tr_parameter r \<and> 0 \<le> tr_parameterlen r \<and>
     (if tr_parameterlen r = 0 then tr_parameter r = 0
      else 1 \<le> tr_parameter r \<and> tr_parameter r - 1 + tr_parameterlen r \<le> int (length params)) \<and>
     0 \<le> td_context (tr_inv r) \<and> td_context (tr_inv r) < t \<and>
     1 \<le> td_ident (tr_inv r) \<and> td_ident (tr_inv r) \<le> int (length (im_inv idents)) \<and>
     (\<forall>p \<in> set (take (nat (tr_parameterlen r)) (drop (nat (tr_parameter r - 1)) params)).
        0 \<le> tc_type p \<and> tc_type p < t)"

definition recs_ok :: "type_database \<Rightarrow> bool" where
  "recs_ok db \<longleftrightarrow> (\<forall>i < length (db_recs db). rec_ok (nof_recs db) (db_params db) (db_idents db) (int i + 1) (db_recs db ! i))"

text \<open>The record and the parameter types of a handle.\<close>

definition rec_at :: "type_database \<Rightarrow> int \<Rightarrow> type_record" where
  "rec_at db t = db_recs db ! nat (t - 1)"

definition params_at :: "type_database \<Rightarrow> int \<Rightarrow> type_constructor_pair list" where
  "params_at db t = take (nat (tr_parameterlen (rec_at db t))) (drop (nat (tr_parameter (rec_at db t) - 1)) (db_params db))"

definition sig_at :: "type_database \<Rightarrow> int \<Rightarrow> int list" where
  "sig_at db t = map tc_type (params_at db t)"

abbreviation is_type :: "type_database \<Rightarrow> int \<Rightarrow> bool" where
  "is_type db t \<equiv> 1 \<le> t \<and> t \<le> nof_recs db"

lemma vec_at_rec [simp]: "is_type db t \<Longrightarrow> vec_at (db_recs db) (t - 1) = Some (rec_at db t)"
  by (auto simp: vec_at_def rec_at_def)

lemma rec_okD: "recs_ok db \<Longrightarrow> is_type db t \<Longrightarrow> rec_ok (nof_recs db) (db_params db) (db_idents db) t (rec_at db t)"
  unfolding recs_ok_def rec_at_def by (drule spec [of _ "nat (t - 1)"]) auto

lemma type_rec_ok [simp]: "is_type db t \<Longrightarrow> type_rec db t = returnR (rec_at db t)"
  by (simp add: type_rec_def)

lemma length_params_at:
  "recs_ok db \<Longrightarrow> is_type db t \<Longrightarrow> int (length (params_at db t)) = tr_parameterlen (rec_at db t)"
  using rec_okD [of db t] by (auto simp: params_at_def rec_ok_def split: if_splits)

lemma vec_at_param:
  assumes "recs_ok db" "is_type db t" "i < length (params_at db t)"
  shows "vec_at (db_params db) (tr_parameter (rec_at db t) + int i - 1) = Some (params_at db t ! i)"
proof -
  have *: "rec_ok (nof_recs db) (db_params db) (db_idents db) t (rec_at db t)" using rec_okD [OF assms(1,2)] .
  have i: "int i < tr_parameterlen (rec_at db t)" using assms length_params_at [OF assms(1,2)] by linarith
  then have p: "1 \<le> tr_parameter (rec_at db t)" "tr_parameter (rec_at db t) - 1 + tr_parameterlen (rec_at db t) \<le> int (length (db_params db))"
    using * by (auto simp: rec_ok_def split: if_splits)
  let ?p = "nat (tr_parameter (rec_at db t) - 1)"
  have n: "nat (tr_parameter (rec_at db t) + int i - 1) = ?p + i" using p by linarith
  have "?p + i < length (db_params db)" using p i by linarith
  then show ?thesis using p i by (simp add: vec_at_def n params_at_def)
qed

lemma compare_parameter_types_eq:
  assumes "\<And>i. i < length ps \<Longrightarrow> vec_at params (k + int i) = Some (ps ! i)" "length ts = length ps"
  shows "compare_parameter_types params ts k = Some (ts = map tc_type ps)"
  using assms
proof (induction ts arbitrary: k ps)
  case (Cons t ts)
  obtain p qs where ps: "ps = p # qs" using Cons.prems(2) by (cases ps) auto
  have "vec_at params k = Some p" using Cons.prems(1) [of 0] by (simp add: ps)
  moreover have "compare_parameter_types params ts (k + 1) = Some (ts = map tc_type qs)"
  proof (rule Cons.IH)
    show "vec_at params (k + 1 + int i) = Some (qs ! i)" if "i < length qs" for i
      using Cons.prems(1) [of "Suc i"] that by (simp add: ps add.assoc)
  qed (use Cons.prems(2) ps in simp)
  ultimately show ?case by (simp add: ps)
qed simp

lemma compare_parameter_signature_eq:
  assumes "recs_ok db" "is_type db t"
  shows "compare_parameter_signature db ts (tr_parameter (rec_at db t)) (tr_parameterlen (rec_at db t)) = Some (ts = sig_at db t)"
proof (cases "length ts = length (params_at db t)")
  case True
  have "vec_at (db_params db) (tr_parameter (rec_at db t) - 1 + int i) = Some (params_at db t ! i)"
    if "i < length (params_at db t)" for i
    using vec_at_param [OF assms that] by (simp add: algebra_simps)
  then have "compare_parameter_types (db_params db) ts (tr_parameter (rec_at db t) - 1) = Some (ts = sig_at db t)"
    unfolding sig_at_def by (rule compare_parameter_types_eq [OF _ True])
  then show ?thesis using length_params_at [OF assms] True by (simp add: compare_parameter_signature_def)
next
  case False
  then have "ts \<noteq> sig_at db t" by (auto simp: sig_at_def)
  then show ?thesis using length_params_at [OF assms] False by (auto simp: compare_parameter_signature_def)
qed

subsection \<open>Lists of records\<close>

lemma type_list_0 [simp]: "type_list recs 0 = Some []"
  by (subst type_list.simps) simp

lemma type_list_total:
  assumes "recs_ok db" "t = 0 \<or> is_type db t"
  shows "\<exists>ids. type_list (db_recs db) t = Some ids \<and> (\<forall>u \<in> set ids. t \<le> u \<and> is_type db u) \<and>
    (ids = [] \<longleftrightarrow> t = 0) \<and> sorted_wrt (<) ids \<and> (t \<noteq> 0 \<longrightarrow> hd ids = t)"
  using assms(2)
proof (induction "nat (nof_recs db - t)" arbitrary: t rule: less_induct)
  case less
  show ?case
  proof (cases "t = 0")
    case False
    with less.prems have t: "is_type db t" by simp
    let ?n = "tr_next (rec_at db t)"
    have n: "?n = 0 \<or> t < ?n \<and> ?n \<le> nof_recs db" using rec_okD [OF assms(1) t] by (simp add: rec_ok_def)
    have "\<exists>ids. type_list (db_recs db) ?n = Some ids \<and> (\<forall>u \<in> set ids. t < u \<and> is_type db u) \<and> sorted_wrt (<) ids"
    proof (cases "?n = 0")
      case False
      have "\<exists>ids. type_list (db_recs db) ?n = Some ids \<and> (\<forall>u \<in> set ids. ?n \<le> u \<and> is_type db u) \<and>
          (ids = [] \<longleftrightarrow> ?n = 0) \<and> sorted_wrt (<) ids \<and> (?n \<noteq> 0 \<longrightarrow> hd ids = ?n)"
        by (rule less.hyps) (use n t False in auto)
      then show ?thesis using n False by fastforce
    qed simp
    then obtain ids where ids: "type_list (db_recs db) ?n = Some ids" "\<forall>u \<in> set ids. t < u \<and> is_type db u" "sorted_wrt (<) ids"
      by blast
    have "type_list (db_recs db) t = Some (t # ids)"
      using t ids(1) by (subst type_list.simps) simp
    then show ?thesis using ids t by (intro exI [of _ "t # ids"]) auto
  qed simp
qed

text \<open>The list a lookup of the type table leads to.\<close>

definition types_from :: "type_database \<Rightarrow> int \<Rightarrow> int list" where
  "types_from db t = the (type_list (db_recs db) t)"

lemma types_from:
  assumes "recs_ok db" "t = 0 \<or> is_type db t"
  shows "type_list (db_recs db) t = Some (types_from db t)" "types_from db t = [] \<longleftrightarrow> t = 0"
    "\<And>u. u \<in> set (types_from db t) \<Longrightarrow> t \<le> u \<and> is_type db u" "sorted_wrt (<) (types_from db t)"
    "t \<noteq> 0 \<Longrightarrow> types_from db t = t # types_from db (tr_next (rec_at db t))"
proof -
  obtain ids where ids: "type_list (db_recs db) t = Some ids" "\<forall>u \<in> set ids. t \<le> u \<and> is_type db u"
      "(ids = [] \<longleftrightarrow> t = 0)" "sorted_wrt (<) ids"
    using type_list_total [OF assms] by blast
  then have eq: "types_from db t = ids" by (simp add: types_from_def)
  show "type_list (db_recs db) t = Some (types_from db t)" "types_from db t = [] \<longleftrightarrow> t = 0"
    "\<And>u. u \<in> set (types_from db t) \<Longrightarrow> t \<le> u \<and> is_type db u" "sorted_wrt (<) (types_from db t)"
    using ids by (auto simp: eq)
  show "types_from db t = t # types_from db (tr_next (rec_at db t))" if "t \<noteq> 0"
  proof -
    have t: "is_type db t" using assms(2) that by simp
    have "type_list (db_recs db) t =
        do { rest \<leftarrow> type_list (db_recs db) (tr_next (rec_at db t)); Some (t # rest) }"
      using t that by (subst type_list.simps) simp
    with ids(1) show ?thesis
      by (cases "type_list (db_recs db) (tr_next (rec_at db t))") (auto simp: types_from_def)
  qed
qed

lemma next_type:
  assumes "recs_ok db" "is_type db t"
  shows "tr_next (rec_at db t) = 0 \<or> is_type db (tr_next (rec_at db t))"
  using rec_okD [OF assms] assms(2) by (auto simp: rec_ok_def)

text \<open>The search for a signature in a list.\<close>

lemma find_type_0: "find_type_with_signature db ts l 0 = Some (0, l)"
  by (subst find_type_with_signature.simps) simp

lemma find_type_spec:
  assumes "recs_ok db" "t = 0 \<or> is_type db t"
  shows "find_type_with_signature db ts l t =
    Some (case find (\<lambda>u. sig_at db u = ts) (types_from db t) of
        None \<Rightarrow> (0, if types_from db t = [] then l else last (types_from db t))
      | Some u \<Rightarrow> (u, if u = t then l else last (takeWhile (\<lambda>v. v \<noteq> u) (types_from db t))))"
  using assms(2)
proof (induction "nat (nof_recs db - t)" arbitrary: t l rule: less_induct)
  case less
  show ?case
  proof (cases "t = 0")
    case True
    then show ?thesis using types_from(2) [OF assms(1), of t] by (simp add: find_type_0)
  next
    case False
    with less.prems have t: "is_type db t" by simp
    let ?n = "tr_next (rec_at db t)"
    have n: "?n = 0 \<or> t < ?n \<and> ?n \<le> nof_recs db" using rec_okD [OF assms(1) t] by (simp add: rec_ok_def)
    have nt: "?n = 0 \<or> is_type db ?n" using next_type [OF assms(1) t] .
    note from_t = types_from(5) [OF assms(1) less.prems False]
    have step: "find_type_with_signature db ts l t =
        (if ts = sig_at db t then Some (t, l) else find_type_with_signature db ts t ?n)"
      using t False compare_parameter_signature_eq [OF assms(1) t, of ts]
      by (subst find_type_with_signature.simps) auto
    show ?thesis
    proof (cases "sig_at db t = ts")
      case True
      then show ?thesis unfolding step from_t by simp
    next
      case ne: False
      have IH: "find_type_with_signature db ts t ?n =
        Some (case find (\<lambda>u. sig_at db u = ts) (types_from db ?n) of
            None \<Rightarrow> (0, if types_from db ?n = [] then t else last (types_from db ?n))
          | Some u \<Rightarrow> (u, if u = ?n then t else last (takeWhile (\<lambda>v. v \<noteq> u) (types_from db ?n))))"
      proof (cases "?n = 0")
        case True
        then show ?thesis using types_from(2) [OF assms(1), of 0] by (simp add: find_type_0)
      next
        case False
        show ?thesis by (rule less.hyps) (use n t nt False in auto)
      qed
      show ?thesis
      proof (cases "find (\<lambda>u. sig_at db u = ts) (types_from db ?n)")
        case None
        then show ?thesis using ne unfolding step from_t by (simp add: IH)
      next
        case (Some u)
        then have u: "u \<in> set (types_from db ?n)" by (auto simp: find_Some_iff)
        then have n0: "?n \<noteq> 0" using types_from(2) [OF assms(1) nt] by auto
        have ut: "u \<noteq> t" using types_from(3) [OF assms(1) nt u] n n0 by auto
        have "takeWhile (\<lambda>v. v \<noteq> u) (types_from db ?n) = [] \<longleftrightarrow> u = ?n"
          using types_from(5) [OF assms(1) nt n0] by (auto)
        then show ?thesis using ne Some ut n0 unfolding step from_t by (auto simp: IH)
      qed
    qed
  qed
qed

subsection \<open>Adding a record\<close>

text \<open>\<open>db'\<close> has one more record at the end, and maybe more parameters and names.\<close>

definition pushed :: "type_database \<Rightarrow> type_record \<Rightarrow> type_database \<Rightarrow> bool" where
  "pushed db r db' \<longleftrightarrow> db_recs db' = db_recs db @ [r] \<and> (\<exists>ps. db_params db' = db_params db @ ps) \<and>
     (\<exists>xs. im_inv (db_idents db') = im_inv (db_idents db) @ xs)"

lemma pushed_rec_at: "pushed db r db' \<Longrightarrow> is_type db t \<Longrightarrow> rec_at db' t = rec_at db t \<and> is_type db' t"
  by (auto simp: pushed_def rec_at_def nth_append)

lemma pushed_new: "pushed db r db' \<Longrightarrow> rec_at db' (nof_recs db + 1) = r \<and> is_type db' (nof_recs db + 1) \<and> nof_recs db' = nof_recs db + 1"
  by (auto simp: pushed_def rec_at_def)

lemma rec_ok_mono:
  assumes "rec_ok n params idents t r" "n \<le> n'" "\<exists>ps. params' = params @ ps" "\<exists>xs. im_inv idents' = im_inv idents @ xs"
  shows "rec_ok n' params' idents' t r"
proof -
  have "take (nat (tr_parameterlen r)) (drop (nat (tr_parameter r - 1)) params') =
      take (nat (tr_parameterlen r)) (drop (nat (tr_parameter r - 1)) params)"
    using assms(1,3) by (auto simp: rec_ok_def split: if_splits)
  then show ?thesis using assms by (auto simp: rec_ok_def split: if_splits)
qed

lemma recs_ok_pushed:
  assumes "recs_ok db" "pushed db r db'" "rec_ok (nof_recs db') (db_params db') (db_idents db') (nof_recs db') r"
  shows "recs_ok db'"
  unfolding recs_ok_def
proof (intro allI impI)
  fix i
  assume i: "i < length (db_recs db')"
  have db': "db_recs db' = db_recs db @ [r]" "\<exists>ps. db_params db' = db_params db @ ps"
    "\<exists>xs. im_inv (db_idents db') = im_inv (db_idents db) @ xs"
    using assms(2) by (auto simp: pushed_def)
  show "rec_ok (nof_recs db') (db_params db') (db_idents db') (int i + 1) (db_recs db' ! i)"
  proof (cases "i < length (db_recs db)")
    case True
    then have "rec_ok (nof_recs db) (db_params db) (db_idents db) (int i + 1) (db_recs db ! i)"
      using assms(1) by (simp add: recs_ok_def)
    from rec_ok_mono [OF this _ db'(2,3), of "nof_recs db'"] show ?thesis
      using True db'(1) by (simp add: nth_append)
  next
    case False
    then have "i = length (db_recs db)" using i db'(1) by simp
    then show ?thesis using assms(3) db'(1) by (simp add: nth_append add.commute)
  qed
qed

lemma pushed_params_at: "recs_ok db \<Longrightarrow> pushed db r db' \<Longrightarrow> is_type db t \<Longrightarrow> params_at db' t = params_at db t"
  using rec_okD [of db t] pushed_rec_at [of db r db' t]
  by (auto simp: params_at_def pushed_def rec_ok_def split: if_splits)

lemma types_from_cong:
  assumes "recs_ok db" "recs_ok db'" "t = 0 \<or> is_type db t"
    and "\<And>u. is_type db u \<Longrightarrow> is_type db' u \<and> tr_next (rec_at db' u) = tr_next (rec_at db u)"
  shows "types_from db' t = types_from db t"
  using assms(3)
proof (induction "nat (nof_recs db - t)" arbitrary: t rule: less_induct)
  case less
  show ?case
  proof (cases "t = 0")
    case True
    then show ?thesis by (simp add: types_from_def)
  next
    case False
    with less.prems have t: "is_type db t" by simp
    let ?n = "tr_next (rec_at db t)"
    have n: "?n = 0 \<or> t < ?n \<and> ?n \<le> nof_recs db" using rec_okD [OF assms(1) t] by (simp add: rec_ok_def)
    have "types_from db' ?n = types_from db ?n"
    proof (cases "?n = 0")
      case True
      then show ?thesis by (simp add: types_from_def)
    next
      case False
      show ?thesis by (rule less.hyps) (use n t False in auto)
    qed
    then show ?thesis
      using types_from(5) [OF assms(1) less.prems False] types_from(5) [OF assms(2), of t] assms(4) [OF t] False by simp
  qed
qed

lemma pushed_types_from:
  assumes "recs_ok db" "recs_ok db'" "pushed db r db'" "t = 0 \<or> is_type db t"
  shows "types_from db' t = types_from db t"
  using assms pushed_rec_at [OF assms(3)] by (intro types_from_cong) auto

lemma types_from_single: "recs_ok db \<Longrightarrow> is_type db t \<Longrightarrow> tr_next (rec_at db t) = 0 \<Longrightarrow> types_from db t = [t]"
  using types_from(5) [of db t] types_from(2) [of db 0] by auto

subsection \<open>Linking a record\<close>

definition linked :: "type_database \<Rightarrow> int \<Rightarrow> int \<Rightarrow> type_database" where
  "linked db l m = db\<lparr>db_recs := (db_recs db)[nat (l - 1) := (db_recs db ! nat (l - 1))\<lparr>tr_next := m\<rparr>]\<rparr>"

lemma linked_simps [simp]:
  "db_params (linked db l m) = db_params db" "db_idents (linked db l m) = db_idents db"
  "db_types (linked db l m) = db_types db" "db_redus (linked db l m) = db_redus db"
  "db_objids (linked db l m) = db_objids db" "db_objs (linked db l m) = db_objs db"
  "length (db_recs (linked db l m)) = length (db_recs db)"
  by (simp_all add: linked_def)

lemma linked_rec_at:
  "is_type db t \<Longrightarrow> is_type db l \<Longrightarrow> rec_at (linked db l m) t = (if t = l then (rec_at db t)\<lparr>tr_next := m\<rparr> else rec_at db t)"
  by (auto simp: linked_def rec_at_def nth_list_update)

lemma linked_params_at: "is_type db t \<Longrightarrow> is_type db l \<Longrightarrow> params_at (linked db l m) t = params_at db t"
  by (simp add: params_at_def linked_rec_at)

lemma rec_ok_next: "rec_ok n params idents t r \<Longrightarrow> t < m \<Longrightarrow> m \<le> n \<Longrightarrow> rec_ok n params idents t (r\<lparr>tr_next := m\<rparr>)"
  by (auto simp: rec_ok_def split: if_splits)

lemma recs_ok_linked:
  assumes "recs_ok db" "is_type db l" "l < m" "m \<le> nof_recs db"
  shows "recs_ok (linked db l m)"
  unfolding recs_ok_def
proof (intro allI impI)
  fix i
  assume "i < length (db_recs (linked db l m))"
  then have i: "is_type db (int i + 1)" by simp
  have "rec_ok (nof_recs db) (db_params db) (db_idents db) (int i + 1) (rec_at (linked db l m) (int i + 1))"
    using rec_okD [OF assms(1) i] assms(3,4) linked_rec_at [OF i assms(2), of m] rec_ok_next
    by (cases "int i + 1 = l") simp_all
  then show "rec_ok (nof_recs (linked db l m)) (db_params (linked db l m)) (db_idents (linked db l m)) (int i + 1) (db_recs (linked db l m) ! i)"
    by (simp add: rec_at_def)
qed

lemma linked_types_from:
  assumes ok: "recs_ok db" and l: "is_type db l" "tr_next (rec_at db l) = 0" and m: "l < m" "m \<le> nof_recs db" "tr_next (rec_at db m) = 0"
    and t: "t = 0 \<or> is_type db t"
  shows "types_from (linked db l m) t = (if l \<in> set (types_from db t) then types_from db t @ [m] else types_from db t)"
  using t
proof (induction "nat (nof_recs db - t)" arbitrary: t rule: less_induct)
  case less
  have ok': "recs_ok (linked db l m)" using recs_ok_linked [OF ok l(1) m(1,2)] .
  show ?case
  proof (cases "t = 0")
    case True
    then show ?thesis by (simp add: types_from_def)
  next
    case False
    with less.prems have t: "is_type db t" by simp
    then have t': "t = 0 \<or> is_type (linked db l m) t" by simp
    have im: "is_type db m" using l m by simp
    show ?thesis
    proof (cases "t = l")
      case True
      have "rec_at (linked db l m) t = (rec_at db t)\<lparr>tr_next := m\<rparr>" "rec_at (linked db l m) m = rec_at db m"
        using linked_rec_at [OF t l(1), of m] linked_rec_at [OF im l(1), of m] True m(1) by auto
      moreover have "types_from (linked db l m) m = [m]"
        by (rule types_from_single [OF ok']) (use im calculation m(3) in auto)
      ultimately show ?thesis
        using types_from(5) [OF ok' t' False] types_from_single [OF ok l(1,2)] True by simp
    next
      case tl: False
      let ?n = "tr_next (rec_at db t)"
      have n: "?n = 0 \<or> t < ?n \<and> ?n \<le> nof_recs db" using rec_okD [OF ok t] by (simp add: rec_ok_def)
      have IH: "types_from (linked db l m) ?n = (if l \<in> set (types_from db ?n) then types_from db ?n @ [m] else types_from db ?n)"
      proof (cases "?n = 0")
        case True
        then show ?thesis by (simp add: types_from_def)
      next
        case False
        show ?thesis by (rule less.hyps) (use n t False in auto)
      qed
      have "rec_at (linked db l m) t = rec_at db t" using linked_rec_at [OF t l(1), of m] tl by simp
      then show ?thesis
        using types_from(5) [OF ok' t' False] types_from(5) [OF ok less.prems False] IH tl by auto
    qed
  qed
qed

text \<open>The last record of a list has no successor.\<close>

lemma last_types_from:
  assumes "recs_ok db" "is_type db t"
  shows "is_type db (last (types_from db t))" "tr_next (rec_at db (last (types_from db t))) = 0"
    "last (types_from db t) \<in> set (types_from db t)"
proof -
  have ne: "types_from db t \<noteq> []" using types_from(2) [OF assms(1), of t] assms(2) by auto
  then show mem: "last (types_from db t) \<in> set (types_from db t)" by simp
  then show it: "is_type db (last (types_from db t))" using types_from(3) [OF assms(1), of t] assms(2) by simp
  show "tr_next (rec_at db (last (types_from db t))) = 0"
    using assms(2)
  proof (induction "nat (nof_recs db - t)" arbitrary: t rule: less_induct)
    case less
    let ?n = "tr_next (rec_at db t)"
    have eq: "types_from db t = t # types_from db ?n" using types_from(5) [OF assms(1)] less.prems by simp
    have n: "?n = 0 \<or> t < ?n \<and> ?n \<le> nof_recs db" using rec_okD [OF assms(1) less.prems] by (simp add: rec_ok_def)
    show ?case
    proof (cases "?n = 0")
      case True
      then show ?thesis unfolding eq by (simp add: types_from_def)
    next
      case False
      then have "types_from db ?n \<noteq> []" using types_from(2) [OF assms(1)] n less.prems by auto
      moreover have "tr_next (rec_at db (last (types_from db ?n))) = 0"
        by (rule less.hyps) (use n less.prems False in auto)
      ultimately show ?thesis unfolding eq by simp
    qed
  qed
qed

end
