(* ===== verification/TypeDbOps.thy ===== *)
theory TypeDbOps
  imports TypeDbInv
begin

text \<open>
  What a type database holds and how every operation changes it.
\<close>

subsection \<open>Contents\<close>

text \<open>The objects by name.\<close>

definition objs_rep :: "ident_map \<Rightarrow> (int, int) std_map \<Rightarrow> int scoped_instance list \<Rightarrow> (string \<Rightarrow> scope \<rightharpoonup> int) \<Rightarrow> bool" where
  "objs_rep idents objids objs Ob \<longleftrightarrow> map_ok objids \<and>
     (\<forall>n i. map_find objids n = Some i \<longrightarrow> 0 \<le> i \<and> nat i < length objs \<and> (\<exists>env. im_ids idents env = Some n)) \<and>
     (\<forall>n n' i. map_find objids n = Some i \<longrightarrow> map_find objids n' = Some i \<longrightarrow> n = n') \<and>
     (\<forall>env. case im_ids idents env of
        None \<Rightarrow> Ob env = Map.empty
      | Some n \<Rightarrow> (case map_find objids n of
          None \<Rightarrow> Ob env = Map.empty
        | Some i \<Rightarrow> si_rep (-1) (objs ! nat i) (Ob env)))"

text \<open>
  \<open>T\<close>: the first record of each context, name and scope; \<open>R\<close>: the reductions of each type and scope;
  \<open>Ob\<close>: the objects. All scopes are from one hierarchy \<open>U\<close>.
\<close>

definition db_rep :: "scope set \<Rightarrow> type_database \<Rightarrow> (type_def \<Rightarrow> scope \<rightharpoonup> int) \<Rightarrow>
    (int \<Rightarrow> scope \<Rightarrow> (int, int) result_element list) \<Rightarrow> (string \<Rightarrow> scope \<rightharpoonup> int) \<Rightarrow> bool" where
  "db_rep U db T R Ob \<longleftrightarrow> laminar U \<and> im_inv_ok (db_idents db) \<and> recs_ok db \<and>
     sm_rep 0 (db_types db) T \<and> (\<forall>k s t. T k s = Some t \<longrightarrow> s \<in> U \<and> is_type db t) \<and>
     rm_rep (db_redus db) R \<and>
     (\<forall>k s r. r \<in> set (R k s) \<longrightarrow> s \<in> U \<and> is_type db k \<and> 0 \<le> re_right r \<and> re_right r \<le> nof_recs db \<and>
        re_right r \<noteq> k \<and> 0 \<le> re_value r \<and> f32_rep (re_weight r)) \<and>
     objs_rep (db_idents db) (db_objids db) (db_objs db) Ob \<and> (\<forall>env s. Ob env s \<noteq> None \<longrightarrow> s \<in> U)"

lemma db_repD:
  assumes "db_rep U db T R Ob"
  shows "laminar U" "im_inv_ok (db_idents db)" "recs_ok db" "sm_rep 0 (db_types db) T"
    "\<And>k s t. T k s = Some t \<Longrightarrow> s \<in> U \<and> is_type db t" "rm_rep (db_redus db) R"
    "\<And>k s r. r \<in> set (R k s) \<Longrightarrow> s \<in> U \<and> is_type db k \<and> 0 \<le> re_right r \<and> re_right r \<le> nof_recs db \<and>
        re_right r \<noteq> k \<and> 0 \<le> re_value r \<and> f32_rep (re_weight r)"
    "objs_rep (db_idents db) (db_objids db) (db_objs db) Ob" "\<And>env s. Ob env s \<noteq> None \<Longrightarrow> s \<in> U"
  using assms by (auto simp: db_rep_def)

lemma objs_repD:
  assumes "objs_rep idents objids objs Ob"
  shows "map_ok objids" "\<And>n i. map_find objids n = Some i \<Longrightarrow> 0 \<le> i \<and> nat i < length objs \<and> (\<exists>env. im_ids idents env = Some n)"
    "\<And>n n' i. map_find objids n = Some i \<Longrightarrow> map_find objids n' = Some i \<Longrightarrow> n = n'"
    "case im_ids idents env of
        None \<Rightarrow> Ob env = Map.empty
      | Some n \<Rightarrow> (case map_find objids n of
          None \<Rightarrow> Ob env = Map.empty
        | Some i \<Rightarrow> si_rep (-1) (objs ! nat i) (Ob env))"
  using assms unfolding objs_rep_def by blast+

lemma objs_rep_new: "objs_rep im_new [] [si_new (-1)] (\<lambda>_. Map.empty)"
  by (simp add: objs_rep_def im_new_def)

lemma db_rep_new: "laminar U \<Longrightarrow> db_rep U typedb_new (\<lambda>_. Map.empty) (\<lambda>_ _. []) (\<lambda>_. Map.empty)"
  by (simp add: db_rep_def typedb_new_def recs_ok_def im_inv_ok_new sm_rep_new rm_rep_new objs_rep_new)

subsection \<open>Entering a name\<close>

lemma objs_rep_get:
  assumes "objs_rep idents objids objs Ob" "im_inv_ok idents" "im_get name idents = (idents', n)"
  shows "objs_rep idents' objids objs Ob"
proof -
  note get = im_inv_ok_get [OF assms(2,3)]
  have "case im_ids idents' env of
        None \<Rightarrow> Ob env = Map.empty
      | Some n \<Rightarrow> (case map_find objids n of
          None \<Rightarrow> Ob env = Map.empty
        | Some i \<Rightarrow> si_rep (-1) (objs ! nat i) (Ob env))" for env
  proof (cases "im_ids idents env")
    case (Some m)
    then have "im_ids idents' env = Some m" using get by simp
    moreover have "case im_ids idents env of
        None \<Rightarrow> Ob env = Map.empty
      | Some n \<Rightarrow> (case map_find objids n of
          None \<Rightarrow> Ob env = Map.empty
        | Some i \<Rightarrow> si_rep (-1) (objs ! nat i) (Ob env))" using assms(1) by (simp add: objs_rep_def)
    ultimately show ?thesis using Some by simp
  next
    case None
    then have empty: "Ob env = Map.empty" using objs_repD(4) [OF assms(1), of env] by simp
    show ?thesis
    proof (cases "im_ids idents' env")
      case (Some m)
      have "map_find objids m = None"
      proof (rule ccontr)
        assume "map_find objids m \<noteq> None"
        then obtain env' where "im_ids idents env' = Some m" using objs_repD(2) [OF assms(1), of m] by auto
        then have "im_ids idents' env' = Some m" "env' \<noteq> env" using get None by auto
        then show False using Some get by (auto simp: im_inv_ok_def) 
      qed
      then show ?thesis using Some empty by simp
    qed (use empty in simp)
  qed
  moreover have "\<exists>env. im_ids idents' env = Some m" if "map_find objids m = Some i" for m i
    using assms(1) that get unfolding objs_rep_def by blast
  ultimately show ?thesis using assms(1) by (auto simp: objs_rep_def)
qed

lemma db_rep_get:
  assumes rep: "db_rep U db T R Ob" and get: "im_get name (db_idents db) = (idents', n)"
  shows "db_rep U (db\<lparr>db_idents := idents'\<rparr>) T R Ob"
proof -
  note D = db_repD [OF rep]
  note g = im_inv_ok_get [OF D(2) get]
  have "rec_ok (nof_recs db) (db_params db) idents' t r" if "rec_ok (nof_recs db) (db_params db) (db_idents db) t r" for t r
    by (rule rec_ok_mono [OF that]) (use g in auto)
  then have "recs_ok (db\<lparr>db_idents := idents'\<rparr>)" using D(3) by (simp add: recs_ok_def)
  then show ?thesis
    using D g objs_rep_get [OF D(8,2) get] by (simp add: db_rep_def)
qed

subsection \<open>Objects\<close>

lemma set_object_rep:
  assumes rep: "db_rep U db T R Ob" and s: "s \<in> U" and h: "0 < h"
  shows "\<exists>db'. set_object_instance name s h db = returnR db' \<and>
    db_rep U db' T R (Ob(ident_key name := (Ob (ident_key name))(s \<mapsto> h)))"
proof -
  note D = db_repD [OF rep]
  obtain idents n where get: "im_get name (db_idents db) = (idents, n)" by fastforce
  note g = im_inv_ok_get [OF D(2) get]
  let ?env = "ident_key name"
  have n: "im_ids idents ?env = Some n" using g by simp
  have rep': "db_rep U (db\<lparr>db_idents := idents\<rparr>) T R Ob" using db_rep_get [OF rep get] .
  have ob: "objs_rep idents (db_objids db) (db_objs db) Ob" using db_repD(8) [OF rep'] by simp
  have ok: "map_ok (db_objids db)" using ob by (simp add: objs_rep_def)
  define objids where "objids = (case map_find (db_objids db) n of None \<Rightarrow> map_put (db_objids db) n (int (length (db_objs db))) | Some i \<Rightarrow> db_objids db)"
  define objs where "objs = (case map_find (db_objids db) n of None \<Rightarrow> db_objs db @ [si_new (-1)] | Some i \<Rightarrow> db_objs db)"
  define idx where "idx = (case map_find (db_objids db) n of None \<Rightarrow> int (length (db_objs db)) | Some i \<Rightarrow> i)"
  have valid: "0 \<le> i \<and> nat i < length (db_objs db)" if "map_find (db_objids db) m = Some i" for m i
    using ob that by (auto simp: objs_rep_def)
  have idx: "0 \<le> idx" "nat idx < length objs" "map_find objids n = Some idx"
    using valid by (auto simp: idx_def objs_def objids_def split: option.splits)
  have other: "map_find objids m = map_find (db_objids db) m" if "m \<noteq> n" for m
    using that by (auto simp: objids_def split: option.splits)
  have keep: "objs ! nat i = db_objs db ! nat i \<and> nat i < length objs" if "map_find (db_objids db) m = Some i" for m i
    using valid [OF that] by (auto simp: objs_def nth_append split: option.splits)
  have cur: "si_rep (-1) (objs ! nat idx) (Ob ?env)"
  proof (cases "map_find (db_objids db) n")
    case None
    have "case im_ids idents ?env of
        None \<Rightarrow> Ob ?env = Map.empty
      | Some n \<Rightarrow> (case map_find (db_objids db) n of
          None \<Rightarrow> Ob ?env = Map.empty
        | Some i \<Rightarrow> si_rep (-1) (db_objs db ! nat i) (Ob ?env))" using ob unfolding objs_rep_def by blast
    then have "Ob ?env = Map.empty" using n None by simp
    then show ?thesis using None si_rep_new by (simp add: objs_def idx_def)
  next
    case (Some i)
    have "case im_ids idents ?env of
        None \<Rightarrow> Ob ?env = Map.empty
      | Some n \<Rightarrow> (case map_find (db_objids db) n of
          None \<Rightarrow> Ob ?env = Map.empty
        | Some i \<Rightarrow> si_rep (-1) (db_objs db ! nat i) (Ob ?env))" using ob unfolding objs_rep_def by blast
    then show ?thesis using n Some keep [OF Some] by (simp add: idx_def)
  qed
  have "laminar (insert s (dom (Ob ?env)))"
    by (rule laminar_subset [OF D(1)]) (use s D(9) in blast)
  then obtain obj where obj: "si_set s h (objs ! nat idx) = returnR obj" "si_rep (-1) obj ((Ob ?env)(s \<mapsto> h))"
    using si_set_rep [OF cur] by blast
  let ?objs = "objs[nat idx := obj]" and ?Ob = "Ob(?env := (Ob ?env)(s \<mapsto> h))"
  have "set_object_instance name s h db = returnR (db\<lparr>db_idents := idents, db_objids := objids, db_objs := ?objs\<rparr>)"
    using h get idx obj
    by (cases "map_find (db_objids db) n") (auto simp: set_object_instance_def map_insert_def objids_def objs_def idx_def vec_at_def Let_def)
  moreover have "objs_rep idents objids ?objs ?Ob"
    unfolding objs_rep_def
  proof (intro conjI allI impI)
    show "map_ok objids" using ok by (auto simp: objids_def split: option.splits)
    fix m i
    assume m: "map_find objids m = Some i"
    show "0 \<le> i" "nat i < length ?objs"
      using m idx other [of m] valid [of m i] keep [of m i] by (cases "m = n"; simp)+
    show "\<exists>env. im_ids idents env = Some m"
      using m n other [of m] ob by (cases "m = n") (auto simp: objs_rep_def)
    fix m'
    assume m': "map_find objids m' = Some i"
    have inj: "map_find (db_objids db) a = Some j \<Longrightarrow> map_find (db_objids db) b = Some j \<Longrightarrow> a = b" for a b j
      using ob unfolding objs_rep_def by blast
    have "i \<noteq> idx" if "map_find (db_objids db) a = Some i" "a \<noteq> n" for a
      using that inj [of a i n] valid [OF that(1)] by (auto simp: idx_def split: option.splits)
    then show "m = m'" using m m' idx(3) other inj by (metis option.inject)
  next
    fix env
    have old: "case im_ids idents env of
        None \<Rightarrow> Ob env = Map.empty
      | Some n \<Rightarrow> (case map_find (db_objids db) n of
          None \<Rightarrow> Ob env = Map.empty
        | Some i \<Rightarrow> si_rep (-1) (db_objs db ! nat i) (Ob env))" using ob unfolding objs_rep_def by blast
    show "case im_ids idents env of
        None \<Rightarrow> ?Ob env = Map.empty
      | Some n \<Rightarrow> (case map_find objids n of
          None \<Rightarrow> ?Ob env = Map.empty
        | Some i \<Rightarrow> si_rep (-1) (?objs ! nat i) (?Ob env))"
    proof (cases "env = ?env")
      case True
      then show ?thesis using n idx obj(2) by simp
    next
      case False
      then have Ob: "?Ob env = Ob env" by simp
      have mn: "m \<noteq> n" if "im_ids idents env = Some m" for m
        using that n False g by (auto simp: im_inv_ok_def)
      have "nat i \<noteq> nat idx" if "im_ids idents env = Some m" "map_find (db_objids db) m = Some i" for m i
      proof -
        have "i \<noteq> idx"
          using objs_repD(3) [OF ob that(2), of n] mn [OF that(1)] valid [OF that(2)]
          by (auto simp: idx_def split: option.splits)
        then show ?thesis using valid [OF that(2)] idx(1) by linarith
      qed
      then have "?objs ! nat i = db_objs db ! nat i" if "im_ids idents env = Some m" "map_find (db_objids db) m = Some i" for m i
        using that keep by (metis nth_list_update_neq)
      then show ?thesis
        unfolding Ob using old other mn by (auto split: option.splits)
    qed
  qed
  moreover have "recs_ok (db\<lparr>db_idents := idents, db_objids := objids, db_objs := ?objs\<rparr>)"
    using db_repD(3) [OF rep'] by (simp add: recs_ok_def)
  ultimately show ?thesis
    using D g s by (simp add: db_rep_def)
qed

lemma get_object_rep:
  assumes rep: "db_rep U db T R Ob"
  shows "\<exists>r. get_object_instance name step db = Some (case r of None \<Rightarrow> -1 | Some h \<Rightarrow> h) \<and> visible (Ob (ident_key name)) step r"
    and "get_object_instance_of_scope name s db = Some (case Ob (ident_key name) s of None \<Rightarrow> -1 | Some h \<Rightarrow> h)"
proof -
  note D = db_repD [OF rep]
  let ?env = "ident_key name"
  have ob: "case im_ids (db_idents db) ?env of
        None \<Rightarrow> Ob ?env = Map.empty
      | Some n \<Rightarrow> (case map_find (db_objids db) n of
          None \<Rightarrow> Ob ?env = Map.empty
        | Some i \<Rightarrow> si_rep (-1) (db_objs db ! nat i) (Ob ?env))"
    and valid: "\<And>n i. map_find (db_objids db) n = Some i \<Longrightarrow>
      0 \<le> i \<and> nat i < length (db_objs db) \<and> (\<exists>env. im_ids (db_idents db) env = Some n)"
    using D(8) unfolding objs_rep_def by blast+
  have "map_find (db_objids db) 0 = None"
  proof (rule ccontr)
    assume "map_find (db_objids db) 0 \<noteq> None"
    then obtain env where "im_ids (db_idents db) env = Some 0" using valid [of 0] by auto
    then show False using D(2) unfolding im_inv_ok_def by force
  qed
  then consider
      (none) "map_find (db_objids db) (im_lookup name (db_idents db)) = None" "Ob ?env = Map.empty"
    | (some) i where "map_find (db_objids db) (im_lookup name (db_idents db)) = Some i" "si_rep (-1) (db_objs db ! nat i) (Ob ?env)"
    using ob by (auto simp: im_lookup_def split: option.splits)
  then have "(\<exists>r. get_object_instance name step db = Some (case r of None \<Rightarrow> -1 | Some h \<Rightarrow> h) \<and> visible (Ob ?env) step r) \<and>
      get_object_instance_of_scope name s db = Some (case Ob ?env s of None \<Rightarrow> -1 | Some h \<Rightarrow> h)"
  proof cases
    case none
    then show ?thesis
      by (auto simp: get_object_instance_def get_object_instance_of_scope_def visible_def intro!: exI [of _ None])
  next
    case (some i)
    then show ?thesis
      using valid [OF some(1)] si_get_rep [OF some(2), of step] si_get_this_rep [OF some(2), of s]
      by (auto simp: get_object_instance_def get_object_instance_of_scope_def vec_at_def)
  qed
  then show "\<exists>r. get_object_instance name step db = Some (case r of None \<Rightarrow> -1 | Some h \<Rightarrow> h) \<and> visible (Ob (ident_key name)) step r"
    and "get_object_instance_of_scope name s db = Some (case Ob (ident_key name) s of None \<Rightarrow> -1 | Some h \<Rightarrow> h)"
    by auto
qed

subsection \<open>Looking up types\<close>

definition first_of :: "(type_def \<Rightarrow> scope \<rightharpoonup> int) \<Rightarrow> type_def \<Rightarrow> scope \<Rightarrow> int" where
  "first_of T k s = (case T k s of None \<Rightarrow> 0 | Some t \<Rightarrow> t)"

text \<open>The types with a context, name and scope, and the one of them with a signature.\<close>

definition types_of :: "type_database \<Rightarrow> (type_def \<Rightarrow> scope \<rightharpoonup> int) \<Rightarrow> type_def \<Rightarrow> scope \<Rightarrow> int list" where
  "types_of db T k s = types_from db (first_of T k s)"

definition type_with_sig :: "type_database \<Rightarrow> int list \<Rightarrow> int list \<Rightarrow> int" where
  "type_with_sig db ids ts = (case find (\<lambda>u. sig_at db u = ts) ids of None \<Rightarrow> 0 | Some u \<Rightarrow> u)"

lemma first_of_type: "db_rep U db T R Ob \<Longrightarrow> first_of T k s = 0 \<or> is_type db (first_of T k s)"
  using db_repD(5) [of U db T R Ob k s] by (auto simp: first_of_def split: option.splits)

lemma types_of_is_type: "db_rep U db T R Ob \<Longrightarrow> u \<in> set (types_of db T k s) \<Longrightarrow> is_type db u"
  using types_from(3) [OF db_repD(3), OF _ first_of_type] by (auto simp: types_of_def)

lemma get_types_rep:
  assumes rep: "db_rep U db T R Ob" and ctx: "0 \<le> ctx" "ctx \<le> nof_recs db" and get: "im_get name (db_idents db) = (idents, n)"
  shows "get_types s ctx name db = returnR (db\<lparr>db_idents := idents\<rparr>, types_of db T (TypeDef ctx n) s)"
  using sm_get_def_rep [OF db_repD(4) [OF rep], of s "TypeDef ctx n"] ctx get
    types_from(1) [OF db_repD(3) [OF rep] first_of_type [OF rep, of "TypeDef ctx n" s]]
  by (simp add: get_types_def invalid_type_def types_of_def first_of_def)

lemma get_type_rep:
  assumes rep: "db_rep U db T R Ob" and ctx: "0 \<le> ctx" "ctx \<le> nof_recs db" and get: "im_get name (db_idents db) = (idents, n)"
  shows "get_type s ctx name ts db = returnR (db\<lparr>db_idents := idents\<rparr>, type_with_sig db (types_of db T (TypeDef ctx n) s) ts)"
proof -
  let ?t = "first_of T (TypeDef ctx n) s"
  note ok = db_repD(3) [OF rep] and t = first_of_type [OF rep, of "TypeDef ctx n" s]
  have "sm_get_def (db_types db) s (TypeDef ctx n) = Some ?t"
    using sm_get_def_rep [OF db_repD(4) [OF rep], of s "TypeDef ctx n"] by (simp add: first_of_def)
  moreover have "find (\<lambda>u. sig_at db u = ts) (types_of db T (TypeDef ctx n) s) = None" if "?t = 0"
    using that types_from(2) [OF ok t] by (simp add: types_of_def)
  ultimately show ?thesis
    using ctx get find_type_spec [OF ok t, of ts 0]
    by (auto simp: get_type_def invalid_type_def type_with_sig_def types_of_def Let_def split: option.splits)
qed

subsection \<open>Defining types\<close>

lemma sm_type_step:
  assumes rep: "db_rep U db T R Ob" and s: "s \<in> U"
  shows "laminar (insert s (dom (T k)))"
  by (rule laminar_subset [OF db_repD(1) [OF rep]]) (use s db_repD(5) [OF rep] in blast)

lemma db_rep_types_mono:
  assumes rep: "db_rep U db T R Ob" and n: "nof_recs db \<le> nof_recs db'" and recs: "recs_ok db'"
    and types: "sm_rep 0 (db_types db') T'" "\<And>k s t. T' k s = Some t \<Longrightarrow> s \<in> U \<and> is_type db' t"
    and same: "db_redus db' = db_redus db" "db_objids db' = db_objids db" "db_objs db' = db_objs db"
    and idents: "im_inv_ok (db_idents db')" "objs_rep (db_idents db') (db_objids db) (db_objs db) Ob"
  shows "db_rep U db' T' R Ob"
proof -
  have "s \<in> U \<and> is_type db' k \<and> 0 \<le> re_right r \<and> re_right r \<le> nof_recs db' \<and> re_right r \<noteq> k \<and> 0 \<le> re_value r \<and> f32_rep (re_weight r)"
    if "r \<in> set (R k s)" for k s r
    using db_repD(7) [OF rep that] n by linarith
  then show ?thesis using db_repD [OF rep] types recs same idents by (simp add: db_rep_def)
qed

lemma define_type_as_rep:
  assumes rep: "db_rep U db T R Ob" and s: "s \<in> U" and ctx: "0 \<le> ctx" "ctx \<le> nof_recs db" and t: "is_type db t"
    and get: "im_get name (db_idents db) = (idents, n)"
  shows "\<exists>db'. define_type_as s ctx name t db = returnR (db', if T (TypeDef ctx n) s = None then t else 0) \<and>
    db_rep U db' (T(TypeDef ctx n := first_def (T (TypeDef ctx n)) s t)) R Ob \<and>
    db_recs db' = db_recs db \<and> db_params db' = db_params db \<and> db_idents db' = idents"
proof -
  let ?k = "TypeDef ctx n"
  obtain types where types: "sm_set s ?k t (db_types db) = returnR (types, T ?k s = None)"
    "sm_rep 0 types (T(?k := first_def (T ?k) s t))"
    using sm_set_rep [OF db_repD(4) [OF rep] sm_type_step [OF rep s]] by blast
  let ?db = "db\<lparr>db_idents := idents, db_types := types\<rparr>"
  have g: "db_rep U (db\<lparr>db_idents := idents\<rparr>) T R Ob" using db_rep_get [OF rep get] .
  have recs: "recs_ok ?db" using db_repD(3) [OF g] by (simp add: recs_ok_def)
  have "s' \<in> U \<and> is_type ?db t'" if "(T(?k := first_def (T ?k) s t)) k' s' = Some t'" for k' s' t'
    using that s t db_repD(5) [OF rep, of k' s' t'] by (auto simp: first_def_def split: if_splits)
  then have "db_rep U ?db (T(?k := first_def (T ?k) s t)) R Ob"
    using types(2) recs db_repD(2,8) [OF g] by (intro db_rep_types_mono [OF rep]) auto
  then show ?thesis
    using types(1) ctx t get by (intro exI [of _ ?db]) (auto simp: define_type_as_def invalid_type_def)
qed

text \<open>What a caller of \<open>defineType\<close> has to respect, all but the last checked by the function.\<close>

definition type_args_ok :: "type_database \<Rightarrow> int \<Rightarrow> int \<Rightarrow> type_constructor_pair list \<Rightarrow> bool" where
  "type_args_ok db ctx con ps \<longleftrightarrow>
     int (length ps) < max_nof_parameter \<and> int (length (db_params db)) + int (length ps) < int_max \<and>
     0 \<le> con \<and> 0 \<le> ctx \<and> ctx \<le> nof_recs db \<and> (\<forall>p \<in> set ps. 0 \<le> tc_type p \<and> tc_type p \<le> nof_recs db)"

definition new_record :: "type_database \<Rightarrow> scope \<Rightarrow> int \<Rightarrow> type_constructor_pair list \<Rightarrow> type_def \<Rightarrow> type_record" where
  "new_record db s con ps k = \<lparr>tr_scope = s, tr_constructor = con, tr_parameterlen = int (length ps),
     tr_parameter = (if ps = [] then 0 else int (length (db_params db)) + 1), tr_next = 0, tr_inv = k\<rparr>"

lemma to_int32_small: "0 \<le> x \<Longrightarrow> x < 2147483648 \<Longrightarrow> to_int32 x = x"
  by (simp add: to_int32_def)

lemma define_type_unfold:
  assumes "type_args_ok db ctx con ps" and "im_get name (db_idents db) = (idents, n)"
    and "sm_get_or_set s (TypeDef ctx n) (nof_recs db + 1) (db_types db) = returnR (types, prev)"
    and "db' = db\<lparr>db_params := db_params db @ ps, db_idents := idents,
      db_recs := db_recs db @ [new_record db s con ps (TypeDef ctx n)], db_types := types\<rparr>"
  shows "define_type s ctx name con ps db =
    (if prev \<noteq> 0 then
       bindR (liftR (find_type_with_signature db' (map tc_type ps) 0 prev)) (\<lambda>(tri, l).
         if tri \<noteq> 0 then returnR (db', -1)
         else if l = 0 then throwR logic_error
         else returnR (linked db' l (nof_recs db + 1), nof_recs db + 1))
     else returnR (db', nof_recs db + 1))"
proof -
  have "\<not> int (length ps) \<ge> max_nof_parameter" "\<not> to_int32 (int (length (db_params db)) + int (length ps)) \<ge> int_max"
    "\<not> con < 0" "\<not> invalid_type db ctx"
    using assms(1) to_int32_small [of "int (length (db_params db)) + int (length ps)"]
    by (auto simp: type_args_ok_def invalid_type_def int_max_def)
  then show ?thesis
    using assms(2,3) unfolding assms(4) define_type_def new_record_def linked_def Let_def by (simp add: case_prod_unfold cong: if_cong)
qed

lemma define_type_rep:
  assumes rep: "db_rep U db T R Ob" and s: "s \<in> U" and args: "type_args_ok db ctx con ps"
    and get: "im_get name (db_idents db) = (idents, n)"
  defines "k \<equiv> TypeDef ctx n" and "new \<equiv> nof_recs db + 1"
  shows "\<exists>db'. define_type s ctx name con ps db =
      returnR (db', if type_with_sig db (types_of db T k s) (map tc_type ps) \<noteq> 0 then -1 else new) \<and>
    db_rep U db' (T(k := first_def (T k) s new)) R Ob \<and> db_idents db' = idents \<and> nof_recs db' = new \<and>
    (\<forall>u. is_type db u \<longrightarrow> params_at db' u = params_at db u \<and> rec_at db' u = (rec_at db u)\<lparr>tr_next := tr_next (rec_at db' u)\<rparr>) \<and>
    params_at db' new = ps \<and> rec_at db' new = new_record db s con ps k \<and>
    types_of db' (T(k := first_def (T k) s new)) k s =
      (if type_with_sig db (types_of db T k s) (map tc_type ps) \<noteq> 0 then types_of db T k s else types_of db T k s @ [new])"
proof -
  note D = db_repD [OF rep]
  note g = im_inv_ok_get [OF D(2) get]
  let ?T = "T(k := first_def (T k) s new)"
  obtain types where types: "sm_get_or_set s k new (db_types db) = returnR (types, first_of T k s)" "sm_rep 0 types ?T"
    using sm_get_or_set_rep [OF D(4) sm_type_step [OF rep s], of k new] by (auto simp: first_of_def)
  define r where "r = new_record db s con ps k"
  define db1 where "db1 = db\<lparr>db_params := db_params db @ ps, db_idents := idents,
      db_recs := db_recs db @ [r], db_types := types\<rparr>"
  note unf = define_type_unfold [OF args get types(1) [unfolded k_def new_def], of db1, folded k_def new_def, folded r_def, OF db1_def]
  have n1: "nof_recs db1 = new" and f1: "db_idents db1 = idents" by (simp_all add: db1_def new_def)
  have "1 \<le> n" "n \<le> int (length (im_inv idents))" using g by (auto simp: im_inv_ok_def)
  then have "rec_ok new (db_params db1) (db_idents db1) new r"
    using args by (auto simp: rec_ok_def r_def new_record_def db1_def k_def new_def type_args_ok_def)
  moreover have pushed: "pushed db r db1" using g by (auto simp: pushed_def db1_def)
  ultimately have ok1: "recs_ok db1" using recs_ok_pushed [OF D(3) pushed] n1 by simp
  have obj1: "objs_rep idents (db_objids db) (db_objs db) Ob" "im_inv_ok idents"
    using objs_rep_get [OF D(8,2) get] g by auto
  have T': "s' \<in> U \<and> 1 \<le> t' \<and> t' \<le> new" if "?T k' s' = Some t'" for k' s' t'
    using that s D(5) [of k' s' t'] by (auto simp: first_def_def new_def split: if_splits)
  have rep1: "db_rep U db1 ?T R Ob"
  proof (rule db_rep_types_mono [OF rep])
    show "s' \<in> U \<and> is_type db1 t'" if "?T k' s' = Some t'" for k' s' t'
      using T' [OF that] n1 by simp
  qed (use ok1 types(2) obj1 n1 in \<open>auto simp: db1_def new_def\<close>)
  have old1: "params_at db1 u = params_at db u \<and> rec_at db1 u = rec_at db u \<and> is_type db1 u" if "is_type db u" for u
    using pushed_params_at [OF D(3) pushed that] pushed_rec_at [OF pushed that] by simp
  have new1: "rec_at db1 new = r" "is_type db1 new" using pushed_new [OF pushed] by (auto simp: new_def)
  have pnew: "params_at db1 new = ps"
    using new1(1) by (auto simp: params_at_def r_def new_record_def db1_def)
  have ft: "first_of T k s = 0 \<or> is_type db (first_of T k s)" using first_of_type [OF rep] .
  have from1: "types_from db1 (first_of T k s) = types_of db T k s"
    using pushed_types_from [OF D(3) ok1 pushed ft] by (simp add: types_of_def)
  have find1: "find (\<lambda>u. sig_at db1 u = map tc_type ps) (types_of db T k s) = find (\<lambda>u. sig_at db u = map tc_type ps) (types_of db T k s)"
    by (rule find_cong) (use types_of_is_type [OF rep] old1 in \<open>auto simp: sig_at_def\<close>)
  show ?thesis
  proof (cases "first_of T k s = 0")
    case True
    then have none: "T k s = None" using D(5) [of k s 0] by (auto simp: first_of_def split: option.splits)
    have "types_of db T k s = []" using types_from(2) [OF D(3) ft] True by (simp add: types_of_def)
    moreover have "types_of db1 ?T k s = [new]"
      using none types_from_single [OF ok1 new1(2)] new1(1)
      by (simp add: types_of_def first_of_def first_def_def r_def new_record_def)
    ultimately show ?thesis
      using unf rep1 old1 pnew new1 n1 True
      f1 unfolding r_def by (intro exI [of _ db1]) (auto simp: type_with_sig_def)
  next
    case False
    then obtain v where v: "T k s = Some v" "first_of T k s = v" "is_type db v"
      using ft by (auto simp: first_of_def split: option.splits)
    then have T: "?T = T" by (auto simp: first_def_def)
    have v1: "is_type db1 v" using old1 [OF v(3)] by simp
    have ne: "types_of db T k s \<noteq> []" using types_from(2) [OF D(3) ft] False by (simp add: types_of_def)
    have spec: "find_type_with_signature db1 (map tc_type ps) 0 v =
      Some (case find (\<lambda>u. sig_at db u = map tc_type ps) (types_of db T k s) of
        None \<Rightarrow> (0, last (types_of db T k s))
      | Some u \<Rightarrow> (u, if u = v then 0 else last (takeWhile (\<lambda>w. w \<noteq> u) (types_of db T k s))))"
      using find_type_spec [OF ok1, of v "map tc_type ps" 0] v1
      unfolding from1 [unfolded v(2)] find1 if_not_P [OF ne] by simp
    show ?thesis
    proof (cases "find (\<lambda>u. sig_at db u = map tc_type ps) (types_of db T k s)")
      case (Some u)
      then have "u \<in> set (types_of db T k s)" by (auto simp: find_Some_iff)
      then have u: "u \<noteq> 0" using types_of_is_type [OF rep] by fastforce
      then have "define_type s ctx name con ps db = returnR (db1, -1)"
        using unf v False spec Some by simp
      moreover have "type_with_sig db (types_of db T k s) (map tc_type ps) \<noteq> 0" using Some u by (simp add: type_with_sig_def)
      moreover have "types_of db1 ?T k s = types_of db T k s"
        using from1 by (simp add: types_of_def T)
      ultimately show ?thesis
        using rep1 old1 pnew new1 n1 f1 unfolding r_def by (intro exI [of _ db1]) auto
    next
      case None
      let ?l = "last (types_of db T k s)"
      let ?db2 = "linked db1 ?l new"
      have l1: "is_type db1 ?l" "tr_next (rec_at db1 ?l) = 0" "?l \<in> set (types_of db T k s)"
        using last_types_from [OF ok1 v1] from1 v(2) by auto
      then have l: "is_type db ?l" using types_of_is_type [OF rep] by blast
      have lm: "?l < new" "new \<le> nof_recs db1" using l n1 by (auto simp: new_def)
      have def: "define_type s ctx name con ps db = returnR (?db2, new)"
        using unf v False spec None l by (auto simp: new_def)
      have ok2: "recs_ok ?db2" using recs_ok_linked [OF ok1 l1(1) lm] .
      have rep2: "db_rep U ?db2 ?T R Ob"
        by (rule db_rep_types_mono [OF rep1]) (use ok2 rep1 db_repD [OF rep1] in auto)
      have rec2: "rec_at ?db2 u = (rec_at db1 u)\<lparr>tr_next := tr_next (rec_at ?db2 u)\<rparr> \<and> params_at ?db2 u = params_at db1 u"
        if "is_type db1 u" for u
        using linked_rec_at [OF that l1(1), of new] linked_params_at [OF that l1(1), of new] by (cases "u = ?l") simp_all
      have all2: "\<forall>u. is_type db u \<longrightarrow> params_at ?db2 u = params_at db u \<and> rec_at ?db2 u = (rec_at db u)\<lparr>tr_next := tr_next (rec_at ?db2 u)\<rparr>"
        using rec2 old1 by metis
      have new2: "rec_at ?db2 new = r" using linked_rec_at [OF new1(2) l1(1), of new] new1(1) lm(1) by simp
      have types2: "types_of ?db2 ?T k s = types_of db T k s @ [new]"
      proof -
        have "tr_next (rec_at db1 new) = 0" using new1(1) by (simp add: r_def new_record_def)
        then have "types_from ?db2 v = types_of db T k s @ [new]"
          using linked_types_from [OF ok1 l1(1,2) lm, of v] v v1 from1 l1(3) by simp
        then show ?thesis unfolding types_of_def T v(2) by simp
      qed
      have z: "type_with_sig db (types_of db T k s) (map tc_type ps) = 0" using None by (simp add: type_with_sig_def)
      have p2: "params_at ?db2 new = ps" using rec2 [OF new1(2)] pnew by simp
      show ?thesis
        unfolding z using def rep2 all2 new2 types2 p2 n1 f1 r_def by (intro exI [of _ ?db2] conjI) simp_all
    qed
  qed
qed

subsection \<open>The string of a type\<close>

definition commas :: "string list \<Rightarrow> string" where
  "commas xs = (case xs of [] \<Rightarrow> [] | x # rest \<Rightarrow> x @ concat (map (\<lambda>y. '','' @ y) rest))"

lemma commas_snoc: "commas (xs @ [x]) = commas xs @ (if xs = [] then x else '','' @ x)"
  by (cases xs) (simp_all add: commas_def)

lemma append_parameters:
  assumes ok: "recs_ok db" and t: "is_type db t"
    and IH: "\<And>p res. p \<in> set (params_at db t) \<Longrightarrow> append_type_to_string db sep (tc_type p) res = returnR (res @ f (tc_type p))"
    and m: "m \<le> length (params_at db t)"
  shows "runR (\<lambda>pi res. bindR (liftR (vec_at (db_params db) (tr_parameter (rec_at db t) + pi - 1))) (\<lambda>p.
      append_type_to_string db sep (tc_type p) (if pi \<noteq> 0 then res @ '','' else res))) [0..int m - 1] res =
    returnR (res @ commas (map f (map tc_type (take m (params_at db t)))))"
  using m
proof (induction m)
  case 0
  then show ?case by (simp add: commas_def)
next
  case (Suc m)
  have split: "[0..int (Suc m) - 1] = [0..int m - 1] @ [int m]" by (simp add: upto_rec2)
  have v: "vec_at (db_params db) (tr_parameter (rec_at db t) + int m - 1) = Some (params_at db t ! m)"
    using vec_at_param [OF ok t] Suc.prems by simp
  have mem: "params_at db t ! m \<in> set (params_at db t)" using Suc.prems by simp
  have tk: "take (Suc m) (params_at db t) = take m (params_at db t) @ [params_at db t ! m]"
    using Suc.prems by (simp add: take_Suc_conv_app_nth)
  show ?case
    unfolding split runR_append using Suc v IH [OF mem] by (auto simp: tk commas_snoc)
qed

text \<open>The string of a type, given those of its context and of its parameters.\<close>

definition type_string_step :: "type_database \<Rightarrow> string \<Rightarrow> (int \<Rightarrow> string) \<Rightarrow> int \<Rightarrow> string" where
  "type_string_step db sep f t =
     (if td_context (tr_inv (rec_at db t)) \<noteq> 0 then f (td_context (tr_inv (rec_at db t))) @ sep else []) @
     im_inv (db_idents db) ! nat (td_ident (tr_inv (rec_at db t)) - 1) @
     (if params_at db t = [] then [] else ''('' @ commas (map f (map tc_type (params_at db t))) @ '')'')"

lemma append_type_step:
  assumes ok: "recs_ok db" and it: "is_type db t"
    and f: "\<And>u res. 0 \<le> u \<Longrightarrow> u < t \<Longrightarrow> append_type_to_string db sep u res = returnR (res @ f u)"
  shows "append_type_to_string db sep t res = returnR (res @ type_string_step db sep f t)"
proof -
  let ?r = "rec_at db t"
  have r: "rec_ok (nof_recs db) (db_params db) (db_idents db) t ?r" using rec_okD [OF ok it] .
  have ctx: "0 \<le> td_context (tr_inv ?r)" "td_context (tr_inv ?r) < t" using r by (auto simp: rec_ok_def)
  have nam: "im_invert (td_ident (tr_inv ?r)) (db_idents db) = Some (im_inv (db_idents db) ! nat (td_ident (tr_inv ?r) - 1))"
    using r by (auto simp: im_invert_def vec_at_def rec_ok_def)
  have len: "tr_parameterlen ?r = int (length (params_at db t))" using length_params_at [OF ok it] by simp
  have ps: "append_type_to_string db sep (tc_type p) res = returnR (res @ f (tc_type p))" if "p \<in> set (params_at db t)" for p res
    using f that r by (auto simp: rec_ok_def params_at_def)
  note loop = append_parameters [OF ok it, of sep f "length (params_at db t)", OF ps order_refl, simplified]
  have head: "(if td_context (tr_inv ?r) \<noteq> 0 then bindR (append_type_to_string db sep (td_context (tr_inv ?r)) res) (\<lambda>res. returnR (res @ sep))
      else returnR res) = returnR (res @ (if td_context (tr_inv ?r) \<noteq> 0 then f (td_context (tr_inv ?r)) @ sep else []))"
    using f [OF ctx] by simp
  show ?thesis
  proof (cases "params_at db t = []")
    case True
    then show ?thesis
      using it by (subst append_type_to_string.simps) (simp add: head nam len type_string_step_def)
  next
    case False
    then show ?thesis
      using it by (subst append_type_to_string.simps) (simp add: head nam len loop type_string_step_def)
  qed
qed

lemma append_type_0: "append_type_to_string db sep 0 res = returnR res"
  by (subst append_type_to_string.simps) simp

lemma append_type_total:
  assumes ok: "recs_ok db" and t: "0 \<le> t" "t \<le> nof_recs db"
  shows "\<exists>str. \<forall>res. append_type_to_string db sep t res = returnR (res @ str)"
  using t
proof (induction "nat t" arbitrary: t rule: less_induct)
  case less
  show ?case
  proof (cases "t = 0")
    case True
    then show ?thesis by (intro exI [of _ "[]"]) (simp add: append_type_0)
  next
    case False
    with less.prems have it: "is_type db t" by simp
    have IH: "\<exists>str. \<forall>res. append_type_to_string db sep u res = returnR (res @ str)" if "0 \<le> u" "u < t" for u
      using less.hyps [of u] that less.prems by simp
    define f where "f u = (SOME str. \<forall>res. append_type_to_string db sep u res = returnR (res @ str))" for u
    have f: "append_type_to_string db sep u res = returnR (res @ f u)" if "0 \<le> u" "u < t" for u res
      unfolding f_def by (rule spec [OF someI_ex [OF IH [OF that]]])
    show ?thesis using append_type_step [OF ok it f] by blast
  qed
qed

text \<open>A function that gives the strings of the types.\<close>

definition type_strings :: "type_database \<Rightarrow> string \<Rightarrow> (int \<Rightarrow> string) \<Rightarrow> bool" where
  "type_strings db sep f \<longleftrightarrow> f 0 = [] \<and> (\<forall>t. is_type db t \<longrightarrow> f t = type_string_step db sep f t)"

lemma type_to_string_spec:
  assumes ok: "recs_ok db"
  shows "\<exists>f. type_strings db sep f \<and> (\<forall>t. 0 \<le> t \<and> t \<le> nof_recs db \<longrightarrow> type_to_string db t sep = returnR (f t))"
proof -
  define f where "f t = (SOME str. \<forall>res. append_type_to_string db sep t res = returnR (res @ str))" for t
  have f: "append_type_to_string db sep t res = returnR (res @ f t)" if "0 \<le> t" "t \<le> nof_recs db" for t res
    unfolding f_def by (rule spec [OF someI_ex [OF append_type_total [OF ok that]]])
  have "f 0 = []" using f [of 0 "[]"] by (simp add: append_type_0)
  moreover have "f t = type_string_step db sep f t" if it: "is_type db t" for t
    using f [of t "[]"] append_type_step [OF ok it, of sep f "[]", OF f] it by simp
  ultimately have "type_strings db sep f" by (simp add: type_strings_def)
  then show ?thesis using f by (auto simp: type_to_string_def)
qed

subsection \<open>Reductions\<close>

lemma define_reduction_rep:
  assumes rep: "db_rep U db T R Ob" and s: "s \<in> U"
    and con: "0 \<le> con" and to: "0 \<le> to" "to \<le> nof_recs db" and frm: "is_type db ty" and ne: "to \<noteq> ty"
    and tag: "1 \<le> tag" "tag \<le> 32" and w: "f32_rep w"
  shows "case rel_insert (R ty s) (new_rel to con tag w) of
      Inl e \<Rightarrow> define_reduction s to ty con tag w db = throwR e
    | Inr rs \<Rightarrow> \<exists>db'. define_reduction s to ty con tag w db = returnR db' \<and>
        db_rep U db' T (R(ty := (R ty)(s := rs))) Ob \<and> db_recs db' = db_recs db"
proof -
  note D = db_repD [OF rep]
  have "s' \<in> U" if "R ty s' \<noteq> []" for s'
  proof -
    obtain r where "r \<in> set (R ty s')" using \<open>R ty s' \<noteq> []\<close> by (cases "R ty s'") auto
    then show ?thesis using D(7) by blast
  qed
  then have lam: "laminar (insert s {s'. R ty s' \<noteq> []})" by (intro laminar_subset [OF D(1)]) (use s in auto)
  have w0: "0 \<le> w" using w by (simp add: f32_rep_def)
  note set = rm_set_rep [OF D(6) lam tag w0, of to con]
  have def: "define_reduction s to ty con tag w db =
      bindR (rm_set s ty to con tag w (db_redus db)) (\<lambda>redus. returnR (db\<lparr>db_redus := redus\<rparr>))"
    using con to frm ne by (simp add: define_reduction_def invalid_type_def)
  show ?thesis
  proof (cases "rel_insert (R ty s) (new_rel to con tag w)")
    case (Inl e)
    then show ?thesis using set def by simp
  next
    case (Inr rs)
    then obtain rm where rm: "rm_set s ty to con tag w (db_redus db) = returnR rm" "rm_rep rm (R(ty := (R ty)(s := rs)))"
      using set by auto
    have "r \<in> set (R ty s) \<or> r = new_rel to con tag w" if "r \<in> set rs" for r
      using Inr that by (auto simp: rel_insert_def split: option.splits if_splits)
    then have "s' \<in> U \<and> is_type db k \<and> 0 \<le> re_right r \<and> re_right r \<le> nof_recs db \<and> re_right r \<noteq> k \<and> 0 \<le> re_value r \<and> f32_rep (re_weight r)"
      if "r \<in> set ((R(ty := (R ty)(s := rs))) k s')" for k s' r
    proof (cases "k = ty \<and> s' = s \<and> r = new_rel to con tag w")
      case True
      then show ?thesis using s con to frm ne w by (simp add: new_rel_def)
    next
      case False
      then have "r \<in> set (R k s')" using that \<open>\<And>r. r \<in> set rs \<Longrightarrow> r \<in> set (R ty s) \<or> r = new_rel to con tag w\<close>
        by (auto split: if_splits)
      then show ?thesis using D(7) by blast
    qed
    moreover have "recs_ok (db\<lparr>db_redus := rm\<rparr>)" using D(3) by (simp add: recs_ok_def)
    ultimately have "db_rep U (db\<lparr>db_redus := rm\<rparr>) T (R(ty := (R ty)(s := rs))) Ob"
      using D rm(2) by (simp add: db_rep_def)
    then show ?thesis using Inr def rm(1) by (auto intro!: exI [of _ "db\<lparr>db_redus := rm\<rparr>"])
  qed
qed

lemma get_reduction_step_other:
  "re_right redu \<noteq> to \<Longrightarrow> get_reduction_step db to ty redu rt = returnR rt"
  by (simp add: get_reduction_step_def)

lemma get_reduction_list:
  assumes "distinct (map re_right rs)" "\<forall>r \<in> set rs. 0 \<le> re_value r"
  shows "runR (get_reduction_step db to ty) rs rr_none =
    returnR (case find (\<lambda>r. re_right r = to) rs of
        None \<Rightarrow> rr_none
      | Some r \<Rightarrow> \<lparr>rr_weight = re_weight r, rr_constructor = re_value r\<rparr>)"
proof -
  have skip: "to \<notin> re_right ` set rs \<Longrightarrow> runR (get_reduction_step db to ty) rs rt = returnR rt" for rs rt
    by (induction rs) (auto simp: get_reduction_step_other)
  show ?thesis
    using assms
  proof (induction rs)
    case (Cons r rs)
    show ?case
    proof (cases "re_right r = to")
      case True
      then have "to \<notin> re_right ` set rs" using Cons.prems by auto
      moreover have "get_reduction_step db to ty r rr_none = returnR \<lparr>rr_weight = re_weight r, rr_constructor = re_value r\<rparr>"
        using True by (simp add: get_reduction_step_def rr_none_def rr_defined_def)
      ultimately show ?thesis using True skip by simp
    next
      case False
      then show ?thesis using Cons by (simp add: get_reduction_step_other)
    qed
  qed simp
qed

end
