(* ===== verification/TypeDbProps.thy ===== *)
theory TypeDbProps
  imports TypeDbOps
begin

text \<open>
  Type databases as a state machine: the states reachable by calls whose scopes are from one
  hierarchy, and the properties of the operations in these states.
\<close>

subsection \<open>Calls and reachable states\<close>

datatype db_op =
    SetObject string scope int
  | DefineType scope int string int "type_constructor_pair list"
  | DefineTypeAs scope int string int
  | DefineReduction scope int int int int f32
  | GetType scope int string "int list"
  | GetTypes scope int string

fun db_call :: "db_op \<Rightarrow> type_database \<Rightarrow> type_database run" where
  "db_call (SetObject name s h) db = set_object_instance name s h db"
| "db_call (DefineType s ctx name con ps) db = bindR (define_type s ctx name con ps db) (\<lambda>(db', _). returnR db')"
| "db_call (DefineTypeAs s ctx name t) db = bindR (define_type_as s ctx name t db) (\<lambda>(db', _). returnR db')"
| "db_call (DefineReduction s to ty con tag w) db = define_reduction s to ty con tag w db"
| "db_call (GetType s ctx name ts) db = bindR (get_type s ctx name ts db) (\<lambda>(db', _). returnR db')"
| "db_call (GetTypes s ctx name) db = bindR (get_types s ctx name db) (\<lambda>(db', _). returnR db')"

text \<open>
  What the caller owes: scopes of the hierarchy, parameter types that exist, less than \<open>2^31\<close>
  parameters in all, a weight that is a float. All else the functions check themselves.
\<close>

fun call_ok :: "scope set \<Rightarrow> type_database \<Rightarrow> db_op \<Rightarrow> bool" where
  "call_ok U db (SetObject name s h) \<longleftrightarrow> s \<in> U"
| "call_ok U db (DefineType s ctx name con ps) \<longleftrightarrow> s \<in> U \<and>
     int (length (db_params db)) + int (length ps) < 2147483648 \<and>
     (\<forall>p \<in> set ps. 0 \<le> tc_type p \<and> tc_type p \<le> nof_recs db)"
| "call_ok U db (DefineTypeAs s ctx name t) \<longleftrightarrow> s \<in> U"
| "call_ok U db (DefineReduction s to ty con tag w) \<longleftrightarrow> s \<in> U \<and> (0 \<le> w \<longrightarrow> f32_rep w)"
| "call_ok U db (GetType s ctx name ts) \<longleftrightarrow> True"
| "call_ok U db (GetTypes s ctx name) \<longleftrightarrow> True"

inductive db_reachable :: "scope set \<Rightarrow> type_database \<Rightarrow> bool" for U where
  init: "db_reachable U typedb_new"
| step: "db_reachable U db \<Longrightarrow> call_ok U db c \<Longrightarrow> db_call c db = returnR db' \<Longrightarrow> db_reachable U db'"

definition db_ok :: "scope set \<Rightarrow> type_database \<Rightarrow> bool" where
  "db_ok U db \<longleftrightarrow> (\<exists>T R Ob. db_rep U db T R Ob)"

lemma db_okI: "db_rep U db T R Ob \<Longrightarrow> db_ok U db"
  by (auto simp: db_ok_def)

abbreviation db_errors :: "error_code set" where
  "db_errors \<equiv> {InvalidHandle, TooManyTypeArguments, CompiledSourceTooComplex, BadRelationTag, BadRelationWeight,
     DuplicateDefinition, InvalidReductionDefinition}"

definition call_result :: "scope set \<Rightarrow> type_database run \<Rightarrow> bool" where
  "call_result U r \<longleftrightarrow> (\<exists>db'. r = returnR db' \<and> db_ok U db') \<or> (\<exists>e. r = throwR e \<and> err_code e \<in> db_errors)"

lemma call_resultI:
  "db_ok U db' \<Longrightarrow> call_result U (returnR db')" "err_code e \<in> db_errors \<Longrightarrow> call_result U (throwR e)"
  unfolding call_result_def by blast+

lemma rel_insert_code: "rel_insert rs r = Inl e \<Longrightarrow> err_code e = DuplicateDefinition"
  by (auto simp: rel_insert_def split: option.splits if_splits)

lemma db_call_result:
  assumes ok: "db_ok U db" and c: "call_ok U db c"
  shows "call_result U (db_call c db)"
proof -
  obtain T R Ob where rep: "db_rep U db T R Ob" using ok by (auto simp: db_ok_def)
  show ?thesis
  proof (cases c)
    case (SetObject name s h)
    show ?thesis
    proof (cases "0 < h")
      case True
      then show ?thesis using set_object_rep [OF rep, of s h name] c SetObject by (auto simp: db_ok_def call_result_def)
    next
      case False
      then show ?thesis by (auto simp: SetObject set_object_instance_def invalid_handle_def intro: call_resultI(2))
    qed
  next
    case (DefineType s ctx name con ps)
    show ?thesis
    proof (cases "type_args_ok db ctx con ps")
      case True
      obtain idents n where "im_get name (db_idents db) = (idents, n)" by fastforce
      from define_type_rep [OF rep _ True this, of s] c DefineType
      obtain db' r where "define_type s ctx name con ps db = returnR (db', r)" "db_ok U db'"
        unfolding db_ok_def by auto blast
      then show ?thesis by (simp add: DefineType call_resultI(1))
    next
      case False
      have "0 \<le> int (length (db_params db)) + int (length ps)" by simp
      then have "to_int32 (int (length (db_params db)) + int (length ps)) = int (length (db_params db)) + int (length ps)"
        using c DefineType by (intro to_int32_small) auto
      then have "int (length ps) \<ge> max_nof_parameter \<or> to_int32 (int (length (db_params db)) + int (length ps)) \<ge> int_max \<or>
          con < 0 \<or> invalid_type db ctx"
        using False c DefineType by (auto simp: type_args_ok_def invalid_type_def int_max_def)
      then show ?thesis
        unfolding DefineType db_call.simps define_type_def invalid_handle_def by (auto intro: call_resultI(2))
    qed
  next
    case (DefineTypeAs s ctx name t)
    show ?thesis
    proof (cases "invalid_type db ctx \<or> t \<le> 0 \<or> t > nof_recs db")
      case True
      then show ?thesis by (auto simp: DefineTypeAs define_type_as_def invalid_handle_def intro: call_resultI(2))
    next
      case False
      obtain idents n where "im_get name (db_idents db) = (idents, n)" by fastforce
      from define_type_as_rep [OF rep _ _ _ _ this, of s ctx t] c False
      obtain db' r where "define_type_as s ctx name t db = returnR (db', r)" "db_ok U db'"
        unfolding db_ok_def by (auto simp: DefineTypeAs invalid_type_def) blast
      then show ?thesis by (simp add: DefineTypeAs call_resultI(1))
    qed
  next
    case (DefineReduction s to ty con tag w)
    show ?thesis
    proof (cases "con < 0 \<or> invalid_type db to \<or> ty \<le> 0 \<or> ty > nof_recs db")
      case True
      then show ?thesis by (auto simp: DefineReduction define_reduction_def invalid_handle_def intro: call_resultI(2))
    next
      case valid: False
      then have v: "0 \<le> con" "0 \<le> to" "to \<le> nof_recs db" "is_type db ty" by (auto simp: invalid_type_def)
      consider (self) "to = ty" | (tag) "to \<noteq> ty" "\<not> (1 \<le> tag \<and> tag \<le> 32)" | (weight) "to \<noteq> ty" "1 \<le> tag" "tag \<le> 32" "w < 0"
        | (ok) "to \<noteq> ty" "1 \<le> tag" "tag \<le> 32" "0 \<le> w" by linarith
      then show ?thesis
      proof cases
        case self
        obtain f where "type_to_string db to '' '' = returnR (f to)"
          using type_to_string_spec [OF db_repD(3) [OF rep], of "'' ''"] v by blast
        then show ?thesis
          using self valid by (auto simp: DefineReduction define_reduction_def intro: call_resultI(2))
      next
        case tag
        then show ?thesis
          using valid by (auto simp: DefineReduction define_reduction_def rm_set_def max_tag_def min_tag_def intro: call_resultI(2))
      next
        case weight
        then show ?thesis
          using valid by (auto simp: DefineReduction define_reduction_def rm_set_def max_tag_def min_tag_def intro: call_resultI(2))
      next
        case ok
        have "s \<in> U" "f32_rep w" using c ok(4) by (auto simp: DefineReduction)
        note def = define_reduction_rep [OF rep this(1) v ok(1-3) this(2)]
        show ?thesis
        proof (cases "rel_insert (R ty s) (new_rel to con tag w)")
          case (Inl e)
          then show ?thesis using def rel_insert_code [OF Inl] by (auto simp: DefineReduction intro: call_resultI(2))
        next
          case (Inr rs)
          then show ?thesis using def by (auto simp: DefineReduction intro!: call_resultI(1) intro: db_okI)
        qed
      qed
    qed
  next
    case (GetType s ctx name ts)
    show ?thesis
    proof (cases "invalid_type db ctx")
      case True
      then show ?thesis by (auto simp: GetType get_type_def invalid_handle_def intro: call_resultI(2))
    next
      case False
      obtain idents n where get: "im_get name (db_idents db) = (idents, n)" by fastforce
      show ?thesis
        using get_type_rep [OF rep _ _ get, of ctx s ts] False db_rep_get [OF rep get]
        by (auto simp: GetType invalid_type_def intro!: call_resultI(1) intro: db_okI)
    qed
  next
    case (GetTypes s ctx name)
    show ?thesis
    proof (cases "invalid_type db ctx")
      case True
      then show ?thesis by (auto simp: GetTypes get_types_def invalid_handle_def intro: call_resultI(2))
    next
      case False
      obtain idents n where get: "im_get name (db_idents db) = (idents, n)" by fastforce
      show ?thesis
        using get_types_rep [OF rep _ _ get, of ctx s] False db_rep_get [OF rep get]
        by (auto simp: GetTypes invalid_type_def intro!: call_resultI(1) intro: db_okI)
    qed
  qed
qed

lemma reachable_ok:
  assumes "db_reachable U db" "laminar U"
  shows "db_ok U db"
  using assms
proof (induction rule: db_reachable.induct)
  case init
  then show ?case using db_rep_new by (auto simp: db_ok_def)
next
  case (step db c db')
  then show ?case using db_call_result [of U db c] by (auto simp: call_result_def)
qed

lemma reachable_rep:
  assumes "db_reachable U db" "laminar U"
  obtains T R Ob where "db_rep U db T R Ob"
  using reachable_ok [OF assms] by (auto simp: db_ok_def)

lemma vec_range_take:
  "0 \<le> i \<Longrightarrow> nat i + n \<le> length xs \<Longrightarrow> vec_range xs i n = Some (take n (drop (nat i) xs))"
proof (induction n arbitrary: i)
  case (Suc n)
  have "drop (nat i) xs = xs ! nat i # drop (nat (i + 1)) xs"
    using Suc.prems by (simp add: Cons_nth_drop_Suc nat_add_distrib)
  moreover have "vec_at xs i = Some (xs ! nat i)" using Suc.prems by (simp add: vec_at_def)
  moreover have "vec_range xs (i + 1) n = Some (take n (drop (nat (i + 1)) xs))"
    by (rule Suc.IH) (use Suc.prems in auto)
  ultimately show ?case by simp
qed simp

lemma type_parameters_at:
  assumes "recs_ok db" "is_type db t"
  shows "type_parameters db t = returnR (params_at db t)"
proof -
  let ?r = "rec_at db t"
  have r: "rec_ok (nof_recs db) (db_params db) (db_idents db) t ?r" using rec_okD [OF assms] .
  show ?thesis
  proof (cases "tr_parameterlen ?r = 0")
    case True
    then show ?thesis using r assms(2) by (simp add: type_parameters_def rec_ok_def params_at_def)
  next
    case False
    then have "vec_range (db_params db) (tr_parameter ?r - 1) (nat (tr_parameterlen ?r)) = Some (params_at db t)"
      unfolding params_at_def using r by (intro vec_range_take) (auto simp: rec_ok_def)
    then show ?thesis using r assms(2) by (simp add: type_parameters_def rec_ok_def)
  qed
qed

subsection \<open>A small database\<close>

text \<open>Three types, the third a member of the second, and a reduction of the first to the second.\<close>

lemma define_type_params:
  assumes "define_type s ctx name con ps db = returnR (db', r)"
  shows "db_params db' = db_params db @ ps"
  using assms by (auto simp: define_type_def Let_def bindR_eq_returnR split: if_splits prod.splits)

lemma define_fresh_type:
  assumes rep: "db_rep {s} db T R Ob" and reach: "db_reachable {s} db" and args: "0 \<le> ctx" "ctx \<le> nof_recs db"
    and p: "db_params db = []" and get: "im_get name (db_idents db) = (idents, n)" and fresh: "T (TypeDef ctx n) = Map.empty"
  shows "\<exists>db'. db_rep {s} db' (T(TypeDef ctx n := [s \<mapsto> nof_recs db + 1])) R Ob \<and> db_reachable {s} db' \<and> nof_recs db' = nof_recs db + 1 \<and>
    db_params db' = [] \<and> db_idents db' = idents"
proof -
  have ok: "type_args_ok db ctx 1 []" using args p by (simp add: type_args_ok_def max_nof_parameter_def int_max_def)
  obtain db' r where d: "define_type s ctx name 1 [] db = returnR (db', r)" "db_idents db' = idents" "nof_recs db' = nof_recs db + 1"
    "db_rep {s} db' (T(TypeDef ctx n := first_def (T (TypeDef ctx n)) s (nof_recs db + 1))) R Ob"
    using define_type_rep [OF rep _ ok get, of s] by auto
  have "db_reachable {s} db'"
    using reach by (rule db_reachable.step [where c = "DefineType s ctx name 1 []"]) (use p d(1) in auto)
  then show ?thesis using d define_type_params [OF d(1)] p by (auto simp: fresh first_def_def)
qed

lemma small_db:
  "\<exists>db. db_reachable {Scope 0 9} db \<and> nof_recs db = 3 \<and> im_lookup ''m'' (db_idents db) = 3 \<and>
     rm_get (db_redus db) 3 1 match_all = Some [new_rel 2 4 1 0] \<and>
     sm_get (db_types db) 3 (TypeDef 2 3) = Some 3"
proof -
  let ?s = "Scope 0 9" and ?T0 = "\<lambda>_. Map.empty" and ?R0 = "\<lambda>(_ :: int) (_ :: scope). [] :: (int, int) result_element list"
  let ?I1 = "fst (im_get ''A'' im_new)"
  let ?I2 = "fst (im_get ''B'' ?I1)"
  let ?I3 = "fst (im_get ''m'' ?I2)"
  let ?T1 = "?T0(TypeDef 0 1 := [?s \<mapsto> 1])"
  let ?T2 = "?T1(TypeDef 0 2 := [?s \<mapsto> 2])"
  let ?T3 = "?T2(TypeDef 2 3 := [?s \<mapsto> 3])"
  have I: "im_get ''A'' im_new = (?I1, 1)" "im_get ''B'' ?I1 = (?I2, 2)" "im_get ''m'' ?I2 = (?I3, 3)" "im_lookup ''m'' ?I3 = 3"
    by (simp_all add: im_get_def im_new_def ident_key_def ident_strsize_def im_lookup_def Let_def)
  have lam: "laminar {?s}" by (simp add: laminar_def scope_wf_def scopes_nested_def)
  have new: "db_params typedb_new = []" "db_idents typedb_new = im_new" "nof_recs typedb_new = 0" by (simp_all add: typedb_new_def)
  obtain db1 where d1: "db_rep {?s} db1 ?T1 ?R0 ?T0" "db_reachable {?s} db1" "nof_recs db1 = 1" "db_params db1 = []" "db_idents db1 = ?I1"
    using define_fresh_type [OF db_rep_new [OF lam] db_reachable.init, of 0 "''A''" ?I1 1] new I by auto
  obtain db2 where d2: "db_rep {?s} db2 ?T2 ?R0 ?T0" "db_reachable {?s} db2" "nof_recs db2 = 2" "db_params db2 = []" "db_idents db2 = ?I2"
    using define_fresh_type [OF d1(1,2), of 0 "''B''" ?I2 2] d1 I by auto
  obtain db3 where d3: "db_rep {?s} db3 ?T3 ?R0 ?T0" "db_reachable {?s} db3" "nof_recs db3 = 3" "db_params db3 = []" "db_idents db3 = ?I3"
    using define_fresh_type [OF d2(1,2), of 2 "''m''" ?I3 3] d2 I by auto
  let ?R = "?R0(1 := (?R0 1)(?s := [new_rel 2 4 1 0]))"
  obtain db where d: "define_reduction ?s 2 1 4 1 0 db3 = returnR db" "db_rep {?s} db ?T3 ?R ?T0" "db_recs db = db_recs db3"
    using define_reduction_rep [OF d3(1), of ?s 4 2 1 1 0] d3(3) f32_rep_0 by (auto simp: rel_insert_def)
  have "db_reachable {?s} db"
    using d3(2) by (rule db_reachable.step [where c = "DefineReduction ?s 2 1 4 1 0"]) (use d(1) f32_rep_0 in auto)
  moreover have "db_idents db = ?I3" using d(1) d3(5)
    by (auto simp: define_reduction_def bindR_eq_returnR split: if_splits)
  moreover have "rm_get (db_redus db) 3 1 match_all = Some [new_rel 2 4 1 0]"
  proof -
    obtain scopes where sc: "sorted_wrt strictly_in scopes" "set scopes = {s. ?R 1 s \<noteq> [] \<and> scope_contains_step s 3}"
      "rm_get (db_redus db) 3 1 match_all = Some (add_firsts match_all (concat (map (?R 1) scopes)) [])"
      using rm_get_rep [OF db_repD(6) [OF d(2)]] by blast
    have "{s. ?R 1 s \<noteq> [] \<and> scope_contains_step s 3} = {?s}" by (auto simp: scope_contains_step_def)
    then have "set scopes = {?s}" using sc(2) by (simp only:)
    moreover have "distinct scopes" using sc(1) by (induction scopes) (auto simp: strictly_in_def)
    ultimately have "scopes = [?s]" by (cases scopes) (auto simp: subset_singleton_iff)
    then show ?thesis using sc(3) match_all_matches [of 0] by (simp add: new_rel_def tag_val_from_tag_def)
  qed
  moreover have "sm_get (db_types db) 3 (TypeDef 2 3) = Some 3"
  proof -
    obtain r where r: "sm_get (db_types db) 3 (TypeDef 2 3) = Some (case r of None \<Rightarrow> 0 | Some v \<Rightarrow> v)" "visible (?T3 (TypeDef 2 3)) 3 r"
      using sm_get_rep [OF db_repD(4) [OF d(2)]] by blast
    then show ?thesis by (auto simp: visible_def scope_contains_step_def split: option.splits if_splits)
  qed
  ultimately show ?thesis using d(3) d3(3) I(4) by (intro exI [of _ db]) simp
qed
subsection \<open>Properties\<close>





text \<open>
  C18: The attributes of a type read back what \<open>defineType\<close> was given: name, context, constructor,
  parameters and scope; and a later definition changes none of them.
\<close>

theorem define_type_attributes:
  assumes "db_reachable U db" and "laminar U" and "s \<in> U" and "type_args_ok db ctx con ps"
    and "define_type s ctx name con ps db = returnR (db', r)"
  shows "(let t = nof_recs db + 1 in
      type_name db' t = returnR (ident_key name) \<and> type_context db' t = returnR ctx \<and>
      type_constructor_of db' t = returnR con \<and> type_parameters db' t = returnR ps \<and> type_scope db' t = returnR s) \<and>
    (\<forall>u. 1 \<le> u \<and> u \<le> nof_recs db \<longrightarrow>
      type_name db' u = type_name db u \<and> type_context db' u = type_context db u \<and>
      type_constructor_of db' u = type_constructor_of db u \<and> type_parameters db' u = type_parameters db u \<and>
      type_scope db' u = type_scope db u)"
proof -
  obtain T R Ob where rep: "db_rep U db T R Ob" using reachable_rep [OF assms(1,2)] .
  obtain idents n where get: "im_get name (db_idents db) = (idents, n)" by fastforce
  let ?k = "TypeDef ctx n" and ?new = "nof_recs db + 1"
  let ?T = "T(?k := first_def (T ?k) s ?new)"
  have d: "db_rep U db' ?T R Ob" "db_idents db' = idents" "nof_recs db' = ?new"
    "\<forall>u. is_type db u \<longrightarrow> params_at db' u = params_at db u \<and> rec_at db' u = (rec_at db u)\<lparr>tr_next := tr_next (rec_at db' u)\<rparr>"
    "params_at db' ?new = ps" "rec_at db' ?new = new_record db s con ps ?k"
    using define_type_rep [OF rep assms(3,4) get] assms(5) by auto
  note ok = db_repD(3) [OF rep] and ok' = db_repD(3) [OF d(1)]
  note g = im_inv_ok_get [OF db_repD(2) [OF rep] get]
  have ren: "n \<ge> 1 \<and> nat (n - 1) < length (im_inv idents) \<and> im_inv idents ! nat (n - 1) = ident_key name"
    using g by (auto simp: im_inv_ok_def)
  have "is_type db' ?new" using d(3) by simp
  then have new: "type_name db' ?new = returnR (ident_key name) \<and> type_context db' ?new = returnR ctx \<and>
      type_constructor_of db' ?new = returnR con \<and> type_parameters db' ?new = returnR ps \<and> type_scope db' ?new = returnR s"
    using d(2,5,6) ren type_parameters_at [OF ok', of ?new]
    by (simp add: type_name_def type_context_def type_constructor_of_def type_scope_def new_record_def im_invert_def vec_at_def)
  have "type_name db' u = type_name db u \<and> type_context db' u = type_context db u \<and>
      type_constructor_of db' u = type_constructor_of db u \<and> type_parameters db' u = type_parameters db u \<and>
      type_scope db' u = type_scope db u" if u: "is_type db u" for u
  proof -
    have u': "is_type db' u" using u d(3) by simp
    have r: "tr_inv (rec_at db' u) = tr_inv (rec_at db u)" "tr_constructor (rec_at db' u) = tr_constructor (rec_at db u)"
      "tr_scope (rec_at db' u) = tr_scope (rec_at db u)" "params_at db' u = params_at db u"
      using d(4) u by (metis type_record.select_convs type_record.update_convs(5) type_record.surjective)+
    have id: "1 \<le> td_ident (tr_inv (rec_at db u))" "td_ident (tr_inv (rec_at db u)) \<le> int (length (im_inv (db_idents db)))"
      using rec_okD [OF ok u] by (auto simp: rec_ok_def)
    have "im_invert (td_ident (tr_inv (rec_at db u))) idents = im_invert (td_ident (tr_inv (rec_at db u))) (db_idents db)"
      using g id by (auto simp: im_invert_def vec_at_def nth_append)
    then show ?thesis
      using u u' r d(2) type_parameters_at [OF ok u] type_parameters_at [OF ok' u']
      by (simp add: type_name_def type_context_def type_constructor_of_def type_scope_def)
  qed
  with new show ?thesis by (simp add: Let_def)
qed

lemma define_type_attributes_witness:
  "\<exists>db' r. define_type (Scope 0 9) 0 ''int'' 1 [] typedb_new = returnR (db', r) \<and>
     type_name db' 1 = returnR ''int'' \<and> type_scope db' 1 = returnR (Scope 0 9)"
proof -
  have lam: "laminar {Scope 0 9}" by (simp add: laminar_def scope_wf_def scopes_nested_def)
  have args: "type_args_ok typedb_new 0 1 []" by (simp add: type_args_ok_def typedb_new_def max_nof_parameter_def int_max_def)
  obtain db' r where def: "define_type (Scope 0 9) 0 ''int'' 1 [] typedb_new = returnR (db', r)"
    using define_type_rep [OF db_rep_new [OF lam], of "Scope 0 9" 0 1 "[]" "''int''"] args
    by (cases "im_get ''int'' (db_idents typedb_new)") auto
  show ?thesis
    using define_type_attributes [OF db_reachable.init lam _ args def] def
    by (auto simp: Let_def typedb_new_def ident_key_def ident_strsize_def)
qed

text \<open>
  C21: \<open>typeToString\<close> of every handle returns, and the strings are what the code spells: the string of
  the context type and the separator, the name, and in parentheses the strings of the parameter types
  separated by commas.
\<close>

theorem type_to_string_ends:
  assumes "db_reachable U db" and "laminar U"
  shows "\<exists>f. f 0 = [] \<and> (\<forall>t. 1 \<le> t \<and> t \<le> nof_recs db \<longrightarrow> f t = type_string_step db sep f t) \<and>
    (\<forall>t. 0 \<le> t \<and> t \<le> nof_recs db \<longrightarrow> type_to_string db t sep = returnR (f t))"
proof -
  obtain T R Ob where rep: "db_rep U db T R Ob" using reachable_rep [OF assms] .
  show ?thesis using type_to_string_spec [OF db_repD(3) [OF rep], of sep] by (auto simp: type_strings_def)
qed

lemma type_to_string_ends_witness:
  "\<exists>f. f 0 = [] \<and> (\<forall>t. 1 \<le> t \<and> t \<le> nof_recs typedb_new \<longrightarrow> f t = type_string_step typedb_new '' '' f t) \<and>
    (\<forall>t. 0 \<le> t \<and> t \<le> nof_recs typedb_new \<longrightarrow> type_to_string typedb_new t '' '' = returnR (f t))"
  by (rule type_to_string_ends [OF db_reachable.init, of "{}"]) simp

text \<open>
  C19: \<open>getReduction\<close> never reports an ambiguity: \<open>getReductions\<close> holds at most one reduction to each
  type, and \<open>getReduction\<close> returns the weight and constructor of the one to the type asked for, and
  the undefined result (weight 0, constructor -1) exactly if there is none.
\<close>

theorem get_reduction_unique:
  assumes "db_reachable U db" and "laminar U" and "1 \<le> ty" and "ty \<le> nof_recs db" and "0 \<le> to" and "to \<le> nof_recs db"
  shows "\<exists>rs. get_reductions step ty select count db = returnR rs \<and> distinct (map wr_type rs) \<and>
    get_reduction step to ty select db =
      returnR (case find (\<lambda>r. wr_type r = to) rs of
          None \<Rightarrow> \<lparr>rr_weight = 0, rr_constructor = -1\<rparr>
        | Some r \<Rightarrow> \<lparr>rr_weight = wr_weight r, rr_constructor = wr_constructor r\<rparr>) \<and>
    (\<forall>r \<in> set rs. 0 \<le> wr_constructor r)"
proof -
  obtain T R Ob where rep: "db_rep U db T R Ob" using reachable_rep [OF assms(1,2)] .
  note D = db_repD [OF rep]
  obtain scopes where sc: "rm_get (db_redus db) step ty select = Some (add_firsts select (concat (map (R ty) scopes)) [])"
    using rm_get_rep [OF D(6)] by blast
  let ?rs = "add_firsts select (concat (map (R ty) scopes)) []"
  let ?conv = "\<lambda>redu. \<lparr>wr_type = re_right redu, wr_constructor = re_value redu, wr_weight = re_weight redu,
          wr_count = tm_matches count (re_tagval redu)\<rparr>"
  note spec = add_firsts_spec [of "[]" select "concat (map (R ty) scopes)", simplified]
  have dist: "distinct (map re_right ?rs)" using spec by (elim conjE)
  have "set ?rs \<subseteq> {r. \<exists>s. r \<in> set (R ty s)}" using spec by fastforce
  then have con: "\<forall>r \<in> set ?rs. 0 \<le> re_value r" using D(7) by blast
  have find: "find (\<lambda>r. wr_type r = to) (map ?conv rs) = map_option ?conv (find (\<lambda>r. re_right r = to) rs)" for rs :: "(int, int) result_element list"
    by (induction rs) auto
  have "get_reductions step ty select count db = returnR (map ?conv ?rs)"
    using assms(3,4) sc by (simp add: get_reductions_def)
  moreover have "distinct (map wr_type (map ?conv ?rs))" using dist by (simp add: comp_def)
  moreover have "get_reduction step to ty select db =
      returnR (case find (\<lambda>r. wr_type r = to) (map ?conv ?rs) of
          None \<Rightarrow> \<lparr>rr_weight = 0, rr_constructor = -1\<rparr>
        | Some r \<Rightarrow> \<lparr>rr_weight = wr_weight r, rr_constructor = wr_constructor r\<rparr>)"
    using assms(3-6) sc get_reduction_list [OF dist con, of db to ty]
    unfolding find by (simp add: get_reduction_def invalid_type_def rr_none_def split: option.splits)
  moreover have "\<forall>r \<in> set (map ?conv ?rs). 0 \<le> wr_constructor r" using con by simp
  ultimately show ?thesis by blast
qed

lemma get_reduction_unique_witness:
  "\<exists>db. nof_recs db = 3 \<and> get_reduction 3 2 1 match_all db = returnR \<lparr>rr_weight = 0, rr_constructor = 4\<rparr>"
proof -
  obtain db where db: "db_reachable {Scope 0 9} db" "nof_recs db = 3" "rm_get (db_redus db) 3 1 match_all = Some [new_rel 2 4 1 0]"
    using small_db by blast
  have "laminar {Scope 0 9}" by (simp add: laminar_def scope_wf_def scopes_nested_def)
  then show ?thesis
    using get_reduction_unique [OF db(1), of 1 2 3 match_all match_all] db(2,3)
    by (intro exI [of _ db]) (simp add: get_reductions_def new_rel_def)
qed

lemma run_set_objects:
  assumes "db_rep U db T R Ob" "\<forall>(name, s, h) \<in> set ds. s \<in> U \<and> 0 < h"
  shows "\<exists>db'. runR (\<lambda>(name, s, h). set_object_instance name s h) ds db = returnR db' \<and>
    db_rep U db' T R (\<lambda>env. Ob env ++ last_in (map snd (filter (\<lambda>d. ident_key (fst d) = env) ds)))"
  using assms
proof (induction ds arbitrary: db Ob)
  case Nil
  then show ?case by (simp add: last_in_def)
next
  case (Cons d ds)
  obtain name s h where d: "d = (name, s, h)" by (cases d) auto
  let ?Ob = "Ob(ident_key name := (Ob (ident_key name))(s \<mapsto> h))"
  obtain db1 where db1: "set_object_instance name s h db = returnR db1" "db_rep U db1 T R ?Ob"
    using set_object_rep [OF Cons.prems(1), of s h name] Cons.prems(2) d by auto
  have "\<forall>(name, s, h) \<in> set ds. s \<in> U \<and> 0 < h" using Cons.prems(2) by simp
  from Cons.IH [OF db1(2) this] obtain db' where db': "runR (\<lambda>(name, s, h). set_object_instance name s h) ds db1 = returnR db'"
    "db_rep U db' T R (\<lambda>env. ?Ob env ++ last_in (map snd (filter (\<lambda>d. ident_key (fst d) = env) ds)))" by blast
  have "(\<lambda>env. ?Ob env ++ last_in (map snd (filter (\<lambda>d. ident_key (fst d) = env) ds))) =
      (\<lambda>env. Ob env ++ last_in (map snd (filter (\<lambda>d. ident_key (fst d) = env) (d # ds))))"
    by (rule ext) (auto simp: d last_in_def map_add_def fun_eq_iff split: option.splits)
  then show ?case using db' db1(1) by (simp add: d)
qed

text \<open>
  C20: After any sequence of \<open>setObjectInstance\<close> with positive handles and scopes of one hierarchy,
  \<open>getObjectInstance\<close> returns the handle set for the name in the innermost scope covering the step
  and \<open>getObjectInstanceOfScope\<close> the one set last for exactly the scope; both return -1 if there is none.
\<close>

theorem object_lookup:
  assumes "laminar ((\<lambda>(name, s, h). s) ` set ds)" and "\<forall>(name, s, h) \<in> set ds. 0 < h"
  shows "\<exists>db r. runR (\<lambda>(name, s, h). set_object_instance name s h) ds typedb_new = returnR db \<and>
    get_object_instance name step db = Some (case r of None \<Rightarrow> -1 | Some h \<Rightarrow> h) \<and>
    visible (last_in (map snd (filter (\<lambda>d. ident_key (fst d) = ident_key name) ds))) step r \<and>
    get_object_instance_of_scope name s db =
      Some (case last_in (map snd (filter (\<lambda>d. ident_key (fst d) = ident_key name) ds)) s of None \<Rightarrow> -1 | Some h \<Rightarrow> h)"
proof -
  let ?U = "(\<lambda>(name, s, h). s) ` set ds"
  have "\<forall>(name, s, h) \<in> set ds. s \<in> ?U \<and> 0 < h" using assms(2) by force
  from run_set_objects [OF db_rep_new [OF assms(1)] this]
  obtain db where db: "runR (\<lambda>(name, s, h). set_object_instance name s h) ds typedb_new = returnR db"
    "db_rep ?U db (\<lambda>_. Map.empty) (\<lambda>_ _. []) (\<lambda>env. last_in (map snd (filter (\<lambda>d. ident_key (fst d) = env) ds)))"
    by auto
  show ?thesis using db(1) get_object_rep(1) [OF db(2), of name step] get_object_rep(2) [OF db(2), of name s] by blast
qed

lemma object_lookup_witness:
  "\<exists>db r. runR (\<lambda>(name, s, h). set_object_instance name s h) [(''x'', Scope 0 9, 7), (''x'', Scope 2 5, 8), (''y'', Scope 0 9, 3)] typedb_new = returnR db \<and>
    get_object_instance ''x'' 3 db = Some (case r of None \<Rightarrow> -1 | Some h \<Rightarrow> h) \<and>
    get_object_instance_of_scope ''x'' (Scope 2 5) db = Some 8"
  using object_lookup [of "[(''x'', Scope 0 9, 7), (''x'', Scope 2 5, 8), (''y'', Scope 0 9, 3)]" "''x''" 3 "Scope 2 5"]
  by (fastforce simp: laminar_def scope_wf_def scopes_nested_def scope_contains_def ident_key_def ident_strsize_def last_in_def)

end
