(* ===== verification/TypeSearch.thy ===== *)
theory TypeSearch
  imports TypeDbProps
begin

text \<open>
  The two searches of \<open>src/typedb.cpp\<close>, \<open>deriveType\<close> and \<open>resolveType\<close>. Both explore the paths of
  reductions in the order of their weight, with a stack of path elements that refer to their
  predecessor and a priority queue of the elements not yet expanded. The loop they share is one
  definition with what differs as arguments: the test for a match, how a reduction counts, and what
  is collected at the first and at the second match.
\<close>

subsection \<open>The stack of path elements\<close>

record redu_stack_elem =
  se_type :: int
  se_constructor :: int
  se_prev :: int
  se_pathlen :: int

type_synonym redu_stack = "redu_stack_elem list"

fun stack_has_type :: "redu_stack \<Rightarrow> int \<Rightarrow> bool" where
  "stack_has_type [] type = False"
| "stack_has_type (e # es) type = (if se_type e \<noteq> type then stack_has_type es type else True)"

definition push_non_duplicate_start :: "int \<Rightarrow> int \<Rightarrow> redu_stack \<Rightarrow> redu_stack \<times> int" where
  "push_non_duplicate_start type constructor ar =
     (if stack_has_type ar type then (ar, -1)
      else (ar @ [\<lparr>se_type = type, se_constructor = constructor, se_prev = -1, se_pathlen = 0\<rparr>], int (length ar)))"

partial_function (option) on_path :: "redu_stack \<Rightarrow> int \<Rightarrow> int \<Rightarrow> bool option" where
  "on_path ar type index =
     (if index \<ge> 0 then do { ee \<leftarrow> vec_at ar index; if se_type ee = type then Some True else on_path ar type (se_prev ee) }
      else Some False)"

declare on_path.simps [code]

definition push_if_new :: "int \<Rightarrow> int \<Rightarrow> int \<Rightarrow> int \<Rightarrow> redu_stack \<Rightarrow> (redu_stack \<times> int) option" where
  "push_if_new type constructor prev pathlen ar =
     do { known \<leftarrow> on_path ar type prev;
          Some (if known then (ar, -1)
                else (ar @ [\<lparr>se_type = type, se_constructor = constructor, se_prev = prev, se_pathlen = pathlen\<rparr>], int (length ar))) }"

text \<open>The elements behind the start on the way back from an index, and the start.\<close>

partial_function (option) collect_back :: "redu_stack \<Rightarrow> int \<Rightarrow> redu_stack_elem list option" where
  "collect_back ar index =
     (if index \<ge> 0 then do { ee \<leftarrow> vec_at ar index; rest \<leftarrow> collect_back ar (se_prev ee); Some (ee # rest) }
      else Some [])"

declare collect_back.simps [code]

definition not_start :: "redu_stack_elem \<Rightarrow> bool" where
  "not_start ee \<longleftrightarrow> se_prev ee \<noteq> -1"

definition collect_result :: "redu_stack \<Rightarrow> int \<Rightarrow> type_constructor_pair list option" where
  "collect_result ar index =
     do { es \<leftarrow> collect_back ar index;
          Some (rev (map (\<lambda>ee. TypeConstructorPair (se_type ee) (se_constructor ee)) (filter not_start es))) }"

definition collect_conflict_path :: "redu_stack \<Rightarrow> int \<Rightarrow> int list option" where
  "collect_conflict_path ar index =
     do { es \<leftarrow> collect_back ar index; Some (rev (map se_type (filter not_start es))) }"

text \<open>\<open>collectResultWithRootIndex\<close>: the root index is the constructor of the start.\<close>

definition collect_result_with_root_index :: "redu_stack \<Rightarrow> int \<Rightarrow> (int \<times> type_constructor_pair list) option" where
  "collect_result_with_root_index ar index =
     do { es \<leftarrow> collect_back ar index;
          Some (fold (\<lambda>ee root. if not_start ee then root else se_constructor ee) es (-1),
                rev (map (\<lambda>ee. TypeConstructorPair (se_type ee) (se_constructor ee)) (filter not_start es))) }"

subsection \<open>The queue\<close>

text \<open>\<open>std::priority_queue\<close> with \<open>std::greater\<close>: the list of its elements in ascending order.\<close>

type_synonym redu_queue = "(f32 \<times> int) list"

definition queue_less :: "f32 \<times> int \<Rightarrow> f32 \<times> int \<Rightarrow> bool" where
  "queue_less a b \<longleftrightarrow> (if fst a = fst b then snd a < snd b else fst a < fst b)"

fun queue_push :: "f32 \<times> int \<Rightarrow> redu_queue \<Rightarrow> redu_queue" where
  "queue_push e [] = [e]"
| "queue_push e (x # xs) = (if queue_less x e then x # queue_push e xs else e # x # xs)"

subsection \<open>The search\<close>

fun push_reductions :: "((int, int) result_element \<Rightarrow> int \<Rightarrow> int option) \<Rightarrow> int \<Rightarrow> f32 \<Rightarrow> int \<Rightarrow>
    (int, int) result_element list \<Rightarrow> redu_stack \<Rightarrow> redu_queue \<Rightarrow> (redu_stack \<times> redu_queue) option" where
  "push_reductions count index weight pathlen [] stack queue = Some (stack, queue)"
| "push_reductions count index weight pathlen (redu # redus) stack queue =
     (case count redu pathlen of
        None \<Rightarrow> push_reductions count index weight pathlen redus stack queue
      | Some len \<Rightarrow>
          do { (stack, i) \<leftarrow> push_if_new (re_right redu) (re_value redu) index len stack;
               push_reductions count index weight pathlen redus stack
                 (if i \<ge> 0 then queue_push (f32_add weight (re_weight redu), i) queue else queue) })"

partial_function (option) search_loop ::
    "(int \<Rightarrow> bool option) \<Rightarrow> (int \<Rightarrow> (int, int) result_element list option) \<Rightarrow> ((int, int) result_element \<Rightarrow> int \<Rightarrow> int option) \<Rightarrow>
     (redu_stack \<Rightarrow> int \<Rightarrow> 'r option) \<Rightarrow> (redu_stack \<Rightarrow> int \<Rightarrow> 'c option) \<Rightarrow>
     redu_stack \<Rightarrow> redu_queue \<Rightarrow> (f32 \<times> 'r) option \<Rightarrow> ((f32 \<times> 'r) option \<times> 'c option) option" where
  "search_loop matches expand count found clash stack queue best =
     (case queue of
        [] \<Rightarrow> Some (best, None)
      | qe # queue' \<Rightarrow>
          if (case best of None \<Rightarrow> False | Some (weightsum, _) \<Rightarrow> fst qe > f32_add weightsum f32_epsilon)
          then Some (best, None)
          else do {
            elem \<leftarrow> vec_at stack (snd qe);
            hit \<leftarrow> matches (se_type elem);
            if hit \<and> best \<noteq> None then do { c \<leftarrow> clash stack (snd qe); Some (best, Some c) }
            else do {
              best' \<leftarrow> (if hit then do { r \<leftarrow> found stack (snd qe); Some (Some (fst qe, r)) } else Some best);
              redulist \<leftarrow> expand (se_type elem);
              (stack', queue'') \<leftarrow> push_reductions count (snd qe) (fst qe) (se_pathlen elem) redulist stack queue';
              search_loop matches expand count found clash stack' queue'' best' } })"

declare search_loop.simps [code]

record derive_result =
  dr_reductions :: "type_constructor_pair list"
  dr_conflict_path :: "int list"
  dr_weightsum :: f32
  dr_defined :: bool

definition count_derive :: "tag_mask \<Rightarrow> int \<Rightarrow> (int, int) result_element \<Rightarrow> int \<Rightarrow> int option" where
  "count_derive selectTagsCount maxCount redu len =
     (let pathlen = (if tm_matches selectTagsCount (re_tagval redu) then len + 1 else len) in
      if pathlen \<le> maxCount then Some pathlen else None)"

definition derive_type :: "int \<Rightarrow> int \<Rightarrow> int \<Rightarrow> tag_mask \<Rightarrow> tag_mask \<Rightarrow> int \<Rightarrow> type_database \<Rightarrow> derive_result run" where
  "derive_type step toType fromType selectTags selectTagsCount maxCount db =
     (if fromType \<le> 0 \<or> fromType > nof_recs db then throwR (invalid_handle fromType)
      else if invalid_type db toType then throwR (invalid_handle toType)
      else
        let maxCount = (if maxCount = -1 then int_max else maxCount) in
        if maxCount < 0 then throwR (Error InvalidBoundary (dec_int maxCount))
        else
          case push_non_duplicate_start fromType 0 [] of (stack, index) \<Rightarrow>
          bindR (liftR (search_loop (\<lambda>t. Some (t = toType)) (\<lambda>t. rm_get (db_redus db) step t selectTags)
              (count_derive selectTagsCount maxCount) collect_result collect_conflict_path stack [(0, index)] None))
            (\<lambda>(best, conflict). returnR
              \<lparr>dr_reductions = (case best of None \<Rightarrow> [] | Some (_, redus) \<Rightarrow> redus),
               dr_conflict_path = (case conflict of None \<Rightarrow> [] | Some path \<Rightarrow> path),
               dr_weightsum = (case best of None \<Rightarrow> 0 | Some (weight, _) \<Rightarrow> weight),
               dr_defined = (best \<noteq> None)\<rparr>))"

record resolve_result =
  rs_reductions :: "type_constructor_pair list"
  rs_items :: "int list"
  rs_root_index :: int
  rs_context_type :: int
  rs_conflict_type :: int
  rs_weightsum :: f32

definition rs_none :: resolve_result where
  "rs_none = \<lparr>rs_reductions = [], rs_items = [], rs_root_index = -1, rs_context_type = -1, rs_conflict_type = -1, rs_weightsum = 0\<rparr>"

partial_function (option) collect_result_items :: "type_record list \<Rightarrow> int \<Rightarrow> int list option" where
  "collect_result_items recs typerecidx =
     (if typerecidx > 0 then
        do { tr \<leftarrow> vec_at recs (typerecidx - 1); rest \<leftarrow> collect_result_items recs (tr_next tr); Some (typerecidx # rest) }
      else Some [])"

declare collect_result_items.simps [code]

text \<open>The start elements: the context types, each once, with their position from 1 as constructor.\<close>

fun push_contexts :: "type_database \<Rightarrow> int list \<Rightarrow> int \<Rightarrow> redu_stack \<Rightarrow> redu_queue \<Rightarrow> (redu_stack \<times> redu_queue) run" where
  "push_contexts db [] ci stack queue = returnR (stack, queue)"
| "push_contexts db (ctx # ctxs) ci stack queue =
     (if invalid_type db ctx then throwR (invalid_handle ctx)
      else case push_non_duplicate_start ctx (ci + 1) stack of (stack', index) \<Rightarrow>
        push_contexts db ctxs (ci + 1) stack' (if index \<ge> 0 then queue_push (0, index) queue else queue))"

definition resolve_type :: "int \<Rightarrow> int list \<Rightarrow> string \<Rightarrow> tag_mask \<Rightarrow> type_database \<Rightarrow> resolve_result run" where
  "resolve_type step contextTypes name selectTags db =
     (let nameid = im_lookup name (db_idents db) in
      if nameid = 0 then returnR rs_none
      else
        bindR (push_contexts db contextTypes 0 [] []) (\<lambda>(stack, queue).
        bindR (liftR (search_loop
            (\<lambda>t. do { typerecidx \<leftarrow> sm_get (db_types db) step (TypeDef t nameid); Some (typerecidx \<noteq> 0) })
            (\<lambda>t. rm_get (db_redus db) step t selectTags)
            (\<lambda>redu len. Some (len + 1))
            (\<lambda>stack index. do {
               elem \<leftarrow> vec_at stack index;
               typerecidx \<leftarrow> sm_get (db_types db) step (TypeDef (se_type elem) nameid);
               (root, redus) \<leftarrow> collect_result_with_root_index stack index;
               items \<leftarrow> collect_result_items (db_recs db) typerecidx;
               Some (se_type elem, root, redus, items) })
            (\<lambda>stack index. do { elem \<leftarrow> vec_at stack index; Some (se_type elem) })
            stack queue None))
          (\<lambda>(best, conflict). returnR
            (case best of
               None \<Rightarrow> rs_none
             | Some (weight, ctx, root, redus, items) \<Rightarrow>
                 \<lparr>rs_reductions = redus, rs_items = items, rs_root_index = root, rs_context_type = ctx,
                  rs_conflict_type = (case conflict of None \<Rightarrow> -1 | Some t \<Rightarrow> t), rs_weightsum = weight\<rparr>))))"

end
