(* ===== verification/SearchProof.thy ===== *)
theory SearchProof
  imports TypeSearch
begin

text \<open>
  The search loop explores the simple reduction paths from its start elements in the order of their
  weight. The theory defines these paths, relates the stack to them and shows that the loop ends,
  that its match has minimal weight, and when it reports a conflict.
\<close>

subsection \<open>Reduction paths\<close>

text \<open>
  A path is the list of its types and constructors from its end back to its start, with the weight
  summed up as the loop does and the count of its reductions.
\<close>

inductive redu_path :: "(int \<times> int) set \<Rightarrow> (int \<Rightarrow> (int, int) result_element list) \<Rightarrow>
    ((int, int) result_element \<Rightarrow> int \<Rightarrow> int option) \<Rightarrow> (int \<times> int) list \<Rightarrow> f32 \<Rightarrow> int \<Rightarrow> bool"
  for roots E count where
  start: "root \<in> roots \<Longrightarrow> redu_path roots E count [root] 0 0"
| step: "redu_path roots E count (x # p) w l \<Longrightarrow> r \<in> set (E (fst x)) \<Longrightarrow> count r l = Some l' \<Longrightarrow>
    re_right r \<notin> fst ` set (x # p) \<Longrightarrow>
    redu_path roots E count ((re_right r, re_value r) # x # p) (f32_add w (re_weight r)) l'"

lemma redu_path_nonempty: "redu_path roots E count p w l \<Longrightarrow> p \<noteq> []"
  by (induction rule: redu_path.induct) auto

subsection \<open>The path of a stack element\<close>

function trace :: "redu_stack \<Rightarrow> nat \<Rightarrow> (int \<times> int) list" where
  "trace st i = (if i < length st
     then (se_type (st ! i), se_constructor (st ! i)) #
       (if 0 \<le> se_prev (st ! i) \<and> nat (se_prev (st ! i)) < i then trace st (nat (se_prev (st ! i))) else [])
     else [])"
  by pat_completeness auto
termination
  by (relation "measure snd") auto

declare trace.simps [simp del]

definition stack_ok :: "redu_stack \<Rightarrow> bool" where
  "stack_ok st \<longleftrightarrow> (\<forall>i < length st. se_prev (st ! i) = -1 \<or> (0 \<le> se_prev (st ! i) \<and> nat (se_prev (st ! i)) < i))"

lemma trace_start: "i < length st \<Longrightarrow> se_prev (st ! i) = -1 \<Longrightarrow> trace st i = [(se_type (st ! i), se_constructor (st ! i))]"
  by (simp add: trace.simps)

lemma trace_step: "i < length st \<Longrightarrow> se_prev (st ! i) = int j \<Longrightarrow> j < i \<Longrightarrow>
    trace st i = (se_type (st ! i), se_constructor (st ! i)) # trace st j"
  by (subst trace.simps) simp

lemma trace_append: "i < length st \<Longrightarrow> trace (st @ es) i = trace st i"
proof (induction i rule: less_induct)
  case (less i)
  then show ?case
    by (subst (1 2) trace.simps) (auto simp: nth_append)
qed

lemma stack_induct [consumes 2, case_names start step]:
  assumes ok: "stack_ok st" and "i < length st"
    and "\<And>i. i < length st \<Longrightarrow> se_prev (st ! i) = -1 \<Longrightarrow> P i"
    and "\<And>i j. i < length st \<Longrightarrow> se_prev (st ! i) = int j \<Longrightarrow> j < i \<Longrightarrow> P j \<Longrightarrow> P i"
  shows "P i"
  using assms(2)
proof (induction i rule: less_induct)
  case (less i)
  from ok less.prems consider "se_prev (st ! i) = -1" | "0 \<le> se_prev (st ! i)" "nat (se_prev (st ! i)) < i"
    by (auto simp: stack_ok_def)
  then show ?case
  proof cases
    case 2
    then have "se_prev (st ! i) = int (nat (se_prev (st ! i)))" by simp
    moreover have "P (nat (se_prev (st ! i)))" using less 2 by simp
    ultimately show ?thesis using assms(4) [OF less.prems] 2 by blast
  qed (use assms(3) less.prems in blast)
qed

lemma on_path_end: "index < 0 \<Longrightarrow> on_path st t index = Some False"
  by (subst on_path.simps) simp

lemma on_path_trace:
  assumes "stack_ok st" "i < length st"
  shows "on_path st t (int i) = Some (t \<in> fst ` set (trace st i))"
  using assms
proof (induction rule: stack_induct)
  case (start i)
  then show ?case by (subst on_path.simps) (auto simp: trace_start on_path_end)
next
  case (step i j)
  then show ?case by (subst on_path.simps) (auto simp: trace_step)
qed

lemma collect_back_end: "index < 0 \<Longrightarrow> collect_back st index = Some []"
  by (subst collect_back.simps) simp

lemma collect_back_trace:
  assumes "stack_ok st" "i < length st"
  shows "\<exists>es e. collect_back st (int i) = Some (es @ [e]) \<and> (\<forall>x \<in> set es. not_start x) \<and> \<not> not_start e \<and>
    trace st i = map (\<lambda>x. (se_type x, se_constructor x)) (es @ [e])"
  using assms
proof (induction rule: stack_induct)
  case (start i)
  then have "collect_back st (int i) = Some [st ! i]" by (subst collect_back.simps) (simp add: collect_back_end)
  then show ?case using start by (intro exI [of _ "[]"] exI [of _ "st ! i"]) (simp add: trace_start not_start_def)
next
  case (step i j)
  then obtain es e where IH: "collect_back st (int j) = Some (es @ [e])" "\<forall>x \<in> set es. not_start x" "\<not> not_start e"
    "trace st j = map (\<lambda>x. (se_type x, se_constructor x)) (es @ [e])" by blast
  have "collect_back st (int i) = Some ((st ! i # es) @ [e])"
    using step IH by (subst collect_back.simps) simp
  then show ?case using step IH by (intro exI [of _ "st ! i # es"] exI [of _ e]) (auto simp: trace_step not_start_def)
qed

text \<open>What the collecting functions return, in terms of the path.\<close>

abbreviation path_steps :: "(int \<times> int) list \<Rightarrow> type_constructor_pair list" where
  "path_steps p \<equiv> rev (map (\<lambda>(t, c). TypeConstructorPair t c) (butlast p))"

lemma collect_result_trace:
  assumes "stack_ok st" "i < length st"
  shows "collect_result st (int i) = Some (path_steps (trace st i))"
    "collect_conflict_path st (int i) = Some (rev (map fst (butlast (trace st i))))"
    "collect_result_with_root_index st (int i) = Some (snd (last (trace st i)), path_steps (trace st i))"
proof -
  obtain es e where c: "collect_back st (int i) = Some (es @ [e])" "\<forall>x \<in> set es. not_start x" "\<not> not_start e"
    "trace st i = map (\<lambda>x. (se_type x, se_constructor x)) (es @ [e])"
    using collect_back_trace [OF assms] by blast
  have f: "filter not_start (es @ [e]) = es" using c by simp
  have root: "fold (\<lambda>ee root. if not_start ee then root else se_constructor ee) es r = r" for r
    using c(2) by (induction es) auto
  show "collect_result st (int i) = Some (path_steps (trace st i))"
    "collect_conflict_path st (int i) = Some (rev (map fst (butlast (trace st i))))"
    "collect_result_with_root_index st (int i) = Some (snd (last (trace st i)), path_steps (trace st i))"
    using c f root by (simp_all add: collect_result_def collect_conflict_path_def collect_result_with_root_index_def comp_def)
qed

subsection \<open>The queue\<close>

lemma queue_less_trans: "queue_less a b \<Longrightarrow> queue_less b c \<Longrightarrow> queue_less a c"
  by (auto simp: queue_less_def split: if_splits)

lemma queue_less_total: "\<not> queue_less x e \<Longrightarrow> snd x \<noteq> snd e \<Longrightarrow> queue_less e x"
  by (auto simp: queue_less_def split: if_splits)

lemma set_queue_push [simp]: "set (queue_push e q) = insert e (set q)"
  by (induction e q rule: queue_push.induct) auto

lemma sorted_queue_push:
  "sorted_wrt queue_less q \<Longrightarrow> snd e \<notin> snd ` set q \<Longrightarrow> sorted_wrt queue_less (queue_push e q)"
proof (induction e q rule: queue_push.induct)
  case (2 e x xs)
  have "snd x \<noteq> snd e" using "2.prems"(2) by auto
  then show ?case
    using 2 queue_less_total [of x e] queue_less_trans [of e x] by (cases "queue_less x e") auto
qed simp

lemma sorted_queue_distinct: "sorted_wrt queue_less q \<Longrightarrow> distinct q"
  by (induction q) (auto simp: queue_less_def)

lemma queue_first_least: "sorted_wrt queue_less (qe # q) \<Longrightarrow> x \<in> set q \<Longrightarrow> fst qe \<le> fst x"
  by (auto simp: queue_less_def split: if_splits)

subsection \<open>Pushing the reductions of an element\<close>

definition candidates :: "((int, int) result_element \<Rightarrow> int \<Rightarrow> int option) \<Rightarrow> int \<Rightarrow> int set \<Rightarrow>
    (int, int) result_element list \<Rightarrow> ((int, int) result_element \<times> int) list" where
  "candidates count pathlen known redus =
     concat (map (\<lambda>r. case count r pathlen of None \<Rightarrow> [] | Some l \<Rightarrow> if re_right r \<in> known then [] else [(r, l)]) redus)"

lemma set_candidates:
  "(r, l) \<in> set (candidates count pathlen known redus) \<longleftrightarrow> r \<in> set redus \<and> count r pathlen = Some l \<and> re_right r \<notin> known"
  by (auto simp: candidates_def split: option.splits)

lemma distinct_candidates:
  "distinct (map re_right redus) \<Longrightarrow> distinct (map (re_right \<circ> fst) (candidates count pathlen known redus))"
proof (induction redus)
  case (Cons r redus)
  have "re_right r \<notin> (re_right \<circ> fst) ` set (candidates count pathlen known redus)"
    using Cons.prems by (force simp: set_candidates)
  then show ?case using Cons by (auto simp: candidates_def split: option.splits)
qed (simp add: candidates_def)

definition elem_of :: "int \<Rightarrow> (int, int) result_element \<times> int \<Rightarrow> redu_stack_elem" where
  "elem_of index c = \<lparr>se_type = re_right (fst c), se_constructor = re_value (fst c), se_prev = index, se_pathlen = snd c\<rparr>"

fun queue_all :: "f32 \<Rightarrow> nat \<Rightarrow> ((int, int) result_element \<times> int) list \<Rightarrow> redu_queue \<Rightarrow> redu_queue" where
  "queue_all w n [] q = q"
| "queue_all w n (c # cs) q = queue_all w (Suc n) cs (queue_push (f32_add w (re_weight (fst c)), int n) q)"

lemma push_reductions_candidates:
  assumes "stack_ok st" "i < length st" "\<forall>e \<in> set es. se_prev e = int i"
  shows "push_reductions count (int i) w len redus (st @ es) q =
    (let cs = candidates count len (fst ` set (trace st i)) redus in
     Some (st @ es @ map (elem_of (int i)) cs, queue_all w (length (st @ es)) cs q))"
  using assms(3)
proof (induction redus arbitrary: es q)
  case Nil
  then show ?case by (simp add: candidates_def)
next
  case (Cons r redus)
  show ?case
  proof (cases "count r len")
    case None
    then show ?thesis using Cons by (simp add: candidates_def)
  next
    case (Some l)
    have "stack_ok (st @ es)"
      using assms(1,2) Cons.prems by (auto simp: stack_ok_def nth_append)
    then have on: "on_path (st @ es) (re_right r) (int i) = Some (re_right r \<in> fst ` set (trace st i))"
      using on_path_trace [of "st @ es" i] assms(2) trace_append [OF assms(2)] by simp
    show ?thesis
    proof (cases "re_right r \<in> fst ` set (trace st i)")
      case True
      then show ?thesis using Cons Some on by (simp add: candidates_def push_if_new_def)
    next
      case False
      let ?e = "elem_of (int i) (r, l)"
      have "\<forall>e \<in> set (es @ [?e]). se_prev e = int i" using Cons.prems by (auto simp: elem_of_def)
      from Cons.IH [OF this, of "queue_push (f32_add w (re_weight r), int (length (st @ es))) q"]
      show ?thesis using Some on False by (simp add: candidates_def push_if_new_def Let_def elem_of_def)
    qed
  qed
qed

lemma set_queue_all: "set (queue_all w n cs q) = set q \<union> {(f32_add w (re_weight (fst (cs ! k))), int (n + k)) | k. k < length cs}"
proof (induction w n cs q rule: queue_all.induct)
  case (2 w n c cs q)
  have "{(f32_add w (re_weight (fst ((c # cs) ! k))), int (n + k)) | k. k < length (c # cs)} =
      insert (f32_add w (re_weight (fst c)), int n) {(f32_add w (re_weight (fst (cs ! k))), int (Suc n + k)) | k. k < length cs}"
    (is "?L = ?R")
  proof (intro set_eqI iffI)
    fix x
    assume "x \<in> ?L"
    then obtain k where k: "k < length (c # cs)" "x = (f32_add w (re_weight (fst ((c # cs) ! k))), int (n + k))" by blast
    then show "x \<in> ?R" by (cases k) auto
  next
    fix x
    assume "x \<in> ?R"
    then show "x \<in> ?L" by (force intro: exI [of _ 0] exI [of _ "Suc k" for k])
  qed
  then show ?case using "2.IH" by auto
qed simp

lemma sorted_queue_all:
  "sorted_wrt queue_less q \<Longrightarrow> (\<forall>x \<in> set q. snd x < int n) \<Longrightarrow> sorted_wrt queue_less (queue_all w n cs q)"
proof (induction w n cs q rule: queue_all.induct)
  case (2 w n c cs q)
  show ?case
    unfolding queue_all.simps
  proof (rule "2.IH")
    show "sorted_wrt queue_less (queue_push (f32_add w (re_weight (fst c)), int n) q)"
      by (rule sorted_queue_push) (use "2.prems" in auto)
  qed (use "2.prems" in auto)
qed simp

subsection \<open>The invariant of the loop\<close>

text \<open>
  \<open>W\<close> holds the weight of each stack element, \<open>b\<close> the path of the match found so far. The elements
  in the queue are those not expanded; of every other element all continuations are on the stack.
\<close>

definition pending :: "redu_queue \<Rightarrow> nat set" where
  "pending q = {i. int i \<in> snd ` set q}"

definition path_elems :: "int set \<Rightarrow> (int \<times> int) set \<Rightarrow> (int \<Rightarrow> (int, int) result_element list) \<Rightarrow>
    ((int, int) result_element \<Rightarrow> int \<Rightarrow> int option) \<Rightarrow> redu_stack \<Rightarrow> f32 list \<Rightarrow> bool" where
  "path_elems V roots E count st W \<longleftrightarrow> stack_ok st \<and> length W = length st \<and>
     (\<forall>i < length st. redu_path roots E count (trace st i) (W ! i) (se_pathlen (st ! i)) \<and>
        fst ` set (trace st i) \<subseteq> V \<and> distinct (map fst (trace st i))) \<and>
     inj_on (\<lambda>i. map fst (trace st i)) {..<length st}"

definition queue_ok :: "redu_stack \<Rightarrow> f32 list \<Rightarrow> redu_queue \<Rightarrow> bool" where
  "queue_ok st W q \<longleftrightarrow> sorted_wrt queue_less q \<and>
     (\<forall>(w, i) \<in> set q. 0 \<le> i \<and> nat i < length st \<and> w = W ! nat i) \<and>
     (\<forall>i \<in> pending q. \<forall>e \<in> set st. se_prev e \<noteq> int i)"

definition continued :: "(int \<Rightarrow> (int, int) result_element list) \<Rightarrow> ((int, int) result_element \<Rightarrow> int \<Rightarrow> int option) \<Rightarrow>
    redu_stack \<Rightarrow> f32 list \<Rightarrow> nat \<Rightarrow> bool" where
  "continued E count st W i \<longleftrightarrow>
     (\<forall>r \<in> set (E (se_type (st ! i))). \<forall>l. count r (se_pathlen (st ! i)) = Some l \<longrightarrow> re_right r \<notin> fst ` set (trace st i) \<longrightarrow>
        (\<exists>j < length st. trace st j = (re_right r, re_value r) # trace st i \<and> W ! j = f32_add (W ! i) (re_weight r) \<and>
           se_pathlen (st ! j) = l))"

definition search_inv :: "int set \<Rightarrow> (int \<times> int) set \<Rightarrow> (int \<Rightarrow> (int, int) result_element list) \<Rightarrow>
    ((int, int) result_element \<Rightarrow> int \<Rightarrow> int option) \<Rightarrow> (int \<Rightarrow> bool) \<Rightarrow> (int \<times> int) list option \<Rightarrow>
    redu_stack \<Rightarrow> f32 list \<Rightarrow> redu_queue \<Rightarrow> bool" where
  "search_inv V roots E count M b st W q \<longleftrightarrow> path_elems V roots E count st W \<and> queue_ok st W q \<and>
     (\<forall>x \<in> roots. \<exists>j < length st. trace st j = [x] \<and> W ! j = 0 \<and> se_pathlen (st ! j) = 0) \<and>
     (\<forall>i < length st. i \<notin> pending q \<longrightarrow> continued E count st W i \<and>
        (M (se_type (st ! i)) \<longleftrightarrow> b = Some (trace st i))) \<and>
     (\<forall>p. b = Some p \<longrightarrow> M (fst (hd p)))"

lemma trace_hd: "i < length st \<Longrightarrow> fst (hd (trace st i)) = se_type (st ! i)"
  by (subst trace.simps) simp

lemma trace_Cons: "i < length st \<Longrightarrow> \<exists>p. trace st i = (se_type (st ! i), se_constructor (st ! i)) # p"
  by (subst trace.simps) simp

lemma queue_okD:
  assumes "queue_ok st W ((w, i) # q)"
  shows "0 \<le> i" "nat i < length st" "w = W ! nat i" "nat i \<notin> pending q" "pending ((w, i) # q) = insert (nat i) (pending q)"
    "sorted_wrt queue_less q" "\<forall>x \<in> set q. snd x < int (length st)" "\<forall>e \<in> set st. se_prev e \<noteq> i"
proof -
  have all: "\<forall>(w, i) \<in> set ((w, i) # q). 0 \<le> i \<and> nat i < length st \<and> w = W ! nat i" "sorted_wrt queue_less ((w, i) # q)"
    using assms by (auto simp: queue_ok_def)
  then show i: "0 \<le> i" "nat i < length st" "w = W ! nat i" "sorted_wrt queue_less q" by auto
  show "\<forall>x \<in> set q. snd x < int (length st)" using all(1) by auto
  show "pending ((w, i) # q) = insert (nat i) (pending q)" using i(1) by (auto simp: pending_def)
  then have "nat i \<in> pending ((w, i) # q)" by simp
  then have "\<forall>e \<in> set st. se_prev e \<noteq> int (nat i)" using assms unfolding queue_ok_def by blast
  then show "\<forall>e \<in> set st. se_prev e \<noteq> i" using i(1) by simp
  show "nat i \<notin> pending q"
  proof
    assume "nat i \<in> pending q"
    then obtain w' where w': "(w', i) \<in> set q" using i(1) by (auto simp: pending_def)
    then have "w' = w" using all(1) i(3) by fastforce
    then show False using all(2) w' by (auto simp: queue_less_def)
  qed
qed

text \<open>Expanding the first element of the queue.\<close>

lemma search_inv_step:
  assumes inv: "search_inv V roots E count M b st W ((w, i) # q)"
    and E: "distinct (map re_right (E (se_type (st ! nat i))))" "\<forall>r \<in> set (E (se_type (st ! nat i))). re_right r \<in> V"
    and b: "M (se_type (st ! nat i)) \<Longrightarrow> b = None"
  defines "cs \<equiv> candidates count (se_pathlen (st ! nat i)) (fst ` set (trace st (nat i))) (E (se_type (st ! nat i)))"
  shows "search_inv V roots E count M (if M (se_type (st ! nat i)) then Some (trace st (nat i)) else b)
    (st @ map (elem_of i) cs) (W @ map (\<lambda>c. f32_add w (re_weight (fst c))) cs) (queue_all w (length st) cs q)"
proof -
  have pe: "path_elems V roots E count st W" and qo: "queue_ok st W ((w, i) # q)" using inv by (auto simp: search_inv_def)
  note qD = queue_okD [OF qo]
  let ?n = "nat i" and ?N = "length st"
  let ?st = "st @ map (elem_of i) cs" and ?W = "W @ map (\<lambda>c. f32_add w (re_weight (fst c))) cs"
  let ?q = "queue_all w ?N cs q"
  have lW: "length W = ?N" and ok: "stack_ok st" using pe by (auto simp: path_elems_def)
  have paths: "redu_path roots E count (trace st j) (W ! j) (se_pathlen (st ! j))" "fst ` set (trace st j) \<subseteq> V" "distinct (map fst (trace st j))"
    if "j < ?N" for j
    using pe that by (auto simp: path_elems_def)
  have inj: "inj_on (\<lambda>i. map fst (trace st i)) {..<?N}" using pe by (auto simp: path_elems_def)
  have cs: "fst c \<in> set (E (se_type (st ! ?n)))" "count (fst c) (se_pathlen (st ! ?n)) = Some (snd c)" "re_right (fst c) \<notin> fst ` set (trace st ?n)"
    if "c \<in> set cs" for c
    using that set_candidates [of "fst c" "snd c"] by (auto simp: cs_def)
  have new_elem: "?st ! (?N + k) = elem_of i (cs ! k)" "?W ! (?N + k) = f32_add w (re_weight (fst (cs ! k)))" if "k < length cs" for k
    using that lW by (auto simp: nth_append)
  have old_elem: "?st ! j = st ! j" "?W ! j = W ! j" if "j < ?N" for j using that lW by (auto simp: nth_append)
  have T1: "trace ?st j = trace st j" if "j < ?N" for j using trace_append [OF that] .
  have T2: "trace ?st (?N + k) = (re_right (fst (cs ! k)), re_value (fst (cs ! k))) # trace st ?n" if "k < length cs" for k
    using trace_step [of "?N + k" ?st ?n] new_elem [OF that] that qD(1,2) T1 [OF qD(2)] by (simp add: elem_of_def)
  have split: "\<exists>k < length cs. j = ?N + k" if "j < length ?st" "\<not> j < ?N" for j
    using that by (intro exI [of _ "j - ?N"]) auto
  have pend: "pending ?q = pending q \<union> {?N..<?N + length cs}"
  proof -
    have "snd ` {(f32_add w (re_weight (fst (cs ! k))), int (?N + k)) | k. k < length cs} = {int (?N + k) | k. k < length cs}"
      by (auto simp: image_def)
    then have "snd ` set ?q = snd ` set q \<union> {int (?N + k) | k. k < length cs}" unfolding set_queue_all image_Un by simp
    then have "j \<in> pending ?q \<longleftrightarrow> j \<in> pending q \<or> (\<exists>k < length cs. j = ?N + k)" for j by (auto simp: pending_def)
    moreover have "(\<exists>k < length cs. j = ?N + k) \<longleftrightarrow> j \<in> {?N..<?N + length cs}" for j
      by (auto intro: exI [of _ "j - ?N"])
    ultimately show ?thesis by blast
  qed
  have pendq: "pending q \<subseteq> {..<?N}" using qD(7) by (auto simp: pending_def)
  have pe': "path_elems V roots E count ?st ?W"
    unfolding path_elems_def
  proof (intro conjI allI impI)
    show "stack_ok ?st"
      unfolding stack_ok_def
    proof (intro allI impI)
      fix j
      assume j: "j < length ?st"
      show "se_prev (?st ! j) = -1 \<or> 0 \<le> se_prev (?st ! j) \<and> nat (se_prev (?st ! j)) < j"
      proof (cases "j < ?N")
        case True
        then show ?thesis using ok old_elem by (simp add: stack_ok_def)
      next
        case False
        then obtain k where "k < length cs" "j = ?N + k" using split j by blast
        then show ?thesis using new_elem qD(1,2) by (simp add: elem_of_def)
      qed
    qed
    show "length ?W = length ?st" using lW by simp
    fix j
    assume j: "j < length ?st"
    have "redu_path roots E count (trace ?st j) (?W ! j) (se_pathlen (?st ! j)) \<and> fst ` set (trace ?st j) \<subseteq> V \<and> distinct (map fst (trace ?st j))"
    proof (cases "j < ?N")
      case True
      then show ?thesis using paths T1 old_elem by simp
    next
      case False
      then obtain k where k: "k < length cs" "j = ?N + k" using split j by blast
      then have c: "cs ! k \<in> set cs" by simp
      obtain p where p: "trace st ?n = (se_type (st ! ?n), se_constructor (st ! ?n)) # p" using trace_Cons [OF qD(2)] by blast
      have "redu_path roots E count ((re_right (fst (cs ! k)), re_value (fst (cs ! k))) # trace st ?n)
          (f32_add (W ! ?n) (re_weight (fst (cs ! k)))) (snd (cs ! k))"
        unfolding p by (rule redu_path.step) (use paths(1) [OF qD(2)] cs [OF c] p in auto)
      then show ?thesis
        using k T2 new_elem paths [OF qD(2)] cs [OF c] E(2) qD(3) by (auto simp: elem_of_def)
    qed
    then show "redu_path roots E count (trace ?st j) (?W ! j) (se_pathlen (?st ! j))" "fst ` set (trace ?st j) \<subseteq> V" "distinct (map fst (trace ?st j))"
      by auto
  next
    have noprev: "map fst (trace st j) \<noteq> map fst (trace ?st (?N + k))" if "j < ?N" "k < length cs" for j k
    proof
      assume eq: "map fst (trace st j) = map fst (trace ?st (?N + k))"
      then have "length (trace st j) = Suc (length (trace st ?n))" using T2 that(2) by (metis length_Cons length_map)
      moreover have "trace st ?n \<noteq> []" using trace_Cons [OF qD(2)] by auto
      ultimately have "length (trace st j) > 1" by (cases "trace st ?n") auto
      then have "se_prev (st ! j) \<noteq> -1" using trace_start [OF that(1)] by auto
      then have prev: "0 \<le> se_prev (st ! j)" "nat (se_prev (st ! j)) < j" using ok that(1) by (auto simp: stack_ok_def)
      then have tj: "trace st j = (se_type (st ! j), se_constructor (st ! j)) # trace st (nat (se_prev (st ! j)))"
        using trace_step [OF that(1), of "nat (se_prev (st ! j))"] by simp
      then have "map fst (trace st (nat (se_prev (st ! j)))) = map fst (trace st ?n)" using eq T2 that(2) by simp
      then have "nat (se_prev (st ! j)) = ?n" using inj prev(2) that(1) qD(2) by (auto dest: inj_onD)
      then have "se_prev (st ! j) = i" using prev(1) qD(1) by simp
      then show False using qD(8) that(1) by auto
    qed
    have newinj: "k = k'" if "k < length cs" "k' < length cs" "map fst (trace ?st (?N + k)) = map fst (trace ?st (?N + k'))" for k k'
    proof -
      have "re_right (fst (cs ! k)) = re_right (fst (cs ! k'))" using that T2 by simp
      moreover have "distinct (map (re_right \<circ> fst) cs)" unfolding cs_def by (rule distinct_candidates [OF E(1)])
      ultimately show ?thesis using that by (auto simp: distinct_conv_nth)
    qed
    show "inj_on (\<lambda>i. map fst (trace ?st i)) {..<length ?st}"
    proof (rule inj_onI)
      fix x y
      assume x: "x \<in> {..<length ?st}" and y: "y \<in> {..<length ?st}" and eq: "map fst (trace ?st x) = map fst (trace ?st y)"
      show "x = y"
      proof (cases "x < ?N")
        case xo: True
        show ?thesis
        proof (cases "y < ?N")
          case True
          then show ?thesis using xo eq T1 inj by (auto dest: inj_onD)
        next
          case False
          then obtain k where "k < length cs" "y = ?N + k" using split y by blast
          then show ?thesis using noprev [of x k] xo eq T1 by simp
        qed
      next
        case False
        then obtain k where k: "k < length cs" "x = ?N + k" using split x by blast
        show ?thesis
        proof (cases "y < ?N")
          case True
          then show ?thesis using noprev [of y k] k eq T1 by simp
        next
          case False
          then obtain k' where "k' < length cs" "y = ?N + k'" using split y by blast
          then show ?thesis using newinj [of k k'] k eq by simp
        qed
      qed
    qed
  qed
  have qo': "queue_ok ?st ?W ?q"
    unfolding queue_ok_def
  proof (intro conjI ballI)
    show "sorted_wrt queue_less ?q" by (rule sorted_queue_all [OF qD(6,7)])
    fix x
    assume "x \<in> set ?q"
    then consider "x \<in> set q" | k where "k < length cs" "x = (f32_add w (re_weight (fst (cs ! k))), int (?N + k))"
      unfolding set_queue_all by blast
    then show "case x of (w, i) \<Rightarrow> 0 \<le> i \<and> nat i < length ?st \<and> w = ?W ! nat i"
    proof cases
      case 1
      then have "case x of (w, i) \<Rightarrow> 0 \<le> i \<and> nat i < ?N \<and> w = W ! nat i" using qo by (auto simp: queue_ok_def)
      then show ?thesis using old_elem by (auto split: prod.splits)
    next
      case 2
      then show ?thesis using new_elem(2) by (simp add: nat_int_add)
    qed
  next
    fix j e
    assume j: "j \<in> pending ?q" and e: "e \<in> set ?st"
    show "se_prev e \<noteq> int j"
    proof (cases "j \<in> pending q")
      case True
      then have "j \<noteq> ?n" "j \<in> pending ((w, i) # q)" using qD(4,5) by auto
      then show ?thesis using e qo qD(1) by (auto simp: queue_ok_def elem_of_def)
    next
      case False
      then have "?N \<le> j" using j pend by auto
      show ?thesis
      proof
        assume eq: "se_prev e = int j"
        from e consider "e \<in> set st" | "se_prev e = i" by (auto simp: elem_of_def)
        then show False
        proof cases
          case 1
          then obtain m where "m < ?N" "e = st ! m" by (auto simp: in_set_conv_nth)
          then show False using ok eq \<open>?N \<le> j\<close> by (auto simp: stack_ok_def)
        next
          case 2
          then show False using eq \<open>?N \<le> j\<close> qD(1,2) by auto
        qed
      qed
    qed
  qed
  have roots': "\<exists>j < length ?st. trace ?st j = [x] \<and> ?W ! j = 0 \<and> se_pathlen (?st ! j) = 0" if x: "x \<in> roots" for x
  proof -
    obtain j where "j < ?N" "trace st j = [x]" "W ! j = 0" "se_pathlen (st ! j) = 0" using inv x by (auto simp: search_inv_def)
    then show ?thesis using T1 old_elem by (intro exI [of _ j]) auto
  qed
  have done': "continued E count ?st ?W j \<and> (M (se_type (?st ! j)) \<longleftrightarrow> (if M (se_type (st ! ?n)) then Some (trace st ?n) else b) = Some (trace ?st j))"
    if j: "j < length ?st" "j \<notin> pending ?q" for j
  proof -
    have jN: "j < ?N" using j pend by auto
    show ?thesis
    proof (cases "j = ?n")
      case True
      have "\<exists>m < length ?st. trace ?st m = (re_right r, re_value r) # trace ?st ?n \<and> ?W ! m = f32_add (?W ! ?n) (re_weight r) \<and> se_pathlen (?st ! m) = l"
        if "r \<in> set (E (se_type (st ! ?n)))" "count r (se_pathlen (st ! ?n)) = Some l" "re_right r \<notin> fst ` set (trace st ?n)" for r l
      proof -
        have "(r, l) \<in> set cs" using that by (simp add: cs_def set_candidates)
        then obtain k where "k < length cs" "cs ! k = (r, l)" by (auto simp: in_set_conv_nth)
        then show ?thesis
          using T1 [OF qD(2)] T2 [of k] new_elem [of k] old_elem [OF qD(2)] qD(3) by (intro exI [of _ "?N + k"]) (simp add: elem_of_def)
      qed
      then have "continued E count ?st ?W ?n" unfolding continued_def using T1 [OF qD(2)] old_elem [OF qD(2)] by simp
      moreover have "M (se_type (st ! ?n)) \<longleftrightarrow> b = Some (trace st ?n)" if "\<not> M (se_type (st ! ?n))"
      proof -
        have "b \<noteq> Some (trace st ?n)" using inv that trace_hd [OF qD(2)] by (auto simp: search_inv_def)
        then show ?thesis using that by simp
      qed
      ultimately show ?thesis using True T1 [OF qD(2)] old_elem [OF qD(2)] by auto
    next
      case False
      then have jo: "j \<notin> pending ((w, i) # q)" using j(2) pend qD(5) by auto
      then have old: "continued E count st W j" "M (se_type (st ! j)) \<longleftrightarrow> b = Some (trace st j)" using inv jN by (auto simp: search_inv_def)
      have "\<exists>m < length ?st. trace ?st m = (re_right r, re_value r) # trace st j \<and> ?W ! m = f32_add (W ! j) (re_weight r) \<and> se_pathlen (?st ! m) = l"
        if prem: "r \<in> set (E (se_type (st ! j)))" "count r (se_pathlen (st ! j)) = Some l" "re_right r \<notin> fst ` set (trace st j)" for r l
      proof -
        obtain m where "m < ?N" "trace st m = (re_right r, re_value r) # trace st j" "W ! m = f32_add (W ! j) (re_weight r)" "se_pathlen (st ! m) = l"
          using old(1) prem unfolding continued_def by blast
        then show ?thesis using T1 old_elem by (intro exI [of _ m]) auto
      qed
      then have "continued E count ?st ?W j" unfolding continued_def using T1 [OF jN] old_elem [OF jN] by simp
      moreover have "trace st j \<noteq> trace st ?n" using inj jN qD(2) False by (metis inj_onD lessThan_iff)
      ultimately show ?thesis using old(2) b T1 [OF jN] old_elem [OF jN] by auto
    qed
  qed
  have hit': "M (fst (hd p))" if "(if M (se_type (st ! ?n)) then Some (trace st ?n) else b) = Some p" for p
    using that inv trace_hd [OF qD(2)] by (auto simp: search_inv_def split: if_splits)
  show ?thesis unfolding search_inv_def using pe' qo' roots' done' hit' by blast
qed

subsection \<open>Every path is on its way\<close>

lemma redu_path_rep:
  assumes "redu_path roots E count p w l" "\<And>t r. r \<in> set (E t) \<Longrightarrow> 0 \<le> re_weight r"
  shows "f32_rep w"
  using assms
proof (induction rule: redu_path.induct)
  case (step x p w l r l')
  then have "0 \<le> w" by (simp add: f32_rep_def)
  then show ?case using step by (intro f32_add_rep) auto
qed (rule f32_rep_0)

lemma search_complete:
  assumes inv: "search_inv V roots E count M b st W q" and E: "\<And>t r. r \<in> set (E t) \<Longrightarrow> 0 \<le> re_weight r"
    and p: "redu_path roots E count p w l"
  shows "(\<exists>i < length st. i \<notin> pending q \<and> trace st i = p \<and> W ! i = w \<and> se_pathlen (st ! i) = l) \<or>
    (\<exists>i < length st. i \<in> pending q \<and> W ! i \<le> w)"
  using p
proof (induction rule: redu_path.induct)
  case (start x)
  then obtain j where "j < length st" "trace st j = [x]" "W ! j = 0" "se_pathlen (st ! j) = 0"
    using inv by (auto simp: search_inv_def)
  then show ?case by (cases "j \<in> pending q") auto
next
  case (step x p w l r l')
  have ge: "w \<le> f32_add w (re_weight r)"
    using redu_path_rep [OF step.hyps(1) E] E [OF step.hyps(2)] by (rule f32_add_ge)
  from step.IH show ?case
  proof
    assume "\<exists>i < length st. i \<notin> pending q \<and> trace st i = x # p \<and> W ! i = w \<and> se_pathlen (st ! i) = l"
    then obtain i where i: "i < length st" "i \<notin> pending q" "trace st i = x # p" "W ! i = w" "se_pathlen (st ! i) = l" by blast
    then have ty: "se_type (st ! i) = fst x" using trace_hd [OF i(1)] by simp
    have "continued E count st W i" using inv i(1,2) by (auto simp: search_inv_def)
    then obtain j where "j < length st" "trace st j = (re_right r, re_value r) # x # p" "W ! j = f32_add w (re_weight r)" "se_pathlen (st ! j) = l'"
      using step.hyps(2-4) i ty unfolding continued_def by fastforce
    then show ?thesis by (cases "j \<in> pending q") auto
  next
    assume "\<exists>i < length st. i \<in> pending q \<and> W ! i \<le> w"
    then show ?thesis using ge order_trans by blast
  qed
qed

subsection \<open>The stack is bounded\<close>

definition max_paths :: "int set \<Rightarrow> nat" where
  "max_paths V = card {ts. distinct ts \<and> set ts \<subseteq> V}"

lemma stack_bounded:
  assumes "path_elems V roots E count st W" "finite V"
  shows "length st \<le> max_paths V"
proof -
  have "{ts. distinct ts \<and> set ts \<subseteq> V} \<subseteq> {ts. set ts \<subseteq> V \<and> length ts \<le> card V}"
    using assms(2) by (auto simp: distinct_card [symmetric] intro: card_mono)
  then have "finite {ts. distinct ts \<and> set ts \<subseteq> V}"
    using finite_lists_length_le [OF assms(2)] finite_subset by blast
  moreover have "(\<lambda>i. map fst (trace st i)) ` {..<length st} \<subseteq> {ts. distinct ts \<and> set ts \<subseteq> V}"
    using assms(1) by (simp add: path_elems_def image_subset_iff)
  ultimately have "card {..<length st} \<le> max_paths V"
    unfolding max_paths_def using assms(1) by (intro card_inj_on_le [of "\<lambda>i. map fst (trace st i)"]) (auto simp: path_elems_def)
  then show ?thesis by simp
qed

lemma pending_queue_all: "pending (queue_all w n cs q) = pending q \<union> {n..<n + length cs}"
proof -
  have "snd ` {(f32_add w (re_weight (fst (cs ! k))), int (n + k)) | k. k < length cs} = {int (n + k) | k. k < length cs}"
    by (auto simp: image_def)
  then have "snd ` set (queue_all w n cs q) = snd ` set q \<union> {int (n + k) | k. k < length cs}"
    unfolding set_queue_all image_Un by simp
  then have "j \<in> pending (queue_all w n cs q) \<longleftrightarrow> j \<in> pending q \<or> (\<exists>k < length cs. j = n + k)" for j by (auto simp: pending_def)
  moreover have "(\<exists>k < length cs. j = n + k) \<longleftrightarrow> j \<in> {n..<n + length cs}" for j
    by (auto intro: exI [of _ "j - n"])
  ultimately show ?thesis by blast
qed

lemma length_queue_push [simp]: "length (queue_push e q) = Suc (length q)"
  by (induction e q rule: queue_push.induct) auto

lemma length_queue_all: "length (queue_all w n cs q) = length q + length cs"
  by (induction w n cs q rule: queue_all.induct) auto

subsection \<open>The interface and the result of a search\<close>

definition edges_of :: "(int \<Rightarrow> (int, int) result_element list option) \<Rightarrow> int set \<Rightarrow> int \<Rightarrow> (int, int) result_element list" where
  "edges_of expand V t = (if t \<in> V then (case expand t of None \<Rightarrow> [] | Some rs \<Rightarrow> rs) else [])"

text \<open>
  What a search gives: no match if no path leads to one; otherwise a path to a match, none of less
  weight, and a conflict exactly if another path to a match has about the same weight.
\<close>

definition search_outcome :: "(int \<times> int) set \<Rightarrow> (int \<Rightarrow> (int, int) result_element list) \<Rightarrow>
    ((int, int) result_element \<Rightarrow> int \<Rightarrow> int option) \<Rightarrow> (int \<Rightarrow> bool) \<Rightarrow>
    ((int \<times> int) list \<Rightarrow> 'r) \<Rightarrow> ((int \<times> int) list \<Rightarrow> 'c) \<Rightarrow> (f32 \<times> 'r) option \<Rightarrow> 'c option \<Rightarrow> bool" where
  "search_outcome roots E count M found clash best conflict \<longleftrightarrow>
     (case best of
        None \<Rightarrow> conflict = None \<and> (\<forall>p w l. redu_path roots E count p w l \<longrightarrow> \<not> M (fst (hd p)))
      | Some (w0, r) \<Rightarrow> \<exists>p l. redu_path roots E count p w0 l \<and> M (fst (hd p)) \<and> r = found p \<and>
          (\<forall>p' w' l'. redu_path roots E count p' w' l' \<longrightarrow> M (fst (hd p')) \<longrightarrow> w0 \<le> w') \<and>
          (case conflict of
             None \<Rightarrow> \<forall>p' w' l'. redu_path roots E count p' w' l' \<longrightarrow> M (fst (hd p')) \<longrightarrow> p' \<noteq> p \<longrightarrow> f32_add w0 f32_epsilon < w'
           | Some c \<Rightarrow> \<exists>p' w' l'. redu_path roots E count p' w' l' \<and> M (fst (hd p')) \<and> p' \<noteq> p \<and>
               w' \<le> f32_add w0 f32_epsilon \<and> c = clash p'))"

lemma search_outcome_clash:
  assumes "redu_path roots E count p w0 l" "M (fst (hd p))" "r = found p"
    "\<forall>p' w' l'. redu_path roots E count p' w' l' \<longrightarrow> M (fst (hd p')) \<longrightarrow> w0 \<le> w'"
    "redu_path roots E count p' w' l'" "M (fst (hd p'))" "p' \<noteq> p" "w' \<le> f32_add w0 f32_epsilon"
  shows "search_outcome roots E count M found clash (Some (w0, r)) (Some (clash p'))"
  unfolding search_outcome_def option.case prod.case using assms by blast

text \<open>The match found so far, its path expanded.\<close>

definition best_ok :: "(int \<times> int) set \<Rightarrow> (int \<Rightarrow> (int, int) result_element list) \<Rightarrow>
    ((int, int) result_element \<Rightarrow> int \<Rightarrow> int option) \<Rightarrow> (int \<Rightarrow> bool) \<Rightarrow> ((int \<times> int) list \<Rightarrow> 'r) \<Rightarrow>
    (f32 \<times> 'r) option \<Rightarrow> (int \<times> int) list option \<Rightarrow> redu_stack \<Rightarrow> redu_queue \<Rightarrow> bool" where
  "best_ok roots E count M found best b st q \<longleftrightarrow>
     (case best of
        None \<Rightarrow> b = None
      | Some (w0, r) \<Rightarrow> \<exists>p l. b = Some p \<and> redu_path roots E count p w0 l \<and> r = found p \<and>
          (\<forall>p' w' l'. redu_path roots E count p' w' l' \<longrightarrow> M (fst (hd p')) \<longrightarrow> w0 \<le> w') \<and>
          (\<exists>i < length st. i \<notin> pending q \<and> trace st i = p))"

text \<open>The reductions as a graph on finitely many types, in a state \<open>d\<close> that is \<open>ok\<close>.\<close>

locale reduction_graph =
  fixes ok :: "'d \<Rightarrow> bool"
    and types :: "'d \<Rightarrow> int set"
    and expand :: "'d \<Rightarrow> int \<Rightarrow> (int, int) result_element list option"
  assumes finite_types: "ok d \<Longrightarrow> finite (types d)"
    and expand_total: "ok d \<Longrightarrow> t \<in> types d \<Longrightarrow> \<exists>rs. expand d t = Some rs \<and> distinct (map re_right rs) \<and>
      (\<forall>r \<in> set rs. re_right r \<in> types d \<and> 0 \<le> re_weight r)"
begin

abbreviation edges :: "'d \<Rightarrow> int \<Rightarrow> (int, int) result_element list" where
  "edges d \<equiv> edges_of (expand d) (types d)"

lemma edges_weight: "ok d \<Longrightarrow> r \<in> set (edges d t) \<Longrightarrow> 0 \<le> re_weight r"
  using expand_total [of d t] by (cases "t \<in> types d") (auto simp: edges_of_def)

lemma edges_expand: "ok d \<Longrightarrow> t \<in> types d \<Longrightarrow> expand d t = Some (edges d t) \<and> distinct (map re_right (edges d t)) \<and>
    (\<forall>r \<in> set (edges d t). re_right r \<in> types d)"
  using expand_total [of d t] by (auto simp: edges_of_def)

lemma search_loop_outcome:
  assumes ok: "ok d" and matches: "\<And>t. t \<in> types d \<Longrightarrow> matches t = Some (M t)"
    and found: "\<And>st i. stack_ok st \<Longrightarrow> i < length st \<Longrightarrow> se_type (st ! i) \<in> types d \<Longrightarrow> M (se_type (st ! i)) \<Longrightarrow>
      foundc st (int i) = Some (found (trace st i))"
    and clash: "\<And>st i. stack_ok st \<Longrightarrow> i < length st \<Longrightarrow> clashc st (int i) = Some (clash (trace st i))"
    and inv: "search_inv (types d) roots (edges d) count M b st W q" and best: "best_ok roots (edges d) count M found best b st q"
  shows "\<exists>best' conflict. search_loop matches (expand d) count foundc clashc st q best = Some (best', conflict) \<and>
    search_outcome roots (edges d) count M found clash best' conflict"
  using inv best
proof (induction "2 * (max_paths (types d) - length st) + length q" arbitrary: st W q b best rule: less_induct)
  case less
  note inv = less.prems(1) and best = less.prems(2)
  have pe: "path_elems (types d) roots (edges d) count st W" and qo: "queue_ok st W q" using inv by (auto simp: search_inv_def)
  have sok: "stack_ok st" using pe by (simp add: path_elems_def)
  have complete: "(\<exists>i < length st. i \<notin> pending q \<and> trace st i = p \<and> W ! i = w \<and> se_pathlen (st ! i) = l) \<or>
      (\<exists>i < length st. i \<in> pending q \<and> W ! i \<le> w)" if "redu_path roots (edges d) count p w l" for p w l
    by (rule search_complete [OF inv _ that]) (rule edges_weight [OF ok])
  have expanded: "M (se_type (st ! i)) \<longleftrightarrow> b = Some (trace st i)" if "i < length st" "i \<notin> pending q" for i
    using inv that by (auto simp: search_inv_def)
  have hit: "M (fst (hd p))" if "b = Some p" for p using inv that by (auto simp: search_inv_def)
  have stop: "search_outcome roots (edges d) count M found clash best None"
    if late: "\<And>i w0 r. i < length st \<Longrightarrow> i \<in> pending q \<Longrightarrow> best = Some (w0, r) \<Longrightarrow> f32_add w0 f32_epsilon < W ! i"
      and none: "best = None \<Longrightarrow> pending q = {}"
  proof (cases best)
    case None
    then have "b = None" using best by (simp add: best_ok_def)
    moreover have "\<not> M (fst (hd p))" if p: "redu_path roots (edges d) count p w l" for p w l
    proof -
      obtain i where i: "i < length st" "i \<notin> pending q" "trace st i = p" using complete [OF p] none [OF None] by auto
      then show ?thesis using expanded [OF i(1,2)] trace_hd [OF i(1)] \<open>b = None\<close> by simp
    qed
    ultimately show ?thesis using None by (simp add: search_outcome_def)
  next
    case (Some wr)
    obtain w0 r where wr: "wr = (w0, r)" by fastforce
    obtain p l where p: "b = Some p" "redu_path roots (edges d) count p w0 l" "r = found p"
      "\<forall>p' w' l'. redu_path roots (edges d) count p' w' l' \<longrightarrow> M (fst (hd p')) \<longrightarrow> w0 \<le> w'"
      using best Some wr by (auto simp: best_ok_def)
    have "f32_add w0 f32_epsilon < w'" if p': "redu_path roots (edges d) count p' w' l'" "M (fst (hd p'))" "p' \<noteq> p" for p' w' l'
      using complete [OF p'(1)]
    proof
      assume "\<exists>i<length st. i \<notin> pending q \<and> trace st i = p' \<and> W ! i = w' \<and> se_pathlen (st ! i) = l'"
      then obtain i where i: "i < length st" "i \<notin> pending q" "trace st i = p'" by blast
      then have "b = Some p'" using expanded [OF i(1,2)] trace_hd [OF i(1)] p'(2) by simp
      then show ?thesis using p(1) p'(3) by simp
    next
      assume "\<exists>i<length st. i \<in> pending q \<and> W ! i \<le> w'"
      then show ?thesis using late Some wr by force
    qed
    then show ?thesis using Some wr p hit [OF p(1)] by (auto simp: search_outcome_def)
  qed
  show ?case
  proof (cases q)
    case Nil
    have "search_outcome roots (edges d) count M found clash best None"
      by (rule stop) (auto simp: Nil pending_def)
    then show ?thesis by (subst search_loop.simps) (simp add: Nil)
  next
    case (Cons qe q')
    obtain w i where qe: "qe = (w, i)" by fastforce
    have qo': "queue_ok st W ((w, i) # q')" using qo Cons qe by simp
    note qD = queue_okD [OF qo']
    let ?n = "nat i" and ?type = "se_type (st ! nat i)"
    have least: "w \<le> W ! j" if "j \<in> pending q" for j
    proof -
      have "\<exists>w'. (w', int j) \<in> set q" using that by (force simp: pending_def)
      then obtain w' where w': "(w', int j) \<in> set q" ..
      then have "w' = W ! j" using qo by (auto simp: queue_ok_def)
      moreover have "sorted_wrt queue_less (qe # q')" using qo Cons by (simp add: queue_ok_def)
      ultimately show ?thesis using w' Cons qe queue_first_least [of qe q' "(w', int j)"] by auto
    qed
    have V: "?type \<in> types d" using pe qD(2) trace_Cons [OF qD(2)] by (auto simp: path_elems_def)
    have elem: "vec_at st i = Some (st ! ?n)" using qD(1,2) by (simp add: vec_at_def)
    have path: "redu_path roots (edges d) count (trace st ?n) w (se_pathlen (st ! ?n))"
      using pe qD(2,3) by (auto simp: path_elems_def)
    show ?thesis
    proof (cases "case best of None \<Rightarrow> False | Some (w0, _) \<Rightarrow> w > f32_add w0 f32_epsilon")
      case True
      have "search_outcome roots (edges d) count M found clash best None"
        by (rule stop) (use True least in \<open>force split: option.splits\<close>)+
      moreover obtain w0 r where "best = Some (w0, r)" "f32_add w0 f32_epsilon < w" using True by (auto split: option.splits)
      then have "search_loop matches (expand d) count foundc clashc st q best = Some (best, None)"
        by (subst search_loop.simps) (simp add: Cons qe)
      ultimately show ?thesis by blast
    next
      case near: False
      show ?thesis
      proof (cases "M ?type \<and> best \<noteq> None")
        case True
        then obtain w0 r where b0: "best = Some (w0, r)" by auto
        obtain p l i0 where p: "b = Some p" "redu_path roots (edges d) count p w0 l" "r = found p"
          "\<forall>p' w' l'. redu_path roots (edges d) count p' w' l' \<longrightarrow> M (fst (hd p')) \<longrightarrow> w0 \<le> w'"
          "i0 < length st" "i0 \<notin> pending q" "trace st i0 = p"
          using best b0 by (auto simp: best_ok_def)
        have "i0 \<noteq> ?n" using p(6) qD(5) Cons qe by auto
        moreover have "inj_on (\<lambda>i. map fst (trace st i)) {..<length st}" using pe by (simp add: path_elems_def)
        ultimately have "trace st ?n \<noteq> p" using p(5,7) qD(2) by (metis inj_onD lessThan_iff)
        moreover have "w \<le> f32_add w0 f32_epsilon" using near b0 by simp
        ultimately have "search_outcome roots (edges d) count M found clash best (Some (clash (trace st ?n)))"
          unfolding b0 using True trace_hd [OF qD(2)]
          by (intro search_outcome_clash [where M = M and found = found, OF p(2) hit [OF p(1)] p(3,4) path]) auto
        moreover have "search_loop matches (expand d) count foundc clashc st q best = Some (best, Some (clash (trace st ?n)))"
          using near True elem matches [OF V] clash [OF sok qD(2)] qD(1)
          by (subst search_loop.simps) (simp add: Cons qe b0)
        ultimately show ?thesis by blast
      next
        case go: False
        let ?b = "if M ?type then Some (trace st ?n) else b"
        let ?best = "if M ?type then Some (w, found (trace st ?n)) else best"
        let ?cs = "candidates count (se_pathlen (st ! ?n)) (fst ` set (trace st ?n)) (edges d ?type)"
        let ?st = "st @ map (elem_of i) ?cs" and ?W = "W @ map (\<lambda>c. f32_add w (re_weight (fst c))) ?cs"
        let ?q = "queue_all w (length st) ?cs q'"
        note ex = edges_expand [OF ok V]
        have bN: "b = None" if "M ?type" using go that best by (cases best) (auto simp: best_ok_def)
        have inv': "search_inv (types d) roots (edges d) count M ?b ?st ?W ?q"
          using search_inv_step [of "types d" roots "edges d" count M b st W w i q'] inv Cons qe ex bN by auto
        have best': "best_ok roots (edges d) count M found ?best ?b ?st ?q"
        proof (cases "M ?type")
          case True
          have "w \<le> w'" if p': "redu_path roots (edges d) count p' w' l'" "M (fst (hd p'))" for p' w' l'
            using complete [OF p'(1)]
          proof
            assume "\<exists>i<length st. i \<notin> pending q \<and> trace st i = p' \<and> W ! i = w' \<and> se_pathlen (st ! i) = l'"
            then obtain j where j: "j < length st" "j \<notin> pending q" "trace st j = p'" by blast
            then show ?thesis using expanded [OF j(1,2)] trace_hd [OF j(1)] p'(2) bN [OF True] by simp
          next
            assume "\<exists>i<length st. i \<in> pending q \<and> W ! i \<le> w'"
            then show ?thesis using least order_trans by blast
          qed
          moreover have "?n \<notin> pending ?q" using qD(2,4) by (simp add: pending_queue_all)
          moreover have "trace ?st ?n = trace st ?n" "?n < length ?st" using trace_append [OF qD(2)] qD(2) by simp_all
          ultimately show ?thesis using True path unfolding best_ok_def by auto
        next
          case False
          have "\<exists>j<length ?st. j \<notin> pending ?q \<and> trace ?st j = p" if p: "\<exists>j<length st. j \<notin> pending q \<and> trace st j = p" for p
          proof -
            obtain j where j: "j < length st" "j \<notin> pending q" "trace st j = p" using p by blast
            then have "j \<notin> pending ?q" using qD(5) Cons qe by (simp add: pending_queue_all)
            then show ?thesis using j trace_append [OF j(1)] by (intro exI [of _ j]) simp
          qed
          then show ?thesis using best False by (fastforce simp: best_ok_def split: option.splits)
        qed
        have len: "length ?st \<le> max_paths (types d)"
          by (rule stack_bounded [OF conjunct1 [OF inv' [unfolded search_inv_def]] finite_types [OF ok]])
        have "2 * (max_paths (types d) - length ?st) + length ?q < 2 * (max_paths (types d) - length st) + length q"
          using len Cons by (simp add: length_queue_all) linarith
        from less.hyps [OF this inv' best'] obtain best2 conflict where
          r: "search_loop matches (expand d) count foundc clashc ?st ?q ?best = Some (best2, conflict)"
            "search_outcome roots (edges d) count M found clash best2 conflict" by blast
        have push: "push_reductions count i w (se_pathlen (st ! ?n)) (edges d ?type) st q' = Some (?st, ?q)"
          using push_reductions_candidates [OF sok qD(2), of "[]" count w "se_pathlen (st ! ?n)" "edges d ?type" q'] qD(1)
          by (simp add: Let_def)
        have fnd: "foundc st i = Some (found (trace st ?n))" if "M ?type"
          using found [OF sok qD(2) V that] qD(1) by simp
        have "search_loop matches (expand d) count foundc clashc st q best =
            search_loop matches (expand d) count foundc clashc ?st ?q ?best"
          using near go elem matches [OF V] ex push fnd
          by (subst (1) search_loop.simps, cases best) (auto simp: Cons qe)
        then show ?thesis using r by auto
      qed
    qed
  qed
qed

end

end
