(* ===== verification/SearchProps.thy ===== *)
theory SearchProps
  imports SearchProof
begin

text \<open>
  The reductions of a type database as the graph of the search, and the properties of \<open>deriveType\<close>
  and \<open>resolveType\<close> in every reachable state.
\<close>

subsection \<open>The graph\<close>

text \<open>A search reads a database at a scope step with a tag selection.\<close>

type_synonym search_state = "type_database \<times> int \<times> tag_mask"

fun state_ok :: "search_state \<Rightarrow> bool" where
  "state_ok (db, step, select) \<longleftrightarrow> (\<exists>U. db_ok U db)"

fun state_types :: "search_state \<Rightarrow> int set" where
  "state_types (db, step, select) = {0..nof_recs db}"

fun state_expand :: "search_state \<Rightarrow> int \<Rightarrow> (int, int) result_element list option" where
  "state_expand (db, step, select) t = rm_get (db_redus db) step t select"

lemma state_expand_total:
  assumes "state_ok d" "t \<in> state_types d"
  shows "\<exists>rs. state_expand d t = Some rs \<and> distinct (map re_right rs) \<and> (\<forall>r \<in> set rs. re_right r \<in> state_types d \<and> 0 \<le> re_weight r)"
proof -
  obtain db step select where d: "d = (db, step, select)" by (cases d)
  obtain U T R Ob where rep: "db_rep U db T R Ob" using assms(1) by (auto simp: d db_ok_def)
  note D = db_repD [OF rep]
  obtain scopes where sc: "rm_get (db_redus db) step t select = Some (add_firsts select (concat (map (R t) scopes)) [])"
    using rm_get_rep [OF D(6)] by blast
  let ?rs = "add_firsts select (concat (map (R t) scopes)) []"
  note spec = add_firsts_spec [of "[]" select "concat (map (R t) scopes)", simplified]
  have dist: "distinct (map re_right ?rs)" using spec by (elim conjE)
  have "set ?rs \<subseteq> {r. \<exists>s. r \<in> set (R t s)}" using spec by fastforce
  then have "\<forall>r \<in> set ?rs. 0 \<le> re_right r \<and> re_right r \<le> nof_recs db \<and> 0 \<le> re_weight r"
    using D(7) unfolding f32_rep_def by blast
  then show ?thesis using sc dist by (auto simp: d)
qed

interpretation db_search: reduction_graph state_ok state_types state_expand
  by unfold_locales (use state_expand_total in auto)

text \<open>The reductions from a type, and the paths of a derivation.\<close>

definition db_edges :: "type_database \<Rightarrow> int \<Rightarrow> tag_mask \<Rightarrow> int \<Rightarrow> (int, int) result_element list" where
  "db_edges db step select = edges_of (\<lambda>t. rm_get (db_redus db) step t select) {0..nof_recs db}"

lemma db_edges_state: "edges_of (state_expand (db, step, select)) (state_types (db, step, select)) = db_edges db step select"
proof -
  have "state_expand (db, step, select) = (\<lambda>t. rm_get (db_redus db) step t select)" by auto
  then show ?thesis by (simp add: db_edges_def)
qed

lemma redu_path_distinct: "redu_path roots E count p w l \<Longrightarrow> distinct (map fst p) \<and> last p \<in> roots"
  by (induction rule: redu_path.induct) auto

lemma redu_path_types:
  assumes ok: "db_ok U db" and p: "redu_path roots (db_edges db step select) count p w l" and roots: "\<forall>c \<in> fst ` roots. 0 \<le> c \<and> c \<le> nof_recs db"
  shows "fst (hd p) \<in> {0..nof_recs db}"
proof -
  have "state_ok (db, step, select)" using ok by auto
  note edges = db_search.edges_expand [OF this, unfolded state_types.simps db_edges_state [unfolded state_types.simps]]
  have target: "re_right r \<in> {0..nof_recs db}" if "r \<in> set (db_edges db step select t)" for t r
  proof (cases "t \<in> {0..nof_recs db}")
    case True
    then show ?thesis using edges that by blast
  next
    case False
    then have "db_edges db step select t = []" by (simp only: db_edges_def edges_of_def if_False)
    then show ?thesis using that by simp
  qed
  from p show ?thesis
  proof cases
    case (start root)
    then show ?thesis using roots by force
  qed (use target in auto)
qed

subsection \<open>The initial stack\<close>

lemma stack_has_type_iff: "stack_has_type st t \<longleftrightarrow> t \<in> se_type ` set st"
  by (induction st t rule: stack_has_type.induct) auto

text \<open>The stack holds a start element for each root, all of them in the queue.\<close>

definition starts :: "int set \<Rightarrow> (int \<times> int) set \<Rightarrow> redu_stack \<Rightarrow> redu_queue \<Rightarrow> bool" where
  "starts V roots st q \<longleftrightarrow> (\<forall>e \<in> set st. se_prev e = -1 \<and> se_pathlen e = 0 \<and> se_type e \<in> V) \<and> distinct (map se_type st) \<and>
     roots = (\<lambda>e. (se_type e, se_constructor e)) ` set st \<and>
     sorted_wrt queue_less q \<and> set q = (\<lambda>i. (0, int i)) ` {..<length st}"

lemma starts_trace: "starts V roots st q \<Longrightarrow> i < length st \<Longrightarrow> trace st i = [(se_type (st ! i), se_constructor (st ! i))]"
  by (auto simp: starts_def intro: trace_start)

lemma starts_inv:
  assumes st: "starts V roots st q"
  shows "search_inv V roots E count M None st (replicate (length st) 0) q"
proof -
  have elems: "se_prev (st ! i) = -1" "se_pathlen (st ! i) = 0" "se_type (st ! i) \<in> V" "(se_type (st ! i), se_constructor (st ! i)) \<in> roots"
    if "i < length st" for i
    using st that by (auto simp: starts_def)
  have pend: "pending q = {..<length st}"
    using st by (auto simp: starts_def pending_def image_iff)
  have "path_elems V roots E count st (replicate (length st) 0)"
    unfolding path_elems_def
  proof (intro conjI allI impI)
    show "inj_on (\<lambda>i. map fst (trace st i)) {..<length st}"
      using st by (auto simp: inj_on_def starts_trace [OF st] starts_def distinct_conv_nth)
  qed (use elems in \<open>auto simp: stack_ok_def starts_trace [OF st] intro: redu_path.start\<close>)
  moreover have "queue_ok st (replicate (length st) 0) q"
    using st by (auto simp: queue_ok_def starts_def)
  moreover have "\<exists>j < length st. trace st j = [x] \<and> replicate (length st) 0 ! j = 0 \<and> se_pathlen (st ! j) = 0" if x: "x \<in> roots" for x
  proof -
    obtain j where "j < length st" "x = (se_type (st ! j), se_constructor (st ! j))"
      using st x by (auto simp: starts_def in_set_conv_nth)
    then show ?thesis using elems starts_trace [OF st] by auto
  qed
  ultimately show ?thesis using pend by (auto simp: search_inv_def)
qed

lemma db_search_outcome:
  assumes ok: "db_ok U db" and st: "starts {0..nof_recs db} roots st q"
    and "\<And>t. 0 \<le> t \<Longrightarrow> t \<le> nof_recs db \<Longrightarrow> matches t = Some (M t)"
    and "\<And>st i. stack_ok st \<Longrightarrow> i < length st \<Longrightarrow> 0 \<le> se_type (st ! i) \<Longrightarrow> se_type (st ! i) \<le> nof_recs db \<Longrightarrow> M (se_type (st ! i)) \<Longrightarrow>
      foundc st (int i) = Some (found (trace st i))"
    and "\<And>st i. stack_ok st \<Longrightarrow> i < length st \<Longrightarrow> clashc st (int i) = Some (clash (trace st i))"
  shows "\<exists>best conflict. search_loop matches (\<lambda>t. rm_get (db_redus db) step t select) count foundc clashc st q None = Some (best, conflict) \<and>
    search_outcome roots (db_edges db step select) count M found clash best conflict"
proof -
  let ?d = "(db, step, select)"
  have d: "state_ok ?d" using ok by auto
  have best: "best_ok roots (db_edges db step select) count M found None None st q" by (simp add: best_ok_def)
  have fn: "(\<lambda>t. rm_get (db_redus db) step t select) = state_expand ?d" by auto
  show ?thesis
    unfolding fn
    by (rule db_search.search_loop_outcome [OF d, unfolded state_types.simps db_edges_state [unfolded state_types.simps], OF _ _ _ starts_inv [OF st] best])
      (use assms(3-5) in auto)
qed

text \<open>The outcome over the set of paths that lead to a match.\<close>

lemma search_outcome_cases [consumes 2, case_names none unique conflict]:
  assumes out: "search_outcome roots E count M found clash best conflict"
    and der: "\<And>p w. der p w \<longleftrightarrow> (\<exists>l. redu_path roots E count p w l) \<and> M (fst (hd p))"
  obtains (none) "best = None" "conflict = None" "\<And>p w. \<not> der p w"
  | (unique) w0 p where "best = Some (w0, found p)" "conflict = None" "der p w0" "\<And>p' w'. der p' w' \<Longrightarrow> w0 \<le> w'"
      "\<And>p' w'. der p' w' \<Longrightarrow> p' \<noteq> p \<Longrightarrow> f32_add w0 f32_epsilon < w'"
  | (conflict) w0 p p' w' where "best = Some (w0, found p)" "conflict = Some (clash p')" "der p w0" "\<And>p' w'. der p' w' \<Longrightarrow> w0 \<le> w'"
      "der p' w'" "p' \<noteq> p" "w' \<le> f32_add w0 f32_epsilon"
proof (cases best)
  case None
  then have "conflict = None" "\<not> der p w" for p w using out unfolding None search_outcome_def option.case der by blast+
  then show ?thesis using none None by blast
next
  case (Some wr)
  obtain w0 r where wr: "wr = (w0, r)" by fastforce
  note out = out [unfolded Some wr search_outcome_def option.case prod.case]
  show ?thesis
  proof (cases conflict)
    case None
    obtain p where "der p w0" "r = found p" "\<forall>p' w'. der p' w' \<longrightarrow> w0 \<le> w'" "\<forall>p' w'. der p' w' \<longrightarrow> p' \<noteq> p \<longrightarrow> f32_add w0 f32_epsilon < w'"
      using out [unfolded None option.case] unfolding der by blast
    then show ?thesis using unique [of w0 p] Some wr None by blast
  next
    case (Some c)
    obtain p p' w' where "der p w0" "r = found p" "\<forall>p' w'. der p' w' \<longrightarrow> w0 \<le> w'" "der p' w'" "p' \<noteq> p" "w' \<le> f32_add w0 f32_epsilon" "c = clash p'"
      using out [unfolded Some option.case] unfolding der by blast
    then show ?thesis using conflict [of w0 p p' w'] \<open>best = Some wr\<close> wr Some by blast
  qed
qed

subsection \<open>Deriving a type\<close>

text \<open>
  A derivation of \<open>to\<close> from \<open>ty\<close>: a simple path of reductions selected by the tags, with at most
  \<open>maxCount\<close> reductions of the tags that count.
\<close>

definition counted_step :: "tag_mask \<Rightarrow> (int, int) result_element \<Rightarrow> int \<Rightarrow> int option" where
  "counted_step countTags redu len = Some (if tm_matches countTags (re_tagval redu) then len + 1 else len)"

definition derivation :: "type_database \<Rightarrow> int \<Rightarrow> tag_mask \<Rightarrow> tag_mask \<Rightarrow> int \<Rightarrow> int \<Rightarrow> int \<Rightarrow> (int \<times> int) list \<Rightarrow> f32 \<Rightarrow> bool" where
  "derivation db step select countTags maxCount to ty p w \<longleftrightarrow>
     (\<exists>l \<le> maxCount. redu_path {(ty, 0)} (db_edges db step select) (counted_step countTags) p w l) \<and> fst (hd p) = to"

text \<open>The limit within the search is a limit on whole paths.\<close>

lemma count_derive_path:
  assumes "0 \<le> m"
  shows "redu_path roots E (count_derive countTags m) p w l \<longleftrightarrow> redu_path roots E (counted_step countTags) p w l \<and> l \<le> m"
proof
  assume "redu_path roots E (count_derive countTags m) p w l"
  then show "redu_path roots E (counted_step countTags) p w l \<and> l \<le> m"
  proof (induction rule: redu_path.induct)
    case (step x p w l r l')
    have "counted_step countTags r l = Some l'" "l' \<le> m"
      using step.hyps(3) by (auto simp: count_derive_def counted_step_def Let_def split: if_splits)
    then show ?case using redu_path.step [where count = "counted_step countTags"] step.hyps(2,4) step.IH by blast
  qed (use assms in \<open>auto intro: redu_path.start\<close>)
next
  have "redu_path roots E (counted_step countTags) p w l \<Longrightarrow> l \<le> m \<Longrightarrow> redu_path roots E (count_derive countTags m) p w l"
  proof (induction rule: redu_path.induct)
    case (step x p w l r l')
    have "l \<le> l'" "count_derive countTags m r l = Some l'"
      using step.hyps(3) step.prems by (auto simp: count_derive_def counted_step_def Let_def split: if_splits)
    then show ?case using redu_path.step [where count = "count_derive countTags m"] step.hyps(2,4) step.IH step.prems by simp
  qed (auto intro: redu_path.start)
  then show "redu_path roots E (counted_step countTags) p w l \<and> l \<le> m \<Longrightarrow> redu_path roots E (count_derive countTags m) p w l" by blast
qed

text \<open>A maximal count of -1 is no limit.\<close>

definition max_count :: "int \<Rightarrow> int" where
  "max_count maxCount = (if maxCount = -1 then int_max else maxCount)"

lemma derive_type_outcome:
  assumes ok: "db_ok U db" and ty: "1 \<le> ty" "ty \<le> nof_recs db" and to: "0 \<le> to" "to \<le> nof_recs db" and mc: "-1 \<le> maxCount"
  shows "\<exists>best conflict. derive_type step to ty select countTags maxCount db =
      returnR \<lparr>dr_reductions = (case best of None \<Rightarrow> [] | Some (_, redus) \<Rightarrow> redus),
        dr_conflict_path = (case conflict of None \<Rightarrow> [] | Some path \<Rightarrow> path),
        dr_weightsum = (case best of None \<Rightarrow> 0 | Some (weight, _) \<Rightarrow> weight), dr_defined = (best \<noteq> None)\<rparr> \<and>
    search_outcome {(ty, 0)} (db_edges db step select) (count_derive countTags (max_count maxCount)) (\<lambda>t. t = to)
      path_steps (\<lambda>p. rev (map fst (butlast p))) best conflict"
proof -
  let ?st = "[\<lparr>se_type = ty, se_constructor = 0, se_prev = -1, se_pathlen = 0\<rparr>]"
  have "starts {0..nof_recs db} {(ty, 0)} ?st [(0, 0)]" using ty by (simp add: starts_def lessThan_Suc)
  from db_search_outcome [OF ok this, of "\<lambda>t. Some (t = to)" "\<lambda>t. t = to" collect_result path_steps
      collect_conflict_path "\<lambda>p. rev (map fst (butlast p))" step select "count_derive countTags (max_count maxCount)"]
  obtain best conflict where r: "search_loop (\<lambda>t. Some (t = to)) (\<lambda>t. rm_get (db_redus db) step t select)
      (count_derive countTags (max_count maxCount)) collect_result collect_conflict_path ?st [(0, 0)] None = Some (best, conflict)"
    "search_outcome {(ty, 0)} (db_edges db step select) (count_derive countTags (max_count maxCount)) (\<lambda>t. t = to)
      path_steps (\<lambda>p. rev (map fst (butlast p))) best conflict"
    using collect_result_trace by blast
  have "derive_type step to ty select countTags maxCount db =
      returnR \<lparr>dr_reductions = (case best of None \<Rightarrow> [] | Some (_, redus) \<Rightarrow> redus),
        dr_conflict_path = (case conflict of None \<Rightarrow> [] | Some path \<Rightarrow> path),
        dr_weightsum = (case best of None \<Rightarrow> 0 | Some (weight, _) \<Rightarrow> weight), dr_defined = (best \<noteq> None)\<rparr>"
    using ty to mc r(1) by (auto simp: derive_type_def invalid_type_def push_non_duplicate_start_def Let_def max_count_def int_max_def)
  then show ?thesis using r(2) by blast
qed

text \<open>Another derivation than the start alone has reductions.\<close>

lemma derivation_path:
  assumes "derivation db step select countTags m to ty p w"
  shows "distinct (map fst p) \<and> last p = (ty, 0) \<and> p \<noteq> [] \<and> fst (hd p) = to"
proof -
  obtain l where "redu_path {(ty, 0)} (db_edges db step select) (counted_step countTags) p w l" and "fst (hd p) = to"
    using assms by (auto simp: derivation_def)
  with redu_path_distinct [OF this(1)] redu_path_nonempty [OF this(1)] show ?thesis by simp
qed

lemma derivation_steps:
  assumes "derivation db step select countTags m to ty p w" "derivation db step select countTags m to ty p' w'" "p' \<noteq> p"
  shows "butlast p' \<noteq> []"
proof
  assume empty: "butlast p' = []"
  note p = derivation_path [OF assms(1)] and q = derivation_path [OF assms(2)]
  have p': "p' = [(ty, 0)]" using empty q append_butlast_last_id [of p'] by simp
  then have "fst (hd p) = fst (last p)" using p q by simp
  then have "tl p = []" using p by (cases p) (auto split: if_splits dest: last_in_set)
  then show False using p p' assms(3) by (cases p) auto
qed

subsection \<open>Properties\<close>

text \<open>
  C4: \<open>deriveType\<close> returns for every type that exists. Its result is defined exactly if a path of at
  most \<open>maxCount\<close> counted reductions leads from the type to the one asked for; then it is such a path
  of minimal weight, and it carries a conflict path exactly if another path has a weight within the
  epsilon of the minimum.
\<close>

theorem derive_type_minimal:
  assumes "db_reachable U db" and "laminar U" and "1 \<le> ty" and "ty \<le> nof_recs db" and "0 \<le> to" and "to \<le> nof_recs db"
    and "-1 \<le> maxCount"
  shows "\<exists>res. derive_type step to ty select countTags maxCount db = returnR res \<and>
    (dr_defined res \<longleftrightarrow> (\<exists>p w. derivation db step select countTags (max_count maxCount) to ty p w)) \<and>
    (\<not> dr_defined res \<longrightarrow> dr_reductions res = [] \<and> dr_conflict_path res = [] \<and> dr_weightsum res = 0) \<and>
    (dr_defined res \<longrightarrow>
      (\<exists>p. derivation db step select countTags (max_count maxCount) to ty p (dr_weightsum res) \<and> dr_reductions res = path_steps p \<and>
        (\<forall>p' w'. derivation db step select countTags (max_count maxCount) to ty p' w' \<longrightarrow> dr_weightsum res \<le> w') \<and>
        (if dr_conflict_path res = [] then
           \<forall>p' w'. derivation db step select countTags (max_count maxCount) to ty p' w' \<longrightarrow> p' \<noteq> p \<longrightarrow>
             f32_add (dr_weightsum res) f32_epsilon < w'
         else
           \<exists>p' w'. derivation db step select countTags (max_count maxCount) to ty p' w' \<and> p' \<noteq> p \<and>
             w' \<le> f32_add (dr_weightsum res) f32_epsilon \<and> dr_conflict_path res = rev (map fst (butlast p')))))"
proof -
  let ?der = "derivation db step select countTags (max_count maxCount) to ty"
  obtain best conflict where
    run: "derive_type step to ty select countTags maxCount db =
      returnR \<lparr>dr_reductions = (case best of None \<Rightarrow> [] | Some (_, redus) \<Rightarrow> redus),
        dr_conflict_path = (case conflict of None \<Rightarrow> [] | Some path \<Rightarrow> path),
        dr_weightsum = (case best of None \<Rightarrow> 0 | Some (weight, _) \<Rightarrow> weight), dr_defined = (best \<noteq> None)\<rparr>" and
    out: "search_outcome {(ty, 0)} (db_edges db step select) (count_derive countTags (max_count maxCount)) (\<lambda>t. t = to)
      path_steps (\<lambda>p. rev (map fst (butlast p))) best conflict"
    using derive_type_outcome [OF reachable_ok [OF assms(1,2)] assms(3-7)] by blast
  have "0 \<le> max_count maxCount" using assms(7) by (simp add: max_count_def int_max_def)
  then have der: "?der p w \<longleftrightarrow> (\<exists>l. redu_path {(ty, 0)} (db_edges db step select) (count_derive countTags (max_count maxCount)) p w l) \<and>
      fst (hd p) = to" for p w by (auto simp: derivation_def count_derive_path)
  from out der show ?thesis
  proof (cases rule: search_outcome_cases)
    case none
    then show ?thesis using run by simp
  next
    case (unique w0 p)
    then have "\<exists>p w. ?der p w" by blast
    then show ?thesis using run unique by (auto intro!: exI [of _ p])
  next
    case (conflict w0 p p' w')
    have "rev (map fst (butlast p')) \<noteq> []" using derivation_steps [OF conflict(3,5,6)] by simp
    moreover have "\<exists>p w. ?der p w" using conflict by blast
    ultimately show ?thesis using run conflict by (auto intro: exI [of _ p] exI [of _ p'] exI [of _ w'])
  qed
qed

subsection \<open>Resolving a name\<close>

text \<open>The types of a name in a context that are visible from a scope step: those \<open>getTypes\<close> lists for the innermost scope.\<close>

definition members :: "type_database \<Rightarrow> int \<Rightarrow> int \<Rightarrow> int \<Rightarrow> int list" where
  "members db step nameid context =
     (case sm_get (db_types db) step (TypeDef context nameid) of None \<Rightarrow> [] | Some t \<Rightarrow> types_from db t)"

text \<open>Every context is a start once, with its position from 1.\<close>

definition context_roots :: "int list \<Rightarrow> (int \<times> int) set" where
  "context_roots ctxs = {(ctxs ! i, int i + 1) | i. i < length ctxs \<and> ctxs ! i \<notin> set (take i ctxs)}"

lemma context_roots_image: "context_roots ctxs = (\<lambda>i. (ctxs ! i, int i + 1)) ` {i \<in> {..<length ctxs}. ctxs ! i \<notin> set (take i ctxs)}"
  by (auto simp: context_roots_def)

lemma context_roots_snoc:
  "context_roots (ctxs @ [c]) = (if c \<in> set ctxs then context_roots ctxs else insert (c, int (length ctxs) + 1) (context_roots ctxs))"
proof -
  have "{i \<in> {..<length (ctxs @ [c])}. (ctxs @ [c]) ! i \<notin> set (take i (ctxs @ [c]))} =
     {i \<in> {..<length ctxs}. ctxs ! i \<notin> set (take i ctxs)} \<union> (if c \<in> set ctxs then {} else {length ctxs})"
    by (rule set_eqI) (auto simp: less_Suc_eq nth_append)
  then show ?thesis unfolding context_roots_image by (simp add: image_Un nth_append cong: image_cong_simp)
qed

lemma fst_context_roots: "fst ` context_roots ctxs = set ctxs"
proof (induction ctxs rule: rev_induct)
  case (snoc c ctxs)
  then show ?case by (simp add: context_roots_snoc insert_absorb)
qed (simp add: context_roots_def)

lemma push_contexts_starts:
  assumes "\<forall>c \<in> set ctxs. 0 \<le> c \<and> c \<le> nof_recs db" "starts {0..nof_recs db} (context_roots pre) st q"
  shows "\<exists>st' q'. push_contexts db ctxs (int (length pre)) st q = returnR (st', q') \<and>
    starts {0..nof_recs db} (context_roots (pre @ ctxs)) st' q'"
  using assms
proof (induction ctxs arbitrary: pre st q)
  case (Cons c ctxs)
  have c: "\<not> invalid_type db c" using Cons.prems(1) by (simp add: invalid_type_def)
  have "fst ` context_roots pre = se_type ` set st" using Cons.prems(2) by (auto simp: starts_def image_image)
  then have known: "stack_has_type st c \<longleftrightarrow> c \<in> set pre" by (simp add: stack_has_type_iff fst_context_roots)
  show ?case
  proof (cases "c \<in> set pre")
    case True
    then have "starts {0..nof_recs db} (context_roots (pre @ [c])) st q" using Cons.prems(2) by (simp add: context_roots_snoc)
    from Cons.IH [OF _ this] Cons.prems(1) show ?thesis using True known c by (simp add: push_non_duplicate_start_def add.commute)
  next
    case False
    let ?st = "st @ [\<lparr>se_type = c, se_constructor = int (length pre) + 1, se_prev = -1, se_pathlen = 0\<rparr>]"
    let ?q = "queue_push (0, int (length st)) q"
    have "sorted_wrt queue_less ?q" using Cons.prems(2) by (intro sorted_queue_push) (auto simp: starts_def)
    moreover have "c \<notin> se_type ` set st" using known False by (simp add: stack_has_type_iff)
    ultimately have "starts {0..nof_recs db} (context_roots (pre @ [c])) ?st ?q"
      using Cons.prems False by (simp add: starts_def context_roots_snoc lessThan_Suc)
    from Cons.IH [OF _ this] Cons.prems(1) show ?thesis using False known c by (simp add: push_non_duplicate_start_def add.commute)
  qed
qed auto

lemma collect_result_items_types:
  assumes "recs_ok db" "t = 0 \<or> is_type db t"
  shows "collect_result_items (db_recs db) t = Some (types_from db t)"
  using assms(2)
proof (induction "nat (nof_recs db - t)" arbitrary: t rule: less_induct)
  case less
  show ?case
  proof (cases "t = 0")
    case True
    then show ?thesis by (subst collect_result_items.simps) (simp add: types_from_def)
  next
    case False
    then have t: "is_type db t" using less.prems by simp
    let ?n = "tr_next (rec_at db t)"
    have n: "?n = 0 \<or> t < ?n \<and> ?n \<le> nof_recs db" using rec_okD [OF assms(1) t] by (simp add: rec_ok_def)
    have "collect_result_items (db_recs db) ?n = Some (types_from db ?n)"
    proof (cases "?n = 0")
      case True
      then show ?thesis by (subst collect_result_items.simps) (simp add: types_from_def)
    next
      case False
      then show ?thesis using n t by (intro less.hyps) auto
    qed
    then show ?thesis
      using t False types_from(5) [OF assms(1) less.prems] by (subst collect_result_items.simps) simp
  qed
qed

text \<open>A resolution: a path of reductions from a context to a type with members of the name.\<close>

definition resolution :: "type_database \<Rightarrow> int \<Rightarrow> tag_mask \<Rightarrow> int list \<Rightarrow> int \<Rightarrow> (int \<times> int) list \<Rightarrow> f32 \<Rightarrow> bool" where
  "resolution db step select ctxs nameid p w \<longleftrightarrow>
     (\<exists>l. redu_path (context_roots ctxs) (db_edges db step select) (\<lambda>redu len. Some (len + 1)) p w l) \<and>
     members db step nameid (fst (hd p)) \<noteq> []"

lemma sm_get_member:
  assumes "db_rep U db T R Ob"
  shows "\<exists>t. sm_get (db_types db) step (TypeDef c n) = Some t \<and> (t = 0 \<or> is_type db t) \<and> (members db step n c = [] \<longleftrightarrow> t = 0)"
proof -
  obtain r where r: "sm_get (db_types db) step (TypeDef c n) = Some (case r of None \<Rightarrow> 0 | Some v \<Rightarrow> v)" "visible (T (TypeDef c n)) step r"
    using sm_get_rep [OF db_repD(4) [OF assms]] by blast
  have "r = None \<or> (\<exists>s t. r = Some t \<and> T (TypeDef c n) s = Some t)"
    using r(2) by (cases r) (auto simp: visible_def)
  then have t: "(case r of None \<Rightarrow> 0 | Some v \<Rightarrow> v) = 0 \<or> is_type db (case r of None \<Rightarrow> 0 | Some v \<Rightarrow> v)"
    using db_repD(5) [OF assms] by auto
  then show ?thesis using r(1) types_from(2) [OF db_repD(3) [OF assms] t] by (auto simp: members_def)
qed

lemma resolve_type_outcome:
  assumes ok: "db_ok U db" and ctxs: "\<forall>c \<in> set ctxs. 0 \<le> c \<and> c \<le> nof_recs db" and n: "im_lookup name (db_idents db) = n" "n \<noteq> 0"
  shows "\<exists>best conflict. resolve_type step ctxs name select db =
      returnR (case best of None \<Rightarrow> rs_none
        | Some (weight, ctx, root, redus, items) \<Rightarrow>
            \<lparr>rs_reductions = redus, rs_items = items, rs_root_index = root, rs_context_type = ctx,
             rs_conflict_type = (case conflict of None \<Rightarrow> -1 | Some t \<Rightarrow> t), rs_weightsum = weight\<rparr>) \<and>
    search_outcome (context_roots ctxs) (db_edges db step select) (\<lambda>redu len. Some (len + 1)) (\<lambda>t. members db step n t \<noteq> [])
      (\<lambda>p. (fst (hd p), snd (last p), path_steps p, members db step n (fst (hd p)))) (\<lambda>p. fst (hd p)) best conflict"
proof -
  obtain T R Ob where rep: "db_rep U db T R Ob" using ok by (auto simp: db_ok_def)
  have "starts {0..nof_recs db} (context_roots []) [] []" by (simp add: starts_def context_roots_def)
  from push_contexts_starts [OF ctxs this] obtain st q where
    st: "push_contexts db ctxs 0 [] [] = returnR (st, q)" "starts {0..nof_recs db} (context_roots ctxs) st q" by auto
  let ?matches = "\<lambda>t. do { typerecidx \<leftarrow> sm_get (db_types db) step (TypeDef t n); Some (typerecidx \<noteq> 0) }"
  let ?found = "\<lambda>stack index. do {
               elem \<leftarrow> vec_at stack index;
               typerecidx \<leftarrow> sm_get (db_types db) step (TypeDef (se_type elem) n);
               (root, redus) \<leftarrow> collect_result_with_root_index stack index;
               items \<leftarrow> collect_result_items (db_recs db) typerecidx;
               Some (se_type elem, root, redus, items) }"
  let ?clash = "\<lambda>stack index. do { elem \<leftarrow> vec_at stack index; Some (se_type elem) }"
  let ?res = "\<lambda>p. (fst (hd p), snd (last p), path_steps p, members db step n (fst (hd p)))"
  have m: "?matches t = Some (members db step n t \<noteq> [])" for t using sm_get_member [OF rep, of step t n] by auto
  have f: "?found st (int i) = Some (?res (trace st i))" if i: "stack_ok st" "i < length st" for st i
  proof -
    obtain t where t: "sm_get (db_types db) step (TypeDef (se_type (st ! i)) n) = Some t" "t = 0 \<or> is_type db t"
      using sm_get_member [OF rep] by blast
    then show ?thesis
      using i collect_result_trace(3) [OF i] collect_result_items_types [OF db_repD(3) [OF rep] t(2)] trace_hd [OF i(2)]
      by (simp add: vec_at_def members_def)
  qed
  have c: "?clash st (int i) = Some (fst (hd (trace st i)))" if "i < length st" for st i
    using that trace_hd [OF that] by (simp add: vec_at_def)
  obtain best conflict where r: "search_loop ?matches (\<lambda>t. rm_get (db_redus db) step t select) (\<lambda>redu len. Some (len + 1)) ?found ?clash st q None
      = Some (best, conflict)"
    "search_outcome (context_roots ctxs) (db_edges db step select) (\<lambda>redu len. Some (len + 1)) (\<lambda>t. members db step n t \<noteq> [])
      ?res (\<lambda>p. fst (hd p)) best conflict"
    using db_search_outcome [OF ok st(2), of ?matches "\<lambda>t. members db step n t \<noteq> []" ?found ?res ?clash "\<lambda>p. fst (hd p)" step select
        "\<lambda>redu len. Some (len + 1)"] m f c by blast
  then show ?thesis using n st(1) by (auto simp: resolve_type_def Let_def)
qed

lemma derive_type_minimal_witness:
  "\<exists>db res. nof_recs db = 3 \<and> derive_type 3 2 1 match_all match_all (-1) db = returnR res \<and> dr_defined res \<and> dr_weightsum res \<le> 0"
proof -
  obtain db where db: "db_reachable {Scope 0 9} db" "nof_recs db = 3" "rm_get (db_redus db) 3 1 match_all = Some [new_rel 2 4 1 0]"
    using small_db by blast
  have "derivation db 3 match_all match_all (max_count (-1)) 2 1 [(2, 4), (1, 0)] (f32_add 0 0)"
    unfolding derivation_def
  proof
    have "redu_path {(1, 0)} (db_edges db 3 match_all) (counted_step match_all) [(1, 0)] 0 0"
      by (rule redu_path.start) simp
    from redu_path.step [OF this, of "new_rel 2 4 1 0"] db(2,3) match_all_matches [of 0]
    show "\<exists>l \<le> max_count (-1). redu_path {(1, 0)} (db_edges db 3 match_all) (counted_step match_all) [(2, 4), (1, 0)] (f32_add 0 0) l"
      by (intro exI [of _ 1]) (simp add: db_edges_def edges_of_def new_rel_def counted_step_def max_count_def int_max_def tag_val_from_tag_def)
  qed simp
  moreover have "f32_add 0 0 \<le> 0" by (simp add: f32_add_def f32_round_def round24_def round_div_def)
  moreover have "laminar {Scope 0 9}" by (simp add: laminar_def scope_wf_def scopes_nested_def)
  ultimately show ?thesis
    using derive_type_minimal [OF db(1), of 1 2 "-1" 3 match_all match_all] db(2) by (intro exI [of _ db]) fastforce
qed

text \<open>
  C5: \<open>resolveType\<close> returns for every list of types that exist. If no path of reductions leads from one
  of them to a type with visible members of the name, or the name is unknown, the result is empty.
  Otherwise it is a path of minimal weight, with the position of the context it starts from, the
  type it leads to and the members found there; the conflict type is set exactly if another path
  has a weight within the epsilon of the minimum, and is the type that path leads to.
\<close>

theorem resolve_type_minimal:
  assumes "db_reachable U db" and "laminar U" and "\<forall>c \<in> set ctxs. 0 \<le> c \<and> c \<le> nof_recs db"
    and "n = im_lookup name (db_idents db)"
  shows "\<exists>res. resolve_type step ctxs name select db = returnR res \<and>
    (if n = 0 \<or> (\<nexists>p w. resolution db step select ctxs n p w) then res = rs_none
     else \<exists>p. resolution db step select ctxs n p (rs_weightsum res) \<and>
       rs_reductions res = path_steps p \<and> rs_context_type res = fst (hd p) \<and> rs_root_index res = snd (last p) \<and>
       rs_items res = members db step n (fst (hd p)) \<and>
       (\<forall>p' w'. resolution db step select ctxs n p' w' \<longrightarrow> rs_weightsum res \<le> w') \<and>
       (if rs_conflict_type res = -1 then
          \<forall>p' w'. resolution db step select ctxs n p' w' \<longrightarrow> p' \<noteq> p \<longrightarrow> f32_add (rs_weightsum res) f32_epsilon < w'
        else
          \<exists>p' w'. resolution db step select ctxs n p' w' \<and> p' \<noteq> p \<and> w' \<le> f32_add (rs_weightsum res) f32_epsilon \<and>
            rs_conflict_type res = fst (hd p')))"
proof (cases "n = 0")
  case True
  then show ?thesis using assms(4) by (simp add: resolve_type_def)
next
  case False
  let ?der = "resolution db step select ctxs n"
  obtain best conflict where
    run: "resolve_type step ctxs name select db =
      returnR (case best of None \<Rightarrow> rs_none
        | Some (weight, ctx, root, redus, items) \<Rightarrow>
            \<lparr>rs_reductions = redus, rs_items = items, rs_root_index = root, rs_context_type = ctx,
             rs_conflict_type = (case conflict of None \<Rightarrow> -1 | Some t \<Rightarrow> t), rs_weightsum = weight\<rparr>)" and
    out: "search_outcome (context_roots ctxs) (db_edges db step select) (\<lambda>redu len. Some (len + 1)) (\<lambda>t. members db step n t \<noteq> [])
      (\<lambda>p. (fst (hd p), snd (last p), path_steps p, members db step n (fst (hd p)))) (\<lambda>p. fst (hd p)) best conflict"
    using resolve_type_outcome [OF reachable_ok [OF assms(1,2)] assms(3) assms(4) [symmetric] False] by blast
  have der: "?der p w \<longleftrightarrow> (\<exists>l. redu_path (context_roots ctxs) (db_edges db step select) (\<lambda>redu len. Some (len + 1)) p w l) \<and>
      members db step n (fst (hd p)) \<noteq> []" for p w by (simp add: resolution_def)
  from out der show ?thesis
  proof (cases rule: search_outcome_cases)
    case none
    then show ?thesis using run by simp
  next
    case (unique w0 p)
    then have "\<exists>p w. ?der p w" by blast
    then show ?thesis using run unique False by (auto intro!: exI [of _ p])
  next
    case (conflict w0 p p' w')
    have "fst (hd p') \<in> {0..nof_recs db}"
    proof -
      obtain l where "redu_path (context_roots ctxs) (db_edges db step select) (\<lambda>redu len. Some (len + 1)) p' w' l"
        using conflict(5) by (auto simp: resolution_def)
      then show ?thesis using redu_path_types [OF reachable_ok [OF assms(1,2)]] assms(3) by (metis fst_context_roots)
    qed
    moreover have "\<exists>p w. ?der p w" using conflict by blast
    ultimately show ?thesis using run conflict False by (auto intro: exI [of _ p] exI [of _ p'] exI [of _ w'])
  qed
qed

lemma resolve_type_minimal_witness:
  "\<exists>db res. nof_recs db = 3 \<and> resolve_type 3 [1, 1] ''m'' match_all db = returnR res \<and> rs_root_index res = 1 \<and> rs_items res \<noteq> []"
proof -
  obtain db where db: "db_reachable {Scope 0 9} db" "nof_recs db = 3" "im_lookup ''m'' (db_idents db) = 3"
    "rm_get (db_redus db) 3 1 match_all = Some [new_rel 2 4 1 0]" "sm_get (db_types db) 3 (TypeDef 2 3) = Some 3"
    using small_db by blast
  have lam: "laminar {Scope 0 9}" by (simp add: laminar_def scope_wf_def scopes_nested_def)
  obtain T R Ob where rep: "db_rep {Scope 0 9} db T R Ob" using reachable_rep [OF db(1) lam] .
  have roots: "context_roots [1, 1] = {(1, 1)}"
    using context_roots_snoc [of "[1]" 1] context_roots_snoc [of "[]" 1] by (simp add: context_roots_def)
  have "members db 3 3 2 \<noteq> []" using sm_get_member [OF rep, of 3 2 3] db(5) by auto
  moreover have "redu_path {(1, 1)} (db_edges db 3 match_all) (\<lambda>redu len. Some (len + 1)) [(1, 1)] 0 0"
    by (rule redu_path.start) simp
  from redu_path.step [OF this, of "new_rel 2 4 1 0"] db(2,4)
  have "redu_path {(1, 1)} (db_edges db 3 match_all) (\<lambda>redu len. Some (len + 1)) [(2, 4), (1, 1)] (f32_add 0 0) 1"
    by (auto simp: db_edges_def edges_of_def new_rel_def)
  ultimately have "resolution db 3 match_all [1, 1] 3 [(2, 4), (1, 1)] (f32_add 0 0)"
    by (auto simp: resolution_def roots)
  then have hit: "((3 :: int) = 0 \<or> (\<nexists>p w. resolution db 3 match_all [1, 1] 3 p w)) = False" by auto
  obtain res p where res: "resolve_type 3 [1, 1] ''m'' match_all db = returnR res" "rs_root_index res = snd (last p)"
    "resolution db 3 match_all [1, 1] 3 p (rs_weightsum res)" "rs_items res = members db 3 3 (fst (hd p))"
    using resolve_type_minimal [OF db(1) lam _ db(3) [symmetric], of "[1, 1]" 3 match_all, unfolded hit if_False] db(2) by auto
  have "last p = (1, 1)" using res(3) roots unfolding resolution_def by (metis redu_path_distinct singletonD)
  moreover have "rs_items res \<noteq> []" using res(3,4) by (simp add: resolution_def)
  ultimately show ?thesis using res(1,2) db(2) by auto
qed

lemma push_contexts_throws:
  "find (invalid_type db) ctxs = Some c \<Longrightarrow> push_contexts db ctxs ci st q = throwR (invalid_handle c)"
proof (induction ctxs arbitrary: ci st q)
  case (Cons x ctxs)
  then show ?case by (cases "invalid_type db x") (auto split: prod.splits)
qed simp

lemma derive_type_errors:
  assumes "db_ok U db"
  shows "if ty < 1 \<or> nof_recs db < ty then derive_type step to ty select countTags maxCount db = throwR (invalid_handle ty)
     else if to < 0 \<or> nof_recs db < to then derive_type step to ty select countTags maxCount db = throwR (invalid_handle to)
     else if maxCount < -1 then derive_type step to ty select countTags maxCount db = throwR (Error InvalidBoundary (dec_int maxCount))
     else \<exists>res. derive_type step to ty select countTags maxCount db = returnR res"
proof (cases "1 \<le> ty \<and> ty \<le> nof_recs db \<and> 0 \<le> to \<and> to \<le> nof_recs db \<and> -1 \<le> maxCount")
  case True
  then obtain res where "derive_type step to ty select countTags maxCount db = returnR res"
    using derive_type_outcome [OF assms, of ty to maxCount step select countTags] by blast
  then show ?thesis using True by auto
next
  case False
  then show ?thesis by (auto simp: derive_type_def invalid_type_def Let_def)
qed

lemma resolve_type_errors:
  assumes "db_ok U db"
  shows "case find (invalid_type db) ctxs of
       Some c \<Rightarrow> im_lookup name (db_idents db) \<noteq> 0 \<longrightarrow> resolve_type step ctxs name select db = throwR (invalid_handle c)
     | None \<Rightarrow> \<exists>res. resolve_type step ctxs name select db = returnR res"
proof (cases "find (invalid_type db) ctxs")
  case None
  then have "\<forall>c \<in> set ctxs. 0 \<le> c \<and> c \<le> nof_recs db" by (auto simp: find_None_iff invalid_type_def not_less)
  then have "\<exists>res. resolve_type step ctxs name select db = returnR res"
    using resolve_type_outcome [OF assms, of ctxs name _ step select]
    by (cases "im_lookup name (db_idents db) = 0") (auto simp: resolve_type_def)
  then show ?thesis using None by simp
next
  case (Some c)
  then show ?thesis using push_contexts_throws [OF Some] by (simp add: resolve_type_def Let_def)
qed



end
