(* ===== verification/NodeTree.thy ===== *)
theory NodeTree
  imports Prelude
begin

text \<open>
  The tree template of \<open>src/tree.hpp\<close>: nodes in one array, linked by indices that count from 1, 0
  for none. First the operations as the code has them; then what a node array represents, a list of
  parents; last the facts about adding a node, the depth first iteration and \<open>translate\<close>.
\<close>

subsection \<open>The operations\<close>

record 'a tree_node =
  tn_item :: 'a
  tn_next :: nat
  tn_chld :: nat

record 'a node_tree =
  nt_ar :: "'a tree_node list"
  nt_lastar :: "nat list"

definition tree_node_new :: "'a \<Rightarrow> 'a tree_node" where
  "tree_node_new item = \<lparr>tn_item = item, tn_next = 0, tn_chld = 0\<rparr>"

definition tree_new :: "'a \<Rightarrow> 'a node_tree" where
  "tree_new root = \<lparr>nt_ar = [tree_node_new root], nt_lastar = [0]\<rparr>"

text \<open>A vector read at an unsigned index: \<open>None\<close> outside the array.\<close>

abbreviation vec_nth :: "'a list \<Rightarrow> nat \<Rightarrow> 'a option" where
  "vec_nth xs n \<equiv> vec_at xs (int n)"

definition tree_at :: "'a node_tree \<Rightarrow> nat \<Rightarrow> 'a tree_node run" where
  "tree_at t idx = (if idx = 0 then throwR logic_error else liftR (vec_nth (nt_ar t) (idx - 1)))"

definition tree_set_item :: "'a node_tree \<Rightarrow> nat \<Rightarrow> 'a \<Rightarrow> 'a node_tree" where
  "tree_set_item t idx x = t\<lparr>nt_ar := (nt_ar t)[idx - 1 := (nt_ar t ! (idx - 1))\<lparr>tn_item := x\<rparr>]\<rparr>"

definition add_sibling :: "nat \<Rightarrow> 'a \<Rightarrow> 'a node_tree \<Rightarrow> ('a node_tree \<times> nat) run" where
  "add_sibling nodeidx item t =
     (if nodeidx = 0 then throwR logic_error
      else
        let newindex = length (nt_ar t) + 1;
            ar = nt_ar t @ [tree_node_new item];
            lastar = nt_lastar t @ [0] in
        bindR (liftR (vec_nth lastar (nodeidx - 1))) (\<lambda>lastref.
          if lastref = 0 then throwR logic_error
          else bindR (liftR (vec_nth ar (lastref - 1))) (\<lambda>last_node.
            returnR (\<lparr>nt_ar = ar[lastref - 1 := last_node\<lparr>tn_next := newindex\<rparr>],
                      nt_lastar = lastar[nodeidx - 1 := newindex]\<rparr>, newindex))))"

definition add_child :: "nat \<Rightarrow> 'a \<Rightarrow> 'a node_tree \<Rightarrow> ('a node_tree \<times> nat) run" where
  "add_child nodeidx item t =
     (if nodeidx = 0 then throwR logic_error
      else bindR (liftR (vec_nth (nt_ar t) (nodeidx - 1))) (\<lambda>node.
        if tn_chld node = 0 then
          let newindex = length (nt_ar t) + 1 in
          returnR (\<lparr>nt_ar = (nt_ar t @ [tree_node_new item])[nodeidx - 1 := node\<lparr>tn_chld := newindex\<rparr>],
                    nt_lastar = nt_lastar t @ [newindex]\<rparr>, newindex)
        else add_sibling (tn_chld node) item t))"

definition next_add_index :: "'a node_tree \<Rightarrow> nat" where
  "next_add_index t = length (nt_ar t) + 1"

text \<open>
  The depth first iterator: its position and the stack of the nodes to return to, the top first.
  \<open>df_pop\<close> is the loop that leaves finished nodes.
\<close>

datatype df_iterator = DfIterator (df_position: nat) (df_stack: "nat list")

definition df_begin :: "'a node_tree \<Rightarrow> df_iterator" where
  "df_begin t = DfIterator 0 (if length (nt_ar t) \<noteq> 0 then [length (nt_ar t) + 1] else [])"

definition df_end :: "'a node_tree \<Rightarrow> df_iterator" where
  "df_end t = DfIterator (length (nt_ar t)) []"

definition df_depth :: "df_iterator \<Rightarrow> nat" where
  "df_depth it = (if df_stack it = [] then 0 else length (df_stack it) - 1)"

fun df_pop :: "'a tree_node list \<Rightarrow> nat \<Rightarrow> nat list \<Rightarrow> df_iterator option" where
  "df_pop ar pos [] = Some (DfIterator pos [])"
| "df_pop ar pos (b # st) =
     (if st = [] then Some (DfIterator (b - 1) [])
      else do { node \<leftarrow> vec_nth ar (b - 1);
                if tn_next node \<noteq> 0 then Some (DfIterator (tn_next node - 1) st)
                else df_pop ar (b - 1) st })"

definition df_skip :: "'a tree_node list \<Rightarrow> df_iterator \<Rightarrow> df_iterator run" where
  "df_skip ar it =
     bindR (liftR (vec_nth ar (df_position it))) (\<lambda>node.
       if tn_chld node \<noteq> 0 then returnR (DfIterator (tn_chld node - 1) ((df_position it + 1) # df_stack it))
       else if tn_next node \<noteq> 0 then returnR (DfIterator (tn_next node - 1) (df_stack it))
       else if df_stack it \<noteq> [] then liftR (df_pop ar (df_position it) (df_stack it))
       else throwR logic_error)"

text \<open>The loop over a tree: the depth and the item of each node from an iterator to the end.\<close>

partial_function (option) df_range :: "'a tree_node list \<Rightarrow> df_iterator \<Rightarrow> (nat \<times> 'a) list run" where
  "df_range ar it =
     (if df_position it = length ar then returnR []
      else bindR (liftR (vec_nth ar (df_position it))) (\<lambda>node.
           bindR (df_skip ar it) (\<lambda>it'.
           bindR (df_range ar it') (\<lambda>rest. returnR ((df_depth it, tn_item node) # rest)))))"

declare df_range.simps [code]

definition tree_list :: "'a node_tree \<Rightarrow> (nat \<times> 'a) list run" where
  "tree_list t = df_range (nt_ar t) (df_begin t)"

text \<open>
  \<open>translate\<close>: the loop over the siblings below a node, then the loop over the stack, the top first.
  The translation of an item may read outside an array.
\<close>

partial_function (option) translate_children ::
    "'a tree_node list \<Rightarrow> ('a \<Rightarrow> 'b option) \<Rightarrow> nat \<Rightarrow> nat \<Rightarrow> 'b node_tree \<Rightarrow> (nat \<times> nat) list \<Rightarrow>
     ('b node_tree \<times> (nat \<times> nat) list) run" where
  "translate_children ar f rt_ndidx chld rt stack =
     (if chld = 0 then returnR (rt, stack)
      else bindR (liftR (vec_nth ar (chld - 1))) (\<lambda>node.
           bindR (liftR (f (tn_item node))) (\<lambda>item.
           bindR (add_child rt_ndidx item rt) (\<lambda>(rt', rt_chld).
             translate_children ar f rt_ndidx (tn_next node) rt' ((chld, rt_chld) # stack)))))"

declare translate_children.simps [code]

partial_function (option) translate_loop ::
    "'a tree_node list \<Rightarrow> ('a \<Rightarrow> 'b option) \<Rightarrow> 'b node_tree \<Rightarrow> (nat \<times> nat) list \<Rightarrow> 'b node_tree run" where
  "translate_loop ar f rt stack =
     (case stack of
        [] \<Rightarrow> returnR rt
      | (tree_ndidx, rt_ndidx) # rest \<Rightarrow>
          bindR (liftR (vec_nth ar (tree_ndidx - 1))) (\<lambda>node.
          bindR (translate_children ar f rt_ndidx (tn_chld node) rt rest) (\<lambda>(rt', stack').
            translate_loop ar f rt' stack')))"

declare translate_loop.simps [code]

definition tree_translate :: "('a \<Rightarrow> 'b option) \<Rightarrow> 'a node_tree \<Rightarrow> 'b node_tree run" where
  "tree_translate f t =
     bindR (tree_at t 1) (\<lambda>root.
     bindR (liftR (f (tn_item root))) (\<lambda>item.
       translate_loop (nt_ar t) f (tree_new item) [(1, 1)]))"

subsection \<open>What a node array represents\<close>

text \<open>
  A tree is the list \<open>ps\<close> of the parents of the nodes 2, 3, ...: a node is added behind its
  parent. The links give for each node its children in the order of their indices, and the first
  child keeps the last one.
\<close>

definition kids :: "nat list \<Rightarrow> nat \<Rightarrow> nat list" where
  "kids ps i = filter (\<lambda>c. ps ! (c - 2) = i) [Suc i..<length ps + 2]"

fun sib_linked :: "'a tree_node list \<Rightarrow> nat list \<Rightarrow> bool" where
  "sib_linked ar [] \<longleftrightarrow> True"
| "sib_linked ar (c # cs) \<longleftrightarrow> tn_next (ar ! (c - 1)) = (case cs of [] \<Rightarrow> 0 | d # _ \<Rightarrow> d) \<and> sib_linked ar cs"

definition tree_rep :: "nat list \<Rightarrow> 'a node_tree \<Rightarrow> bool" where
  "tree_rep ps t \<longleftrightarrow>
     length (nt_ar t) = Suc (length ps) \<and> length (nt_lastar t) = Suc (length ps) \<and>
     (\<forall>c < length ps. 1 \<le> ps ! c \<and> ps ! c \<le> Suc c) \<and>
     tn_next (nt_ar t ! 0) = 0 \<and>
     (\<forall>i. 1 \<le> i \<longrightarrow> i \<le> Suc (length ps) \<longrightarrow>
        tn_chld (nt_ar t ! (i - 1)) = (case kids ps i of [] \<Rightarrow> 0 | c # _ \<Rightarrow> c) \<and>
        sib_linked (nt_ar t) (kids ps i) \<and>
        (kids ps i \<noteq> [] \<longrightarrow> nt_lastar t ! (hd (kids ps i) - 1) = last (kids ps i)))"

lemma kids_bounds: "c \<in> set (kids ps i) \<Longrightarrow> i < c \<and> c \<le> Suc (length ps) \<and> ps ! (c - 2) = i"
  by (auto simp: kids_def)

lemma kids_snoc:
  assumes "1 \<le> i" "i \<le> Suc (length ps)"
  shows "kids (ps @ [p]) i = kids ps i @ (if p = i then [length ps + 2] else [])"
proof -
  have "filter (\<lambda>c. (ps @ [p]) ! (c - 2) = i) [Suc i..<length ps + 2] = kids ps i"
    unfolding kids_def using assms(1) by (intro filter_cong) (auto simp: nth_append)
  then show ?thesis
    using assms by (auto simp: kids_def nth_append)
qed

lemma kids_beyond: "length ps < i \<Longrightarrow> kids ps i = []"
  by (simp add: kids_def)

lemma tree_repD:
  assumes "tree_rep ps t"
  shows "length (nt_ar t) = Suc (length ps)" "length (nt_lastar t) = Suc (length ps)"
    "tn_next (nt_ar t ! 0) = 0"
    "\<And>i. 1 \<le> i \<Longrightarrow> i \<le> Suc (length ps) \<Longrightarrow> tn_chld (nt_ar t ! (i - 1)) = (case kids ps i of [] \<Rightarrow> 0 | c # _ \<Rightarrow> c)"
    "\<And>i. 1 \<le> i \<Longrightarrow> i \<le> Suc (length ps) \<Longrightarrow> sib_linked (nt_ar t) (kids ps i)"
    "\<And>i. 1 \<le> i \<Longrightarrow> i \<le> Suc (length ps) \<Longrightarrow> kids ps i \<noteq> [] \<Longrightarrow> nt_lastar t ! (hd (kids ps i) - 1) = last (kids ps i)"
    "\<And>c. c < length ps \<Longrightarrow> 1 \<le> ps ! c \<and> ps ! c \<le> Suc c"
  using assms by (auto simp: tree_rep_def)

lemma tree_rep_new: "tree_rep [] (tree_new x)"
  by (auto simp: tree_rep_def tree_new_def tree_node_new_def kids_def)

lemma sib_linked_frame:
  "sib_linked ar cs \<Longrightarrow> (\<And>c. c \<in> set cs \<Longrightarrow> tn_next (ar' ! (c - 1)) = tn_next (ar ! (c - 1))) \<Longrightarrow> sib_linked ar' cs"
  by (induction cs) auto

lemma sib_linked_snoc:
  assumes "sib_linked ar cs" "cs \<noteq> []"
    "\<And>c. c \<in> set cs \<Longrightarrow> c \<noteq> last cs \<Longrightarrow> tn_next (ar' ! (c - 1)) = tn_next (ar ! (c - 1))"
    "tn_next (ar' ! (last cs - 1)) = new" "tn_next (ar' ! (new - 1)) = 0" "distinct cs"
  shows "sib_linked ar' (cs @ [new])"
  using assms
proof (induction cs)
  case (Cons c cs)
  show ?case
  proof (cases "cs = []")
    case True
    then show ?thesis using Cons.prems by simp
  next
    case False
    have "sib_linked ar' (cs @ [new])"
      by (rule Cons.IH) (use Cons.prems False in auto)
    moreover have "c \<noteq> last cs" using Cons.prems(6) False by auto
    ultimately show ?thesis using Cons.prems(1) Cons.prems(3) [of c] False by (cases cs) auto
  qed
qed simp

lemma kids_distinct [simp]: "distinct (kids ps i)"
  by (simp add: kids_def)

subsection \<open>Adding a node\<close>

text \<open>
  A new array with one more node represents the list with the new parent, if it differs from the
  old one in what the three parts of the lemma say.
\<close>

lemma tree_rep_snoc:
  assumes rep: "tree_rep ps t" and p: "1 \<le> p" "p \<le> Suc (length ps)"
    and len: "length (nt_ar t') = length ps + 2" "length (nt_lastar t') = length ps + 2"
    and new: "tn_next (nt_ar t' ! Suc (length ps)) = 0" "tn_chld (nt_ar t' ! Suc (length ps)) = 0"
    and chld: "\<And>i. i \<le> length ps \<Longrightarrow> tn_chld (nt_ar t' ! i) =
      (if kids ps p = [] \<and> i = p - 1 then length ps + 2 else tn_chld (nt_ar t ! i))"
    and nxt: "\<And>i. i \<le> length ps \<Longrightarrow> tn_next (nt_ar t' ! i) =
      (if kids ps p \<noteq> [] \<and> i = last (kids ps p) - 1 then length ps + 2 else tn_next (nt_ar t ! i))"
    and lastar: "\<And>i. i \<le> length ps \<Longrightarrow> kids ps p = [] \<or> i \<noteq> hd (kids ps p) - 1 \<Longrightarrow> nt_lastar t' ! i = nt_lastar t ! i"
      "nt_lastar t' ! ((if kids ps p = [] then length ps + 2 else hd (kids ps p)) - 1) = length ps + 2"
  shows "tree_rep (ps @ [p]) t'"
proof -
  note r = tree_repD [OF rep]
  let ?n = "length ps + 2"
  have node: "tn_chld (nt_ar t' ! (i - 1)) = (case kids (ps @ [p]) i of [] \<Rightarrow> 0 | c # _ \<Rightarrow> c) \<and>
      sib_linked (nt_ar t') (kids (ps @ [p]) i) \<and>
      (kids (ps @ [p]) i \<noteq> [] \<longrightarrow> nt_lastar t' ! (hd (kids (ps @ [p]) i) - 1) = last (kids (ps @ [p]) i))"
    if i: "1 \<le> i" "i \<le> ?n" for i
  proof (cases "i = ?n")
    case True
    then show ?thesis using new by (simp add: kids_beyond)
  next
    case False
    with i have i': "i \<le> Suc (length ps)" by simp
    note k = kids_snoc [OF i(1) i', of p]
    have bounds: "c - 1 \<le> length ps \<and> c \<noteq> 0" if "c \<in> set (kids ps j)" for c j
      using kids_bounds [OF that] by auto
    show ?thesis
    proof (cases "p = i")
      case pi: True
      show ?thesis
      proof (cases "kids ps p = []")
        case True
        then show ?thesis using k pi new(1) chld [of "i - 1"] lastar(2) i' i by simp
      next
        case ne: False
        have "sib_linked (nt_ar t') (kids ps p @ [?n])"
        proof (rule sib_linked_snoc)
          show "sib_linked (nt_ar t) (kids ps p)" using r(5) p by blast
          show "tn_next (nt_ar t' ! (c - 1)) = tn_next (nt_ar t ! (c - 1))" if "c \<in> set (kids ps p)" "c \<noteq> last (kids ps p)" for c
          proof -
            have "c - 1 \<noteq> last (kids ps p) - 1" using that bounds [OF that(1)] bounds [OF last_in_set [OF ne]] by auto
            then show ?thesis using nxt [of "c - 1"] bounds [OF that(1)] by simp
          qed
          show "tn_next (nt_ar t' ! (last (kids ps p) - 1)) = ?n" using nxt bounds [OF last_in_set [OF ne]] ne by simp
        qed (use ne new in simp_all)
        moreover have "hd (kids ps p @ [?n]) = hd (kids ps p)" using ne by simp
        ultimately show ?thesis
          using k pi ne chld [of "i - 1"] r(4) [OF i(1) i'] lastar(2) i' i(1) by (simp split: list.splits)
      qed
    next
      case other: False
      have disj: "c \<notin> set (kids ps i)" if "c \<in> set (kids ps p)" for c
        using that other kids_bounds by metis
      have "sib_linked (nt_ar t') (kids ps i)"
      proof (rule sib_linked_frame [OF r(5) [OF i(1) i']])
        fix c
        assume c: "c \<in> set (kids ps i)"
        have "kids ps p = [] \<or> c - 1 \<noteq> last (kids ps p) - 1"
          using disj [OF last_in_set] bounds [OF last_in_set] bounds [OF c] c by (metis Suc_pred' neq0_conv)
        then show "tn_next (nt_ar t' ! (c - 1)) = tn_next (nt_ar t ! (c - 1))"
          using nxt [of "c - 1"] bounds [OF c] by auto
      qed
      moreover have "nt_lastar t' ! (hd (kids ps i) - 1) = last (kids ps i)" if ne: "kids ps i \<noteq> []"
      proof -
        have "kids ps p = [] \<or> hd (kids ps i) - 1 \<noteq> hd (kids ps p) - 1"
          using disj [OF hd_in_set] bounds [OF hd_in_set] bounds [OF hd_in_set [OF ne]] hd_in_set [OF ne] by (metis Suc_pred' neq0_conv)
        then show ?thesis using lastar(1) bounds [OF hd_in_set [OF ne]] r(6) [OF i(1) i' ne] by simp
      qed
      moreover have "i - 1 \<noteq> p - 1" using other i(1) p(1) by auto
      ultimately show ?thesis using k other chld [of "i - 1"] r(4) [OF i(1) i'] i(1) i' by auto
    qed
  qed
  have "tn_next (nt_ar t' ! 0) = 0"
    using nxt [of 0] r(3) kids_bounds [OF last_in_set [of "kids ps p"]] p(1) by (cases "kids ps p = []") auto
  moreover have "1 \<le> (ps @ [p]) ! c \<and> (ps @ [p]) ! c \<le> Suc c" if "c < length (ps @ [p])" for c
    using that r(7) p by (cases "c = length ps") (auto simp: nth_append)
  ultimately show ?thesis unfolding tree_rep_def using len node by simp
qed

lemma vec_nth_append: "n < length xs \<Longrightarrow> vec_nth (xs @ ys) n = Some (xs ! n)"
  by (simp add: vec_at_def nth_append)

lemma add_child_rep:
  assumes rep: "tree_rep ps t" and p: "1 \<le> p" "p \<le> Suc (length ps)"
  shows "\<exists>t'. add_child p x t = returnR (t', length ps + 2) \<and> tree_rep (ps @ [p]) t' \<and>
    map tn_item (nt_ar t') = map tn_item (nt_ar t) @ [x]"
proof -
  note r = tree_repD [OF rep]
  have at: "vec_nth (nt_ar t) (p - 1) = Some (nt_ar t ! (p - 1))" using p r(1) by (intro vec_at_nat) simp
  let ?n = "length ps + 2"
  show ?thesis
  proof (cases "kids ps p")
    case Nil
    let ?t' = "\<lparr>nt_ar = (nt_ar t @ [tree_node_new x])[p - 1 := (nt_ar t ! (p - 1))\<lparr>tn_chld := ?n\<rparr>],
      nt_lastar = nt_lastar t @ [?n]\<rparr>"
    have "add_child p x t = returnR (?t', ?n)"
      using p at r(1) r(4) [OF p] Nil by (simp add: add_child_def)
    moreover have "tree_rep (ps @ [p]) ?t'"
      by (rule tree_rep_snoc [OF rep p]) (use r(1,2) p Nil in \<open>auto simp: nth_append nth_list_update tree_node_new_def\<close>)
    moreover have "map tn_item (nt_ar ?t') = map tn_item (nt_ar t) @ [x]"
      using p r(1) by (intro nth_equalityI) (auto simp: nth_append nth_list_update tree_node_new_def)
    ultimately show ?thesis by blast
  next
    case (Cons c cs)
    let ?l = "last (kids ps p)"
    have c: "1 \<le> c" "c \<le> Suc (length ps)" and l: "1 \<le> ?l" "?l \<le> Suc (length ps)"
      using kids_bounds [of c ps p] kids_bounds [of ?l ps p] Cons by auto
    let ?t' = "\<lparr>nt_ar = (nt_ar t @ [tree_node_new x])[?l - 1 := (nt_ar t ! (?l - 1))\<lparr>tn_next := ?n\<rparr>],
      nt_lastar = (nt_lastar t @ [0])[c - 1 := ?n]\<rparr>"
    have lastref: "vec_nth (nt_lastar t @ [0]) (c - 1) = Some ?l"
      by (subst vec_nth_append) (use r(6) [OF p] c r(2) Cons in auto)
    have lastnode: "vec_nth (nt_ar t @ [tree_node_new x]) (?l - 1) = Some (nt_ar t ! (?l - 1))"
      by (rule vec_nth_append) (use l r(1) in auto)
    have "tn_chld (nt_ar t ! (p - 1)) = c" using r(4) [OF p] Cons by simp
    then have "add_child p x t = returnR (?t', ?n)"
      using p c l at lastref lastnode r(1) by (simp add: add_child_def add_sibling_def Let_def)
    moreover have "tree_rep (ps @ [p]) ?t'"
      by (rule tree_rep_snoc [OF rep p]) (use r(1,2) p c l Cons in \<open>auto simp: nth_append nth_list_update tree_node_new_def\<close>)
    moreover have "map tn_item (nt_ar ?t') = map tn_item (nt_ar t) @ [x]"
      using l r(1) by (intro nth_equalityI) (auto simp: nth_append nth_list_update tree_node_new_def)
    ultimately show ?thesis by blast
  qed
qed

lemma tree_set_item_rep:
  assumes "tree_rep ps t"
  shows "tree_rep ps (tree_set_item t i x)"
    "map tn_item (nt_ar (tree_set_item t i x)) = (map tn_item (nt_ar t))[i - 1 := x]"
proof -
  have same: "tn_next (nt_ar (tree_set_item t i x) ! j) = tn_next (nt_ar t ! j)"
    "tn_chld (nt_ar (tree_set_item t i x) ! j) = tn_chld (nt_ar t ! j)" for j
    by (cases "i - 1 < length (nt_ar t)"; auto simp: tree_set_item_def nth_list_update list_update_beyond)+
  have "sib_linked (nt_ar (tree_set_item t i x)) cs = sib_linked (nt_ar t) cs" for cs
    by (induction cs) (simp_all add: same)
  then show "tree_rep ps (tree_set_item t i x)"
    using assms same by (simp add: tree_rep_def) (simp add: tree_set_item_def)
  show "map tn_item (nt_ar (tree_set_item t i x)) = (map tn_item (nt_ar t))[i - 1 := x]"
    by (simp add: tree_set_item_def map_update)
qed

subsection \<open>The tree and its depth first iteration\<close>

datatype 'a rose = Rose (rose_item: 'a) (rose_kids: "'a rose list")

fun rose_list :: "nat \<Rightarrow> 'a rose \<Rightarrow> (nat \<times> 'a) list" where
  "rose_list d (Rose x ts) = (d, x) # concat (map (rose_list (Suc d)) ts)"

function rose_of :: "nat list \<Rightarrow> 'a list \<Rightarrow> nat \<Rightarrow> 'a rose" where
  "rose_of ps xs i = Rose (xs ! (i - 1)) (map (rose_of ps xs) (kids ps i))"
  by pat_completeness auto
termination
  by (relation "measure (\<lambda>(ps, xs, i). length ps + 2 - i)") (auto dest: kids_bounds)

declare rose_of.simps [simp del]

lemma rose_item_of [simp]: "rose_item (rose_of ps xs i) = xs ! (i - 1)"
  by (subst rose_of.simps) simp

text \<open>The iterator after the node \<open>i\<close> and all nodes below it.\<close>

definition df_leave :: "'a tree_node list \<Rightarrow> nat \<Rightarrow> nat list \<Rightarrow> df_iterator option" where
  "df_leave ar i st =
     (if tn_next (ar ! (i - 1)) \<noteq> 0 then Some (DfIterator (tn_next (ar ! (i - 1)) - 1) st) else df_pop ar (i - 1) st)"

lemma df_range_step:
  assumes "i < length ar"
  shows "df_range ar (DfIterator i st) =
    bindR (df_skip ar (DfIterator i st)) (\<lambda>it'. bindR (df_range ar it') (\<lambda>rest.
      returnR ((length st - 1, tn_item (ar ! i)) # rest)))"
  using assms by (subst df_range.simps) (simp add: df_depth_def)

lemma df_range_node:
  assumes rep: "tree_rep ps t" and i: "1 \<le> i" "i \<le> Suc (length ps)" and st: "st \<noteq> []"
    and leave: "df_leave (nt_ar t) i st = Some it" "df_range (nt_ar t) it = returnR rest"
  shows "df_range (nt_ar t) (DfIterator (i - 1) st) =
    returnR (rose_list (length st - 1) (rose_of ps (map tn_item (nt_ar t)) i) @ rest)"
  using i st leave
proof (induction "length ps + 2 - i" arbitrary: i st it rest rule: less_induct)
  case less
  let ?ar = "nt_ar t"
  let ?r = "rose_of ps (map tn_item ?ar)"
  note r = tree_repD [OF rep]
  note i = less.prems(1,2)
  have at: "vec_nth ?ar (i - 1) = Some (?ar ! (i - 1))" by (rule vec_at_nat) (use i r(1) in auto)
  have i_ar: "i - 1 < length ?ar" using i r(1) by simp
  have root: "?r i = Rose (tn_item (?ar ! (i - 1))) (map ?r (kids ps i))"
    using i_ar by (simp add: rose_of.simps [of ps _ i])
  show ?case
  proof (cases "kids ps i")
    case Nil
    have "tn_chld (?ar ! (i - 1)) = 0" using r(4) [OF i] Nil by simp
    then have "df_skip ?ar (DfIterator (i - 1) st) = returnR it"
      using at less.prems(3,4) by (auto simp: df_skip_def df_leave_def split: if_splits)
    then show ?thesis
      using df_range_step [OF i_ar, of st] less.prems(5) root Nil by simp
  next
    case (Cons c cs)
    have below: "df_range ?ar (DfIterator (hd ks - 1) (i # st)) =
        returnR (concat (map (rose_list (length st)) (map ?r ks)) @ rest)"
      if "ks \<noteq> []" "sib_linked ?ar ks" "set ks \<subseteq> set (kids ps i)" for ks
      using that
    proof (induction ks)
      case (Cons k ks)
      have k: "i < k" "k \<le> Suc (length ps)" using kids_bounds [of k ps i] Cons.prems(3) by auto
      have "\<exists>it'. df_leave ?ar k (i # st) = Some it' \<and>
        df_range ?ar it' = returnR (concat (map (rose_list (length st)) (map ?r ks)) @ rest)"
      proof (cases "ks = []")
        case True
        then have "df_leave ?ar k (i # st) = df_leave ?ar i st"
          using Cons.prems(2) less.prems(3) at by (simp add: df_leave_def)
        then show ?thesis using less.prems(4,5) True by simp
      next
        case False
        have "hd ks \<noteq> 0" using kids_bounds [of "hd ks" ps i] Cons.prems(3) hd_in_set [OF False] by auto
        then have "df_leave ?ar k (i # st) = Some (DfIterator (hd ks - 1) (i # st))"
          using Cons.prems(2) False by (cases ks) (auto simp: df_leave_def)
        moreover have "df_range ?ar (DfIterator (hd ks - 1) (i # st)) =
            returnR (concat (map (rose_list (length st)) (map ?r ks)) @ rest)"
          by (rule Cons.IH [OF False]) (use Cons.prems in auto)
        ultimately show ?thesis by blast
      qed
      then obtain it' where it': "df_leave ?ar k (i # st) = Some it'"
        "df_range ?ar it' = returnR (concat (map (rose_list (length st)) (map ?r ks)) @ rest)"
        by blast
      have "df_range ?ar (DfIterator (k - 1) (i # st)) =
          returnR (rose_list (length (i # st) - 1) (?r k) @ concat (map (rose_list (length st)) (map ?r ks)) @ rest)"
        by (rule less.hyps [OF _ _ k(2) _ it']) (use k i in auto)
      then show ?case by simp
    qed simp
    have c: "c \<noteq> 0" using kids_bounds [of c ps i] Cons by auto
    have "tn_chld (?ar ! (i - 1)) = c" using r(4) [OF i] Cons by simp
    then have "df_skip ?ar (DfIterator (i - 1) st) = returnR (DfIterator (c - 1) (i # st))"
      using at c i by (simp add: df_skip_def)
    moreover have "df_range ?ar (DfIterator (c - 1) (i # st)) =
        returnR (concat (map (rose_list (length st)) (map ?r (kids ps i))) @ rest)"
      using below [of "kids ps i"] r(5) [OF i] Cons by simp
    ultimately show ?thesis
      using df_range_step [OF i_ar, of st] less.prems(3) root by (simp add: Suc_pred')
  qed
qed

lemma tree_list_rep:
  assumes rep: "tree_rep ps t"
  shows "tree_list t = returnR (rose_list 0 (rose_of ps (map tn_item (nt_ar t)) 1))"
proof -
  note r = tree_repD [OF rep]
  let ?fin = "DfIterator (length (nt_ar t)) []"
  have "df_leave (nt_ar t) 1 [length (nt_ar t) + 1] = Some ?fin"
    using r(3) by (simp add: df_leave_def)
  moreover have "df_range (nt_ar t) ?fin = returnR []" by (subst df_range.simps) simp
  ultimately have "df_range (nt_ar t) (DfIterator (1 - 1) [length (nt_ar t) + 1]) =
      returnR (rose_list (length [length (nt_ar t) + 1] - 1) (rose_of ps (map tn_item (nt_ar t)) 1) @ [])"
    by (intro df_range_node [OF rep]) simp_all
  then show ?thesis using r(1) by (simp add: tree_list_def df_begin_def)
qed

subsection \<open>Translation\<close>

lemma kids_replicate:
  assumes "1 \<le> p" "p \<le> Suc (length ps)" "1 \<le> i"
  shows "kids (ps @ replicate m p) i = kids ps i @ (if i = p then [length ps + 2..<length ps + 2 + m] else [])"
proof (induction m)
  case (Suc m)
  have ps: "ps @ replicate (Suc m) p = (ps @ replicate m p) @ [p]" by (simp add: replicate_append_same)
  show ?case
  proof (cases "i \<le> Suc (length (ps @ replicate m p))")
    case True
    then show ?thesis unfolding ps using kids_snoc [OF assms(3), of "ps @ replicate m p" p] Suc.IH by auto
  next
    case False
    then have "i \<noteq> p" using assms(2) by auto
    then show ?thesis using False assms(2) by (simp add: kids_beyond)
  qed
qed simp

lemma translate_children_rep:
  assumes rep: "tree_rep ps t" and p: "1 \<le> p" "p \<le> Suc (length ps)"
    and ks: "sib_linked ar ks" "\<forall>k \<in> set ks. 1 \<le> k \<and> k \<le> length ar \<and> f (tn_item (ar ! (k - 1))) = Some (g k)"
  shows "\<exists>t'. translate_children ar f p (case ks of [] \<Rightarrow> 0 | k # _ \<Rightarrow> k) t stack =
      returnR (t', rev (zip ks [length ps + 2..<length ps + 2 + length ks]) @ stack) \<and>
    tree_rep (ps @ replicate (length ks) p) t' \<and> map tn_item (nt_ar t') = map tn_item (nt_ar t) @ map g ks"
  using assms
proof (induction ks arbitrary: ps t stack)
  case Nil
  then show ?case by (subst translate_children.simps) simp
next
  case (Cons k ks)
  let ?n = "length ps + 2"
  obtain t1 where t1: "add_child p (g k) t = returnR (t1, ?n)" "tree_rep (ps @ [p]) t1"
    "map tn_item (nt_ar t1) = map tn_item (nt_ar t) @ [g k]"
    using add_child_rep [OF Cons.prems(1-3)] by blast
  obtain t' where t': "translate_children ar f p (case ks of [] \<Rightarrow> 0 | k # _ \<Rightarrow> k) t1 ((k, ?n) # stack) =
      returnR (t', rev (zip ks [length (ps @ [p]) + 2..<length (ps @ [p]) + 2 + length ks]) @ (k, ?n) # stack)"
    "tree_rep ((ps @ [p]) @ replicate (length ks) p) t'"
    "map tn_item (nt_ar t') = map tn_item (nt_ar t1) @ map g ks"
    using Cons.IH [OF t1(2) p(1)] Cons.prems by auto
  have k: "k \<noteq> 0" using Cons.prems(5) by auto
  have at: "vec_nth ar (k - 1) = Some (ar ! (k - 1))" by (rule vec_at_nat) (use Cons.prems(5) in auto)
  have "[?n..<?n + length (k # ks)] = ?n # [Suc ?n..<Suc ?n + length ks]" by (subst upt_conv_Cons) auto
  moreover have "translate_children ar f p k t stack =
      translate_children ar f p (case ks of [] \<Rightarrow> 0 | k # _ \<Rightarrow> k) t1 ((k, ?n) # stack)"
    using Cons.prems(4,5) k at t1(1) by (subst translate_children.simps) simp
  ultimately show ?case using t' t1(3) by simp
qed

text \<open>
  The state of the loop: \<open>D\<close> are the nodes copied, \<open>\<phi>\<close> their copies, \<open>is\<close> the nodes on the stack, whose
  children are still to be copied.
\<close>

definition copying :: "nat list \<Rightarrow> (nat \<Rightarrow> 'b) \<Rightarrow> nat set \<Rightarrow> (nat \<Rightarrow> nat) \<Rightarrow> nat list \<Rightarrow> nat list \<Rightarrow> 'b list \<Rightarrow> bool" where
  "copying ps g D \<phi> is ps' xs' \<longleftrightarrow>
     D \<subseteq> {1..Suc (length ps)} \<and> 1 \<in> D \<and> \<phi> 1 = 1 \<and> length xs' = Suc (length ps') \<and>
     inj_on \<phi> D \<and> distinct is \<and> set is \<subseteq> D \<and>
     (\<forall>i \<in> D. 1 \<le> \<phi> i \<and> \<phi> i \<le> Suc (length ps') \<and> xs' ! (\<phi> i - 1) = g i \<and>
        (if i \<in> set is then kids ps' (\<phi> i) = [] \<and> set (kids ps i) \<inter> D = {}
         else kids ps' (\<phi> i) = map \<phi> (kids ps i) \<and> set (kids ps i) \<subseteq> D)) \<and>
     (\<forall>i c. c \<in> D \<longrightarrow> 1 \<le> i \<longrightarrow> c \<in> set (kids ps i) \<longrightarrow> i \<in> D)"

lemma copying_start: "copying ps g {1} (\<lambda>_. 1) [1] [] [g 1]"
  using kids_bounds [of 1 ps] by (auto simp: copying_def kids_beyond)

lemma copying_end:
  assumes "copying ps g D \<phi> [] ps' xs'" "i \<in> D" "length xs = Suc (length ps)" "\<forall>i \<in> D. g i = h (xs ! (i - 1))"
  shows "rose_of ps' xs' (\<phi> i) = map_rose h (rose_of ps xs i)"
  using assms(2)
proof (induction "length ps + 2 - i" arbitrary: i rule: less_induct)
  case less
  have i: "kids ps' (\<phi> i) = map \<phi> (kids ps i)" "set (kids ps i) \<subseteq> D" "xs' ! (\<phi> i - 1) = g i"
    using assms(1) less.prems by (auto simp: copying_def)
  have "rose_of ps' xs' (\<phi> c) = map_rose h (rose_of ps xs c)" if "c \<in> set (kids ps i)" for c
    by (rule less.hyps) (use kids_bounds [OF that] i(2) that in auto)
  then show ?case
    using i assms(4) less.prems by (simp add: rose_of.simps [of _ _ i] rose_of.simps [of _ _ "\<phi> i"])
qed

lemma copying_step:
  assumes inv: "copying ps g D \<phi> (i # is) ps' xs'"
  defines "ks \<equiv> kids ps i"
  defines "js \<equiv> [length ps' + 2..<length ps' + 2 + length ks]"
  defines "\<psi> \<equiv> (\<lambda>c. case map_of (zip ks js) c of None \<Rightarrow> \<phi> c | Some j \<Rightarrow> j)"
  shows "copying ps g (D \<union> set ks) \<psi> (rev ks @ is) (ps' @ replicate (length ks) (\<phi> i)) (xs' @ map g ks)"
    "map (\<lambda>i. (i, \<psi> i)) (rev ks @ is) = rev (zip ks js) @ map (\<lambda>i. (i, \<phi> i)) is"
    "set ks \<inter> D = {}"
proof -
  let ?ps' = "ps' @ replicate (length ks) (\<phi> i)"
  have i: "i \<in> D" "1 \<le> i" "i \<notin> set is" "set ks \<inter> D = {}" "kids ps' (\<phi> i) = []" "1 \<le> \<phi> i" "\<phi> i \<le> Suc (length ps')"
    and D: "D \<subseteq> {1..Suc (length ps)}" "1 \<in> D" "inj_on \<phi> D" "set is \<subseteq> D" "length xs' = Suc (length ps')"
    using inv by (auto simp: copying_def ks_def)
  show disj: "set ks \<inter> D = {}" by (rule i(4))
  have len: "length js = length ks" by (simp only: js_def length_upt diff_add_inverse)
  have js_nth: "js ! j = length ps' + 2 + j" if "j < length ks" for j
    unfolding js_def by (rule nth_upt) (use that in simp)
  have dist: "distinct ks" by (simp add: ks_def)
  have old: "\<psi> c = \<phi> c" if "c \<in> D" for c
    using that i(4) len by (auto simp: \<psi>_def split: option.splits dest!: map_of_SomeD set_zip_leftD)
  have nw: "\<psi> (ks ! j) = length ps' + 2 + j" if "j < length ks" for j
    using that len dist map_of_zip_nth [of ks js j] js_nth by (simp add: \<psi>_def)
  have map_ks: "map \<psi> ks = js" by (rule nth_equalityI) (use nw len js_nth in auto)
  have "map (\<lambda>i. (i, \<psi> i)) ks = zip ks js" using zip_map2 [of ks \<psi> ks] map_ks by (simp add: zip_same_conv_map)
  moreover have "map (\<lambda>i. (i, \<psi> i)) is = map (\<lambda>i. (i, \<phi> i)) is" using old D(4) by auto
  ultimately show "map (\<lambda>i. (i, \<psi> i)) (rev ks @ is) = rev (zip ks js) @ map (\<lambda>i. (i, \<phi> i)) is"
    by (simp add: rev_map [symmetric])
  have nodes: "c \<in> set ks \<Longrightarrow> \<exists>j < length ks. c = ks ! j \<and> \<psi> c = length ps' + 2 + j" for c
    using nw by (metis in_set_conv_nth)
  have bound: "\<psi> c \<le> Suc (length ps')" if "c \<in> D" for c using that inv old by (auto simp: copying_def)
  have inj: "inj_on \<psi> (D \<union> set ks)"
  proof (rule inj_onI)
    fix a b
    assume "a \<in> D \<union> set ks" "b \<in> D \<union> set ks" "\<psi> a = \<psi> b"
    then show "a = b"
      using old D(3) bound [of a] bound [of b] nodes [of a] nodes [of b] by (fastforce dest: inj_onD)
  qed
  have unique: "c \<in> set ks \<Longrightarrow> c \<in> set (kids ps k) \<Longrightarrow> k = i" for c k
    using kids_bounds by (metis ks_def)
  have kids': "kids ?ps' k = kids ps' k @ (if k = \<phi> i then js else [])" if "1 \<le> k" for k
    unfolding js_def by (rule kids_replicate [OF i(6,7) that])
  have parents: "k \<in> D \<union> set ks" if "c \<in> D \<union> set ks" "1 \<le> k" "c \<in> set (kids ps k)" for c k
    using that inv unique i(1) by (auto simp: copying_def)
  have node: "1 \<le> \<psi> c \<and> \<psi> c \<le> Suc (length ?ps') \<and> (xs' @ map g ks) ! (\<psi> c - 1) = g c \<and>
      (if c \<in> set (rev ks @ is) then kids ?ps' (\<psi> c) = [] \<and> set (kids ps c) \<inter> (D \<union> set ks) = {}
       else kids ?ps' (\<psi> c) = map \<psi> (kids ps c) \<and> set (kids ps c) \<subseteq> D \<union> set ks)"
    if c: "c \<in> D \<union> set ks" for c
  proof (cases "c \<in> set ks")
    case True
    then obtain j where j: "j < length ks" "c = ks ! j" "\<psi> c = length ps' + 2 + j" using nodes by blast
    have "c \<notin> D" using True i(4) by auto
    have "set (kids ps c) \<inter> (D \<union> set ks) = {}"
    proof (rule ccontr)
      assume "set (kids ps c) \<inter> (D \<union> set ks) \<noteq> {}"
      then obtain d where d: "d \<in> set (kids ps c)" "d \<in> D \<union> set ks" by blast
      have "1 \<le> c" using kids_bounds [of c ps i] True by (simp add: ks_def)
      then have "d \<notin> D" using d(1) \<open>c \<notin> D\<close> inv by (auto simp: copying_def)
      then have "c = i" using d unique by blast
      then show False using \<open>c \<notin> D\<close> i(1) by simp
    qed
    moreover have "kids ?ps' (\<psi> c) = []"
      using kids' [of "\<psi> c"] j(3) i(7) by (simp add: kids_beyond)
    ultimately show ?thesis using True j D(5) by (simp add: nth_append)
  next
    case False
    then have cD: "c \<in> D" using c by simp
    then have base: "1 \<le> \<phi> c" "\<phi> c \<le> Suc (length ps')" "xs' ! (\<phi> c - 1) = g c"
      using inv by (auto simp: copying_def)
    have sub: "map \<psi> cs = map \<phi> cs" if "set cs \<subseteq> D" for cs using old that by auto
    have neq: "\<phi> c \<noteq> \<phi> i" if "c \<noteq> i" using that D(3) cD i(1) by (auto dest: inj_onD)
    have "if c \<in> set is then kids ?ps' (\<phi> c) = [] \<and> set (kids ps c) \<inter> (D \<union> set ks) = {}
        else kids ?ps' (\<phi> c) = map \<psi> (kids ps c) \<and> set (kids ps c) \<subseteq> D \<union> set ks"
    proof (cases "c = i")
      case True
      then show ?thesis using i(3,5) kids' [OF base(1)] map_ks by (simp add: ks_def)
    next
      case ci: False
      have "set (kids ps c) \<inter> set ks = {}" using unique ci by blast
      then show ?thesis
        using kids' [OF base(1)] neq [OF ci] inv cD ci sub [of "kids ps c"] by (auto simp: copying_def split: if_splits)
    qed
    moreover have "\<phi> c - 1 < length xs'" using base(1,2) D(5) by simp
    ultimately show ?thesis using base False old [OF cD] by (simp add: nth_append)
  qed
  have ks_range: "set ks \<subseteq> {1..Suc (length ps)}" using kids_bounds [of _ ps i] by (fastforce simp: ks_def)
  have dist': "distinct (rev ks @ is)" using dist i(4) D(4) inv by (auto simp: copying_def)
  show "copying ps g (D \<union> set ks) \<psi> (rev ks @ is) ?ps' (xs' @ map g ks)"
    unfolding copying_def
  proof (intro conjI)
    show "\<psi> 1 = 1" using old D(2) inv by (simp add: copying_def)
    show "\<forall>i c. c \<in> D \<union> set ks \<longrightarrow> 1 \<le> i \<longrightarrow> c \<in> set (kids ps i) \<longrightarrow> i \<in> D \<union> set ks" using parents by blast
    show "\<forall>c \<in> D \<union> set ks. 1 \<le> \<psi> c \<and> \<psi> c \<le> Suc (length ?ps') \<and> (xs' @ map g ks) ! (\<psi> c - 1) = g c \<and>
      (if c \<in> set (rev ks @ is) then kids ?ps' (\<psi> c) = [] \<and> set (kids ps c) \<inter> (D \<union> set ks) = {}
       else kids ?ps' (\<psi> c) = map \<psi> (kids ps c) \<and> set (kids ps c) \<subseteq> D \<union> set ks)" using node by blast
  qed (use D ks_range dist' inj in auto)
qed

lemma translate_loop_rep:
  assumes rep: "tree_rep ps t" and f: "\<forall>i \<in> {1..Suc (length ps)}. f (tn_item (nt_ar t ! (i - 1))) = Some (g i)"
    and inv: "copying ps g D \<phi> is ps' (map tn_item (nt_ar rt))" and rt: "tree_rep ps' rt"
  shows "\<exists>rt' D' \<psi> ps''. translate_loop (nt_ar t) f rt (map (\<lambda>i. (i, \<phi> i)) is) = returnR rt' \<and>
    tree_rep ps'' rt' \<and> copying ps g D' \<psi> [] ps'' (map tn_item (nt_ar rt'))"
  using inv rt
proof (induction "card ({1..Suc (length ps)} - D) + length is" arbitrary: D \<phi> "is" ps' rt rule: less_induct)
  case less
  show ?case
  proof (cases "is")
    case Nil
    have "translate_loop (nt_ar t) f rt [] = returnR rt" by (subst translate_loop.simps) simp
    then show ?thesis using less.prems Nil by auto
  next
    case (Cons i js)
    let ?ks = "kids ps i"
    note inv = less.prems(1) [unfolded Cons]
    note step = copying_step [OF inv]
    have i: "1 \<le> i" "i \<le> Suc (length ps)" "1 \<le> \<phi> i" "\<phi> i \<le> Suc (length ps')"
      using inv by (auto simp: copying_def)
    note r = tree_repD [OF rep]
    have ks: "k \<in> set ?ks \<Longrightarrow> 1 \<le> k \<and> k \<le> Suc (length ps)" for k using kids_bounds [of k ps i] by auto
    obtain rt1 where rt1: "translate_children (nt_ar t) f (\<phi> i) (case ?ks of [] \<Rightarrow> 0 | k # _ \<Rightarrow> k) rt (map (\<lambda>i. (i, \<phi> i)) js) =
        returnR (rt1, rev (zip ?ks [length ps' + 2..<length ps' + 2 + length ?ks]) @ map (\<lambda>i. (i, \<phi> i)) js)"
      "tree_rep (ps' @ replicate (length ?ks) (\<phi> i)) rt1" "map tn_item (nt_ar rt1) = map tn_item (nt_ar rt) @ map g ?ks"
      using translate_children_rep [OF less.prems(2) i(3,4) r(5) [OF i(1,2)], of f g "map (\<lambda>i. (i, \<phi> i)) js"] ks f r(1)
      by auto
    have at: "vec_nth (nt_ar t) (i - 1) = Some (nt_ar t ! (i - 1))" by (rule vec_at_nat) (use i r(1) in auto)
    let ?\<psi> = "\<lambda>c. case map_of (zip ?ks [length ps' + 2..<length ps' + 2 + length ?ks]) c of None \<Rightarrow> \<phi> c | Some j \<Rightarrow> j"
    have "translate_loop (nt_ar t) f rt (map (\<lambda>i. (i, \<phi> i)) is) =
        translate_loop (nt_ar t) f rt1 (map (\<lambda>i. (i, ?\<psi> i)) (rev ?ks @ js))"
      unfolding Cons step(2) using at rt1(1) r(4) [OF i(1,2)] by (subst translate_loop.simps) simp
    moreover have "card ({1..Suc (length ps)} - (D \<union> set ?ks)) + length (rev ?ks @ js) < card ({1..Suc (length ps)} - D) + length is"
    proof -
      have sub: "set ?ks \<subseteq> {1..Suc (length ps)} - D" using ks step(3) by auto
      have "{1..Suc (length ps)} - (D \<union> set ?ks) = ({1..Suc (length ps)} - D) - set ?ks" by blast
      then have "card ({1..Suc (length ps)} - (D \<union> set ?ks)) = card ({1..Suc (length ps)} - D) - length ?ks"
        using sub by (simp add: card_Diff_subset distinct_card)
      moreover have "length ?ks \<le> card ({1..Suc (length ps)} - D)"
        using card_mono [OF _ sub] by (simp add: distinct_card)
      ultimately show ?thesis using Cons by simp
    qed
    ultimately show ?thesis
      using less.hyps [OF _ step(1) [folded rt1(3)] rt1(2)] by simp
  qed
qed

text \<open>A translated tree has the same structure, with the translated items.\<close>

lemma tree_translate_rep:
  assumes rep: "tree_rep ps t" and f: "\<forall>x \<in> tn_item ` set (nt_ar t). f x = Some (h x)"
  shows "\<exists>t' ps'. tree_translate f t = returnR t' \<and> tree_rep ps' t' \<and>
    rose_of ps' (map tn_item (nt_ar t')) 1 = map_rose h (rose_of ps (map tn_item (nt_ar t)) 1)"
proof -
  note r = tree_repD [OF rep]
  let ?g = "\<lambda>i. h (tn_item (nt_ar t ! (i - 1)))"
  have f': "\<forall>i \<in> {1..Suc (length ps)}. f (tn_item (nt_ar t ! (i - 1))) = Some (?g i)"
    using f r(1) by auto
  have at: "vec_nth (nt_ar t) (1 - 1) = Some (nt_ar t ! 0)" using vec_at_nat [of 0 "nt_ar t"] r(1) by simp
  have start: "copying ps ?g {1} (\<lambda>_. 1) [1] [] (map tn_item (nt_ar (tree_new (?g 1))))"
    using copying_start [of ps ?g] by (simp add: tree_new_def tree_node_new_def)
  obtain rt' D \<psi> ps' where loop: "translate_loop (nt_ar t) f (tree_new (?g 1)) (map (\<lambda>i. (i, 1)) [1]) = returnR rt'"
    "tree_rep ps' rt'" "copying ps ?g D \<psi> [] ps' (map tn_item (nt_ar rt'))"
    using translate_loop_rep [OF rep f' start tree_rep_new] by blast
  have "tree_translate f t = returnR rt'"
    using at f' [rule_format, of 1] loop(1) by (simp add: tree_translate_def tree_at_def)
  moreover have "1 \<in> D" "\<psi> 1 = 1" "D \<subseteq> {1..Suc (length ps)}" using loop(3) by (auto simp: copying_def)
  then have "rose_of ps' (map tn_item (nt_ar rt')) 1 = map_rose h (rose_of ps (map tn_item (nt_ar t)) 1)"
    using copying_end [OF loop(3), of 1 "map tn_item (nt_ar t)" h] r(1) by fastforce
  ultimately show ?thesis using loop(2) by blast
qed

lemma rose_list_map: "rose_list d (map_rose h r) = map (\<lambda>(d, x). (d, h x)) (rose_list d r)"
  by (induction r arbitrary: d) (simp add: map_concat comp_def cong: map_cong)

end
