(* ===== verification/ScopeTree.thy ===== *)
theory ScopeTree
  imports ScopedStore NodeTree
begin

text \<open>
  \<open>ScopeHierarchyTreeNode\<close>, \<open>ScopeHierarchyTreeBuilder\<close> and \<open>ScopedInstance::getTree\<close> of
  \<open>src/scope.hpp\<close>: the tree of the scopes of one name, built from the links that lead from the
  inside out. The operations; then what the tree of a \<open>ScopedInstance\<close> is.
\<close>

subsection \<open>The operations\<close>

record 'v scope_node =
  sn_scope :: scope
  sn_value :: 'v

definition root_scope :: scope where
  "root_scope = mk_scope 0 int_max"

record 'v tree_builder =
  tb_tree :: "'v scope_node node_tree"
  tb_index :: "(scope, nat) std_map"
  tb_nullval :: 'v

definition tb_new :: "'v \<Rightarrow> 'v tree_builder" where
  "tb_new nullval = \<lparr>tb_tree = tree_new \<lparr>sn_scope = root_scope, sn_value = nullval\<rparr>,
     tb_index = [(root_scope, 1)], tb_nullval = nullval\<rparr>"

text \<open>The value of a scope that has a node already; only the root may still get one.\<close>

definition tb_merge :: "'v tree_builder \<Rightarrow> nat \<Rightarrow> 'v \<Rightarrow> 'v tree_builder run" where
  "tb_merge b ndidx value =
     bindR (tree_at (tb_tree b) ndidx) (\<lambda>node.
       if sn_value (tn_item node) \<noteq> value then
         (if ndidx = 1 \<and> sn_value (tn_item node) = tb_nullval b
          then returnR (b\<lparr>tb_tree := tree_set_item (tb_tree b) ndidx ((tn_item node)\<lparr>sn_value := value\<rparr>)\<rparr>)
          else throwR logic_error)
       else returnR b)"

text \<open>The first loop of \<open>insert\<close>, up to the first scope that has a node; the scopes without one on the stack.\<close>

partial_function (option) tb_climb ::
    "'v up_value list \<Rightarrow> 'v tree_builder \<Rightarrow> int \<Rightarrow> int list \<Rightarrow> ('v tree_builder \<times> nat \<times> int list) run" where
  "tb_climb ar b ni stk =
     (if ni = -1 then returnR (b, 1, stk)
      else bindR (liftR (vec_at ar ni)) (\<lambda>uv.
        case map_find (tb_index b) (uv_scope uv) of
          None \<Rightarrow> tb_climb ar b (uv_prev uv) (ni # stk)
        | Some ndidx \<Rightarrow> bindR (tb_merge b ndidx (uv_value uv)) (\<lambda>b'. returnR (b', ndidx, stk))))"

declare tb_climb.simps [code]

text \<open>The second loop: a node for each scope on the stack, each below the one before.\<close>

fun tb_add :: "'v up_value list \<Rightarrow> int list \<Rightarrow> nat \<Rightarrow> 'v tree_builder \<Rightarrow> 'v tree_builder run" where
  "tb_add ar [] ndidx b = returnR b"
| "tb_add ar (ni # stk) ndidx b =
     bindR (liftR (vec_at ar ni)) (\<lambda>uv.
     bindR (add_child ndidx \<lparr>sn_scope = uv_scope uv, sn_value = uv_value uv\<rparr> (tb_tree b)) (\<lambda>(t, ndidx').
       tb_add ar stk ndidx' (b\<lparr>tb_tree := t, tb_index := fst (map_insert (tb_index b) (uv_scope uv) ndidx')\<rparr>)))"

definition tb_insert :: "'v up_value list \<Rightarrow> int \<Rightarrow> 'v tree_builder \<Rightarrow> 'v tree_builder run" where
  "tb_insert ar ni b = bindR (tb_climb ar b ni []) (\<lambda>(b', ndidx, stk). tb_add ar stk ndidx b')"

definition si_get_tree :: "'v scoped_instance \<Rightarrow> 'v scope_node node_tree run" where
  "si_get_tree si =
     bindR (runR (\<lambda>(e, i). tb_insert (it_ar (si_tree si)) (it_start i)) (si_map si) (tb_new (it_nullval (si_tree si))))
       (\<lambda>b. returnR (tb_tree b))"

subsection \<open>What a scope tree is\<close>

text \<open>The definitions with the scope of the root, which has the null value if it is not defined.\<close>

definition with_root :: "'v \<Rightarrow> (scope \<rightharpoonup> 'v) \<Rightarrow> (scope \<rightharpoonup> 'v)" where
  "with_root nullval A = (if A root_scope = None then A(root_scope \<mapsto> nullval) else A)"

text \<open>A scope directly below another one, and a tree that has below each scope exactly the scopes directly below.\<close>

definition child_scope :: "scope set \<Rightarrow> scope \<Rightarrow> scope \<Rightarrow> bool" where
  "child_scope B s p \<longleftrightarrow> strictly_in s p \<and> (\<forall>q \<in> B. strictly_in s q \<longrightarrow> \<not> strictly_in q p)"

fun scope_tree :: "(scope \<rightharpoonup> 'v) \<Rightarrow> 'v scope_node rose \<Rightarrow> bool" where
  "scope_tree B (Rose n ts) \<longleftrightarrow>
     B (sn_scope n) = Some (sn_value n) \<and>
     distinct (map (\<lambda>t. sn_scope (rose_item t)) ts) \<and>
     (\<lambda>t. sn_scope (rose_item t)) ` set ts = {s \<in> dom B. child_scope (dom B) s (sn_scope n)} \<and>
     (\<forall>t \<in> set ts. scope_tree B t)"

lemma root_scope_simps [simp]: "s_start root_scope = 0" "s_end root_scope = int_max" "scope_wf root_scope"
  by (simp_all add: root_scope_def mk_scope_def int_max_def scope_wf_def)

lemma with_root_dom [simp]: "dom (with_root nullval A) = insert root_scope (dom A)"
  by (auto simp: with_root_def)

lemma laminar_with_root:
  assumes "laminar S" "\<forall>s \<in> S. scope_contains root_scope s"
  shows "laminar (insert root_scope S)"
  using assms by (auto simp: laminar_def scopes_nested_def)

lemma child_scope_unique:
  assumes "laminar B" "child_scope B s p" "child_scope B s q" "p \<in> B" "q \<in> B" "s \<in> B"
  shows "p = q"
proof -
  have "scope_contains p q \<or> scope_contains q p"
    using laminar_common [of p q s] assms by (auto simp: laminar_def child_scope_def strictly_in_def)
  then show ?thesis using assms by (auto simp: child_scope_def strictly_in_def)
qed

subsection \<open>The builder\<close>

text \<open>
  \<open>D\<close> are the scopes inserted so far. Every node but the root is directly below the scope of its
  parent, and with a scope all that cover it are inserted.
\<close>

abbreviation tb_items :: "'v tree_builder \<Rightarrow> 'v scope_node list" where
  "tb_items b \<equiv> map tn_item (nt_ar (tb_tree b))"

definition tb_inv :: "(scope \<rightharpoonup> 'v) \<Rightarrow> scope set \<Rightarrow> nat list \<Rightarrow> 'v tree_builder \<Rightarrow> bool" where
  "tb_inv A D ps b \<longleftrightarrow>
     tree_rep ps (tb_tree b) \<and> map_ok (tb_index b) \<and>
     (\<forall>s n. map_find (tb_index b) s = Some n \<longleftrightarrow>
        1 \<le> n \<and> n \<le> Suc (length ps) \<and> sn_scope (tb_items b ! (n - 1)) = s) \<and>
     sn_scope ` set (tb_items b) = insert root_scope D \<and>
     tb_items b ! 0 = \<lparr>sn_scope = root_scope,
       sn_value = (if root_scope \<in> D then the (A root_scope) else tb_nullval b)\<rparr> \<and>
     D \<subseteq> dom A \<and> (\<forall>s \<in> D. \<forall>t \<in> dom A. strictly_in s t \<longrightarrow> t \<in> D) \<and>
     (\<forall>c < length ps. A (sn_scope (tb_items b ! Suc c)) = Some (sn_value (tb_items b ! Suc c)) \<and>
        child_scope (insert root_scope (dom A)) (sn_scope (tb_items b ! Suc c)) (sn_scope (tb_items b ! (ps ! c - 1))))"

lemma tb_invD:
  assumes "tb_inv A D ps b"
  shows "tree_rep ps (tb_tree b)" "map_ok (tb_index b)"
    "\<And>s n. map_find (tb_index b) s = Some n \<longleftrightarrow> 1 \<le> n \<and> n \<le> Suc (length ps) \<and> sn_scope (tb_items b ! (n - 1)) = s"
    "sn_scope ` set (tb_items b) = insert root_scope D"
    "tb_items b ! 0 = \<lparr>sn_scope = root_scope, sn_value = (if root_scope \<in> D then the (A root_scope) else tb_nullval b)\<rparr>"
    "D \<subseteq> dom A" "\<And>s t. s \<in> D \<Longrightarrow> t \<in> dom A \<Longrightarrow> strictly_in s t \<Longrightarrow> t \<in> D"
    "\<And>c. c < length ps \<Longrightarrow> A (sn_scope (tb_items b ! Suc c)) = Some (sn_value (tb_items b ! Suc c))"
    "\<And>c. c < length ps \<Longrightarrow>
       child_scope (insert root_scope (dom A)) (sn_scope (tb_items b ! Suc c)) (sn_scope (tb_items b ! (ps ! c - 1)))"
    "length (tb_items b) = Suc (length ps)"
  using assms tree_repD(1) [of ps "tb_tree b"] by (auto simp: tb_inv_def)

lemma tb_inv_new: "tb_inv A {} [] (tb_new nullval)"
proof -
  have "map_ok [(root_scope, 1::nat)]" by (simp add: map_ok_Cons)
  then show ?thesis
    by (auto simp: tb_inv_def tb_new_def tree_rep_new) (auto simp: tree_new_def tree_node_new_def map_find_def split: if_splits)
qed

lemma tb_scope_nth:
  assumes "tb_inv A D ps b"
  shows "s \<in> insert root_scope D \<longleftrightarrow> (\<exists>j < Suc (length ps). sn_scope (tb_items b ! j) = s)"
proof -
  note r = tb_invD [OF assms]
  show ?thesis unfolding r(4) [symmetric] set_conv_nth r(10) by auto
qed

lemma tb_index_scope:
  assumes "tb_inv A D ps b"
  shows "map_find (tb_index b) s = None \<longleftrightarrow> s \<notin> insert root_scope D"
proof -
  note r = tb_invD [OF assms]
  have "s \<in> insert root_scope D \<longleftrightarrow> (\<exists>j < Suc (length ps). sn_scope (tb_items b ! j) = s)"
    by (rule tb_scope_nth [OF assms])
  also have "\<dots> \<longleftrightarrow> (\<exists>n. 1 \<le> n \<and> n \<le> Suc (length ps) \<and> sn_scope (tb_items b ! (n - 1)) = s)"
    by (metis One_nat_def Suc_leI Suc_le_mono diff_Suc_1 le_simps(2) less_Suc_eq_le less_eq_Suc_le zero_less_Suc not_less_eq_eq Suc_pred')
  finally show ?thesis using r(3) by (metis not_Some_eq)
qed

lemma tb_root_index: "tb_inv A D ps b \<Longrightarrow> map_find (tb_index b) root_scope = Some 1"
  using tb_invD(3,5) [of A D ps b] by simp

text \<open>Adding a scope whose parent has a node.\<close>

lemma tb_add_node:
  assumes inv: "tb_inv A D ps b" and new: "s \<notin> insert root_scope D" and s: "A s = Some v"
    and p: "map_find (tb_index b) q = Some p" and child: "child_scope (insert root_scope (dom A)) s q"
    and up: "\<And>t. t \<in> dom A \<Longrightarrow> strictly_in s t \<Longrightarrow> t \<in> D"
  shows "\<exists>t. add_child p \<lparr>sn_scope = s, sn_value = v\<rparr> (tb_tree b) = returnR (t, length ps + 2) \<and>
    tb_inv A (insert s D) (ps @ [p])
      (b\<lparr>tb_tree := t, tb_index := fst (map_insert (tb_index b) s (length ps + 2))\<rparr>)"
proof -
  note r = tb_invD [OF inv]
  let ?x = "\<lparr>sn_scope = s, sn_value = v\<rparr>"
  have p': "1 \<le> p" "p \<le> Suc (length ps)" "sn_scope (tb_items b ! (p - 1)) = q" using p r(3) by auto
  obtain t where t: "add_child p ?x (tb_tree b) = returnR (t, length ps + 2)" "tree_rep (ps @ [p]) t"
    "map tn_item (nt_ar t) = tb_items b @ [?x]"
    using add_child_rep [OF r(1) p'(1,2)] by blast
  have none: "map_find (tb_index b) s = None" using tb_index_scope [OF inv] new by simp
  let ?b = "b\<lparr>tb_tree := t, tb_index := fst (map_insert (tb_index b) s (length ps + 2))\<rparr>"
  have idx: "fst (map_insert (tb_index b) s j) = map_put (tb_index b) s j" for j using none by (simp add: map_insert_def)
  have nth: "tb_items ?b ! j = (if j < Suc (length ps) then tb_items b ! j else ?x)" if "j \<le> Suc (length ps)" for j
    using that r(10) by (simp add: t(3) nth_append)
  have fresh: "sn_scope (tb_items b ! j) \<noteq> s" if "j < Suc (length ps)" for j
    using that new r(4,10) by (metis image_eqI nth_mem)
  have find: "map_find (tb_index ?b) s' = Some n \<longleftrightarrow>
      1 \<le> n \<and> n \<le> Suc (length (ps @ [p])) \<and> sn_scope (tb_items ?b ! (n - 1)) = s'" for s' n
  proof (cases "n = length ps + 2")
    case True
    then show ?thesis using r(3) [of s' n] nth [of "n - 1"] by (auto simp: idx)
  next
    case False
    then have "n \<le> Suc (length (ps @ [p])) \<longleftrightarrow> n \<le> Suc (length ps)" by auto
    then show ?thesis
      using r(3) [of s' n] nth [of "n - 1"] fresh [of "n - 1"] False by (auto simp: idx)
  qed
  have "tb_inv A (insert s D) (ps @ [p]) ?b"
    unfolding tb_inv_def
  proof (intro conjI allI impI ballI)
    show "tree_rep (ps @ [p]) (tb_tree ?b)" using t(2) by simp
    show "map_ok (tb_index ?b)" using r(2) by (simp add: idx)
    show "map_find (tb_index ?b) s' = Some n \<longleftrightarrow>
      1 \<le> n \<and> n \<le> Suc (length (ps @ [p])) \<and> sn_scope (tb_items ?b ! (n - 1)) = s'" for s' n by (rule find)
    show "sn_scope ` set (tb_items ?b) = insert root_scope (insert s D)" using r(4) t(3) by (simp add: insert_commute)
    show "tb_items ?b ! 0 = \<lparr>sn_scope = root_scope,
        sn_value = (if root_scope \<in> insert s D then the (A root_scope) else tb_nullval ?b)\<rparr>"
      using r(5) nth [of 0] new by auto
    show "insert s D \<subseteq> dom A" using r(6) s by auto
    show "t \<in> insert s D" if "s' \<in> insert s D" "t \<in> dom A" "strictly_in s' t" for s' t
      using that up r(7) by blast
    fix c
    assume c: "c < length (ps @ [p])"
    have pc: "(ps @ [p]) ! c - 1 < Suc (length ps)"
      using c p' tree_repD(7) [OF t(2), of c] by (cases "c = length ps") auto
    show "A (sn_scope (tb_items ?b ! Suc c)) = Some (sn_value (tb_items ?b ! Suc c))"
      using c r(8) [of c] nth [of "Suc c"] s by (cases "c = length ps") auto
    show "child_scope (insert root_scope (dom A)) (sn_scope (tb_items ?b ! Suc c)) (sn_scope (tb_items ?b ! ((ps @ [p]) ! c - 1)))"
      using c r(9) [of c] nth [of "Suc c"] nth [OF less_imp_le [OF pc]] pc p'(3) child
      by (cases "c = length ps") (auto simp: nth_append)
  qed
  with t(1) show ?thesis by blast
qed

text \<open>The outer end of a chain: the node of the next scope of the chain, or that of the root.\<close>

abbreviation chain_top :: "'v up_value list \<Rightarrow> nat list \<Rightarrow> scope" where
  "chain_top ar ns \<equiv> (case ns of [] \<Rightarrow> root_scope | n # _ \<Rightarrow> sc_of ar n)"

text \<open>
  The chain of a node in an array that holds the definitions \<open>A\<close>: its scopes are all the scopes that
  cover the node, each directly below the next.
\<close>

definition full_chain :: "'v up_value list \<Rightarrow> (scope \<rightharpoonup> 'v) \<Rightarrow> nat list \<Rightarrow> bool" where
  "full_chain ar A ns \<longleftrightarrow>
     (\<forall>n \<in> set ns. n < length ar \<and> A (sc_of ar n) = Some (uv_value (ar ! n))) \<and>
     sorted_wrt (\<lambda>a b. strictly_in (sc_of ar a) (sc_of ar b)) ns \<and>
     (\<forall>us n ws. ns = us @ n # ws \<longrightarrow>
        (\<forall>t \<in> dom A. strictly_in (sc_of ar n) t \<longrightarrow> t \<in> sc_of ar ` set ws))"

lemma full_chain_tl: "full_chain ar A (us @ ns) \<Longrightarrow> full_chain ar A ns"
  unfolding full_chain_def by (auto simp: sorted_wrt_append)

lemma full_chain_child:
  assumes "full_chain ar A (n # ws)" "sc_of ar n \<noteq> root_scope" "\<forall>s \<in> dom A. scope_contains root_scope s"
  shows "child_scope (insert root_scope (dom A)) (sc_of ar n) (chain_top ar ws)"
proof -
  have cover: "t \<in> sc_of ar ` set ws" if "t \<in> dom A" "strictly_in (sc_of ar n) t" for t
    using assms(1) that unfolding full_chain_def by (metis append_Nil)
  have in_root: "scope_contains root_scope (sc_of ar m)" if "m \<in> set (n # ws)" for m
    using assms(1,3) that unfolding full_chain_def by blast
  have no_root: "\<not> strictly_in root_scope (sc_of ar m)" if "m \<in> set (n # ws)" for m
    using in_root [OF that] by (auto simp: strictly_in_def dest: scope_contains_antisym)
  have sorted: "strictly_in (sc_of ar n) (sc_of ar m)" if "m \<in> set ws" for m
    using assms(1) that by (simp add: full_chain_def)
  show ?thesis
  proof (cases ws)
    case Nil
    then have "\<not> strictly_in (sc_of ar n) t" if "t \<in> dom A" for t using cover [OF that] by auto
    then show ?thesis using Nil in_root [of n] assms(2) by (auto simp: child_scope_def strictly_in_def)
  next
    case (Cons w ws')
    have "\<not> strictly_in q (sc_of ar w)" if "q \<in> dom A" "strictly_in (sc_of ar n) q" for q
    proof -
      have "q \<in> sc_of ar ` set ws" using cover [OF that] .
      then obtain m where m: "m \<in> set ws" "q = sc_of ar m" by blast
      then have "m = w \<or> strictly_in (sc_of ar w) (sc_of ar m)" using assms(1) Cons by (auto simp: full_chain_def)
      then show ?thesis using m(2) strictly_in_trans by fastforce
    qed
    then show ?thesis using Cons sorted [of w] no_root [of w] by (auto simp: child_scope_def)
  qed
qed

lemma tb_inv_root:
  assumes inv: "tb_inv A D ps b" and root: "root_scope \<notin> D" "A root_scope = Some v"
    and top: "\<forall>s \<in> dom A. scope_contains root_scope s"
    and b': "b' = b\<lparr>tb_tree := tree_set_item (tb_tree b) 1 \<lparr>sn_scope = root_scope, sn_value = v\<rparr>\<rparr> \<or>
      b' = b \<and> tb_nullval b = v"
  shows "tb_inv A (insert root_scope D) ps b'"
proof -
  note r = tb_invD [OF inv]
  have items: "tb_items b' = (tb_items b)[0 := \<lparr>sn_scope = root_scope, sn_value = v\<rparr>]"
  proof (cases "b' = b \<and> tb_nullval b = v")
    case True
    then show ?thesis using r(5) root(1) list_update_id [of "tb_items b" 0] by simp
  next
    case False
    then show ?thesis using b' tree_set_item_rep(2) [OF r(1), of 1] by auto
  qed
  have rep: "tree_rep ps (tb_tree b')" using b' tree_set_item_rep(1) [OF r(1)] r(1) by auto
  have idx: "tb_index b' = tb_index b" "tb_nullval b' = tb_nullval b" using b' by auto
  have scopes: "sn_scope (tb_items b' ! j) = sn_scope (tb_items b ! j)" for j
    using r(5,10) by (cases "j = 0") (simp_all add: items)
  have items0: "tb_items b' ! 0 = \<lparr>sn_scope = root_scope, sn_value = v\<rparr>" using items r(10) by (simp del: length_map)
  have above: "\<not> strictly_in root_scope t" if "t \<in> dom A" for t
    using top that by (auto simp: strictly_in_def dest: scope_contains_antisym)
  have "map sn_scope (tb_items b') = map sn_scope (tb_items b)"
    by (rule nth_equalityI) (use scopes items in auto)
  then have "sn_scope ` set (tb_items b') = sn_scope ` set (tb_items b)" by (metis list.set_map)
  then show ?thesis
    unfolding tb_inv_def scopes idx using rep r(2-9) root above items0
    by (auto simp: items)
qed

lemma tb_climb_chain:
  assumes inv: "tb_inv A D ps b" and ch: "uv_chain ar ni ns" "full_chain ar A ns"
    and top: "\<forall>s \<in> dom A. scope_contains root_scope s"
  shows "\<exists>us ws b' p. ns = us @ ws \<and> tb_climb ar b ni stk = returnR (b', p, rev (map int us) @ stk) \<and>
    tb_inv A (D \<union> (sc_of ar ` set ws)) ps b' \<and> map_find (tb_index b') (chain_top ar ws) = Some p \<and>
    sc_of ar ` set us \<inter> insert root_scope (D \<union> sc_of ar ` set ws) = {} \<and> tb_nullval b' = tb_nullval b"
  using ch
proof (induction ns arbitrary: ni stk)
  case Nil
  then have "tb_climb ar b ni stk = returnR (b, 1, stk)" by (subst tb_climb.simps) simp
  then show ?case using inv tb_root_index [OF inv] by (intro exI [of _ "[]"] exI [of _ b] exI [of _ 1]) simp
next
  case (Cons n ns)
  note r = tb_invD [OF inv]
  have n: "ni = int n" "n < length ar" "A (sc_of ar n) = Some (uv_value (ar ! n))"
    and ch': "uv_chain ar (uv_prev (ar ! n)) ns"
    and sorted: "\<And>m. m \<in> set ns \<Longrightarrow> strictly_in (sc_of ar n) (sc_of ar m)"
    using Cons.prems by (auto simp: full_chain_def)
  have ch'': "full_chain ar A ns" using full_chain_tl [of ar A "[n]" ns] Cons.prems(2) by simp
  note ch' = ch' ch''
  show ?case
  proof (cases "map_find (tb_index b) (sc_of ar n)")
    case None
    obtain us ws b' p where IH: "ns = us @ ws"
      "tb_climb ar b (uv_prev (ar ! n)) (int n # stk) = returnR (b', p, rev (map int us) @ int n # stk)"
      "tb_inv A (D \<union> (sc_of ar ` set ws)) ps b'" "map_find (tb_index b') (chain_top ar ws) = Some p"
      "sc_of ar ` set us \<inter> insert root_scope (D \<union> sc_of ar ` set ws) = {}" "tb_nullval b' = tb_nullval b"
      using Cons.IH [OF ch', of "int n # stk"] by blast
    have "tb_climb ar b ni stk = returnR (b', p, rev (map int (n # us)) @ stk)"
      using n None IH(2) by (subst tb_climb.simps) simp
    moreover have "sc_of ar n \<notin> insert root_scope (D \<union> sc_of ar ` set ws)"
      using None tb_index_scope [OF inv] sorted IH(1) by auto (metis Un_iff image_iff strictly_in_irrefl)
    ultimately show ?thesis
      using IH by (intro exI [of _ "n # us"] exI [of _ ws] exI [of _ b'] exI [of _ p]) simp
  next
    case (Some p)
    have p: "1 \<le> p" "p \<le> Suc (length ps)" "sn_scope (tb_items b ! (p - 1)) = sc_of ar n" using Some r(3) by auto
    have node: "tree_at (tb_tree b) p = returnR (nt_ar (tb_tree b) ! (p - 1))"
      unfolding tree_at_def using p(1,2) r(10) vec_at_nat [of "p - 1" "nt_ar (tb_tree b)"] by simp
    have item: "tb_items b ! (p - 1) = tn_item (nt_ar (tb_tree b) ! (p - 1))" using p(2) r(10) by simp
    have upper: "sc_of ar ` set ns \<subseteq> dom A" using ch'(2) by (auto simp: full_chain_def)
    show ?thesis
    proof (cases "sc_of ar n \<in> D")
      case True
      have "sn_value (tb_items b ! (p - 1)) = uv_value (ar ! n)"
      proof (cases "p = 1")
        case True
        then have "sc_of ar n = root_scope" using p(3) r(5) by simp
        then show ?thesis using True r(5) \<open>sc_of ar n \<in> D\<close> n(3) by simp
      next
        case False
        then have "p = Suc (Suc (p - 2))" using p(1) by simp
        then show ?thesis using r(8) [of "p - 2"] p(2,3) n(3) by (metis Suc_1 Suc_diff_Suc Suc_le_eq Suc_le_mono diff_Suc_1 option.inject)
      qed
      then have "tb_climb ar b ni stk = returnR (b, p, stk)"
        using n Some node item by (subst tb_climb.simps) (simp add: tb_merge_def)
      moreover have "D \<union> sc_of ar ` set (n # ns) = D"
        using True r(7) [OF True] sorted upper by (auto simp: image_subset_iff)
      ultimately show ?thesis
        using inv Some by (intro exI [of _ "[]"] exI [of _ "n # ns"] exI [of _ b] exI [of _ p]) simp
    next
      case False
      then have root: "sc_of ar n = root_scope"
        using Some tb_index_scope [OF inv, of "sc_of ar n"] by auto
      then have p1: "p = 1" using Some tb_root_index [OF inv] by simp
      have "\<not> strictly_in root_scope (sc_of ar m)" if "m \<in> set ns" for m
      proof -
        have "sc_of ar m \<in> dom A" using ch'(2) that by (auto simp: full_chain_def)
        then show ?thesis using top by (auto simp: strictly_in_def dest: scope_contains_antisym)
      qed
      then have last: "ns = []" using sorted root by (cases ns) auto
      have v: "sn_value (tn_item (nt_ar (tb_tree b) ! 0)) = tb_nullval b" "sn_scope (tn_item (nt_ar (tb_tree b) ! 0)) = root_scope"
        using r(5,10) False root by auto
      let ?b = "if tb_nullval b \<noteq> uv_value (ar ! n)
        then b\<lparr>tb_tree := tree_set_item (tb_tree b) 1 \<lparr>sn_scope = root_scope, sn_value = uv_value (ar ! n)\<rparr>\<rparr> else b"
      have upd: "(tn_item (nt_ar (tb_tree b) ! 0))\<lparr>sn_value := x\<rparr> = \<lparr>sn_scope = root_scope, sn_value = x\<rparr>" for x
        using v(2) by (cases "tn_item (nt_ar (tb_tree b) ! 0)") simp
      have "tb_merge b 1 (uv_value (ar ! n)) = returnR ?b"
        using node p1 v(1) by (simp add: tb_merge_def upd)
      then have "tb_climb ar b ni stk = returnR (?b, 1, stk)"
        using n Some p1 by (subst tb_climb.simps) simp
      moreover have "tb_inv A (insert root_scope D) ps ?b"
        by (rule tb_inv_root [OF inv _ _ top]) (use False root n(3) in auto)
      moreover have "D \<union> sc_of ar ` set (n # ns) = insert root_scope D" "chain_top ar (n # ns) = root_scope"
        using last root by auto
      ultimately show ?thesis
        using tb_root_index [of A "insert root_scope D" ps ?b]
        by (intro exI [of _ "[]"] exI [of _ "n # ns"] exI [of _ ?b] exI [of _ 1]) auto
    qed
  qed
qed

lemma tb_add_chain:
  assumes "tb_inv A D ps b" "full_chain ar A (us @ ws)" "map_find (tb_index b) (chain_top ar ws) = Some p"
    "sc_of ar ` set us \<inter> insert root_scope D = {}" "sc_of ar ` set ws \<subseteq> D"
    and top: "\<forall>s \<in> dom A. scope_contains root_scope s"
  shows "\<exists>b' ps'. tb_add ar (rev (map int us)) p b = returnR b' \<and> tb_inv A (D \<union> sc_of ar ` set us) ps' b' \<and>
    tb_nullval b' = tb_nullval b"
  using assms(1-5)
proof (induction us arbitrary: D ps b ws p rule: rev_induct)
  case Nil
  then show ?case by auto
next
  case (snoc a us)
  have ch: "full_chain ar A (a # ws)" using full_chain_tl [of ar A us "a # ws"] snoc.prems(2) by simp
  have a: "a < length ar" "A (sc_of ar a) = Some (uv_value (ar ! a))" using ch by (auto simp: full_chain_def)
  have new: "sc_of ar a \<notin> insert root_scope D" using snoc.prems(4) by auto
  have "t \<in> D" if "t \<in> dom A" "strictly_in (sc_of ar a) t" for t
  proof -
    have "t \<in> sc_of ar ` set ws" using ch that unfolding full_chain_def by (metis append_Nil)
    then show ?thesis using snoc.prems(5) by blast
  qed
  then obtain t where t: "add_child p \<lparr>sn_scope = sc_of ar a, sn_value = uv_value (ar ! a)\<rparr> (tb_tree b) = returnR (t, length ps + 2)"
    "tb_inv A (insert (sc_of ar a) D) (ps @ [p])
      (b\<lparr>tb_tree := t, tb_index := fst (map_insert (tb_index b) (sc_of ar a) (length ps + 2))\<rparr>)"
    using tb_add_node [OF snoc.prems(1) new a(2) snoc.prems(3) full_chain_child [OF ch _ top]] new by auto
  let ?b = "b\<lparr>tb_tree := t, tb_index := fst (map_insert (tb_index b) (sc_of ar a) (length ps + 2))\<rparr>"
  have "map_find (tb_index b) (sc_of ar a) = None" using tb_index_scope [OF snoc.prems(1)] new by simp
  then have find: "map_find (tb_index ?b) (chain_top ar (a # ws)) = Some (length ps + 2)" by (simp add: map_insert_def)
  have "strictly_in (sc_of ar u) (sc_of ar a)" if "u \<in> set us" for u
    using snoc.prems(2) that by (auto simp: full_chain_def sorted_wrt_append)
  then have "sc_of ar ` set us \<inter> insert root_scope (insert (sc_of ar a) D) = {}" using snoc.prems(4) by fastforce
  then obtain b' ps' where b': "tb_add ar (rev (map int us)) (length ps + 2) ?b = returnR b'"
    "tb_inv A (insert (sc_of ar a) D \<union> sc_of ar ` set us) ps' b'" "tb_nullval b' = tb_nullval ?b"
    using snoc.IH [OF t(2) _ find] snoc.prems(2,5) by auto
  then show ?case using t(1) a(1) by (intro exI [of _ b'] exI [of _ ps']) simp
qed

lemma tb_insert_chain:
  assumes "tb_inv A D ps b" "uv_chain ar ni ns" "full_chain ar A ns" and top: "\<forall>s \<in> dom A. scope_contains root_scope s"
  shows "\<exists>b' ps'. tb_insert ar ni b = returnR b' \<and> tb_inv A (D \<union> sc_of ar ` set ns) ps' b' \<and> tb_nullval b' = tb_nullval b"
proof -
  obtain us ws b1 p where climb: "ns = us @ ws" "tb_climb ar b ni [] = returnR (b1, p, rev (map int us))"
    "tb_inv A (D \<union> (sc_of ar ` set ws)) ps b1" "map_find (tb_index b1) (chain_top ar ws) = Some p"
    "sc_of ar ` set us \<inter> insert root_scope (D \<union> sc_of ar ` set ws) = {}" "tb_nullval b1 = tb_nullval b"
    using tb_climb_chain [OF assms(1-4), of "[]"] by auto
  obtain b' ps' where b': "tb_add ar (rev (map int us)) p b1 = returnR b'"
    "tb_inv A (D \<union> sc_of ar ` set ws \<union> sc_of ar ` set us) ps' b'" "tb_nullval b' = tb_nullval b1"
    using tb_add_chain [OF climb(3) _ climb(4,5) _ top] assms(3) climb(1) by blast
  have "D \<union> sc_of ar ` set ws \<union> sc_of ar ` set us = D \<union> sc_of ar ` set ns" using climb(1) by auto
  then show ?thesis using climb(2,6) b' by (intro exI [of _ b'] exI [of _ ps']) (simp add: tb_insert_def)
qed

subsection \<open>The tree of a ScopedInstance\<close>

lemma full_chain_above:
  assumes rep: "sec_rep ar S sec A" and "n \<in> S"
  shows "\<exists>ns. uv_chain ar (int n) ns \<and> set ns = above (sc_of ar) S n \<and> full_chain ar A ns"
proof -
  have tree: "tree_inv ar S" using rep by (simp add: sec_rep_def sec_inv_def)
  obtain ns where ns: "uv_chain ar (int n) ns" "set ns = above (sc_of ar) S n"
    "sorted_wrt (\<lambda>a b. strictly_in (sc_of ar a) (sc_of ar b)) ns"
    using uv_chain_above [OF tree assms(2)] by blast
  have mem: "m < length ar \<and> A (sc_of ar m) = Some (uv_value (ar ! m))" if "m \<in> S" for m
    using rep that tree_invD(1) [OF tree that] by (auto simp: sec_rep_def)
  have "t \<in> sc_of ar ` set ws"
    if h: "ns = us @ m # ws" "t \<in> dom A" "strictly_in (sc_of ar m) t" for us m ws t
  proof -
    obtain k where k: "k \<in> S" "t = sc_of ar k" using h(2) sec_rep_dom [OF rep] by auto
    have "scope_contains (sc_of ar m) (sc_of ar n)" using ns(2) h(1) by (auto simp: above_def)
    then have "k \<in> set ns"
      using ns(2) k h(3) by (auto simp: above_def strictly_in_def intro: scope_contains_trans)
    moreover have "k \<notin> set us"
    proof
      assume "k \<in> set us"
      then have "strictly_in (sc_of ar k) (sc_of ar m)" using ns(3) h(1) by (auto simp: sorted_wrt_append)
      then show False using h(3) k(2) strictly_in_trans strictly_in_irrefl by blast
    qed
    moreover have "k \<noteq> m" using h(3) k(2) by auto
    ultimately show ?thesis using h(1) k(2) by auto
  qed
  then have "full_chain ar A ns" using ns mem unfolding full_chain_def by (auto simp: above_def)
  with ns show ?thesis by blast
qed

lemma tb_insert_all:
  assumes rep: "sec_rep ar S sec A" and top: "\<forall>s \<in> dom A. scope_contains root_scope s"
    and "set es \<subseteq> set sec" "tb_inv A D ps b"
  shows "\<exists>b' ps'. runR (\<lambda>(e, i). tb_insert ar (it_start i)) es b = returnR b' \<and> tb_nullval b' = tb_nullval b \<and>
    tb_inv A (D \<union> {s. \<exists>e i n m. (e, i) \<in> set es \<and> i = int n \<and> m \<in> above (sc_of ar) S n \<and> s = sc_of ar m}) ps' b'"
  using assms(3,4)
proof (induction es arbitrary: D ps b)
  case (Cons x es)
  obtain e i where x: "x = (e, i)" by (cases x)
  then have "head_of ar S e i" using rep Cons.prems(1) by (auto simp: sec_rep_def sec_inv_def)
  then obtain n where n: "n \<in> S" "i = int n" by (auto simp: head_of_def)
  obtain ns where ns: "uv_chain ar (int n) ns" "set ns = above (sc_of ar) S n" "full_chain ar A ns"
    using full_chain_above [OF rep n(1)] by blast
  obtain b1 ps1 where b1: "tb_insert ar i b = returnR b1" "tb_inv A (D \<union> sc_of ar ` set ns) ps1 b1"
    "tb_nullval b1 = tb_nullval b"
    using tb_insert_chain [OF Cons.prems(2) ns(1,3) top] n(2) by blast
  obtain b' ps' where b': "runR (\<lambda>(e, i). tb_insert ar (it_start i)) es b1 = returnR b'" "tb_nullval b' = tb_nullval b1"
    "tb_inv A (D \<union> sc_of ar ` set ns \<union>
       {s. \<exists>e i n m. (e, i) \<in> set es \<and> i = int n \<and> m \<in> above (sc_of ar) S n \<and> s = sc_of ar m}) ps' b'"
    using Cons.IH [OF _ b1(2)] Cons.prems(1) by auto
  moreover have "D \<union> sc_of ar ` set ns \<union>
      {s. \<exists>e i n m. (e, i) \<in> set es \<and> i = int n \<and> m \<in> above (sc_of ar) S n \<and> s = sc_of ar m} =
    D \<union> {s. \<exists>e i n m. (e, i) \<in> set (x # es) \<and> i = int n \<and> m \<in> above (sc_of ar) S n \<and> s = sc_of ar m}"
    using ns(2) n(2) x by auto
  ultimately show ?case using b1 x n(2) by (intro exI [of _ b'] exI [of _ ps']) (simp add: it_start_def)
qed auto

lemma scope_tree_rose:
  assumes inv: "tb_inv A (dom A) ps b" and lam: "laminar (insert root_scope (dom A))"
    and top: "\<forall>s \<in> dom A. scope_contains root_scope s" and i: "1 \<le> i" "i \<le> Suc (length ps)"
  shows "scope_tree (with_root (tb_nullval b) A) (rose_of ps (tb_items b) i)"
  using i
proof (induction "length ps + 2 - i" arbitrary: i rule: less_induct)
  case less
  note r = tb_invD [OF inv]
  let ?B = "with_root (tb_nullval b) A" and ?sc = "\<lambda>i. sn_scope (tb_items b ! (i - 1))"
  have item: "?B (?sc j) = Some (sn_value (tb_items b ! (j - 1)))" if "1 \<le> j" "j \<le> Suc (length ps)" for j
  proof (cases "j = 1")
    case True
    then show ?thesis using r(5) by (auto simp: with_root_def)
  next
    case False
    then have j: "j = Suc (Suc (j - 2))" "j - 2 < length ps" using that by auto
    have j1: "j - 1 = Suc (j - 2)" using j(1) by simp
    have "A (?sc j) = Some (sn_value (tb_items b ! (j - 1)))" unfolding j1 by (rule r(8) [OF j(2)])
    then show ?thesis by (auto simp: with_root_def)
  qed
  have sub: "scope_tree ?B (rose_of ps (tb_items b) c)" if "c \<in> set (kids ps i)" for c
    by (rule less.hyps) (use kids_bounds [OF that] less.prems in auto)
  have inj: "c = d" if "1 \<le> c" "c \<le> Suc (length ps)" "1 \<le> d" "d \<le> Suc (length ps)" "?sc c = ?sc d" for c d
  proof -
    have "map_find (tb_index b) (?sc c) = Some c" "map_find (tb_index b) (?sc d) = Some d" using r(3) that(1-4) by blast+
    then show ?thesis unfolding that(5) by (metis option.inject)
  qed
  have par: "child_scope (dom ?B) (?sc c) (?sc (ps ! (c - 2)))" if "2 \<le> c" "c \<le> Suc (length ps)" for c
    using r(9) [of "c - 2"] that by (simp add: Suc_diff_Suc numeral_2_eq_2)
  have kid: "c \<in> set (kids ps i) \<longleftrightarrow> 2 \<le> c \<and> c \<le> Suc (length ps) \<and> ps ! (c - 2) = i" if "1 \<le> i" for c
  proof -
    have "c \<in> set (kids ps i) \<longleftrightarrow> i < c \<and> c \<le> Suc (length ps) \<and> ps ! (c - 2) = i" by (auto simp: kids_def)
    moreover have "ps ! (c - 2) < c" if "2 \<le> c" "c \<le> Suc (length ps)"
      using tree_repD(7) [OF r(1), of "c - 2"] that by linarith
    ultimately show ?thesis using that by auto
  qed
  have "?sc ` set (kids ps i) = {s \<in> dom ?B. child_scope (dom ?B) s (?sc i)}"
  proof (intro set_eqI iffI)
    fix s
    assume "s \<in> ?sc ` set (kids ps i)"
    then obtain c where c: "s = ?sc c" "2 \<le> c" "c \<le> Suc (length ps)" "ps ! (c - 2) = i"
      using kid [OF less.prems(1)] by blast
    have "?B (?sc c) \<noteq> None" using item [of c] c(2,3) by (simp del: not_None_eq)
    then show "s \<in> {s \<in> dom ?B. child_scope (dom ?B) s (?sc i)}"
      using par [OF c(2,3)] c(1,4) by blast
  next
    fix s
    assume s: "s \<in> {s \<in> dom ?B. child_scope (dom ?B) s (?sc i)}"
    obtain j where j: "j < Suc (length ps)" "s = sn_scope (tb_items b ! j)"
      using s tb_scope_nth [OF inv, of s] by auto
    have "j \<noteq> 0"
    proof
      assume "j = 0"
      then have "strictly_in root_scope (?sc i)" using s j r(5) by (auto simp: child_scope_def)
      moreover have "?sc i \<in> insert root_scope (dom A)"
        using less.prems nth_mem [of "i - 1" "tb_items b"] r(10) r(4) by auto
      then have "scope_contains root_scope (?sc i)" using top by auto
      ultimately show False by (auto simp: strictly_in_def dest: scope_contains_antisym)
    qed
    then have c: "2 \<le> Suc j" "Suc j \<le> Suc (length ps)" "s = ?sc (Suc j)" using j by auto
    let ?p = "ps ! (Suc j - 2)"
    have p: "1 \<le> ?p" "?p \<le> Suc (length ps)" using tree_repD(7) [OF r(1), of "Suc j - 2"] c(1,2) by (linarith, linarith)
    have lamB: "laminar (dom ?B)" using lam by simp
    have "?sc i = ?sc ?p"
    proof (rule child_scope_unique [OF lamB])
      show "?sc i \<in> dom ?B" "?sc ?p \<in> dom ?B" using item [OF less.prems] item [OF p] by (blast intro: domI)+
      show "child_scope (dom ?B) s (?sc i)" "s \<in> dom ?B" using s by blast+
      show "child_scope (dom ?B) s (?sc ?p)" using par [OF c(1,2)] unfolding c(3) [symmetric] .
    qed
    then have "i = ?p" using inj less.prems p by blast
    then have "Suc j \<in> set (kids ps i)" using c(1,2) kid [OF less.prems(1), of "Suc j"] by simp
    then show "s \<in> ?sc ` set (kids ps i)" unfolding c(3) by (rule imageI)
  qed
  moreover have "distinct (map ?sc (kids ps i))"
  proof -
    have "1 \<le> c \<and> c \<le> Suc (length ps)" if "c \<in> set (kids ps i)" for c using kids_bounds [OF that] by simp
    then have "inj_on ?sc (set (kids ps i))" using inj by (intro inj_onI) blast
    then show ?thesis by (simp add: distinct_map)
  qed
  ultimately have "scope_tree ?B (Rose (tb_items b ! (i - 1)) (map (rose_of ps (tb_items b)) (kids ps i)))"
    using sub item [OF less.prems] by (simp only: scope_tree.simps list.map_comp comp_def rose_item_of list.set_map image_image) blast
  then show ?case by (subst rose_of.simps)
qed

lemma si_get_tree_rep:
  assumes rep: "si_rep nullval si A" and lam: "laminar (dom A)" and top: "\<forall>s \<in> dom A. scope_contains root_scope s"
  shows "\<exists>t ps. si_get_tree si = returnR t \<and> tree_rep ps t \<and>
    scope_tree (with_root nullval A) (rose_of ps (map tn_item (nt_ar t)) 1) \<and>
    sn_scope (rose_item (rose_of ps (map tn_item (nt_ar t)) 1)) = root_scope"
proof -
  let ?ar = "it_ar (si_tree si)"
  let ?S = "{..<length ?ar}"
  have sec: "sec_rep ?ar ?S (si_map si) A" and null: "it_nullval (si_tree si) = nullval"
    using rep by (auto simp: si_rep_def)
  then have inv0: "sec_inv ?ar ?S (si_map si)" by (simp add: sec_rep_def)
  let ?D = "{} \<union> {s. \<exists>e i n m. (e, i) \<in> set (si_map si) \<and> i = int n \<and> m \<in> above (sc_of ?ar) ?S n \<and> s = sc_of ?ar m}"
  have null_new: "tb_nullval (tb_new nullval) = nullval" by (simp add: tb_new_def)
  obtain b ps where b: "runR (\<lambda>(e, i). tb_insert ?ar (it_start i)) (si_map si) (tb_new nullval) = returnR b"
    "tb_nullval b = nullval" "tb_inv A ?D ps b"
    using tb_insert_all [OF sec top subset_refl tb_inv_new, of nullval] null_new by fastforce
  have "?D = dom A"
  proof (intro set_eqI iffI)
    fix s
    assume "s \<in> dom A"
    then obtain m where m: "m \<in> ?S" "s = sc_of ?ar m" using sec_rep_dom [OF sec] by auto
    obtain i where i: "(s_end (sc_of ?ar m), i) \<in> set (si_map si)"
      using sec_invD(4) [OF inv0 m(1)] by blast
    then have "head_of ?ar ?S (s_end (sc_of ?ar m)) i" by (rule sec_invD(3) [OF inv0])
    then obtain h where "h \<in> ?S" "i = int h" "scope_contains (sc_of ?ar m) (sc_of ?ar h)"
      using m(1) by (auto simp: head_of_def)
    then show "s \<in> ?D" using i m by (auto simp: above_def)
  qed (auto simp: above_def sec_rep_dom [OF sec])
  then have inv: "tb_inv A (dom A) ps b" using b(3) by simp
  have "si_get_tree si = returnR (tb_tree b)" using b(1) null by (simp add: si_get_tree_def)
  moreover have "scope_tree (with_root nullval A) (rose_of ps (tb_items b) 1)"
    using scope_tree_rose [OF inv laminar_with_root [OF lam top] top, of 1] b(2) by simp
  ultimately show ?thesis
    using tb_invD(1,5) [OF inv] by (intro exI [of _ "tb_tree b"] exI [of _ ps]) simp
qed

end
