(* ===== verification/TypeTrees.thy ===== *)
theory TypeTrees
  imports ScopeTree TypeDbProps
begin

text \<open>
  The contents of a type database as trees of scopes: \<open>ScopeListMap\<close>, \<open>getTree\<close> of the scoped maps of
  \<open>src/scope.hpp\<close> and the three functions of \<open>src/typedb.cpp\<close> that return a tree.
\<close>

subsection \<open>Lists of values by scope\<close>

record 'v scope_list_map =
  sl_map :: "(scope, nat) std_map"
  sl_values :: "'v list list"
  sl_sets :: "'v set list"

definition sl_new :: "'v scope_list_map" where
  "sl_new = \<lparr>sl_map = [], sl_values = [], sl_sets = []\<rparr>"

definition sl_insert :: "scope \<Rightarrow> 'v \<Rightarrow> 'v scope_list_map \<Rightarrow> 'v scope_list_map option" where
  "sl_insert scope value sl =
     (case map_insert (sl_map sl) scope (length (sl_values sl) + 1) of (m, idx, inserted) \<Rightarrow>
      let values = (if inserted then sl_values sl @ [[]] else sl_values sl);
          sets = (if inserted then sl_sets sl @ [{}] else sl_sets sl) in
      do { known \<leftarrow> vec_nth sets (idx - 1);
           if value \<notin> known
           then do { list \<leftarrow> vec_nth values (idx - 1);
                     Some \<lparr>sl_map = m, sl_values = values[idx - 1 := list @ [value]], sl_sets = sets[idx - 1 := insert value known]\<rparr> }
           else Some \<lparr>sl_map = m, sl_values = values, sl_sets = sets\<rparr> })"

definition translate_list :: "'v list list \<Rightarrow> nat scope_node \<Rightarrow> 'v list scope_node option" where
  "translate_list values node =
     (if sn_value node = 0 then Some \<lparr>sn_scope = sn_scope node, sn_value = []\<rparr>
      else do { list \<leftarrow> vec_nth values (sn_value node - 1); Some \<lparr>sn_scope = sn_scope node, sn_value = list\<rparr> })"

definition sl_get_tree :: "'v scope_list_map \<Rightarrow> 'v list scope_node node_tree run" where
  "sl_get_tree sl =
     bindR (runR (\<lambda>(scope, i). si_set scope i) (sl_map sl) (si_new 0)) (\<lambda>si.
     bindR (si_get_tree si) (\<lambda>tree. tree_translate (translate_list (sl_values sl)) tree))"

subsection \<open>The scoped maps\<close>

text \<open>The two loops of \<open>ScopedMap::getTree\<close>.\<close>

partial_function (option) sm_tree_chain ::
    "'v up_value list \<Rightarrow> 'k \<Rightarrow> int \<Rightarrow> ('k \<times> 'v) scope_list_map \<Rightarrow> ('k \<times> 'v) scope_list_map option" where
  "sm_tree_chain ar key ii sl =
     (if ii = -1 then Some sl
      else do { uv \<leftarrow> vec_at ar ii;
                sl' \<leftarrow> sl_insert (uv_scope uv) (key, uv_value uv) sl;
                sm_tree_chain ar key (uv_prev uv) sl' })"

declare sm_tree_chain.simps [code]

fun sm_tree_lists ::
    "'v up_value list \<Rightarrow> ('k scoped_key, int) std_map \<Rightarrow> ('k \<times> 'v) scope_list_map \<Rightarrow> ('k \<times> 'v) scope_list_map option" where
  "sm_tree_lists ar [] sl = Some sl"
| "sm_tree_lists ar ((sk, i) # es) sl =
     do { sl' \<leftarrow> sm_tree_chain ar (sk_key sk) (it_start i) sl; sm_tree_lists ar es sl' }"

definition sm_get_tree :: "('k, 'v) scoped_map \<Rightarrow> ('k \<times> 'v) list scope_node node_tree run" where
  "sm_get_tree sm =
     bindR (liftR (sm_tree_lists (it_ar (sm_tree sm)) (sm_map sm) sl_new)) sl_get_tree"

record ('k, 'c) tree_node_element =
  te_relation :: "'k \<times> 'k"
  te_value :: 'c
  te_weight :: f32
  te_tag :: int

text \<open>The translation of an item in \<open>ScopedRelationMap::getTree\<close>: the relations of each list of a scope.\<close>

partial_function (option) rm_tree_list ::
    "('k, 'c) list_element list \<Rightarrow> 'k \<Rightarrow> int \<Rightarrow> ('k, 'c) tree_node_element list option" where
  "rm_tree_list list key li =
     (if li \<ge> 0 then
        do { le \<leftarrow> vec_at list li;
             rest \<leftarrow> rm_tree_list list key (le_next le);
             Some (\<lparr>te_relation = (key, le_related le), te_value = le_value le, te_weight = le_weight le,
                    te_tag = tag_from_tag_val (le_tagval le)\<rparr> # rest) }
      else Some [])"

declare rm_tree_list.simps [code]

fun rm_tree_lists :: "('k, 'c) list_element list \<Rightarrow> ('k \<times> int) list \<Rightarrow> ('k, 'c) tree_node_element list option" where
  "rm_tree_lists list [] = Some []"
| "rm_tree_lists list ((key, li) # kvs) =
     do { elems \<leftarrow> rm_tree_list list key li; rest \<leftarrow> rm_tree_lists list kvs; Some (elems @ rest) }"

definition rm_tree_item ::
    "('k, 'c) list_element list \<Rightarrow> ('k \<times> int) list scope_node \<Rightarrow> ('k, 'c) tree_node_element list scope_node option" where
  "rm_tree_item list node =
     do { elems \<leftarrow> rm_tree_lists list (sn_value node); Some \<lparr>sn_scope = sn_scope node, sn_value = elems\<rparr> }"

definition rm_get_tree :: "('k, 'c) relation_map \<Rightarrow> ('k, 'c) tree_node_element list scope_node node_tree run" where
  "rm_get_tree rm = bindR (sm_get_tree (rm_map rm)) (\<lambda>t. tree_translate (rm_tree_item (rm_list rm)) t)"

subsection \<open>The trees of a type database\<close>

record reduction_definition =
  rd_to_type :: int
  rd_from_type :: int
  rd_constructor :: int
  rd_tag :: int
  rd_weight :: f32

definition get_object_instance_tree :: "string \<Rightarrow> type_database \<Rightarrow> int scope_node node_tree run" where
  "get_object_instance_tree name db =
     (let oidx = (case map_find (db_objids db) (im_lookup name (db_idents db)) of None \<Rightarrow> 0 | Some oi \<Rightarrow> oi) in
      bindR (liftR (vec_at (db_objs db) oidx)) si_get_tree)"

definition reduction_of_element :: "(int, int) tree_node_element \<Rightarrow> reduction_definition" where
  "reduction_of_element e =
     \<lparr>rd_to_type = snd (te_relation e), rd_from_type = fst (te_relation e), rd_constructor = te_value e,
      rd_tag = te_tag e, rd_weight = te_weight e\<rparr>"

definition get_reduction_definition_tree :: "type_database \<Rightarrow> reduction_definition list scope_node node_tree run" where
  "get_reduction_definition_tree db =
     bindR (rm_get_tree (db_redus db)) (\<lambda>tree.
       tree_translate (\<lambda>node. Some \<lparr>sn_scope = sn_scope node, sn_value = map reduction_of_element (sn_value node)\<rparr>) tree)"

definition get_type_definition_tree :: "type_database \<Rightarrow> int list scope_node node_tree run" where
  "get_type_definition_tree db =
     bindR (sm_get_tree (db_types db)) (\<lambda>tree.
       tree_translate (\<lambda>node. Some \<lparr>sn_scope = sn_scope node, sn_value = map snd (sn_value node)\<rparr>) tree)"

subsection \<open>All nodes of a tree\<close>

lemma rose_set_kid:
  assumes "c \<in> set (kids ps i)"
  shows "set_rose (rose_of ps xs c) \<subseteq> set_rose (rose_of ps xs i)"
  using assms by (subst (2) rose_of.simps) auto

lemma rose_set_all:
  assumes rep: "tree_rep ps t" and x: "x \<in> set (nt_ar t)"
  shows "tn_item x \<in> set_rose (rose_of ps (map tn_item (nt_ar t)) 1)"
proof -
  note r = tree_repD [OF rep]
  let ?xs = "map tn_item (nt_ar t)"
  have sub: "set_rose (rose_of ps ?xs j) \<subseteq> set_rose (rose_of ps ?xs 1)" if "1 \<le> j" "j \<le> Suc (length ps)" for j
    using that
  proof (induction j rule: less_induct)
    case (less j)
    show ?case
    proof (cases "j = 1")
      case False
      then have c: "j - 2 < length ps" "2 \<le> j" using less.prems by auto
      let ?p = "ps ! (j - 2)"
      have p: "1 \<le> ?p" "?p < j" using r(7) [OF c(1)] c by auto
      have "j \<in> set (kids ps ?p)" by (simp only: kids_def set_filter set_upt) (use p less.prems in auto)
      then show ?thesis using rose_set_kid less.IH [OF p(2,1)] p(2) less.prems(2) by fastforce
    qed simp
  qed
  obtain i where i: "i < length (nt_ar t)" "x = nt_ar t ! i" using x by (auto simp: in_set_conv_nth)
  have "rose_item (rose_of ps ?xs (Suc i)) \<in> set_rose (rose_of ps ?xs (Suc i))"
    by (cases "rose_of ps ?xs (Suc i)") simp
  then show ?thesis using sub [of "Suc i"] i r(1) by auto
qed

lemma scope_tree_set: "scope_tree B r \<Longrightarrow> n \<in> set_rose r \<Longrightarrow> B (sn_scope n) = Some (sn_value n)"
  by (induction r) auto

text \<open>The values of a scope tree translated.\<close>

definition sn_map :: "('v \<Rightarrow> 'w) \<Rightarrow> 'v scope_node \<Rightarrow> 'w scope_node" where
  "sn_map h n = \<lparr>sn_scope = sn_scope n, sn_value = h (sn_value n)\<rparr>"

lemma sn_map_scope [simp]: "sn_scope (sn_map h n) = sn_scope n"
  by (simp add: sn_map_def)

lemma rose_item_map [simp]: "rose_item (map_rose f r) = f (rose_item r)"
  by (cases r) simp

lemma scope_tree_map:
  assumes "scope_tree B r"
  shows "scope_tree (map_option h \<circ> B) (map_rose (sn_map h) r)"
proof -
  define B' where "B' = map_option h \<circ> B"
  have dom: "dom B' = dom B" and app: "B' s = map_option h (B s)" for s by (auto simp: B'_def dom_def)
  have "scope_tree B' (map_rose (sn_map h) r)"
    using assms
  proof (induction r)
    case (Rose n ts)
    have "B' (sn_scope n) = Some (h (sn_value n))" using Rose.prems app [of "sn_scope n"] by simp
    then show ?case using Rose by (auto simp: dom comp_def image_image) (auto simp: sn_map_def)
  qed
  then show ?thesis by (simp add: B'_def)
qed

text \<open>What is said of a node array: it is the scope tree of the definitions \<open>B\<close>.\<close>

definition is_scope_tree :: "(scope \<rightharpoonup> 'v) \<Rightarrow> 'v scope_node node_tree \<Rightarrow> bool" where
  "is_scope_tree B t \<longleftrightarrow> (\<exists>r. tree_list t = returnR (rose_list 0 r) \<and> scope_tree B r \<and> sn_scope (rose_item r) = root_scope)"

definition scope_tree_rep :: "(scope \<rightharpoonup> 'v) \<Rightarrow> 'v scope_node node_tree \<Rightarrow> bool" where
  "scope_tree_rep B t \<longleftrightarrow> (\<exists>ps. tree_rep ps t \<and> scope_tree B (rose_of ps (map tn_item (nt_ar t)) 1) \<and>
     sn_scope (rose_item (rose_of ps (map tn_item (nt_ar t)) 1)) = root_scope)"

lemma scope_tree_repD: "scope_tree_rep B t \<Longrightarrow> is_scope_tree B t"
  unfolding scope_tree_rep_def is_scope_tree_def using tree_list_rep by blast

lemma translate_scope_tree:
  assumes rep: "scope_tree_rep B t" and f: "\<And>n. B (sn_scope n) = Some (sn_value n) \<Longrightarrow> f n = Some (sn_map h n)"
  shows "\<exists>t'. tree_translate f t = returnR t' \<and> scope_tree_rep (map_option h \<circ> B) t'"
proof -
  obtain ps where ps: "tree_rep ps t" "scope_tree B (rose_of ps (map tn_item (nt_ar t)) 1)"
    "sn_scope (rose_item (rose_of ps (map tn_item (nt_ar t)) 1)) = root_scope"
    using rep by (auto simp: scope_tree_rep_def)
  have "f x = Some (sn_map h x)" if "x \<in> tn_item ` set (nt_ar t)" for x
    using that f scope_tree_set [OF ps(2)] rose_set_all [OF ps(1)] by auto
  then obtain t' ps' where t': "tree_translate f t = returnR t'" "tree_rep ps' t'"
    "rose_of ps' (map tn_item (nt_ar t')) 1 = map_rose (sn_map h) (rose_of ps (map tn_item (nt_ar t)) 1)"
    using tree_translate_rep [OF ps(1), of f "sn_map h"] by blast
  then show ?thesis using scope_tree_map [OF ps(2), of h] ps(3) unfolding scope_tree_rep_def by fastforce
qed

subsection \<open>The lists by scope\<close>

definition sl_rep :: "'v scope_list_map \<Rightarrow> (scope \<Rightarrow> 'v list) \<Rightarrow> bool" where
  "sl_rep sl L \<longleftrightarrow> map_ok (sl_map sl) \<and> length (sl_sets sl) = length (sl_values sl) \<and>
     (\<forall>s. case map_find (sl_map sl) s of
        None \<Rightarrow> L s = []
      | Some i \<Rightarrow> 1 \<le> i \<and> i \<le> length (sl_values sl) \<and> sl_values sl ! (i - 1) = L s \<and> sl_sets sl ! (i - 1) = set (L s) \<and> L s \<noteq> []) \<and>
     (\<forall>s s' i. map_find (sl_map sl) s = Some i \<longrightarrow> map_find (sl_map sl) s' = Some i \<longrightarrow> s = s')"

lemma sl_rep_new: "sl_rep sl_new (\<lambda>_. [])"
  by (simp add: sl_rep_def sl_new_def)

definition add_new :: "'v \<Rightarrow> 'v list \<Rightarrow> 'v list" where
  "add_new v xs = (if v \<in> set xs then xs else xs @ [v])"

lemma sl_insert_rep:
  assumes rep: "sl_rep sl L"
  shows "\<exists>sl'. sl_insert s v sl = Some sl' \<and> sl_rep sl' (L(s := add_new v (L s)))"
proof -
  have ok: "map_ok (sl_map sl)" and len: "length (sl_sets sl) = length (sl_values sl)"
    and entry: "case map_find (sl_map sl) s' of
        None \<Rightarrow> L s' = []
      | Some i \<Rightarrow> 1 \<le> i \<and> i \<le> length (sl_values sl) \<and> sl_values sl ! (i - 1) = L s' \<and>
          sl_sets sl ! (i - 1) = set (L s') \<and> L s' \<noteq> []"
    and inj: "map_find (sl_map sl) s' = Some i \<Longrightarrow> map_find (sl_map sl) s'' = Some i \<Longrightarrow> s' = s''" for s' s'' i
    using rep unfolding sl_rep_def by blast+
  let ?n = "length (sl_values sl)"
  show ?thesis
  proof (cases "map_find (sl_map sl) s")
    case None
    let ?sl = "\<lparr>sl_map = map_put (sl_map sl) s (?n + 1), sl_values = sl_values sl @ [[v]], sl_sets = sl_sets sl @ [{v}]\<rparr>"
    have "sl_insert s v sl = Some ?sl"
      using None len vec_at_nat [of ?n "sl_sets sl @ [{}]"] vec_at_nat [of ?n "sl_values sl @ [[]]"]
      by (simp add: sl_insert_def map_insert_def Let_def list_update_append nth_append)
    moreover have "sl_rep ?sl (L(s := add_new v (L s)))"
      unfolding sl_rep_def
    proof (intro conjI allI impI)
      fix s'
      show "case map_find (sl_map ?sl) s' of
          None \<Rightarrow> (L(s := add_new v (L s))) s' = []
        | Some i \<Rightarrow> 1 \<le> i \<and> i \<le> length (sl_values ?sl) \<and> sl_values ?sl ! (i - 1) = (L(s := add_new v (L s))) s' \<and>
            sl_sets ?sl ! (i - 1) = set ((L(s := add_new v (L s))) s') \<and> (L(s := add_new v (L s))) s' \<noteq> []"
      proof (cases "s' = s")
        case True
        have "(sl_sets sl @ [{v}]) ! ?n = {v}" using len by (metis nth_append_length)
        then show ?thesis using entry [of s] None True by (simp add: add_new_def)
      next
        case False
        show ?thesis
        proof (cases "map_find (sl_map sl) s'")
          case (Some i)
          then have "i - 1 < ?n" "i - 1 < length (sl_sets sl)" using entry [of s'] len by auto
          then show ?thesis using entry [of s'] False Some by (simp add: nth_append)
        qed (use entry [of s'] False in simp)
      qed
      show "s' = s''" if "map_find (sl_map ?sl) s' = Some i" "map_find (sl_map ?sl) s'' = Some i" for s'' i
      proof -
        have old: "i \<noteq> ?n + 1" if "map_find (sl_map sl) s1 = Some i" for s1 using entry [of s1] that by simp
        show ?thesis
          using that old [of s'] old [of s''] inj [of s' i s''] by (cases "s' = s"; cases "s'' = s") simp_all
      qed
    qed (use ok len in auto)
    ultimately show ?thesis by blast
  next
    case (Some i)
    have i: "1 \<le> i" "i \<le> ?n" "sl_values sl ! (i - 1) = L s" "sl_sets sl ! (i - 1) = set (L s)" "L s \<noteq> []"
      using entry [of s] Some by auto
    let ?sl = "\<lparr>sl_map = sl_map sl, sl_values = (sl_values sl)[i - 1 := add_new v (L s)],
      sl_sets = (sl_sets sl)[i - 1 := set (add_new v (L s))]\<rparr>"
    have at: "vec_nth (sl_sets sl) (i - 1) = Some (set (L s))" "vec_nth (sl_values sl) (i - 1) = Some (L s)"
      using vec_at_nat [of "i - 1" "sl_sets sl"] vec_at_nat [of "i - 1" "sl_values sl"] i len by auto
    have "(sl_values sl)[i - 1 := L s] = sl_values sl" "(sl_sets sl)[i - 1 := set (L s)] = sl_sets sl"
      using i(3,4) by (metis list_update_id)+
    then have "sl_insert s v sl = Some ?sl"
      using Some at by (auto simp: sl_insert_def map_insert_def Let_def add_new_def)
    moreover have "sl_rep ?sl (L(s := add_new v (L s)))"
      unfolding sl_rep_def
    proof (intro conjI allI impI)
      fix s'
      have "j - 1 \<noteq> i - 1" if "map_find (sl_map sl) s' = Some j" "s' \<noteq> s" for j
      proof -
        have "j \<noteq> i" using that inj [of s' i s] Some by blast
        moreover have "1 \<le> j" using entry [of s'] that(1) by simp
        ultimately show ?thesis using i(1) by linarith
      qed
      then show "case map_find (sl_map ?sl) s' of
          None \<Rightarrow> (L(s := add_new v (L s))) s' = []
        | Some i \<Rightarrow> 1 \<le> i \<and> i \<le> length (sl_values ?sl) \<and> sl_values ?sl ! (i - 1) = (L(s := add_new v (L s))) s' \<and>
            sl_sets ?sl ! (i - 1) = set ((L(s := add_new v (L s))) s') \<and> (L(s := add_new v (L s))) s' \<noteq> []"
        using entry [of s'] Some i len by (cases "s' = s") (auto simp: add_new_def split: option.splits)
      show "s' = s''" if "map_find (sl_map ?sl) s' = Some i" "map_find (sl_map ?sl) s'' = Some i" for s'' i
        using that inj by simp
    qed (use ok len in auto)
    ultimately show ?thesis by blast
  qed
qed

text \<open>The lists a scoped map has for the scopes: sorted by name, one value for each name.\<close>

definition lists_ok :: "('k::linorder \<Rightarrow> scope \<rightharpoonup> 'v) \<Rightarrow> (scope \<Rightarrow> ('k \<times> 'v) list) \<Rightarrow> bool" where
  "lists_ok A L \<longleftrightarrow> (\<forall>s. sorted_wrt (\<lambda>a b. fst a < fst b) (L s) \<and> (\<forall>p \<in> set (L s). A (fst p) s = Some (snd p)))"

lemma lists_ok_add:
  assumes ok: "lists_ok A L" and bound: "\<And>p. p \<in> set (L s) \<Longrightarrow> fst p \<le> k" and v: "A k s = Some v"
  shows "lists_ok A (L(s := add_new (k, v) (L s)))"
proof -
  have old: "sorted_wrt (\<lambda>a b. fst a < fst b) (L s)" "\<And>p. p \<in> set (L s) \<Longrightarrow> A (fst p) s = Some (snd p)"
    using ok by (auto simp: lists_ok_def)
  have "fst p < k" if "(k, v) \<notin> set (L s)" "p \<in> set (L s)" for p
  proof -
    have "fst p \<noteq> k"
    proof
      assume "fst p = k"
      then have "p = (k, v)" using old(2) [OF that(2)] v by (cases p) auto
      then show False using that by simp
    qed
    then show ?thesis using bound [OF that(2)] by simp
  qed
  then have "sorted_wrt (\<lambda>a b. fst a < fst b) (add_new (k, v) (L s))"
    "\<forall>p \<in> set (add_new (k, v) (L s)). A (fst p) s = Some (snd p)"
    using old v by (auto simp: add_new_def sorted_wrt_append)
  then show ?thesis using ok by (simp add: lists_ok_def)
qed

lemma sm_tree_chain_rep:
  assumes "uv_chain ar ii ns" "sl_rep sl L" "lists_ok A L" "\<And>s p. p \<in> set (L s) \<Longrightarrow> fst p \<le> k"
    "\<forall>n \<in> set ns. A k (sc_of ar n) = Some (uv_value (ar ! n))"
  shows "\<exists>sl' L'. sm_tree_chain ar k ii sl = Some sl' \<and> sl_rep sl' L' \<and> lists_ok A L' \<and>
    (\<forall>s. set (L' s) = set (L s) \<union> {(k, uv_value (ar ! n)) |n. n \<in> set ns \<and> sc_of ar n = s})"
  using assms
proof (induction ns arbitrary: ii sl L)
  case Nil
  have "sm_tree_chain ar k (-1) sl = Some sl" by (subst sm_tree_chain.simps) simp
  then show ?case using Nil by (intro exI [of _ sl] exI [of _ L]) simp
next
  case (Cons n ns)
  have n: "ii = int n" "n < length ar" "uv_chain ar (uv_prev (ar ! n)) ns" "A k (sc_of ar n) = Some (uv_value (ar ! n))"
    using Cons.prems by auto
  let ?L = "L(sc_of ar n := add_new (k, uv_value (ar ! n)) (L (sc_of ar n)))"
  obtain sl1 where sl1: "sl_insert (sc_of ar n) (k, uv_value (ar ! n)) sl = Some sl1" "sl_rep sl1 ?L"
    using sl_insert_rep [OF Cons.prems(2)] by blast
  have ok: "lists_ok A ?L" by (rule lists_ok_add [OF Cons.prems(3,4) n(4)])
  have set_L: "set (?L s) = set (L s) \<union> (if s = sc_of ar n then {(k, uv_value (ar ! n))} else {})" for s
    by (auto simp: add_new_def)
  have "fst p \<le> k" if "p \<in> set (?L s)" for s p
    using that Cons.prems(4) [of p s] unfolding set_L by (auto split: if_splits)
  then obtain sl' L' where IH: "sm_tree_chain ar k (uv_prev (ar ! n)) sl1 = Some sl'" "sl_rep sl' L'" "lists_ok A L'"
    "\<forall>s. set (L' s) = set (?L s) \<union> {(k, uv_value (ar ! m)) |m. m \<in> set ns \<and> sc_of ar m = s}"
    using Cons.IH [OF n(3) sl1(2) ok] Cons.prems(5) by auto
  have "sm_tree_chain ar k ii sl = Some sl'"
    using n sl1(1) IH(1) by (subst sm_tree_chain.simps) simp
  then show ?case using IH(2-4) unfolding set_L by (intro exI [of _ sl'] exI [of _ L']) auto
qed

lemma sm_tree_lists_rep:
  assumes owner: "sm_owner_rep owner sm A" and es: "map_ok es" "set es \<subseteq> set (sm_map sm)"
    and sl: "sl_rep sl L" "lists_ok A L" and bound: "\<And>s p e. p \<in> set (L s) \<Longrightarrow> e \<in> set es \<Longrightarrow> fst p \<le> sk_key (fst e)"
  defines "ar \<equiv> it_ar (sm_tree sm)"
  shows "\<exists>sl' L'. sm_tree_lists ar es sl = Some sl' \<and> sl_rep sl' L' \<and> lists_ok A L' \<and>
    (\<forall>s. set (L' s) = set (L s) \<union> {(k, uv_value (ar ! m)) |k e n m. (ScopedKey k e, int n) \<in> set es \<and>
       m \<in> above (sc_of ar) (owned ar owner k) n \<and> sc_of ar m = s})"
  using es sl bound
proof (induction es arbitrary: sl L)
  case Nil
  then show ?case by auto
next
  case (Cons x es)
  obtain k e i where x: "x = (ScopedKey k e, i)" by (metis prod.collapse scoped_key.collapse)
  have sec: "sec_rep ar (owned ar owner k) (section_of (sm_map sm) k) (A k)"
    using owner by (simp add: sm_owner_rep_def ar_def)
  have "(e, i) \<in> set (section_of (sm_map sm) k)" using Cons.prems(2) x by (simp add: set_section_of)
  then have "head_of ar (owned ar owner k) e i" using sec by (auto simp: sec_rep_def sec_inv_def)
  then obtain n where n: "n \<in> owned ar owner k" "i = int n" by (auto simp: head_of_def)
  obtain ns where ns: "uv_chain ar (int n) ns" "set ns = above (sc_of ar) (owned ar owner k) n" "full_chain ar (A k) ns"
    using full_chain_above [OF sec n(1)] by blast
  have b1: "fst p \<le> k" if "p \<in> set (L s)" for s p using Cons.prems(5) [OF that, of x] x by simp
  have vals: "\<forall>m \<in> set ns. A k (sc_of ar m) = Some (uv_value (ar ! m))" using ns(3) by (simp add: full_chain_def)
  obtain sl1 L1 where sl1: "sm_tree_chain ar k i sl = Some sl1" "sl_rep sl1 L1" "lists_ok A L1"
    "\<And>s. set (L1 s) = set (L s) \<union> {(k, uv_value (ar ! m)) |m. m \<in> set ns \<and> sc_of ar m = s}"
    using sm_tree_chain_rep [OF ns(1) Cons.prems(3,4) _ vals] b1 n(2) by blast
  have later: "k \<le> sk_key (fst e')" if "e' \<in> set es" for e'
  proof -
    have "ScopedKey k e < fst e'" using Cons.prems(1) that x by (simp add: map_ok_Cons)
    then show ?thesis by (cases "fst e'") auto
  qed
  have es_ok: "map_ok es" "set es \<subseteq> set (sm_map sm)" using Cons.prems(1,2) x by (simp_all add: map_ok_Cons)
  have bnd: "fst p \<le> sk_key (fst e')" if "p \<in> set (L1 s)" "e' \<in> set es" for s p e'
    using that(1) sl1(4) Cons.prems(5) [of p s e'] that(2) later [OF that(2)] by auto
  obtain sl' L' where IH: "sm_tree_lists ar es sl1 = Some sl'" "sl_rep sl' L'" "lists_ok A L'"
    "\<And>s. set (L' s) = set (L1 s) \<union> {(k, uv_value (ar ! m)) |k e n m. (ScopedKey k e, int n) \<in> set es \<and>
       m \<in> above (sc_of ar) (owned ar owner k) n \<and> sc_of ar m = s}"
    using Cons.IH [OF es_ok sl1(2,3)] bnd by blast
  have "sm_tree_lists ar (x # es) sl = Some sl'"
    using x sl1(1) IH(1) n(2) by (simp add: it_start_def)
  moreover have "set (L' s) = set (L s) \<union> {(k, uv_value (ar ! m)) |k e n m. (ScopedKey k e, int n) \<in> set (x # es) \<and>
       m \<in> above (sc_of ar) (owned ar owner k) n \<and> sc_of ar m = s}" for s
    unfolding IH(4) sl1(4) x n(2) ns(2) by (rule set_eqI) (simp, blast)
  ultimately show ?case using IH(2,3) by blast
qed

subsection \<open>The trees\<close>

definition list_root :: "(scope \<Rightarrow> 'v list) \<Rightarrow> (scope \<rightharpoonup> 'v list)" where
  "list_root L = (\<lambda>s. if L s = [] \<and> s \<noteq> root_scope then None else Some (L s))"

lemma sl_get_tree_rep:
  assumes rep: "sl_rep sl L" and lam: "laminar {s. L s \<noteq> []}" and top: "\<forall>s. L s \<noteq> [] \<longrightarrow> scope_contains root_scope s"
  shows "\<exists>t. sl_get_tree sl = returnR t \<and> scope_tree_rep (list_root L) t"
proof -
  have ok: "map_ok (sl_map sl)"
    and entry: "case map_find (sl_map sl) s' of
        None \<Rightarrow> L s' = []
      | Some i \<Rightarrow> 1 \<le> i \<and> i \<le> length (sl_values sl) \<and> sl_values sl ! (i - 1) = L s' \<and>
          sl_sets sl ! (i - 1) = set (L s') \<and> L s' \<noteq> []" for s'
    using rep unfolding sl_rep_def by blast+
  let ?M = "last_in (sl_map sl)"
  have M: "?M = map_find (sl_map sl)"
    using map_of_inject_set [of "rev (sl_map sl)" "sl_map sl"] map_ok_distinct [OF ok]
    by (simp add: last_in_def map_find_def fun_eq_iff rev_map [symmetric])
  have dom: "dom ?M = {s. L s \<noteq> []}"
  proof (intro set_eqI)
    show "s \<in> dom ?M \<longleftrightarrow> s \<in> {s. L s \<noteq> []}" for s
      using entry [of s] by (cases "map_find (sl_map sl) s") (simp_all add: M domIff)
  qed
  then have LM: "L s = [] \<longleftrightarrow> ?M s = None" for s by (metis (mono_tags, lifting) domIff mem_Collect_eq)
  have keys: "fst ` set (sl_map sl) = dom ?M" by (simp add: last_in_def dom_map_of_conv_image_fst)
  obtain si where si: "runR (\<lambda>(sc, v). si_set sc v) (sl_map sl) (si_new 0) = returnR si" "si_rep 0 si ?M"
    using si_after_run [OF si_rep_new, of "sl_map sl" "0::nat"] lam by (auto simp: keys dom)
  obtain t where t: "si_get_tree si = returnR t" "scope_tree_rep (with_root 0 ?M) t"
    using si_get_tree_rep [OF si(2)] lam top unfolding scope_tree_rep_def dom by blast
  let ?h = "\<lambda>i. if i = 0 then [] else sl_values sl ! (i - 1)"
  have val: "1 \<le> i \<and> i \<le> length (sl_values sl) \<and> ?h i = L s" if "?M s = Some i" for s i
    using entry [of s] that by (simp add: M)
  have "translate_list (sl_values sl) n = Some (sn_map ?h n)" if "with_root 0 ?M (sn_scope n) = Some (sn_value n)" for n
  proof (cases "sn_value n = 0")
    case True
    then show ?thesis by (simp add: translate_list_def sn_map_def)
  next
    case False
    then have "?M (sn_scope n) = Some (sn_value n)" using that by (auto simp: with_root_def split: if_splits)
    then show ?thesis
      using val False vec_at_nat [of "sn_value n - 1" "sl_values sl"] by (fastforce simp: translate_list_def sn_map_def)
  qed
  then obtain t' where t': "tree_translate (translate_list (sl_values sl)) t = returnR t'"
    "scope_tree_rep (map_option ?h \<circ> with_root 0 ?M) t'"
    using translate_scope_tree [OF t(2)] by blast
  have "map_option ?h \<circ> with_root 0 ?M = list_root L"
  proof
    fix s
    show "(map_option ?h \<circ> with_root 0 ?M) s = list_root L s"
    proof (cases "?M s")
      case None
      then have "with_root 0 ?M s = (if s = root_scope then Some 0 else None)" by (auto simp: with_root_def)
      then show ?thesis using LM [of s] None by (auto simp: list_root_def)
    next
      case (Some i)
      then have "with_root 0 ?M s = Some i" by (auto simp: with_root_def)
      moreover have "?h i = L s" using val [OF Some] by blast
      moreover have "L s \<noteq> []" using LM [of s] Some by simp
      ultimately show ?thesis by (simp only: comp_apply option.map list_root_def) simp
    qed
  qed
  then show ?thesis using si(1) t(1) t' by (auto simp: sl_get_tree_def)
qed

lemma list_root_map:
  assumes "\<And>s. h (L s) = [] \<longleftrightarrow> L s = []"
  shows "map_option h \<circ> list_root L = list_root (\<lambda>s. h (L s))"
  using assms by (auto simp: list_root_def)

lemma sm_get_tree_rep:
  assumes rep: "sm_rep nullval sm A" and lam: "laminar (\<Union>k. dom (A k))"
    and top: "\<forall>s \<in> (\<Union>k. dom (A k)). scope_contains root_scope s"
  shows "\<exists>t L. sm_get_tree sm = returnR t \<and> scope_tree_rep (list_root L) t \<and>
    (\<forall>s. sorted_wrt (\<lambda>a b. fst a < fst b) (L s) \<and> set (L s) = {(k, v). A k s = Some v})"
proof -
  obtain owner where owner: "sm_owner_rep owner sm A" using rep by (auto simp: sm_rep_def)
  let ?ar = "it_ar (sm_tree sm)"
  have ok: "map_ok (sm_map sm)"
    and sec: "sec_rep ?ar (owned ?ar owner k) (section_of (sm_map sm) k) (A k)" for k
    using owner by (auto simp: sm_owner_rep_def)
  have empty: "lists_ok A (\<lambda>_. [])" by (simp add: lists_ok_def)
  obtain sl L where sl: "sm_tree_lists ?ar (sm_map sm) sl_new = Some sl" "sl_rep sl L" "lists_ok A L"
    "\<forall>s. set (L s) = {(k, uv_value (?ar ! m)) |k e n m. (ScopedKey k e, int n) \<in> set (sm_map sm) \<and>
       m \<in> above (sc_of ?ar) (owned ?ar owner k) n \<and> sc_of ?ar m = s}"
    using sm_tree_lists_rep [OF owner ok subset_refl sl_rep_new empty] by auto
  have L: "set (L s) = {(k, v). A k s = Some v}" for s
  proof (intro set_eqI iffI)
    fix p
    assume "p \<in> set (L s)"
    then have "A (fst p) s = Some (snd p)" using sl(3) unfolding lists_ok_def by blast
    then show "p \<in> {(k, v). A k s = Some v}" by (cases p) simp
  next
    fix p
    assume "p \<in> {(k, v). A k s = Some v}"
    then obtain k v where p: "p = (k, v)" "A k s = Some v" by auto
    obtain m where m: "m \<in> owned ?ar owner k" "sc_of ?ar m = s" "uv_value (?ar ! m) = v"
      using sec [of k] p(2) by (auto simp: sec_rep_def)
    have inv: "sec_inv ?ar (owned ?ar owner k) (section_of (sm_map sm) k)" using sec by (simp add: sec_rep_def)
    obtain i where i: "(s_end s, i) \<in> set (section_of (sm_map sm) k)" using sec_invD(4) [OF inv m(1)] m(2) by blast
    then have "head_of ?ar (owned ?ar owner k) (s_end s) i" by (rule sec_invD(3) [OF inv])
    then obtain h where h: "i = int h" "scope_contains (sc_of ?ar m) (sc_of ?ar h)" using m by (auto simp: head_of_def)
    then have "m \<in> above (sc_of ?ar) (owned ?ar owner k) h" using m(1) by (simp add: above_def)
    moreover have "(ScopedKey k (s_end s), int h) \<in> set (sm_map sm)" using i h(1) by (simp add: set_section_of)
    ultimately show "p \<in> set (L s)" using sl(4) p(1) m(2,3) by blast
  qed
  have dom: "{s. L s \<noteq> []} = (\<Union>k. dom (A k))"
  proof (intro set_eqI)
    fix s
    have "L s \<noteq> [] \<longleftrightarrow> set (L s) \<noteq> {}" by simp
    then show "s \<in> {s. L s \<noteq> []} \<longleftrightarrow> s \<in> (\<Union>k. dom (A k))" unfolding L by auto
  qed
  have "\<forall>s. L s \<noteq> [] \<longrightarrow> scope_contains root_scope s" using top dom by blast
  then obtain t where "sl_get_tree sl = returnR t" "scope_tree_rep (list_root L) t"
    using sl_get_tree_rep [OF sl(2)] lam dom by auto
  then show ?thesis
    using sl(1,3) L by (intro exI [of _ t] exI [of _ L]) (simp add: sm_get_tree_def lists_ok_def)
qed

definition element_of :: "'k \<Rightarrow> ('k, 'c) result_element \<Rightarrow> ('k, 'c) tree_node_element" where
  "element_of k r = \<lparr>te_relation = (k, re_right r), te_value = re_value r, te_weight = re_weight r,
     te_tag = tag_from_tag_val (re_tagval r)\<rparr>"

lemma rm_tree_list_chain:
  "chain list li ns \<Longrightarrow> rm_tree_list list k li = Some (map (\<lambda>n. element_of k (rel_of (list ! n))) ns)"
proof (induction ns arbitrary: li)
  case Nil
  then show ?case by (subst rm_tree_list.simps) simp
next
  case (Cons n ns)
  then show ?case by (subst rm_tree_list.simps) (simp add: element_of_def rel_of_def)
qed

lemma rm_tree_lists_chain:
  "\<forall>(k, li) \<in> set kvs. chain list li (ids k) \<and> R k = map (\<lambda>n. rel_of (list ! n)) (ids k) \<Longrightarrow>
    rm_tree_lists list kvs = Some (concat (map (\<lambda>(k, li). map (element_of k) (R k)) kvs))"
  by (induction kvs) (auto simp: rm_tree_list_chain comp_def)

lemma rm_get_tree_rep:
  assumes rep: "rm_rep rm R" and lam: "laminar {s. \<exists>k. R k s \<noteq> []}"
    and top: "\<forall>s k. R k s \<noteq> [] \<longrightarrow> scope_contains root_scope s"
  shows "\<exists>t ks. rm_get_tree rm = returnR t \<and>
    scope_tree_rep (list_root (\<lambda>s. concat (map (\<lambda>k. map (element_of k) (R k s)) (ks s)))) t \<and>
    (\<forall>s. sorted_wrt (<) (ks s) \<and> set (ks s) = {k. R k s \<noteq> []})"
proof -
  obtain ids A where inv: "rm_inv ids A rm R" using rep by (auto simp: rm_rep_def)
  have smr: "sm_rep (-1) (rm_map rm) A"
    and ch: "\<And>k s. chain (rm_list rm) (case A k s of None \<Rightarrow> -1 | Some li \<Rightarrow> li) (ids k s)"
      "\<And>k s. R k s = map (\<lambda>n. rel_of (rm_list rm ! n)) (ids k s)"
    using inv by (auto simp: rm_inv_def)
  note dom = rm_inv_dom [OF inv]
  have doms: "(\<Union>k. dom (A k)) = {s. \<exists>k. R k s \<noteq> []}" using dom by auto
  obtain t L where t: "sm_get_tree (rm_map rm) = returnR t" "scope_tree_rep (list_root L) t"
    "\<And>s. sorted_wrt (\<lambda>a b. fst a < fst b) (L s) \<and> set (L s) = {(k, v). A k s = Some v}"
    using sm_get_tree_rep [OF smr] lam top unfolding doms by blast
  let ?h = "\<lambda>kvs. case rm_tree_lists (rm_list rm) kvs of None \<Rightarrow> [] | Some es \<Rightarrow> es"
  have items: "rm_tree_lists (rm_list rm) (L s) = Some (concat (map (\<lambda>(k, li). map (element_of k) (R k s)) (L s)))" for s
  proof (rule rm_tree_lists_chain [where ids = "\<lambda>k. ids k s"], clarify)
    fix k li
    assume "(k, li) \<in> set (L s)"
    then have "A k s = Some li" using t(3) by blast
    then show "chain (rm_list rm) li (ids k s) \<and> R k s = map (\<lambda>n. rel_of (rm_list rm ! n)) (ids k s)"
      using ch [of k s] by simp
  qed
  have "rm_tree_item (rm_list rm) n = Some (sn_map ?h n)" if "list_root L (sn_scope n) = Some (sn_value n)" for n
  proof -
    have "sn_value n = L (sn_scope n)" using that by (auto simp: list_root_def split: if_splits)
    then show ?thesis using items by (simp add: rm_tree_item_def sn_map_def)
  qed
  then obtain t' where t': "tree_translate (rm_tree_item (rm_list rm)) t = returnR t'"
    "scope_tree_rep (map_option ?h \<circ> list_root L) t'"
    using translate_scope_tree [OF t(2)] by blast
  let ?ks = "\<lambda>s. map fst (L s)"
  have h: "?h (L s) = concat (map (\<lambda>k. map (element_of k) (R k s)) (?ks s))" for s
    by (simp add: items comp_def case_prod_beta')
  have ks: "sorted_wrt (<) (?ks s)" "set (?ks s) = {k. R k s \<noteq> []}" for s
  proof -
    show "sorted_wrt (<) (?ks s)" using t(3) [of s] by (simp add: sorted_wrt_map)
    have "set (?ks s) = {k. s \<in> dom (A k)}" using t(3) [of s] by (force simp: dom_def)
    then show "set (?ks s) = {k. R k s \<noteq> []}" by (simp add: dom)
  qed
  have "?h (L s) = [] \<longleftrightarrow> L s = []" for s
  proof -
    have "R k s \<noteq> []" if "k \<in> fst ` set (L s)" for k using ks(2) [of s] that by auto
    then show ?thesis unfolding h by (cases "L s") auto
  qed
  from list_root_map [of ?h L, OF this] t' have "scope_tree_rep (list_root (\<lambda>s. ?h (L s))) t'" by simp
  then show ?thesis
    using t(1) t'(1) ks unfolding h by (intro exI [of _ t'] exI [of _ ?ks]) (simp add: rm_get_tree_def)
qed

subsection \<open>The trees of a type database: what they hold\<close>

text \<open>The object lists start with an empty one, which no name uses.\<close>

definition first_object_free :: "type_database \<Rightarrow> bool" where
  "first_object_free db \<longleftrightarrow> db_objs db \<noteq> [] \<and> hd (db_objs db) = si_new (-1) \<and>
     (\<forall>n i. map_find (db_objids db) n = Some i \<longrightarrow> 1 \<le> i)"

lemma first_object_free_new: "first_object_free typedb_new"
  by (simp add: first_object_free_def typedb_new_def)

lemma first_object_free_set:
  assumes free: "first_object_free db" and call: "set_object_instance name s h db = returnR db'"
  shows "first_object_free db'"
proof -
  obtain idents objid where get: "im_get name (db_idents db) = (idents, objid)" by fastforce
  obtain objids idx inserted where ins: "map_insert (db_objids db) objid (int (length (db_objs db))) = (objids, idx, inserted)"
    by (metis prod_cases3)
  have n: "1 \<le> int (length (db_objs db))" using free by (cases "db_objs db") (auto simp: first_object_free_def)
  have idx: "1 \<le> idx" and objids: "\<And>n i. map_find objids n = Some i \<Longrightarrow> 1 \<le> i"
    using ins free n by (auto simp: map_insert_def first_object_free_def split: option.splits if_splits)
  obtain obj' where "db' = db\<lparr>db_idents := idents, db_objids := objids,
      db_objs := (if inserted then db_objs db @ [si_new (-1)] else db_objs db)[nat idx := obj']\<rparr>"
    using call get ins by (auto simp: set_object_instance_def bindR_eq_returnR Let_def split: if_splits)
  then show ?thesis
    using free idx objids by (cases "db_objs db"; cases "nat idx") (auto simp: first_object_free_def)
qed

lemma get_object_tree_rep:
  assumes rep: "db_rep U db T R Ob" and free: "first_object_free db" and top: "\<forall>s \<in> U. scope_contains root_scope s"
  shows "\<exists>t. get_object_instance_tree name db = returnR t \<and> scope_tree_rep (with_root (-1) (Ob (ident_key name))) t"
proof -
  note D = db_repD [OF rep]
  let ?env = "ident_key name"
  have "\<exists>obj. liftR (vec_at (db_objs db) (case map_find (db_objids db) (im_lookup name (db_idents db)) of None \<Rightarrow> 0 | Some oi \<Rightarrow> oi)) =
      returnR obj \<and> si_rep (-1) obj (Ob ?env)"
  proof (cases "map_find (db_objids db) (im_lookup name (db_idents db))")
    case None
    have "vec_at (db_objs db) 0 = Some (si_new (-1))"
      using free by (cases "db_objs db") (auto simp: first_object_free_def vec_at_def)
    moreover have "Ob ?env = Map.empty"
      using objs_repD(4) [OF D(8), of ?env] None by (auto simp: im_lookup_def split: option.splits)
    ultimately show ?thesis using None si_rep_new by simp
  next
    case (Some i)
    have "im_ids (db_idents db) ?env \<noteq> None"
    proof
      assume "im_ids (db_idents db) ?env = None"
      then have "map_find (db_objids db) 0 = Some i" using Some by (simp add: im_lookup_def)
      then obtain env where "im_ids (db_idents db) env = Some 0" using objs_repD(2) [OF D(8)] by blast
      then show False using D(2) unfolding im_inv_ok_def by force
    qed
    then have "si_rep (-1) (db_objs db ! nat i) (Ob ?env)"
      using objs_repD(4) [OF D(8), of ?env] Some by (auto simp: im_lookup_def)
    then show ?thesis using Some objs_repD(2) [OF D(8) Some] by (simp add: vec_at_def)
  qed
  then obtain obj where obj: "liftR (vec_at (db_objs db) (case map_find (db_objids db) (im_lookup name (db_idents db)) of None \<Rightarrow> 0 | Some oi \<Rightarrow> oi)) =
      returnR obj" "si_rep (-1) obj (Ob ?env)" by blast
  have dom: "dom (Ob ?env) \<subseteq> U" using D(9) by (auto simp: dom_def)
  obtain t where "si_get_tree obj = returnR t" "scope_tree_rep (with_root (-1) (Ob ?env)) t"
    using si_get_tree_rep [OF obj(2) laminar_subset [OF D(1) dom]] dom top unfolding scope_tree_rep_def by blast
  then show ?thesis using obj(1) by (simp add: get_object_instance_tree_def Let_def)
qed

lemma get_type_tree_rep:
  assumes rep: "db_rep U db T R Ob" and top: "\<forall>s \<in> U. scope_contains root_scope s"
  shows "\<exists>t L. get_type_definition_tree db = returnR t \<and> scope_tree_rep (list_root (\<lambda>s. map snd (L s))) t \<and>
    (\<forall>s. sorted_wrt (\<lambda>a b. fst a < fst b) (L s) \<and> set (L s) = {(k, v). T k s = Some v})"
proof -
  note D = db_repD [OF rep]
  have dom: "(\<Union>k. dom (T k)) \<subseteq> U" using D(5) by auto
  obtain t L where t: "sm_get_tree (db_types db) = returnR t" "scope_tree_rep (list_root L) t"
    "\<forall>s. sorted_wrt (\<lambda>a b. fst a < fst b) (L s) \<and> set (L s) = {(k, v). T k s = Some v}"
    using sm_get_tree_rep [OF D(4) laminar_subset [OF D(1) dom]] dom top by blast
  let ?f = "\<lambda>node :: (type_def \<times> int) list scope_node. Some \<lparr>sn_scope = sn_scope node, sn_value = map snd (sn_value node)\<rparr>"
  obtain t' where "tree_translate ?f t = returnR t'" "scope_tree_rep (map_option (map snd) \<circ> list_root L) t'"
    using translate_scope_tree [OF t(2), of ?f "map snd"] by (auto simp: sn_map_def)
  moreover have "map_option (map snd) \<circ> list_root L = list_root (\<lambda>s. map snd (L s))"
    by (rule list_root_map) simp
  ultimately show ?thesis using t(1,3) by (auto simp: get_type_definition_tree_def)
qed

definition listed_reductions :: "(int \<Rightarrow> scope \<Rightarrow> (int, int) result_element list) \<Rightarrow> (scope \<Rightarrow> int list) \<Rightarrow> scope \<Rightarrow> reduction_definition list" where
  "listed_reductions R ks s = concat (map (\<lambda>k. map (\<lambda>r. reduction_of_element (element_of k r)) (R k s)) (ks s))"

lemma get_reduction_tree_rep:
  assumes rep: "db_rep U db T R Ob" and top: "\<forall>s \<in> U. scope_contains root_scope s"
  shows "\<exists>t ks. get_reduction_definition_tree db = returnR t \<and> scope_tree_rep (list_root (listed_reductions R ks)) t \<and>
    (\<forall>s. sorted_wrt (<) (ks s) \<and> set (ks s) = {k. R k s \<noteq> []})"
proof -
  note D = db_repD [OF rep]
  have U: "s \<in> U" if ne: "R k s \<noteq> []" for k s
  proof -
    obtain r where "r \<in> set (R k s)" using ne by (cases "R k s") auto
    then show ?thesis using D(7) by blast
  qed
  have lam: "laminar {s. \<exists>k. R k s \<noteq> []}" by (rule laminar_subset [OF D(1)]) (use U in auto)
  obtain t ks where t: "rm_get_tree (db_redus db) = returnR t"
    "scope_tree_rep (list_root (\<lambda>s. concat (map (\<lambda>k. map (element_of k) (R k s)) (ks s)))) t"
    "\<forall>s. sorted_wrt (<) (ks s) \<and> set (ks s) = {k. R k s \<noteq> []}"
    using rm_get_tree_rep [OF D(6) lam] U top by blast
  let ?f = "\<lambda>node :: (int, int) tree_node_element list scope_node.
    Some \<lparr>sn_scope = sn_scope node, sn_value = map reduction_of_element (sn_value node)\<rparr>"
  let ?L = "\<lambda>s. concat (map (\<lambda>k. map (element_of k) (R k s)) (ks s))"
  obtain t' where "tree_translate ?f t = returnR t'" "scope_tree_rep (map_option (map reduction_of_element) \<circ> list_root ?L) t'"
    using translate_scope_tree [OF t(2), of ?f "map reduction_of_element"] by (auto simp: sn_map_def)
  moreover have "map_option (map reduction_of_element) \<circ> list_root ?L = list_root (\<lambda>s. map reduction_of_element (?L s))"
    by (rule list_root_map) simp
  moreover have "(\<lambda>s. map reduction_of_element (?L s)) = listed_reductions R ks"
    by (simp add: listed_reductions_def fun_eq_iff map_concat comp_def)
  ultimately show ?thesis using t(1,3) by (auto simp: get_reduction_definition_tree_def)
qed

lemma set_listed_reductions:
  assumes "\<forall>s. sorted_wrt (<) (ks s) \<and> set (ks s) = {k. R k s \<noteq> []}"
  shows "set (listed_reductions R ks s) = {reduction_of_element (element_of k r) |k r. r \<in> set (R k s)}"
proof -
  have "set (ks s) = {k. R k s \<noteq> []}" using assms by blast
  then show ?thesis by (fastforce simp: listed_reductions_def)
qed

subsection \<open>Properties\<close>

lemma run_set_objects_free:
  assumes "runR (\<lambda>(name, s, h). set_object_instance name s h) ds db = returnR db'" "first_object_free db"
  shows "first_object_free db'"
  by (rule runR_invariant [where I = first_object_free, OF assms]) (auto intro: first_object_free_set)

text \<open>
  C22: After any sequence of \<open>setObjectInstance\<close> with positive handles and scopes of one hierarchy,
  \<open>getObjectInstanceTree\<close> returns a tree whose depth first iteration ends and visits the scopes of
  the name, each once, below the root: below each scope are exactly the scopes directly inside it, and each
  carries the handle set last for it; the root scope carries -1 if it has none. An unknown name has the root only.
\<close>

theorem object_tree:
  assumes "laminar ((\<lambda>(name, s, h). s) ` set ds)" and "\<forall>(name, s, h) \<in> set ds. 0 < h \<and> scope_contains root_scope s"
  shows "\<exists>db t. runR (\<lambda>(name, s, h). set_object_instance name s h) ds typedb_new = returnR db \<and>
    get_object_instance_tree name db = returnR t \<and>
    is_scope_tree (with_root (-1) (last_in (map snd (filter (\<lambda>d. ident_key (fst d) = ident_key name) ds)))) t"
proof -
  let ?U = "(\<lambda>(name, s, h). s) ` set ds"
  have "\<forall>(name, s, h) \<in> set ds. s \<in> ?U \<and> 0 < h" using assms(2) by force
  from run_set_objects [OF db_rep_new [OF assms(1)] this]
  obtain db where db: "runR (\<lambda>(name, s, h). set_object_instance name s h) ds typedb_new = returnR db"
    "db_rep ?U db (\<lambda>_. Map.empty) (\<lambda>_ _. []) (\<lambda>env. last_in (map snd (filter (\<lambda>d. ident_key (fst d) = env) ds)))"
    by auto
  have top: "\<forall>s \<in> ?U. scope_contains root_scope s" using assms(2) by auto
  from get_object_tree_rep [OF db(2) run_set_objects_free [OF db(1) first_object_free_new] top, of name]
  show ?thesis using db(1) scope_tree_repD by blast
qed

lemma object_tree_witness:
  "\<exists>db t. runR (\<lambda>(name, s, h). set_object_instance name s h)
      [(''x'', Scope 2 5, 8), (''y'', Scope 1 9, 3), (''x'', Scope 0 9, 7)] typedb_new = returnR db \<and>
    get_object_instance_tree ''x'' db = returnR t \<and>
    is_scope_tree ([root_scope \<mapsto> -1, Scope 2 5 \<mapsto> 8, Scope 0 9 \<mapsto> 7]) t"
proof -
  have "last_in (map snd (filter (\<lambda>d. ident_key (fst d) = ident_key ''x'')
      [(''x'', Scope 2 5, 8 :: int), (''y'', Scope 1 9, 3), (''x'', Scope 0 9, 7)])) = [Scope 2 5 \<mapsto> 8, Scope 0 9 \<mapsto> 7]"
    by (simp add: ident_key_def ident_strsize_def last_in_def)
  moreover have "with_root (-1) [Scope 2 5 \<mapsto> 8, Scope 0 9 \<mapsto> (7 :: int)] = [root_scope \<mapsto> -1, Scope 2 5 \<mapsto> 8, Scope 0 9 \<mapsto> 7]"
    by (auto simp: with_root_def root_scope_def mk_scope_def int_max_def)
  ultimately show ?thesis
    using object_tree [of "[(''x'', Scope 2 5, 8), (''y'', Scope 1 9, 3), (''x'', Scope 0 9, 7)]" "''x''"]
    by (simp add: laminar_def scope_wf_def scopes_nested_def scope_contains_def root_scope_def mk_scope_def int_max_def)
qed



subsection \<open>Examples\<close>

abbreviation example_scope :: scope where
  "example_scope \<equiv> Scope 0 9"

lemma example_scope_facts:
  "laminar {example_scope}" "\<forall>s \<in> {example_scope}. scope_contains root_scope s"
  by (simp_all add: laminar_def scope_wf_def scopes_nested_def scope_contains_def int_max_def)

lemma example_names:
  "im_get ''f'' im_new = (fst (im_get ''f'' im_new), 1)" "im_get ''f'' (fst (im_get ''f'' im_new)) = (fst (im_get ''f'' im_new), 1)"
  "im_get ''g'' (fst (im_get ''f'' im_new)) = (fst (im_get ''g'' (fst (im_get ''f'' im_new))), 2)"
  by (simp_all add: im_get_def im_new_def ident_key_def ident_strsize_def Let_def)

lemma typedb_new_simps: "db_params typedb_new = []" "db_idents typedb_new = im_new" "nof_recs typedb_new = 0"
  by (simp_all add: typedb_new_def)



text \<open>
  \<open>getTypeDefinitionTree\<close> lists one type for a name: an overload of a type with other parameters, which
  \<open>getTypes\<close> returns, is not in the tree.
\<close>

lemma type_tree_without_overloads:
  "\<exists>db db' t B. db_reachable {example_scope} db \<and> get_types example_scope 0 ''f'' db = returnR (db', [1, 2]) \<and>
    get_type_definition_tree db = returnR t \<and> is_scope_tree B t \<and> B example_scope = Some [1]"
proof -
  let ?none = "\<lambda>_ :: type_def. Map.empty" and ?Ob = "\<lambda>_ :: string. Map.empty" and ?R0 = "\<lambda>(_ :: int) (_ :: scope). [] :: (int, int) result_element list"
  let ?I = "fst (im_get ''f'' im_new)" and ?k = "TypeDef 0 1" and ?ps = "[TypeConstructorPair 1 0]"
  let ?Tf = "?none(?k := [example_scope \<mapsto> 1])"
  have rep0: "db_rep {example_scope} typedb_new ?none ?R0 ?Ob" by (rule db_rep_new [OF example_scope_facts(1)])
  have ok0: "type_args_ok typedb_new 0 1 []" by (simp add: type_args_ok_def typedb_new_simps max_nof_parameter_def int_max_def)
  have none: "types_of typedb_new ?none ?k example_scope = []"
    using types_from(2) [OF db_repD(3) [OF rep0], of 0] by (simp add: types_of_def first_of_def)
  obtain db1 r1 where d1: "define_type example_scope 0 ''f'' 1 [] typedb_new = returnR (db1, r1)" "db_rep {example_scope} db1 ?Tf ?R0 ?Ob"
    "db_idents db1 = ?I" "nof_recs db1 = 1" "params_at db1 1 = []" "types_of db1 ?Tf ?k example_scope = [1]"
    using define_type_rep [OF rep0 _ ok0, of example_scope "''f''" ?I 1] typedb_new_simps example_names(1) none
    by (auto simp: first_def_def type_with_sig_def)
  have params: "db_params db1 = []" using define_type_params [OF d1(1)] typedb_new_simps by simp
  have reach1: "db_reachable {example_scope} db1"
    using db_reachable.init by (rule db_reachable.step [where c = "DefineType example_scope 0 ''f'' 1 []"])
      (use d1(1) typedb_new_simps in auto)
  have ok1: "type_args_ok db1 0 1 ?ps" using params d1(4) by (simp add: type_args_ok_def max_nof_parameter_def int_max_def)
  have sig: "type_with_sig db1 [1] [1] = 0" using d1(5) by (simp add: type_with_sig_def sig_at_def)
  obtain db2 r2 where d2: "define_type example_scope 0 ''f'' 1 ?ps db1 = returnR (db2, r2)" "db_rep {example_scope} db2 ?Tf ?R0 ?Ob"
    "db_idents db2 = ?I" "nof_recs db2 = 2" "types_of db2 ?Tf ?k example_scope = [1, 2]"
    using define_type_rep [OF d1(2) _ ok1, of example_scope "''f''" ?I 1] d1(3,4,6) example_names(2) sig
    by (auto simp: first_def_def fun_upd_idem)
  have reach2: "db_reachable {example_scope} db2"
    using reach1 by (rule db_reachable.step [where c = "DefineType example_scope 0 ''f'' 1 ?ps"]) (use d2(1) params d1(4) in auto)
  have get: "get_types example_scope 0 ''f'' db2 = returnR (db2\<lparr>db_idents := ?I\<rparr>, [1, 2])"
    using get_types_rep [OF d2(2), of 0 "''f''" ?I 1 example_scope] d2(3-5) example_names(2) by simp
  obtain t L where t: "get_type_definition_tree db2 = returnR t" "scope_tree_rep (list_root (\<lambda>s. map snd (L s))) t"
    "\<forall>s. sorted_wrt (\<lambda>a b. fst a < fst b) (L s) \<and> set (L s) = {(k, v). ?Tf k s = Some v}"
    using get_type_tree_rep [OF d2(2) example_scope_facts(2)] by blast
  have "sorted_wrt (<) (map fst (L example_scope))" using t(3) by (simp add: sorted_wrt_map)
  then have "distinct (L example_scope)" by (simp add: strict_sorted_iff distinct_map)
  moreover have "set (L example_scope) = {(?k, 1)}"
    using t(3) [rule_format, of example_scope] by (auto split: if_splits)
  ultimately have "L example_scope = [(?k, 1)]" by (cases "L example_scope") (auto simp: subset_singleton_iff)
  then have "list_root (\<lambda>s. map snd (L s)) example_scope = Some [1]" by (simp add: list_root_def)
  then show ?thesis using reach2 get t(1) scope_tree_repD [OF t(2)] by blast
qed

end
