(* ===== verification/LexPatterns.thy ===== *)
theory LexPatterns
  imports Prelude "HOL-Library.Word"
begin

text \<open>
  The first characters of the strings a pattern matches, from \<open>src/lexer.cpp\<close>, and the UTF-8 functions of
  \<open>src/utf8.hpp\<close> it uses.

  A \<open>char const*\<close> into a NUL terminated string is the list of the characters from its position to the end,
  the terminator included; the empty list is a pointer behind the terminator, where a read is undefined and
  gives \<open>None\<close>. A \<open>char\<close> is signed, as on x86. An exception of the standard library gives \<open>None\<close>.
\<close>

unbundle bit_operations_syntax

subsection \<open>Characters and pointers\<close>

type_synonym cptr = string

definition nul :: char where
  "nul = CHR 0x00"

definition newline :: char where
  "newline = CHR 0x0A"

definition c_str :: "string \<Rightarrow> cptr" where
  "c_str s = s @ [nul]"

definition deref :: "cptr \<Rightarrow> char run" where
  "deref p = (case p of [] \<Rightarrow> None | c # _ \<Rightarrow> returnR c)"

definition byte :: "char \<Rightarrow> nat" where
  "byte c = of_char c"

text \<open>The value of a signed \<open>char\<close>, and the \<open>char\<close> with a value.\<close>

definition schar :: "char \<Rightarrow> int" where
  "schar c = (if byte c \<ge> 128 then int (byte c) - 256 else int (byte c))"

definition schar_of :: "int \<Rightarrow> char" where
  "schar_of i = char_of (nat (i mod 256))"

subsection \<open>UTF-8\<close>

definition utf8mid :: "8 word \<Rightarrow> bool" where
  "utf8mid ch \<longleftrightarrow> ch AND 0xC0 = 0x80"

text \<open>The portable form of \<open>bitScanReverse\<close>: the number of the highest bit that is set, from 1.\<close>

definition bit_scan_reverse :: "8 word \<Rightarrow> nat" where
  "bit_scan_reverse idx =
     (let xx = (ucast idx :: 32 word) in
      if xx = 0 then 0
      else
        (case (if xx AND 0xF0 \<noteq> 0 then (1 + 4, drop_bit 4 xx) else (1, xx)) of (ee, xx) \<Rightarrow>
         case (if xx AND 0x0C \<noteq> 0 then (ee + 2, drop_bit 2 xx) else (ee, xx)) of (ee, xx) \<Rightarrow>
           if xx AND 0x02 \<noteq> 0 then ee + 1 else ee))"

definition utf8charlen :: "8 word \<Rightarrow> nat" where
  "utf8charlen ch = (let cl = 9 - bit_scan_reverse (ch XOR 0xFF) in if cl > 2 then cl - 1 else 1)"

definition byte_word :: "char \<Rightarrow> 8 word" where
  "byte_word c = word_of_nat (byte c)"

subsection \<open>Characters of a pattern\<close>

text \<open>\<open>REGEX_ESCAPE_CHARS\<close>; \<open>strchr\<close> also finds the terminator.\<close>

definition regex_escape_chars :: string where
  "regex_escape_chars = ''#{}[]()*+?.-'' @ [CHR 0x5C] @ ''|&^''"

definition strchr_found :: "string \<Rightarrow> char \<Rightarrow> bool" where
  "strchr_found s c \<longleftrightarrow> c \<in> set (c_str s)"

text \<open>The view at the character and the pointer behind the loop; a character of one byte is not skipped.\<close>

definition parse_char :: "cptr \<Rightarrow> (string \<times> cptr) run" where
  "parse_char si =
     bindR (deref si) (\<lambda>c.
       if byte c \<ge> 128 then
         (let mid = takeWhile (\<lambda>d. d \<noteq> nul \<and> utf8mid (byte_word d)) (tl si);
              rest = drop (Suc (length mid)) si in
          bindR (deref rest) (\<lambda>_. returnR (c # mid, rest)))
       else returnR ([c], si))"

definition parse_first_char :: "cptr \<Rightarrow> bool \<Rightarrow> (char \<times> cptr) run" where
  "parse_first_char si allow_non_ascii =
     bindR (deref si) (\<lambda>c.
       if byte c < 32 then bindR (parse_char si) (\<lambda>(chr, _). throwR (Error IllegalFirstCharacterInLexer chr))
       else if c = CHR 0x5C then
         bindR (deref (tl si)) (\<lambda>d.
           if strchr_found regex_escape_chars d then returnR (d, tl (tl si))
           else bindR (parse_char (tl si)) (\<lambda>(chr, _). throwR (Error IllegalFirstCharacterInLexer (CHR 0x5C # chr))))
       else
         (let len = utf8charlen (byte_word c) in
          if \<not> allow_non_ascii \<and> len > 1 then
            bindR (parse_char si) (\<lambda>(chr, _). throwR (Error IllegalFirstCharacterInLexer chr))
          else returnR (c, drop len si)))"

text \<open>
  The loop \<open>for (++from; from <= to; ++from)\<close> over signed characters; it does not end if \<open>to\<close> is the
  greatest value of a \<open>char\<close>.
\<close>

definition push_range :: "char \<Rightarrow> char \<Rightarrow> string \<Rightarrow> string run" where
  "push_range from to res =
     (if schar to = 127 then None else returnR (res @ map schar_of [schar from + 1..schar to]))"

lemma parse_first_char_shorter: "parse_first_char si b = returnR (c, si') \<Longrightarrow> length si' < length si"
proof -
  assume a: "parse_first_char si b = returnR (c, si')"
  obtain d ds where si: "si = d # ds" using a by (cases si) (auto simp: parse_first_char_def deref_def)
  have "0 < utf8charlen (byte_word d)" by (auto simp: utf8charlen_def Let_def)
  then show ?thesis using a by (auto simp: si parse_first_char_def deref_def bindR_eq_returnR Let_def split: if_splits list.splits)
qed

function extract_first_loop :: "string \<Rightarrow> cptr \<Rightarrow> char \<Rightarrow> bool \<Rightarrow> (string \<times> cptr \<times> bool) run" where
  "extract_first_loop res si eb emp =
     bindR (deref si) (\<lambda>c.
       if c = nul \<or> c = eb then returnR (res, si, emp)
       else if c = CHR ''-'' \<and> \<not> emp then
         bindR (deref (tl si)) (\<lambda>d.
           if d = nul \<or> d = eb then returnR (res @ [last res], tl si, emp)
           else
             (case parse_first_char (tl si) False of
                None \<Rightarrow> None
              | Some (Inl e) \<Rightarrow> throwR e
              | Some (Inr (to, si')) \<Rightarrow>
                  bindR (if schar to < schar (last res) then push_range to (last res) res else push_range (last res) to res) (\<lambda>res'.
                    extract_first_loop res' si' eb False)))
       else
         (case parse_first_char si False of
            None \<Rightarrow> None
          | Some (Inl e) \<Rightarrow> throwR e
          | Some (Inr (ch, si')) \<Rightarrow> extract_first_loop (res @ [ch]) si' eb False))"
  by pat_completeness auto
termination
  by (relation "measure (\<lambda>(_, si, _, _). length si)")
    (auto dest!: parse_first_char_shorter [unfolded returnR_def] split: list.splits)

declare extract_first_loop.simps [simp del]

definition extract_first_characters :: "string \<Rightarrow> cptr \<Rightarrow> char \<Rightarrow> (string \<times> cptr \<times> bool) run" where
  "extract_first_characters res si eb =
     bindR (extract_first_loop res si eb True) (\<lambda>(res', si', emp).
     bindR (deref si') (\<lambda>c.
       if c = nul then throwR (Error SyntaxErrorInLexer []) else returnR (res', tl si', \<not> emp)))"

fun skip_brackets_loop :: "char \<Rightarrow> char \<Rightarrow> cptr \<Rightarrow> nat \<Rightarrow> bool \<Rightarrow> (cptr \<times> nat \<times> bool) run" where
  "skip_brackets_loop sb eb [] cnt emp = None"
| "skip_brackets_loop sb eb (c # si) cnt emp =
     (if c = nul \<or> cnt = 0 then returnR (c # si, cnt, emp)
      else if c = eb then skip_brackets_loop sb eb si (cnt - 1) emp
      else if c = sb then skip_brackets_loop sb eb si (cnt + 1) emp
      else skip_brackets_loop sb eb si cnt False)"

definition skip_brackets :: "cptr \<Rightarrow> char \<Rightarrow> (bool \<times> cptr) run" where
  "skip_brackets si eb =
     bindR (deref si) (\<lambda>sb.
     bindR (skip_brackets_loop sb eb (tl si) 1 True) (\<lambda>(si', cnt, emp).
     bindR (deref si') (\<lambda>c.
       if c = nul \<and> cnt \<noteq> 0 then throwR (Error SyntaxErrorInLexer []) else returnR (\<not> emp, si'))))"

definition skip_multiplicator :: "cptr \<Rightarrow> (bool \<times> cptr) run" where
  "skip_multiplicator si =
     bindR (deref si) (\<lambda>c.
       if c = CHR ''*'' then returnR (False, tl si)
       else if c = CHR ''{'' then
         bindR (deref (tl si)) (\<lambda>d.
         bindR (if d = CHR ''0'' then bindR (deref (tl (tl si))) (\<lambda>e. returnR (e = CHR '','')) else returnR False) (\<lambda>emp.
         bindR (skip_brackets si (CHR ''}'')) (\<lambda>(_, si'). returnR (\<not> emp, si'))))
       else returnR (True, si))"

text \<open>A negative character is out of the range of the bit set: \<open>std::bitset::set\<close> throws.\<close>

definition inverse_charset :: "string \<Rightarrow> string run" where
  "inverse_charset charset =
     (if \<exists>c \<in> set charset. schar c < 0 then None
      else returnR (filter (\<lambda>c. c \<notin> set charset) (map char_of [33..<256])))"

text \<open>
  The loops of \<open>LexemDef::activation\<close>: over the pattern, and over the alternatives in brackets, with the
  calls of the function for the text in brackets.
\<close>

partial_function (option) activation_loop :: "bool \<Rightarrow> cptr \<Rightarrow> string \<Rightarrow> string run" where
  "activation_loop alternatives si rt =
     (if alternatives then
        bindR (skip_brackets si (CHR '')'')) (\<lambda>(has_characters, si1).
        bindR (skip_multiplicator si1) (\<lambda>(required, si2).
        bindR (let source = c_str (take (length si - length si2 - 2) (tl si)) in
               activation_loop False (if hd source = CHR ''^'' then tl source else source) []) (\<lambda>sub.
        bindR (deref si2) (\<lambda>c.
          if c = CHR ''|'' then activation_loop True (tl si2) (rt @ sub)
          else if \<not> has_characters \<or> \<not> required then activation_loop False si2 (rt @ sub)
          else returnR (rt @ sub)))))
      else
        bindR (deref si) (\<lambda>c.
          if c = nul then returnR rt
          else if c = CHR ''['' then
            bindR (deref (tl si)) (\<lambda>d.
            bindR (extract_first_characters rt (if d = CHR ''^'' then tl (tl si) else tl si) (CHR '']'')) (\<lambda>(rt1, si1, has_characters).
            bindR (skip_multiplicator si1) (\<lambda>(required, si2).
            bindR (if d = CHR ''^'' then inverse_charset rt1 else returnR rt1) (\<lambda>rt2.
              if \<not> has_characters \<or> \<not> required then activation_loop False si2 rt2 else returnR rt2))))
          else if c = CHR ''('' then activation_loop True si rt
          else bindR (parse_first_char si True) (\<lambda>(ch, _). returnR (rt @ [ch]))))"

declare activation_loop.simps [code]

definition activation :: "string \<Rightarrow> string run" where
  "activation source =
     (let si = c_str source in activation_loop False (if hd si = CHR ''^'' then tl si else si) [])"

end
