(* ===== verification/LrPacking.thy ===== *)
theory LrPacking
  imports StdMap
begin

text \<open>
  The keys and values of the automaton tables of \<open>src/automaton.hpp\<close> and the items and priorities of
  \<open>src/automaton_structs.hpp\<close>, with their packed form, a 32 bit \<open>int\<close>. The packed form is computed on
  unbounded integers; the lemmas on the bounds show that it is the one of the code for all values
  within the limits of the automaton.
\<close>

unbundle bit_operations_syntax

subsection \<open>Limits\<close>

definition shift_action_type :: nat where "shift_action_type = 2"
definition shift_state :: nat where "shift_state = 12"
definition shift_production_length :: nat where "shift_production_length = 4"
definition shift_nof_productions :: nat where "shift_nof_productions = 9"
definition shift_nonterminal :: nat where "shift_nonterminal = 8"
definition shift_terminal :: nat where "shift_terminal = 10"
definition shift_call :: nat where "shift_call = 10"
definition shift_priority :: nat where "shift_priority = 5"
definition shift_scope_flag :: nat where "shift_scope_flag = 2"

definition max_state :: int where "max_state = push_bit shift_state 1"
definition max_production_length :: int where "max_production_length = push_bit shift_production_length 1"
definition max_nof_productions :: int where "max_nof_productions = push_bit shift_nof_productions 1"
definition max_nonterminal :: int where "max_nonterminal = push_bit shift_nonterminal 1"
definition max_terminal :: int where "max_terminal = push_bit shift_terminal 1"
definition max_priority :: int where "max_priority = push_bit shift_priority 1"

definition mask_action_type :: int where "mask_action_type = push_bit shift_action_type 1 - 1"
definition mask_state :: int where "mask_state = push_bit shift_state 1 - 1"
definition mask_production_length :: int where "mask_production_length = push_bit shift_production_length 1 - 1"
definition mask_terminal :: int where "mask_terminal = push_bit shift_terminal 1 - 1"
definition mask_call :: int where "mask_call = push_bit shift_call 1 - 1"
definition mask_scope_flag :: int where "mask_scope_flag = push_bit shift_scope_flag 1 - 1"

lemmas shift_defs = shift_action_type_def shift_state_def shift_production_length_def shift_nof_productions_def
  shift_nonterminal_def shift_terminal_def shift_call_def shift_priority_def shift_scope_flag_def

lemmas limit_defs = max_state_def max_production_length_def max_nof_productions_def max_nonterminal_def max_terminal_def max_priority_def
  mask_action_type_def mask_state_def mask_production_length_def mask_terminal_def mask_call_def mask_scope_flag_def shift_defs

lemma limits [simp]:
  "max_state = 4096" "max_production_length = 16" "max_nof_productions = 512" "max_nonterminal = 256" "max_terminal = 1024" "max_priority = 32"
  by (simp_all add: limit_defs push_bit_eq_mult)

text \<open>The conversion of an \<open>int\<close> to a \<open>short\<close> member.\<close>

definition to_short :: "int \<Rightarrow> int" where
  "to_short x = (x + 32768) mod 65536 - 32768"

lemma to_short_id [simp]: "-32768 \<le> x \<Longrightarrow> x < 32768 \<Longrightarrow> to_short x = x"
  by (simp add: to_short_def)

subsection \<open>Bit fields\<close>

lemma field_or: "0 \<le> b \<Longrightarrow> b < 2 ^ n \<Longrightarrow> push_bit n a OR b = a * 2 ^ n + (b :: int)"
  using concat_bit_eq [of n b a]
  by (simp add: concat_bit_def take_bit_int_eq_self or.commute push_bit_eq_mult)

lemma field_mask: "x AND (push_bit n 1 - 1) = x mod (2 ^ n :: int)"
  by (simp add: push_bit_eq_mult and_exp_eq_0_iff_not_bit flip: mask_eq_exp_minus_1 take_bit_eq_mask take_bit_eq_mod)

lemma peel:
  fixes a b m :: int
  assumes "0 \<le> b" "b < m"
  shows "(a * m + b) div m = a" "(a * m + b) mod m = b"
  using assms by (simp_all add: div_add1_eq div_pos_pos_trivial mod_pos_pos_trivial add.commute)

subsection \<open>Keys of the tables\<close>

datatype action_key = ActionKey (ak_state: int) (ak_terminal: int)

definition mk_action_key :: "int \<Rightarrow> int \<Rightarrow> action_key" where
  "mk_action_key state terminal = ActionKey (to_short state) (to_short terminal)"

lemma action_key_eq_iff: "a = b \<longleftrightarrow> ak_state a = ak_state b \<and> ak_terminal a = ak_terminal b"
  by (cases a; cases b) simp

instantiation action_key :: linorder
begin

definition less_action_key :: "action_key \<Rightarrow> action_key \<Rightarrow> bool" where
  "less_action_key a b \<longleftrightarrow> (if ak_state a = ak_state b then ak_terminal a < ak_terminal b else ak_state a < ak_state b)"

definition less_eq_action_key :: "action_key \<Rightarrow> action_key \<Rightarrow> bool" where
  "less_eq_action_key a b \<longleftrightarrow> a < b \<or> a = b"

instance
  by standard (auto simp: less_action_key_def less_eq_action_key_def action_key_eq_iff split: if_splits)

end

definition action_key_packed :: "action_key \<Rightarrow> int" where
  "action_key_packed k = push_bit shift_terminal (ak_state k) OR ak_terminal k"

definition action_key_unpack :: "int \<Rightarrow> action_key" where
  "action_key_unpack pkg = mk_action_key (drop_bit shift_terminal pkg) (pkg AND mask_terminal)"

datatype goto_key = GotoKey (gk_state: int) (gk_nonterminal: int)

definition mk_goto_key :: "int \<Rightarrow> int \<Rightarrow> goto_key" where
  "mk_goto_key state nonterminal = GotoKey (to_short state) (to_short nonterminal)"

lemma goto_key_eq_iff: "a = b \<longleftrightarrow> gk_state a = gk_state b \<and> gk_nonterminal a = gk_nonterminal b"
  by (cases a; cases b) simp

instantiation goto_key :: linorder
begin

definition less_goto_key :: "goto_key \<Rightarrow> goto_key \<Rightarrow> bool" where
  "less_goto_key a b \<longleftrightarrow> (if gk_state a = gk_state b then gk_nonterminal a < gk_nonterminal b else gk_state a < gk_state b)"

definition less_eq_goto_key :: "goto_key \<Rightarrow> goto_key \<Rightarrow> bool" where
  "less_eq_goto_key a b \<longleftrightarrow> a < b \<or> a = b"

instance
  by standard (auto simp: less_goto_key_def less_eq_goto_key_def goto_key_eq_iff split: if_splits)

end

definition goto_key_packed :: "goto_key \<Rightarrow> int" where
  "goto_key_packed k = push_bit shift_terminal (gk_state k) OR gk_nonterminal k"

definition goto_key_unpack :: "int \<Rightarrow> goto_key" where
  "goto_key_unpack pkg = mk_goto_key (drop_bit shift_terminal pkg) (pkg AND mask_terminal)"

datatype goto = Goto (go_state: int)

definition mk_goto :: "int \<Rightarrow> goto" where
  "mk_goto state = Goto (to_short state)"

definition goto_packed :: "goto \<Rightarrow> int" where
  "goto_packed g = go_state g"

definition goto_unpack :: "int \<Rightarrow> goto" where
  "goto_unpack pkg = mk_goto pkg"

subsection \<open>Actions\<close>

datatype action_type = Shift | Reduce | Accept

datatype scope_flag = NoScope | Step | ScopeFlag

fun action_type_code :: "action_type \<Rightarrow> int" where
  "action_type_code Shift = 0"
| "action_type_code Reduce = 1"
| "action_type_code Accept = 2"

fun scope_flag_code :: "scope_flag \<Rightarrow> int" where
  "scope_flag_code NoScope = 0"
| "scope_flag_code Step = 1"
| "scope_flag_code ScopeFlag = 2"

text \<open>A value out of the enumeration, which the code casts to it, is taken as the last constant.\<close>

definition action_type_of_code :: "int \<Rightarrow> action_type" where
  "action_type_of_code c = (if c = 0 then Shift else if c = 1 then Reduce else Accept)"

definition scope_flag_of_code :: "int \<Rightarrow> scope_flag" where
  "scope_flag_of_code c = (if c = 0 then NoScope else if c = 1 then Step else ScopeFlag)"

fun scope_flag_name :: "scope_flag \<Rightarrow> string" where
  "scope_flag_name NoScope = []"
| "scope_flag_name Step = ''step''"
| "scope_flag_name ScopeFlag = ''scope''"

datatype action = Action (ac_type: action_type) (ac_scopeflag: scope_flag) (ac_value: int) (ac_call: int) (ac_count: int)

definition mk_action :: "action_type \<Rightarrow> scope_flag \<Rightarrow> int \<Rightarrow> int \<Rightarrow> int \<Rightarrow> action" where
  "mk_action type scopeflag value call count = Action type scopeflag (to_short value) (to_short call) (to_short count)"

definition action_accept :: "int \<Rightarrow> scope_flag \<Rightarrow> int \<Rightarrow> int \<Rightarrow> action" where
  "action_accept nonterminal scopeflag call count = mk_action Accept scopeflag nonterminal call count"

definition action_shift :: "int \<Rightarrow> action" where
  "action_shift follow_state = mk_action Shift NoScope follow_state 0 0"

definition action_reduce :: "int \<Rightarrow> scope_flag \<Rightarrow> int \<Rightarrow> int \<Rightarrow> action" where
  "action_reduce nonterminal scopeflag call count = mk_action Reduce scopeflag nonterminal call count"

definition action_packed :: "action \<Rightarrow> int" where
  "action_packed a =
     push_bit (shift_production_length + shift_call + shift_state + shift_scope_flag) (action_type_code (ac_type a)) OR
     push_bit (shift_production_length + shift_call + shift_state) (scope_flag_code (ac_scopeflag a)) OR
     push_bit (shift_production_length + shift_call) (ac_value a) OR
     push_bit shift_production_length (ac_call a) OR
     ac_count a"

definition action_unpack :: "int \<Rightarrow> action" where
  "action_unpack pkg = mk_action
     (action_type_of_code (drop_bit (shift_production_length + shift_call + shift_state + shift_scope_flag) pkg AND mask_action_type))
     (scope_flag_of_code (drop_bit (shift_production_length + shift_call + shift_state) pkg AND mask_scope_flag))
     (drop_bit (shift_production_length + shift_call) pkg AND mask_state)
     (drop_bit shift_production_length pkg AND mask_call)
     (pkg AND mask_production_length)"

subsection \<open>Priorities\<close>

datatype assoziativity = Undefined | LeftAssoc | RightAssoc

fun assoziativity_code :: "assoziativity \<Rightarrow> int" where
  "assoziativity_code Undefined = 0"
| "assoziativity_code LeftAssoc = 1"
| "assoziativity_code RightAssoc = 2"

definition assoziativity_of_code :: "int \<Rightarrow> assoziativity" where
  "assoziativity_of_code c = (if c = 0 then Undefined else if c = 1 then LeftAssoc else RightAssoc)"

datatype priority = Priority (pr_value: int) (pr_assoziativity: assoziativity)

definition no_priority :: priority where
  "no_priority = Priority 0 Undefined"

definition priority_defined :: "priority \<Rightarrow> bool" where
  "priority_defined p \<longleftrightarrow> pr_value p \<noteq> 0 \<or> pr_assoziativity p \<noteq> Undefined"

definition priority_less :: "priority \<Rightarrow> priority \<Rightarrow> bool" where
  "priority_less a b \<longleftrightarrow>
     (if pr_value a = pr_value b then assoziativity_code (pr_assoziativity a) < assoziativity_code (pr_assoziativity b)
      else pr_value a < pr_value b)"

definition priority_tostring :: "priority \<Rightarrow> string" where
  "priority_tostring p =
     (case pr_assoziativity p of Undefined \<Rightarrow> [] | LeftAssoc \<Rightarrow> ''L'' | RightAssoc \<Rightarrow> ''R'') @ dec_int (pr_value p)"

definition priority_packed :: "priority \<Rightarrow> int" where
  "priority_packed p = push_bit 2 (pr_value p) + assoziativity_code (pr_assoziativity p)"

definition priority_unpack :: "int \<Rightarrow> priority" where
  "priority_unpack pkg = Priority (to_short (drop_bit 2 pkg)) (assoziativity_of_code (pkg AND 3))"

subsection \<open>Items\<close>

datatype transition_item = TransitionItem (ti_prodindex: int) (ti_prodpos: int) (ti_follow: int)

lemma transition_item_eq_iff: "a = b \<longleftrightarrow> ti_prodindex a = ti_prodindex b \<and> ti_prodpos a = ti_prodpos b \<and> ti_follow a = ti_follow b"
  by (cases a; cases b) simp

instantiation transition_item :: linorder
begin

definition less_transition_item :: "transition_item \<Rightarrow> transition_item \<Rightarrow> bool" where
  "less_transition_item a b \<longleftrightarrow>
     (if ti_prodindex a = ti_prodindex b
      then (if ti_prodpos a = ti_prodpos b then ti_follow a < ti_follow b else ti_prodpos a < ti_prodpos b)
      else ti_prodindex a < ti_prodindex b)"

definition less_eq_transition_item :: "transition_item \<Rightarrow> transition_item \<Rightarrow> bool" where
  "less_eq_transition_item a b \<longleftrightarrow> a < b \<or> a = b"

instance
  by standard (auto simp: less_transition_item_def less_eq_transition_item_def transition_item_eq_iff split: if_splits)

end

definition item_packed :: "transition_item \<Rightarrow> int" where
  "item_packed i =
     push_bit (shift_production_length + shift_terminal) (ti_prodindex i) OR
     push_bit shift_terminal (ti_prodpos i) OR
     ti_follow i"

definition item_unpack :: "int \<Rightarrow> transition_item" where
  "item_unpack pkg = TransitionItem
     (drop_bit (shift_production_length + shift_terminal) pkg)
     (drop_bit shift_terminal pkg AND mask_production_length)
     (pkg AND mask_terminal)"

text \<open>The items within the limits.\<close>

definition item_ok :: "transition_item \<Rightarrow> bool" where
  "item_ok i \<longleftrightarrow> 0 \<le> ti_prodindex i \<and> ti_prodindex i < max_nof_productions \<and>
     0 \<le> ti_prodpos i \<and> ti_prodpos i < max_production_length \<and> 0 \<le> ti_follow i \<and> ti_follow i < max_terminal"

subsection \<open>Properties\<close>

lemma item_packed_eq:
  "item_ok i \<Longrightarrow> item_packed i = ti_prodindex i * 16384 + ti_prodpos i * 1024 + ti_follow i"
  using field_or [of "ti_follow i" 10 "ti_prodpos i"] field_or [of "ti_prodpos i * 1024 + ti_follow i" 14 "ti_prodindex i"]
  by (simp add: item_packed_def item_ok_def shift_defs)

lemma item_unpack_eq: "item_unpack pkg = TransitionItem (pkg div 16384) (pkg div 1024 mod 16) (pkg mod 1024)"
  using field_mask [of "pkg div 1024" 4] field_mask [of pkg 10]
  by (simp add: item_unpack_def mask_production_length_def mask_terminal_def shift_defs drop_bit_eq_div)

lemma item_packed_inverse: "item_ok i \<Longrightarrow> item_unpack (item_packed i) = i"
  using peel [of "ti_follow i" 1024 "ti_prodindex i * 16 + ti_prodpos i"] peel [of "ti_prodpos i" 16 "ti_prodindex i"]
    peel [of "ti_prodpos i * 1024 + ti_follow i" 16384 "ti_prodindex i"]
  by (simp add: item_packed_eq item_unpack_eq item_ok_def transition_item_eq_iff algebra_simps)

lemma item_packed_mono: "item_ok i \<Longrightarrow> item_ok j \<Longrightarrow> item_packed i < item_packed j \<longleftrightarrow> i < j"
  by (auto simp: item_packed_eq item_ok_def less_transition_item_def)

lemma table_key_packed_eq:
  "0 \<le> ak_terminal k \<Longrightarrow> ak_terminal k < 1024 \<Longrightarrow> action_key_packed k = ak_state k * 1024 + ak_terminal k"
  "0 \<le> gk_nonterminal g \<Longrightarrow> gk_nonterminal g < 1024 \<Longrightarrow> goto_key_packed g = gk_state g * 1024 + gk_nonterminal g"
  using field_or [of "ak_terminal k" 10 "ak_state k"] field_or [of "gk_nonterminal g" 10 "gk_state g"]
  by (simp_all add: action_key_packed_def goto_key_packed_def shift_defs)

lemma table_key_unpack_eq:
  "action_key_unpack pkg = mk_action_key (pkg div 1024) (pkg mod 1024)"
  "goto_key_unpack pkg = mk_goto_key (pkg div 1024) (pkg mod 1024)"
  using field_mask [of pkg 10]
  by (simp_all add: action_key_unpack_def goto_key_unpack_def mask_terminal_def shift_defs drop_bit_eq_div)

definition action_ok :: "action \<Rightarrow> bool" where
  "action_ok a \<longleftrightarrow> 0 \<le> ac_value a \<and> ac_value a < 4096 \<and> 0 \<le> ac_call a \<and> ac_call a < 1024 \<and> 0 \<le> ac_count a \<and> ac_count a < 16"

lemma action_codes [simp]:
  "0 \<le> action_type_code t" "action_type_code t < 4" "0 \<le> scope_flag_code f" "scope_flag_code f < 4"
  "action_type_of_code (action_type_code t) = t" "scope_flag_of_code (scope_flag_code f) = f"
  by (cases t; cases f; simp add: action_type_of_code_def scope_flag_of_code_def)+

lemma action_packed_eq:
  "action_ok a \<Longrightarrow> action_packed a = action_type_code (ac_type a) * 268435456 + scope_flag_code (ac_scopeflag a) * 67108864 +
     ac_value a * 16384 + ac_call a * 16 + ac_count a"
  using field_or [of "ac_count a" 4 "ac_call a"] field_or [of "ac_call a * 16 + ac_count a" 14 "ac_value a"]
    field_or [of "ac_value a * 16384 + ac_call a * 16 + ac_count a" 26 "scope_flag_code (ac_scopeflag a)"]
    field_or [of "scope_flag_code (ac_scopeflag a) * 67108864 + ac_value a * 16384 + ac_call a * 16 + ac_count a" 28 "action_type_code (ac_type a)"]
    action_codes(3,4) [of "ac_scopeflag a"]
  by (simp add: action_packed_def action_ok_def shift_defs add.assoc)

lemma action_unpack_eq:
  "action_unpack pkg = mk_action (action_type_of_code (pkg div 268435456 mod 4)) (scope_flag_of_code (pkg div 67108864 mod 4))
     (pkg div 16384 mod 4096) (pkg div 16 mod 1024) (pkg mod 16)"
  using field_mask [of "pkg div 268435456" 2] field_mask [of "pkg div 67108864" 2] field_mask [of "pkg div 16384" 12]
    field_mask [of "pkg div 16" 10] field_mask [of pkg 4]
  by (simp add: action_unpack_def mask_action_type_def mask_scope_flag_def mask_state_def mask_call_def mask_production_length_def
      shift_defs drop_bit_eq_div)

lemma unnest:
  fixes t f v c n p :: int
  assumes p: "p = (((t * 4 + f) * 4096 + v) * 1024 + c) * 16 + n"
    and r: "0 \<le> n" "n < 16" "0 \<le> c" "c < 1024" "0 \<le> v" "v < 4096" "0 \<le> f" "f < 4"
  shows "p mod 16 = n" "p div 16 mod 1024 = c" "p div 16384 mod 4096 = v" "p div 67108864 mod 4 = f" "p div 268435456 = t"
proof -
  obtain x3 where x3: "x3 = t * 4 + f" by blast
  obtain x2 where x2: "x2 = x3 * 4096 + v" by blast
  obtain x1 where x1: "x1 = x2 * 1024 + c" by blast
  have p: "p = x1 * 16 + n" using p x1 x2 x3 by simp
  have d1: "p div 16 = x1" "p mod 16 = n" using p r(1,2) by (simp_all add: peel)
  have d2: "p div 16384 = x2" using zdiv_zmult2_eq [of 1024 p 16] d1 x1 r(3,4) by (simp add: peel)
  have d3: "p div 67108864 = x3" using zdiv_zmult2_eq [of 4096 p 16384] d2 x2 r(5,6) by (simp add: peel)
  have d4: "p div 268435456 = t" using zdiv_zmult2_eq [of 4 p 67108864] d3 x3 r(7,8) by (simp add: peel)
  show "p mod 16 = n" "p div 16 mod 1024 = c" "p div 16384 mod 4096 = v" "p div 67108864 mod 4 = f" "p div 268435456 = t"
    unfolding d1 d2 d3 d4 x1 x2 x3 using r by (simp_all only: peel)
qed

lemma action_packed_inverse:
  assumes "action_ok a"
  shows "action_unpack (action_packed a) = a"
proof -
  obtain t f v c n where a: "a = Action t f v c n" by (cases a)
  have r: "0 \<le> v" "v < 4096" "0 \<le> c" "c < 1024" "0 \<le> n" "n < 16" using assms by (simp_all add: a action_ok_def)
  note t = action_codes(1,2) [of t] and f = action_codes(3,4) [of f]
  obtain p where p: "p = action_packed a" by blast
  then have "p = (((action_type_code t * 4 + scope_flag_code f) * 4096 + v) * 1024 + c) * 16 + n"
    using action_packed_eq [OF assms] by (simp add: a)
  note u = unnest [OF this r(5,6,3,4,1,2) f]
  have "p div 268435456 mod 4 = action_type_code t" using u(5) mod_pos_pos_trivial [OF t] by simp
  then show ?thesis
    unfolding p [symmetric] action_unpack_eq u using r by (simp add: a mk_action_def)
qed

lemma priority_packed_inverse:
  assumes "-32768 \<le> pr_value p" "pr_value p < 32768"
  shows "priority_unpack (priority_packed p) = p"
proof -
  obtain v a where p: "p = Priority v a" by (cases p)
  have a: "0 \<le> assoziativity_code a" "assoziativity_code a < 4" "assoziativity_of_code (assoziativity_code a) = a"
    by (cases a; simp add: assoziativity_of_code_def)+
  have "(v * 4 + assoziativity_code a) div 4 = v" "(v * 4 + assoziativity_code a) mod 4 = assoziativity_code a"
    using a by presburger+
  then show ?thesis
    using assms a field_mask [of "v * 4 + assoziativity_code a" 2]
    by (simp add: p priority_unpack_def priority_packed_def drop_bit_eq_div push_bit_eq_mult)
qed



text \<open>
  C30: Items within the limits are read back from their packed form, and the packed forms are ordered as
  the items. An item whose follow handle reaches the limit is not: it is read back as the item
  behind the next element of its production.
\<close>

theorem item_packing_order:
  "(item_ok i \<longrightarrow> item_unpack (item_packed i) = i \<and> 0 \<le> item_packed i \<and> item_packed i < 2 ^ 23) \<and>
   (item_ok i \<and> item_ok j \<longrightarrow> (item_packed i < item_packed j \<longleftrightarrow> i < j) \<and> (item_packed i = item_packed j \<longleftrightarrow> i = j)) \<and>
   item_unpack (item_packed (TransitionItem 0 0 max_terminal)) = TransitionItem 0 1 0"
proof (intro conjI impI)
  assume i: "item_ok i"
  show "item_unpack (item_packed i) = i" by (rule item_packed_inverse [OF i])
  show "0 \<le> item_packed i" "item_packed i < 2 ^ 23" using i unfolding item_packed_eq [OF i] by (simp_all add: item_ok_def)
next
  assume ij: "item_ok i \<and> item_ok j"
  show "item_packed i < item_packed j \<longleftrightarrow> i < j" using ij by (simp add: item_packed_mono)
  show "item_packed i = item_packed j \<longleftrightarrow> i = j" using ij item_packed_inverse by metis
next
  show "item_unpack (item_packed (TransitionItem 0 0 max_terminal)) = TransitionItem 0 1 0"
    unfolding item_unpack_eq by (simp add: item_packed_def)
qed

lemma item_packing_order_witness:
  "item_unpack (item_packed (TransitionItem 511 15 1023)) = TransitionItem 511 15 1023 \<and>
   item_packed (TransitionItem 3 2 1023) < item_packed (TransitionItem 3 3 0)"
  using item_packing_order [of "TransitionItem 511 15 1023" "TransitionItem 511 15 1023"]
    item_packing_order [of "TransitionItem 3 2 1023" "TransitionItem 3 3 0"]
  by (simp add: item_ok_def less_transition_item_def)

end
