(* ===== verification/FlatSets.thy ===== *)
theory FlatSets
  imports LrPacking "HOL-Library.Word"
begin

text \<open>
  \<open>FlatSet\<close>, \<open>IntHash\<close>, \<open>TransitionState\<close> and \<open>IntSetHandleMap\<close> of \<open>src/automaton_structs.hpp\<close>: sets
  as ordered vectors, states of the automaton as sets of packed items, and a numbering of sets.

  A vector is a list; \<open>std::lower_bound\<close> on an ordered vector is the position behind the elements less
  than the value. An \<open>unordered_map\<close> from sets to numbers is a partial function on their contents.
\<close>

subsection \<open>FlatSet\<close>

type_synonym flat_set = "int list"

definition fs_insert :: "int \<Rightarrow> flat_set \<Rightarrow> flat_set \<times> bool" where
  "fs_insert elem fs =
     (case dropWhile (\<lambda>x. x < elem) fs of
        [] \<Rightarrow> (fs @ [elem], True)
      | x # xs \<Rightarrow>
          if x > elem then (takeWhile (\<lambda>x. x < elem) fs @ elem # x # xs, True)
          else (fs, False))"

fun fs_insert_range :: "int list \<Rightarrow> flat_set \<Rightarrow> flat_set \<times> bool" where
  "fs_insert_range [] fs = (fs, False)"
| "fs_insert_range (elem # elems) fs =
     (case fs_insert elem fs of (fs', ins) \<Rightarrow>
      case fs_insert_range elems fs' of (fs'', rest) \<Rightarrow> (fs'', ins \<or> rest))"

definition fs_of_list :: "int list \<Rightarrow> flat_set" where
  "fs_of_list items = fst (fs_insert_range items [])"

definition fs_contains :: "int \<Rightarrow> flat_set \<Rightarrow> bool" where
  "fs_contains elem fs = (case dropWhile (\<lambda>x. x < elem) fs of [] \<Rightarrow> False | x # _ \<Rightarrow> x = elem)"

text \<open>Copy assignment appends the elements of the right side to those of the left side.\<close>

definition fs_assign :: "flat_set \<Rightarrow> flat_set \<Rightarrow> flat_set" where
  "fs_assign fs other = fs @ other"

fun fs_compare_elems :: "flat_set \<Rightarrow> flat_set \<Rightarrow> int" where
  "fs_compare_elems (x # xs) (y # ys) = (if x \<noteq> y then (if x < y then -1 else 1) else fs_compare_elems xs ys)"
| "fs_compare_elems _ _ = 0"

definition fs_compare :: "flat_set \<Rightarrow> flat_set \<Rightarrow> int" where
  "fs_compare fs other =
     (if length fs = length other then fs_compare_elems fs other
      else if length fs < length other then -1 else 1)"

definition fs_equal :: "flat_set \<Rightarrow> flat_set \<Rightarrow> bool" where
  "fs_equal fs other \<longleftrightarrow> fs_compare fs other = 0"

definition fs_less :: "flat_set \<Rightarrow> flat_set \<Rightarrow> bool" where
  "fs_less fs other \<longleftrightarrow> fs_compare fs other < 0"

definition fs_ok :: "flat_set \<Rightarrow> bool" where
  "fs_ok fs \<longleftrightarrow> sorted_wrt (<) fs"

lemma fs_ok_Nil [simp]: "fs_ok []"
  by (simp add: fs_ok_def)

lemma fs_split:
  assumes "fs_ok fs"
  obtains l r where "takeWhile (\<lambda>x. x < e) fs = l" "dropWhile (\<lambda>x. x < e) fs = r" "fs = l @ r"
    "\<forall>x \<in> set l. x < e" "\<forall>x \<in> set r. e \<le> x" "fs_ok l" "fs_ok r"
proof -
  let ?l = "takeWhile (\<lambda>x. x < e) fs" and ?r = "dropWhile (\<lambda>x. x < e) fs"
  have split: "fs = ?l @ ?r" by simp
  then have ok: "fs_ok ?l" "fs_ok ?r" using assms unfolding fs_ok_def by (metis sorted_wrt_append)+
  obtain r where r: "?r = r" by blast
  have "\<forall>x \<in> set r. e \<le> x"
  proof (cases r)
    case (Cons y ys)
    then have "e \<le> y" using hd_dropWhile [of "\<lambda>x. x < e" fs] r by simp
    moreover have "\<forall>x \<in> set ys. y < x" using ok(2) unfolding r Cons fs_ok_def by simp
    ultimately show ?thesis unfolding Cons by auto
  qed simp
  moreover have "\<forall>x \<in> set ?l. x < e" by (blast dest: set_takeWhileD)
  ultimately show ?thesis using that [OF refl refl split] ok unfolding r by blast
qed

lemma fs_insert_spec:
  assumes "fs_ok fs"
  shows "fs_ok (fst (fs_insert e fs))" "set (fst (fs_insert e fs)) = insert e (set fs)" "snd (fs_insert e fs) \<longleftrightarrow> e \<notin> set fs"
proof -
  obtain l r where d: "takeWhile (\<lambda>x. x < e) fs = l" "dropWhile (\<lambda>x. x < e) fs = r" "fs = l @ r"
    "\<forall>x \<in> set l. x < e" "\<forall>x \<in> set r. e \<le> x" "fs_ok l" "fs_ok r"
    by (rule fs_split [OF assms])
  have "fs_ok (fst (fs_insert e fs)) \<and> set (fst (fs_insert e fs)) = insert e (set fs) \<and> (snd (fs_insert e fs) \<longleftrightarrow> e \<notin> set fs)"
  proof (cases r)
    case Nil
    then show "?thesis" unfolding fs_insert_def d(1,2) using d by (auto simp: fs_ok_def sorted_wrt_append)
  next
    case (Cons y ys)
    then show "?thesis" unfolding fs_insert_def d(1,2) using d by (auto simp: fs_ok_def sorted_wrt_append intro: less_le_trans)
  qed
  then show "fs_ok (fst (fs_insert e fs))" "set (fst (fs_insert e fs)) = insert e (set fs)" "snd (fs_insert e fs) \<longleftrightarrow> e \<notin> set fs"
    by blast+
qed

lemma fs_insert_range_spec:
  assumes "fs_ok fs"
  shows "fs_ok (fst (fs_insert_range es fs))" "set (fst (fs_insert_range es fs)) = set es \<union> set fs"
    "snd (fs_insert_range es fs) \<longleftrightarrow> \<not> set es \<subseteq> set fs"
proof -
  have "fs_ok (fst (fs_insert_range es fs)) \<and> set (fst (fs_insert_range es fs)) = set es \<union> set fs \<and>
    (snd (fs_insert_range es fs) \<longleftrightarrow> \<not> set es \<subseteq> set fs)"
    using assms
  proof (induction es arbitrary: fs)
    case (Cons e es)
    note ins = fs_insert_spec [OF Cons.prems, of e]
    from Cons.IH [OF ins(1)] show ?case using ins by (auto simp: case_prod_unfold)
  qed simp
  then show "fs_ok (fst (fs_insert_range es fs))" "set (fst (fs_insert_range es fs)) = set es \<union> set fs"
    "snd (fs_insert_range es fs) \<longleftrightarrow> \<not> set es \<subseteq> set fs" by blast+
qed

lemma fs_of_list_spec: "fs_ok (fs_of_list es)" "set (fs_of_list es) = set es"
  using fs_insert_range_spec [of "[]" es] by (simp_all add: fs_of_list_def)

lemma fs_contains_spec:
  assumes "fs_ok fs"
  shows "fs_contains e fs \<longleftrightarrow> e \<in> set fs"
proof -
  obtain l r where d: "takeWhile (\<lambda>x. x < e) fs = l" "dropWhile (\<lambda>x. x < e) fs = r" "fs = l @ r"
    "\<forall>x \<in> set l. x < e" "\<forall>x \<in> set r. e \<le> x" "fs_ok l" "fs_ok r"
    by (rule fs_split [OF assms])
  show ?thesis unfolding fs_contains_def d(2) using d(3-7) by (cases r) (auto simp: fs_ok_def)
qed

lemma fs_compare_elems_0: "length xs = length ys \<Longrightarrow> fs_compare_elems xs ys = 0 \<longleftrightarrow> xs = ys"
  by (induction xs ys rule: fs_compare_elems.induct) auto

lemma fs_equal_iff [simp]: "fs_equal a b \<longleftrightarrow> a = b"
  by (auto simp: fs_equal_def fs_compare_def fs_compare_elems_0)

lemma fs_set_eq: "fs_ok a \<Longrightarrow> fs_ok b \<Longrightarrow> set a = set b \<longleftrightarrow> a = b"
  unfolding fs_ok_def using strict_sorted_equal by blast

subsection \<open>Hashing\<close>

definition jenkins32bit_integer_hash :: "32 word \<Rightarrow> 32 word" where
  "jenkins32bit_integer_hash aa =
     (let aa = (aa + 0x7ed55d16) + push_bit 12 aa;
          aa = (aa XOR 0xc761c23c) XOR drop_bit 19 aa;
          aa = (aa + 0x165667b1) + push_bit 5 aa;
          aa = (aa + 0xd3a2646c) XOR push_bit 9 aa;
          aa = (aa + 0xfd7046c5) + push_bit 3 aa;
          aa = (aa XOR 0xb55a4f09) XOR drop_bit 16 aa
      in aa)"

definition hash_int_vector :: "int list \<Rightarrow> 64 word" where
  "hash_int_vector ar =
     fold (\<lambda>elem rt. rt + (push_bit 13 rt + ucast (jenkins32bit_integer_hash (ucast ((drop_bit 17 rt XOR rt) + of_int elem)))))
       ar (2654435761 * of_nat (length ar))"

subsection \<open>TransitionState\<close>

type_synonym transition_state = flat_set

definition ts_insert :: "transition_item \<Rightarrow> transition_state \<Rightarrow> transition_state" where
  "ts_insert item ts = fst (fs_insert (item_packed item) ts)"

fun ts_of_list :: "transition_item list \<Rightarrow> transition_state \<Rightarrow> transition_state" where
  "ts_of_list [] ts = ts"
| "ts_of_list (item # items) ts = ts_of_list items (ts_insert item ts)"

definition ts_join :: "transition_state \<Rightarrow> transition_state \<Rightarrow> transition_state" where
  "ts_join ts other = fold (\<lambda>elem ts. fst (fs_insert elem ts)) other ts"

definition ts_unpack :: "transition_state \<Rightarrow> transition_item list" where
  "ts_unpack ts = map item_unpack ts"

definition ts_hash :: "transition_state \<Rightarrow> 64 word" where
  "ts_hash ts = hash_int_vector ts"

text \<open>A state of items within the limits.\<close>

definition ts_ok :: "transition_state \<Rightarrow> bool" where
  "ts_ok ts \<longleftrightarrow> fs_ok ts \<and> (\<forall>x \<in> set ts. \<exists>i. item_ok i \<and> x = item_packed i)"

definition items :: "transition_state \<Rightarrow> transition_item set" where
  "items ts = set (ts_unpack ts)"

lemma ts_ok_Nil [simp]: "ts_ok []" "items [] = {}"
  by (simp_all add: ts_ok_def items_def ts_unpack_def)

lemma ts_insert_ok: "ts_ok ts \<Longrightarrow> item_ok i \<Longrightarrow> ts_ok (ts_insert i ts)"
  using fs_insert_spec [of ts "item_packed i"] by (auto simp: ts_ok_def ts_insert_def)

lemma items_insert: "ts_ok ts \<Longrightarrow> item_ok i \<Longrightarrow> items (ts_insert i ts) = insert i (items ts)"
  using fs_insert_spec [of ts "item_packed i"] item_packed_inverse
  by (simp add: ts_ok_def ts_insert_def items_def ts_unpack_def)

lemma items_ok: "ts_ok ts \<Longrightarrow> i \<in> items ts \<Longrightarrow> item_ok i"
  using item_packed_inverse by (auto simp: ts_ok_def items_def ts_unpack_def)

lemma set_items:
  assumes "ts_ok ts"
  shows "set ts = item_packed ` items ts"
proof -
  have "item_packed (item_unpack x) = x" if "x \<in> set ts" for x
    using assms that item_packed_inverse by (auto simp: ts_ok_def)
  then show ?thesis by (force simp: items_def ts_unpack_def)
qed

lemma ts_eq_items: "ts_ok a \<Longrightarrow> ts_ok b \<Longrightarrow> items a = items b \<longleftrightarrow> a = b"
  using set_items [of a] set_items [of b] fs_set_eq [of a b] unfolding ts_ok_def by metis

lemma ts_of_list_spec:
  "ts_ok ts \<Longrightarrow> \<forall>i \<in> set is. item_ok i \<Longrightarrow> ts_ok (ts_of_list is ts) \<and> items (ts_of_list is ts) = set is \<union> items ts"
  by (induction "is" ts rule: ts_of_list.induct) (auto simp: ts_insert_ok items_insert)

lemma ts_fold_insert:
  assumes "ts_ok ts" "\<forall>x \<in> set xs. \<exists>i. item_ok i \<and> x = item_packed i"
  shows "ts_ok (fold (\<lambda>elem ts. fst (fs_insert elem ts)) xs ts) \<and>
      items (fold (\<lambda>elem ts. fst (fs_insert elem ts)) xs ts) = item_unpack ` set xs \<union> items ts"
  using assms
proof (induction xs arbitrary: ts)
  case (Cons x xs)
  then obtain i where i: "item_ok i" "x = item_packed i" by auto
  have "fst (fs_insert x ts) = ts_insert i ts" by (simp add: ts_insert_def i(2))
  moreover have "item_unpack x = i" using i item_packed_inverse by simp
  ultimately show ?case
    using Cons.IH [OF ts_insert_ok [OF Cons.prems(1) i(1)]] Cons.prems items_insert [OF Cons.prems(1) i(1)] by simp
qed simp

lemma ts_join_spec: "ts_ok a \<Longrightarrow> ts_ok b \<Longrightarrow> ts_ok (ts_join a b) \<and> items (ts_join a b) = items a \<union> items b"
  using ts_fold_insert [of a b] unfolding ts_join_def ts_ok_def by (auto simp: items_def ts_unpack_def)

subsection \<open>IntSetHandleMap\<close>

record int_set_handle_map =
  hm_map :: "flat_set \<Rightarrow> int option"
  hm_inv :: "flat_set list"
  hm_startidx :: int

definition hm_new :: "int \<Rightarrow> int_set_handle_map" where
  "hm_new startidx = \<lparr>hm_map = Map.empty, hm_inv = [], hm_startidx = startidx\<rparr>"

definition hm_get :: "flat_set \<Rightarrow> int_set_handle_map \<Rightarrow> int_set_handle_map \<times> int" where
  "hm_get elem hm =
     (case hm_map hm elem of
        None \<Rightarrow>
          (let rt = int (length (hm_inv hm)) + hm_startidx hm in
           (hm\<lparr>hm_map := (hm_map hm)(elem \<mapsto> rt), hm_inv := hm_inv hm @ [elem]\<rparr>, rt))
      | Some rt \<Rightarrow> (hm, rt))"

definition hm_content :: "int \<Rightarrow> int_set_handle_map \<Rightarrow> flat_set option" where
  "hm_content handle hm = vec_at (hm_inv hm) (handle - hm_startidx hm)"

definition hm_join :: "int \<Rightarrow> int \<Rightarrow> int_set_handle_map \<Rightarrow> (int_set_handle_map \<times> int) option" where
  "hm_join handle1 handle2 hm =
     do { elem \<leftarrow> hm_content handle1 hm;
          add \<leftarrow> hm_content handle2 hm;
          Some (hm_get (fst (fs_insert_range add elem)) hm) }"

definition hm_size :: "int_set_handle_map \<Rightarrow> int" where
  "hm_size hm = int (length (hm_inv hm)) + hm_startidx hm"

text \<open>The sets are numbered from the start index in the order they were entered, each once.\<close>

definition hm_ok :: "int_set_handle_map \<Rightarrow> bool" where
  "hm_ok hm \<longleftrightarrow> (\<forall>fs h. hm_map hm fs = Some h \<longleftrightarrow> hm_content h hm = Some fs) \<and> distinct (hm_inv hm) \<and> (\<forall>fs \<in> set (hm_inv hm). fs_ok fs)"

definition hm_handles :: "int_set_handle_map \<Rightarrow> int set" where
  "hm_handles hm = {hm_startidx hm..<hm_size hm}"

lemma hm_content_handle: "h \<in> hm_handles hm \<longleftrightarrow> (\<exists>fs. hm_content h hm = Some fs)"
  by (auto simp: hm_handles_def hm_size_def hm_content_def vec_at_def)

lemma hm_ok_new: "hm_ok (hm_new s)"
  by (simp add: hm_ok_def hm_new_def hm_content_def vec_at_def)

lemma hm_ok_content: "hm_ok hm \<Longrightarrow> hm_content h hm = Some fs \<Longrightarrow> fs_ok fs"
  by (auto simp: hm_ok_def hm_content_def vec_at_Some_iff)

lemma hm_get_spec:
  assumes ok: "hm_ok hm" and fs: "fs_ok fs" and get: "hm_get fs hm = (hm', h)"
  shows "hm_ok hm'" "hm_content h hm' = Some fs" "\<And>g e. hm_content g hm = Some e \<Longrightarrow> hm_content g hm' = Some e"
    "hm_startidx hm' = hm_startidx hm" "hm_size hm' = (if fs \<in> set (hm_inv hm) then hm_size hm else hm_size hm + 1)"
    "h \<in> hm_handles hm \<longleftrightarrow> fs \<in> set (hm_inv hm)"
proof -
  have known: "(\<exists>h. hm_map hm fs = Some h) \<longleftrightarrow> fs \<in> set (hm_inv hm)"
  proof
    assume "fs \<in> set (hm_inv hm)"
    then obtain i where "i < length (hm_inv hm)" "hm_inv hm ! i = fs" by (auto simp: in_set_conv_nth)
    then have "hm_content (int i + hm_startidx hm) hm = Some fs" by (simp add: hm_content_def)
    then show "\<exists>h. hm_map hm fs = Some h" using ok by (auto simp: hm_ok_def)
  qed (use ok in \<open>auto simp: hm_ok_def hm_content_def vec_at_Some_iff\<close>)
  have all: "hm_ok hm' \<and> hm_content h hm' = Some fs \<and> (\<forall>g e. hm_content g hm = Some e \<longrightarrow> hm_content g hm' = Some e) \<and>
    hm_startidx hm' = hm_startidx hm \<and> hm_size hm' = (if fs \<in> set (hm_inv hm) then hm_size hm else hm_size hm + 1) \<and>
    (h \<in> hm_handles hm \<longleftrightarrow> fs \<in> set (hm_inv hm))"
  proof (cases "hm_map hm fs")
    case (Some g)
    then have "hm_content g hm = Some fs" using ok by (simp add: hm_ok_def)
    then show ?thesis using Some get known ok hm_content_handle by (auto simp: hm_get_def)
  next
    case None
    let ?h = "int (length (hm_inv hm)) + hm_startidx hm"
    have h: "hm' = hm\<lparr>hm_map := (hm_map hm)(fs \<mapsto> ?h), hm_inv := hm_inv hm @ [fs]\<rparr>" "h = ?h"
      using None get by (auto simp: hm_get_def Let_def)
    have new: "fs \<notin> set (hm_inv hm)" using known None by auto
    have content: "hm_content g hm' = (if g = ?h then Some fs else hm_content g hm)" for g
      by (auto simp: h hm_content_def vec_at_def nth_append nat_eq_iff)
    have fresh: "hm_content ?h hm = None" by (simp add: hm_content_def vec_at_def)
    have notin: "hm_content g hm \<noteq> Some fs" for g using ok None by (metis hm_ok_def option.distinct(1))
    have "hm_map hm' e = Some g \<longleftrightarrow> hm_content g hm' = Some e" for e g
      using ok fresh notin unfolding content by (auto simp: h hm_ok_def)
    then have "hm_ok hm'" using ok new fs by (simp add: hm_ok_def h)
    then show ?thesis using content fresh new hm_content_handle [of ?h hm] by (auto simp: h hm_size_def)
  qed
  then show "hm_ok hm'" "hm_content h hm' = Some fs" "\<And>g e. hm_content g hm = Some e \<Longrightarrow> hm_content g hm' = Some e"
    "hm_startidx hm' = hm_startidx hm" "hm_size hm' = (if fs \<in> set (hm_inv hm) then hm_size hm else hm_size hm + 1)"
    "h \<in> hm_handles hm \<longleftrightarrow> fs \<in> set (hm_inv hm)" by blast+
qed

lemma hm_join_spec:
  assumes ok: "hm_ok hm" and h: "hm_content h1 hm = Some a" "hm_content h2 hm = Some b"
  obtains hm' h c where "hm_join h1 h2 hm = Some (hm', h)" "hm_ok hm'" "hm_content h hm' = Some c" "fs_ok c" "set c = set a \<union> set b"
    "\<And>g e. hm_content g hm = Some e \<Longrightarrow> hm_content g hm' = Some e" "hm_startidx hm' = hm_startidx hm" "hm_size hm' \<le> hm_size hm + 1"
proof -
  obtain hm' h where get: "hm_get (fst (fs_insert_range b a)) hm = (hm', h)" by fastforce
  note ins = fs_insert_range_spec [OF hm_ok_content [OF ok h(1)], of b]
  note s = hm_get_spec [OF ok ins(1) get]
  show ?thesis
    by (rule that [of hm' h "fst (fs_insert_range b a)"]) (use h get s ins in \<open>auto simp: hm_join_def\<close>)
qed

subsection \<open>Properties\<close>

text \<open>
  C31: A flat set built by any insertions holds exactly the values inserted, in ascending order, each
  once; \<open>contains\<close> is membership, a further insertion reports whether the value is new, and two flat
  sets compare equal exactly if they hold the same values.
\<close>

theorem flat_set_canonical:
  "sorted_wrt (<) (fs_of_list xs) \<and> set (fs_of_list xs) = set xs \<and>
   (fs_contains e (fs_of_list xs) \<longleftrightarrow> e \<in> set xs) \<and>
   (snd (fs_insert e (fs_of_list xs)) \<longleftrightarrow> e \<notin> set xs) \<and>
   (fs_equal (fs_of_list xs) (fs_of_list ys) \<longleftrightarrow> set xs = set ys)"
proof -
  have "fs_of_list xs = fs_of_list ys \<longleftrightarrow> set xs = set ys"
    using fs_set_eq [OF fs_of_list_spec(1) fs_of_list_spec(1), of xs ys] by (simp add: fs_of_list_spec)
  then show ?thesis
    using fs_of_list_spec [of xs] fs_contains_spec [of "fs_of_list xs" e] fs_insert_spec(3) [of "fs_of_list xs" e]
    by (simp add: fs_ok_def)
qed

inductive hm_reachable :: "int \<Rightarrow> int_set_handle_map \<Rightarrow> bool" for startidx where
  new: "hm_reachable startidx (hm_new startidx)"
| get: "hm_reachable startidx hm \<Longrightarrow> hm_get (fs_of_list xs) hm = (hm', h) \<Longrightarrow> hm_reachable startidx hm'"
| join: "hm_reachable startidx hm \<Longrightarrow> hm_join h1 h2 hm = Some (hm', h) \<Longrightarrow> hm_reachable startidx hm'"

lemma hm_reachable_ok: "hm_reachable startidx hm \<Longrightarrow> hm_ok hm \<and> hm_startidx hm = startidx"
proof (induction rule: hm_reachable.induct)
  case new
  then show ?case by (simp add: hm_ok_new) (simp add: hm_new_def)
next
  case (get hm xs hm' h)
  then show ?case using hm_get_spec [of hm "fs_of_list xs" hm' h] fs_of_list_spec by simp
next
  case (join hm h1 h2 hm' h)
  then obtain a b where ab: "hm_content h1 hm = Some a" "hm_content h2 hm = Some b" by (auto simp: hm_join_def bind_eq_Some_conv)
  from hm_join_spec [OF _ this] join show ?case by (metis option.inject prod.inject)
qed

text \<open>
  The handles of a numbering of sets, after any calls of \<open>get\<close> and \<open>join\<close>: \<open>get\<close> returns the handle
  of a set that is known, and a new one, the next number, otherwise; the content of the handle is the
  set, older handles keep their content, \<open>join\<close> of two handles returns a handle of the union, and
  different handles have different content.
\<close>

theorem handle_map_numbering:
  assumes "hm_reachable startidx hm"
  shows "(case hm_get (fs_of_list xs) hm of (hm', h) \<Rightarrow>
      hm_content h hm' = Some (fs_of_list xs) \<and>
      (if fs_of_list xs \<in> set (hm_inv hm) then hm_size hm' = hm_size hm \<and> h < hm_size hm
       else hm_size hm' = hm_size hm + 1 \<and> h = hm_size hm) \<and>
      (\<forall>g fs. hm_content g hm = Some fs \<longrightarrow> hm_content g hm' = Some fs)) \<and>
    (startidx \<le> h1 \<and> h1 < hm_size hm \<and> startidx \<le> h2 \<and> h2 < hm_size hm \<longrightarrow>
      (\<exists>hm' h a b c. hm_join h1 h2 hm = Some (hm', h) \<and> hm_content h1 hm = Some a \<and> hm_content h2 hm = Some b \<and>
         hm_content h hm' = Some c \<and> set c = set a \<union> set b)) \<and>
    (\<forall>g g' fs. hm_content g hm = Some fs \<longrightarrow> hm_content g' hm = Some fs \<longrightarrow> g = g')"
proof (intro conjI impI)
  have ok: "hm_ok hm" "hm_startidx hm = startidx" using hm_reachable_ok [OF assms] by auto
  obtain hm' h where get: "hm_get (fs_of_list xs) hm = (hm', h)" by fastforce
  note s = hm_get_spec [OF ok(1) fs_of_list_spec(1) get]
  have "h = hm_size hm" if "fs_of_list xs \<notin> set (hm_inv hm)"
    using s(2,4-6) that hm_content_handle [of h hm'] by (auto simp: hm_handles_def)
  moreover have "h < hm_size hm" if "fs_of_list xs \<in> set (hm_inv hm)" using s(6) that by (simp add: hm_handles_def)
  ultimately show "case hm_get (fs_of_list xs) hm of (hm', h) \<Rightarrow>
      hm_content h hm' = Some (fs_of_list xs) \<and>
      (if fs_of_list xs \<in> set (hm_inv hm) then hm_size hm' = hm_size hm \<and> h < hm_size hm
       else hm_size hm' = hm_size hm + 1 \<and> h = hm_size hm) \<and>
      (\<forall>g fs. hm_content g hm = Some fs \<longrightarrow> hm_content g hm' = Some fs)"
    using get s by simp
  show "\<forall>g g' fs. hm_content g hm = Some fs \<longrightarrow> hm_content g' hm = Some fs \<longrightarrow> g = g'"
    using ok(1) unfolding hm_ok_def by (metis option.inject)
  assume h: "startidx \<le> h1 \<and> h1 < hm_size hm \<and> startidx \<le> h2 \<and> h2 < hm_size hm"
  then obtain a b where ab: "hm_content h1 hm = Some a" "hm_content h2 hm = Some b"
    using hm_content_handle [of h1 hm] hm_content_handle [of h2 hm] ok(2) by (auto simp: hm_handles_def)
  from hm_join_spec [OF ok(1) ab] show "\<exists>hm' h a b c. hm_join h1 h2 hm = Some (hm', h) \<and> hm_content h1 hm = Some a \<and>
      hm_content h2 hm = Some b \<and> hm_content h hm' = Some c \<and> set c = set a \<union> set b"
    using ab by metis
qed

lemma handle_map_numbering_witness:
  "(case hm_get (fs_of_list [3, 1, 3]) (hm_new 1) of (hm', h) \<Rightarrow> hm_content h hm' = Some [1, 3] \<and> h = 1)"
  using handle_map_numbering [OF hm_reachable.new, of "[3, 1, 3]" 1 1 1]
  by (auto simp: hm_new_def hm_size_def fs_of_list_def fs_insert_def case_prod_unfold)

end
