(* ===== verification/LrGrammar.thy ===== *)
theory LrGrammar
  imports FlatSets
begin

text \<open>
  Productions and their printed form, from \<open>src/automaton_structs.hpp\<close>, and the sets computed from
  them in \<open>src/automaton.cpp\<close> before the automaton is built: the nullable nonterminals and the map of
  FIRST sets.

  A string view is the string; the names of a lexer are a list. Sets of \<open>int\<close> (\<open>std::set\<close>) are ordered
  lists, as flat sets are. The order in which \<open>unordered_multimap\<close> lists the productions of a
  nonterminal is not specified; the model lists them by index. All uses collect them into a set.
\<close>

subsection \<open>Productions\<close>

datatype node_type = Unresolved | NonTerminal | Terminal

fun node_type_code :: "node_type \<Rightarrow> int" where
  "node_type_code Unresolved = 0"
| "node_type_code NonTerminal = 1"
| "node_type_code Terminal = 2"

lemma node_type_code_inject [simp]: "node_type_code a = node_type_code b \<longleftrightarrow> a = b"
  by (cases a; cases b) simp_all

datatype production_node = ProductionNode (pn_type: node_type) (pn_index: int)

lemma production_node_eq_iff: "a = b \<longleftrightarrow> pn_type a = pn_type b \<and> pn_index a = pn_index b"
  by (cases a; cases b) simp

instantiation production_node :: linorder
begin

definition less_production_node :: "production_node \<Rightarrow> production_node \<Rightarrow> bool" where
  "less_production_node a b \<longleftrightarrow>
     (if pn_type a = pn_type b then pn_index a < pn_index b else node_type_code (pn_type a) < node_type_code (pn_type b))"

definition less_eq_production_node :: "production_node \<Rightarrow> production_node \<Rightarrow> bool" where
  "less_eq_production_node a b \<longleftrightarrow> a < b \<or> a = b"

instance
proof
  fix x y z :: production_node
  show "x < y \<longleftrightarrow> x \<le> y \<and> \<not> y \<le> x"
    by (auto simp: less_production_node_def less_eq_production_node_def split: if_splits)
  show "x \<le> x" by (simp add: less_eq_production_node_def)
  show "x \<le> y \<Longrightarrow> y \<le> z \<Longrightarrow> x \<le> z"
    by (auto simp: less_production_node_def less_eq_production_node_def split: if_splits)
  show "x \<le> y \<Longrightarrow> y \<le> x \<Longrightarrow> x = y"
    by (auto simp: less_production_node_def less_eq_production_node_def split: if_splits)
  show "x \<le> y \<or> y \<le> x"
    by (cases x; cases y; cases "pn_type x"; cases "pn_type y")
      (auto simp: less_production_node_def less_eq_production_node_def)
qed

end

record production_node_def =
  nd_type :: node_type
  nd_index :: int
  nd_name :: string
  nd_symbol :: bool

definition mk_node_def :: "string \<Rightarrow> bool \<Rightarrow> production_node_def" where
  "mk_node_def name symbol = \<lparr>nd_type = Unresolved, nd_index = 0, nd_name = name, nd_symbol = symbol\<rparr>"

definition define_as_terminal :: "int \<Rightarrow> production_node_def \<Rightarrow> production_node_def" where
  "define_as_terminal index nd = nd\<lparr>nd_type := Terminal, nd_index := index\<rparr>"

definition define_as_nonterminal :: "int \<Rightarrow> production_node_def \<Rightarrow> production_node_def" where
  "define_as_nonterminal index nd = nd\<lparr>nd_type := NonTerminal, nd_index := index\<rparr>"

text \<open>The \<open>ProductionNode\<close> a \<open>ProductionNodeDef\<close> is.\<close>

definition nd_node :: "production_node_def \<Rightarrow> production_node" where
  "nd_node nd = ProductionNode (nd_type nd) (nd_index nd)"

definition node_tostring :: "production_node_def \<Rightarrow> string" where
  "node_tostring nd = (if nd_symbol nd then nd_name nd else ''\"'' @ nd_name nd @ ''\"'')"

record production_def =
  pd_left :: production_node_def
  pd_right :: "production_node_def list"
  pd_priority :: priority
  pd_callidx :: int
  pd_scope :: scope_flag
  pd_line :: int

definition mk_production_def :: "int \<Rightarrow> string \<Rightarrow> production_node_def list \<Rightarrow> priority \<Rightarrow> int \<Rightarrow> scope_flag \<Rightarrow> production_def" where
  "mk_production_def line leftname right priority callidx scope =
     \<lparr>pd_left = mk_node_def leftname True, pd_right = right, pd_priority = priority, pd_callidx = callidx,
      pd_scope = scope, pd_line = line\<rparr>"

type_synonym prods = "production_def list"

subsection \<open>Printing\<close>

definition head_tostring :: "production_def \<Rightarrow> string" where
  "head_tostring p =
     (if priority_defined (pd_priority p) then nd_name (pd_left p) @ ''/'' @ priority_tostring (pd_priority p)
      else nd_name (pd_left p))"

fun element_range_tostring :: "production_node_def list \<Rightarrow> string" where
  "element_range_tostring [] = []"
| "element_range_tostring [nd] = node_tostring nd"
| "element_range_tostring (nd # nds) = node_tostring nd @ '' '' @ element_range_tostring nds"

definition callstring :: "production_def \<Rightarrow> string" where
  "callstring p =
     (if pd_callidx p \<noteq> 0 \<or> pd_scope p \<noteq> NoScope then
        (if pd_scope p \<noteq> NoScope \<and> pd_callidx p \<noteq> 0 then '' ('' @ scope_flag_name (pd_scope p) @ '':'' @ dec_int (pd_callidx p) @ '')''
         else if pd_scope p \<noteq> NoScope then '' ('' @ scope_flag_name (pd_scope p) @ '')''
         else '' ('' @ dec_int (pd_callidx p) @ '')'')
      else [])"

definition prodstring :: "production_def \<Rightarrow> string" where
  "prodstring p = head_tostring p @ '' = '' @ element_range_tostring (pd_right p)"

definition prodstring_at :: "production_def \<Rightarrow> nat \<Rightarrow> string" where
  "prodstring_at p pos =
     (let prev = element_range_tostring (take pos (pd_right p));
          post = element_range_tostring (drop pos (pd_right p)) in
      head_tostring p @ '' = '' @ (if prev = [] then ''.'' else prev @ '' .'') @
      (if post \<noteq> [] then '' '' @ post else []))"

definition prod_tostring :: "production_def \<Rightarrow> string" where
  "prod_tostring p = prodstring p @ callstring p"

definition prod_tostring_at :: "production_def \<Rightarrow> nat \<Rightarrow> string" where
  "prod_tostring_at p pos = prodstring_at p pos @ callstring p"

definition prefix_tostring :: "production_def \<Rightarrow> nat \<Rightarrow> string" where
  "prefix_tostring p pos = head_tostring p @ '' = '' @ element_range_tostring (take pos (pd_right p)) @ '' ...''"

subsection \<open>ProductionDefList\<close>

definition prod_range :: "prods \<Rightarrow> int \<Rightarrow> int list" where
  "prod_range prodlist leftindex =
     map int (filter (\<lambda>i. nd_index (pd_left (prodlist ! i)) = leftindex) [0..<length prodlist])"

lemma set_prod_range: "set (prod_range prodlist A) = {int i | i. i < length prodlist \<and> nd_index (pd_left (prodlist ! i)) = A}"
  by (auto simp: prod_range_def)

subsection \<open>Nullable nonterminals\<close>

text \<open>The loop over the right side: it stops at the first element that is not a nullable nonterminal.\<close>

fun nullable_rest :: "flat_set \<Rightarrow> production_node_def list \<Rightarrow> production_node_def list" where
  "nullable_rest rt [] = []"
| "nullable_rest rt (nd # nds) =
     (if nd_type nd = NonTerminal \<and> fs_contains (nd_index nd) rt then nullable_rest rt nds else nd # nds)"

definition nullable_prod :: "production_def \<Rightarrow> flat_set \<times> bool \<Rightarrow> flat_set \<times> bool" where
  "nullable_prod p st =
     (case st of (rt, changed) \<Rightarrow>
      if nullable_rest rt (pd_right p) = [] then
        (case fs_insert (nd_index (pd_left p)) rt of (rt', ins) \<Rightarrow> (rt', changed \<or> ins))
      else (rt, changed))"

partial_function (option) nullable_loop :: "prods \<Rightarrow> flat_set \<Rightarrow> flat_set option" where
  "nullable_loop prodlist rt =
     (case fold nullable_prod prodlist (rt, False) of (rt', changed) \<Rightarrow>
      if changed then nullable_loop prodlist rt' else Some rt')"

declare nullable_loop.simps [code]

definition get_nullable_nonterminal_set :: "prods \<Rightarrow> flat_set option" where
  "get_nullable_nonterminal_set prodlist = nullable_loop prodlist []"

subsection \<open>FIRST sets\<close>

type_synonym first_map = "(int, flat_set) std_map"

text \<open>\<open>rt[ A]\<close> as an expression: the set of \<open>A\<close>, entered as empty if there is none.\<close>

definition fm_at :: "int \<Rightarrow> first_map \<Rightarrow> flat_set" where
  "fm_at A rt = (case map_find rt A of None \<Rightarrow> [] | Some fs \<Rightarrow> fs)"

definition fm_add :: "int \<Rightarrow> int list \<Rightarrow> first_map \<Rightarrow> first_map" where
  "fm_add A es rt = map_put rt A (fst (fs_insert_range es (fm_at A rt)))"

text \<open>The loop over the right side: the map, the flag, and if the end was reached.\<close>

fun first_right :: "int \<Rightarrow> flat_set \<Rightarrow> production_node_def list \<Rightarrow> first_map \<Rightarrow> bool \<Rightarrow> first_map \<times> bool \<times> bool" where
  "first_right left nullable [] rt changed = (rt, changed, True)"
| "first_right left nullable (nd # nds) rt changed =
     (if nd_type nd = Terminal then
        (fm_add left [nd_index nd] rt, changed \<or> snd (fs_insert (nd_index nd) (fm_at left rt)), False)
      else if nd_type nd = NonTerminal then
        (case map_find rt (nd_index nd) of
           Some fs \<Rightarrow>
             (let rt' = fm_add left fs rt;
                  changed' = (changed \<or> length (fm_at left rt) < length (fm_at left rt')) in
              if fs_contains (nd_index nd) nullable then first_right left nullable nds rt' changed' else (rt', changed', False))
         | None \<Rightarrow>
             (let rt' = fm_add left [] rt in
              if fs_contains (nd_index nd) nullable then first_right left nullable nds rt' True else (rt', True, False)))
      else (rt, changed, False))"

definition first_prod :: "flat_set \<Rightarrow> production_def \<Rightarrow> first_map \<times> bool \<times> flat_set \<Rightarrow> first_map \<times> bool \<times> flat_set" where
  "first_prod nullable p st =
     (case st of (rt, changed, verify) \<Rightarrow>
      let left = nd_index (pd_left p) in
      case first_right left nullable (pd_right p) rt changed of (rt', changed', at_end) \<Rightarrow>
      if at_end then
        (fm_add left [0] rt', changed' \<or> snd (fs_insert 0 (fm_at left rt')), fst (fs_insert left verify))
      else (rt', changed', verify))"

partial_function (option) first_loop :: "prods \<Rightarrow> flat_set \<Rightarrow> first_map \<Rightarrow> flat_set \<Rightarrow> (first_map \<times> flat_set) option" where
  "first_loop prodlist nullable rt verify =
     (case fold (first_prod nullable) prodlist (rt, False, verify) of (rt', changed, verify') \<Rightarrow>
      if changed then first_loop prodlist nullable rt' verify' else Some (rt', verify'))"

declare first_loop.simps [code]

definition get_nonterminal_first_set_map :: "prods \<Rightarrow> flat_set \<Rightarrow> first_map run" where
  "get_nonterminal_first_set_map prodlist nullable =
     bindR (liftR (first_loop prodlist nullable [] [])) (\<lambda>(rt, verify).
       if verify \<noteq> nullable then throwR logic_error else returnR rt)"

text \<open>
  The FIRST set of the elements of a production from a position on, and if they can all be empty. An
  element that is unresolved or has no FIRST set is skipped.
\<close>

fun first_of_rest :: "first_map \<Rightarrow> flat_set \<Rightarrow> production_node_def list \<Rightarrow> flat_set \<Rightarrow> flat_set \<times> bool" where
  "first_of_rest firsts nullable [] rt = (rt, True)"
| "first_of_rest firsts nullable (nd # nds) rt =
     (if nd_type nd = Terminal then (fst (fs_insert (nd_index nd) rt), False)
      else if nd_type nd = NonTerminal then
        (case map_find firsts (nd_index nd) of
           Some fs \<Rightarrow>
             (let rt' = fst (fs_insert_range fs rt) in
              if \<not> fs_contains (nd_index nd) nullable then (rt', False) else first_of_rest firsts nullable nds rt')
         | None \<Rightarrow> first_of_rest firsts nullable nds rt)
      else first_of_rest firsts nullable nds rt)"

definition get_lr1_first_set :: "production_def \<Rightarrow> nat \<Rightarrow> first_map \<Rightarrow> flat_set \<Rightarrow> flat_set \<times> bool" where
  "get_lr1_first_set p prodpos firsts nullable = first_of_rest firsts nullable (drop prodpos (pd_right p)) []"

end
