(* ===== verification/LrStates.thy ===== *)
theory LrStates
  imports LrGrammar "HOL-Library.Product_Lexorder"
begin

text \<open>
  The construction of the states of the automaton, from \<open>src/automaton.cpp\<close>: the follow sets and their
  handles, the closures of states of items, the goto of a state, the numbering of all states, and
  the merge of the LR(1) states with the same LR(0) items.

  A read of \<open>prodlist\<close> outside the list and a call of \<open>at\<close> for a missing key give \<open>None\<close>. A closure
  functor is a function on a state and on what the functor object keeps between its calls. Where the
  code iterates over an \<open>unordered_map\<close> the order is a parameter.
\<close>

definition prod_at :: "prods \<Rightarrow> int \<Rightarrow> production_def run" where
  "prod_at prodlist i = liftR (vec_at prodlist i)"

text \<open>The element behind the dot of an item: none if the dot is at the end.\<close>

definition next_node :: "production_def \<Rightarrow> int \<Rightarrow> production_node_def option" where
  "next_node p pos = (if pos < int (length (pd_right p)) then vec_at (pd_right p) pos else None)"

subsection \<open>Start nonterminals\<close>

partial_function (option) collect_start_nonterminals :: "prods \<Rightarrow> int \<Rightarrow> flat_set \<Rightarrow> flat_set run" where
  "collect_start_nonterminals prodlist nonterminal result =
     (case fs_insert nonterminal result of (result', ins) \<Rightarrow>
      if ins then
        runR (\<lambda>i result.
            case pd_right (prodlist ! nat i) of
              [] \<Rightarrow> returnR result
            | nd # _ \<Rightarrow>
                if nd_type nd = NonTerminal then collect_start_nonterminals prodlist (nd_index nd) result else returnR result)
          (prod_range prodlist nonterminal) result'
      else returnR result')"

declare collect_start_nonterminals.simps [code]

subsection \<open>The map of follow sets\<close>

datatype follow_key = FollowKey (fk_prodindex: int) (fk_prodpos: int)

lemma follow_key_eq_iff: "a = b \<longleftrightarrow> fk_prodindex a = fk_prodindex b \<and> fk_prodpos a = fk_prodpos b"
  by (cases a; cases b) simp

instantiation follow_key :: linorder
begin

definition less_follow_key :: "follow_key \<Rightarrow> follow_key \<Rightarrow> bool" where
  "less_follow_key a b \<longleftrightarrow>
     (if fk_prodindex a = fk_prodindex b then fk_prodpos a < fk_prodpos b else fk_prodindex a < fk_prodindex b)"

definition less_eq_follow_key :: "follow_key \<Rightarrow> follow_key \<Rightarrow> bool" where
  "less_eq_follow_key a b \<longleftrightarrow> a < b \<or> a = b"

instance
  by standard (auto simp: less_follow_key_def less_eq_follow_key_def follow_key_eq_iff split: if_splits)

end

datatype follow_handle = FollowHandle (fh_handle: int) (fh_inherit: bool)

record follow_map =
  fl_nodes :: "(follow_key, follow_handle) std_map"
  fl_joins :: "(int \<times> int, int) std_map"
  fl_sets :: int_set_handle_map

text \<open>The body of the loop of the constructor for one element of a production.\<close>

definition follow_enter :: "first_map \<Rightarrow> flat_set \<Rightarrow> production_def \<Rightarrow> nat \<Rightarrow> nat \<Rightarrow> follow_map \<Rightarrow> follow_map run" where
  "follow_enter firsts nullable p prodindex prodpos fl =
     (if nd_type (pd_right p ! prodpos) = NonTerminal then
        (case get_lr1_first_set p (prodpos + 1) firsts nullable of (first, inherit) \<Rightarrow>
         case hm_get first (fl_sets fl) of (sets, h) \<Rightarrow>
         case map_insert (fl_nodes fl) (FollowKey (int prodindex) (int prodpos)) (FollowHandle h inherit) of (nodes, _, ins) \<Rightarrow>
         if \<not> ins then throwR logic_error
         else returnR (fl\<lparr>fl_nodes := nodes, fl_sets := sets\<rparr>))
      else returnR fl)"

definition follow_map_new :: "prods \<Rightarrow> first_map \<Rightarrow> flat_set \<Rightarrow> follow_map run" where
  "follow_map_new prodlist firsts nullable =
     runR (\<lambda>prodindex fl.
         let p = prodlist ! prodindex in
         runR (\<lambda>prodpos fl. follow_enter firsts nullable p prodindex prodpos fl) [0..<length (pd_right p)] fl)
       [0..<length prodlist]
       \<lparr>fl_nodes = [], fl_joins = [], fl_sets = fst (hm_get (fs_of_list [0]) (hm_new 0))\<rparr>"

definition fl_get :: "follow_key \<Rightarrow> follow_map \<Rightarrow> follow_handle run" where
  "fl_get nd fl = (case map_find (fl_nodes fl) nd of None \<Rightarrow> throwR logic_error | Some fh \<Rightarrow> returnR fh)"

definition fl_join :: "int \<Rightarrow> int \<Rightarrow> follow_map \<Rightarrow> (int \<times> follow_map) run" where
  "fl_join handle1 handle2 fl =
     (if hm_size (fl_sets fl) \<ge> max_terminal - 1 then throwR (Error ComplexityLR1FollowSetsInGrammarDef [])
      else
        (case map_find (fl_joins fl) (handle1, handle2) of
           Some h \<Rightarrow> returnR (h, fl)
         | None \<Rightarrow>
             bindR (liftR (hm_join handle1 handle2 (fl_sets fl))) (\<lambda>(sets, h).
               returnR (h, fl\<lparr>fl_joins := map_put (fl_joins fl) (handle1, handle2) h, fl_sets := sets\<rparr>))))"

definition fl_content :: "int \<Rightarrow> follow_map \<Rightarrow> flat_set run" where
  "fl_content handle fl = liftR (hm_content handle (fl_sets fl))"

subsection \<open>Closures\<close>

definition lr0_closure_start :: "prods \<Rightarrow> int \<Rightarrow> flat_set \<Rightarrow> flat_set run" where
  "lr0_closure_start prodlist elem nonterminals =
     (let item = item_unpack elem in
      bindR (prod_at prodlist (ti_prodindex item)) (\<lambda>p.
        case next_node p (ti_prodpos item) of
          None \<Rightarrow> returnR nonterminals
        | Some nd \<Rightarrow>
            if nd_type nd = NonTerminal then collect_start_nonterminals prodlist (nd_index nd) nonterminals
            else returnR nonterminals))"

definition get_lr0_transition_state_closure :: "transition_state \<Rightarrow> prods \<Rightarrow> transition_state run" where
  "get_lr0_transition_state_closure ts prodlist =
     bindR (runR (lr0_closure_start prodlist) ts []) (\<lambda>nonterminals.
       returnR (fold (\<lambda>nonterminal rt. fold (\<lambda>i rt. ts_insert (TransitionItem i 0 0) rt) (prod_range prodlist nonterminal) rt)
         nonterminals ts))"

text \<open>The map from the nonterminals of a state to the handle of their follow set, and the follow map.\<close>

type_synonym follow_state = "(int, int) std_map \<times> follow_map"

definition nf_join :: "int \<Rightarrow> int \<Rightarrow> follow_state \<Rightarrow> follow_state run" where
  "nf_join nonterminal follow st =
     (case st of (nf, fl) \<Rightarrow>
      case map_insert nf nonterminal follow of (nf', old, ins) \<Rightarrow>
      if ins then returnR (nf', fl)
      else bindR (fl_join follow old fl) (\<lambda>(h, fl'). returnR (map_put nf nonterminal h, fl')))"

text \<open>[1] The follow sets the items of the state hand to the left sides of their productions.\<close>

definition lr1_closure_inherited :: "prods \<Rightarrow> int \<Rightarrow> follow_state \<Rightarrow> follow_state run" where
  "lr1_closure_inherited prodlist elem st =
     (let item = item_unpack elem in
      bindR (prod_at prodlist (ti_prodindex item)) (\<lambda>p. nf_join (nd_index (pd_left p)) (ti_follow item) st))"

text \<open>[2] What can follow a nonterminal inside a production.\<close>

definition lr1_closure_first :: "prods \<Rightarrow> int \<Rightarrow> follow_state \<Rightarrow> follow_state run" where
  "lr1_closure_first prodlist elem st =
     (let item = item_unpack elem in
      bindR (prod_at prodlist (ti_prodindex item)) (\<lambda>p.
        case next_node p (ti_prodpos item) of
          None \<Rightarrow> returnR st
        | Some nd \<Rightarrow>
            if nd_type nd = NonTerminal then
              bindR (fl_get (FollowKey (ti_prodindex item) (ti_prodpos item)) (snd st)) (\<lambda>entry.
                nf_join (nd_index nd) (fh_handle entry) st)
            else returnR st))"

text \<open>[3] What follows the left side follows the last nonterminal of the right side.\<close>

definition lr1_closure_inherit :: "prods \<Rightarrow> int \<Rightarrow> follow_state \<times> bool \<Rightarrow> (follow_state \<times> bool) run" where
  "lr1_closure_inherit prodlist elem st =
     (case st of ((nf, fl), changed) \<Rightarrow>
      let item = item_unpack elem in
      bindR (prod_at prodlist (ti_prodindex item)) (\<lambda>p.
        case next_node p (ti_prodpos item) of
          None \<Rightarrow> returnR st
        | Some nd \<Rightarrow>
            if nd_type nd = NonTerminal then
              bindR (fl_get (FollowKey (ti_prodindex item) (ti_prodpos item)) fl) (\<lambda>entry.
                if fh_inherit entry then
                  (case (map_find nf (nd_index nd), map_find nf (nd_index (pd_left p))) of
                     (Some inh, Some lft) \<Rightarrow>
                       bindR (fl_join inh lft fl) (\<lambda>(follow, fl').
                         if inh \<noteq> follow then returnR ((map_put nf (nd_index nd) follow, fl'), True)
                         else returnR ((nf, fl'), changed))
                   | _ \<Rightarrow> returnR st)
                else returnR st)
            else returnR st))"

partial_function (option) lr1_closure_loop :: "prods \<Rightarrow> flat_set \<Rightarrow> follow_state \<Rightarrow> follow_state run" where
  "lr1_closure_loop prodlist elems st =
     bindR (runR (lr1_closure_inherit prodlist) elems (st, False)) (\<lambda>(st', changed).
       if changed then lr1_closure_loop prodlist elems st' else returnR st')"

declare lr1_closure_loop.simps [code]

text \<open>[4] The items with the follow set of the left side of their production.\<close>

definition lr1_closure_item :: "prods \<Rightarrow> (int, int) std_map \<Rightarrow> int \<Rightarrow> transition_state \<Rightarrow> transition_state run" where
  "lr1_closure_item prodlist nf elem rt =
     (let item = item_unpack elem in
      bindR (prod_at prodlist (ti_prodindex item)) (\<lambda>p.
        bindR (liftR (map_find nf (nd_index (pd_left p)))) (\<lambda>follow.
          returnR (ts_insert (TransitionItem (ti_prodindex item) (ti_prodpos item) follow) rt))))"

definition get_lr1_transition_state_closure :: "transition_state \<Rightarrow> prods \<Rightarrow> follow_map \<Rightarrow> (transition_state \<times> follow_map) run" where
  "get_lr1_transition_state_closure ts prodlist fl =
     bindR (get_lr0_transition_state_closure ts prodlist) (\<lambda>lr0closure.
     bindR (runR (lr1_closure_inherited prodlist) ts ([], fl)) (\<lambda>st.
     bindR (runR (lr1_closure_first prodlist) lr0closure st) (\<lambda>st.
     bindR (lr1_closure_loop prodlist lr0closure st) (\<lambda>(nf, fl').
     bindR (runR (lr1_closure_item prodlist nf) lr0closure []) (\<lambda>rt.
       returnR (rt, fl'))))))"

text \<open>The closure functors.\<close>

type_synonym 'c closure = "transition_state \<Rightarrow> 'c \<Rightarrow> (transition_state \<times> 'c) run"

definition calculate_closure_lr0 :: "prods \<Rightarrow> unit closure" where
  "calculate_closure_lr0 prodlist state c = bindR (get_lr0_transition_state_closure state prodlist) (\<lambda>rt. returnR (rt, c))"

definition calculate_closure_lr1 :: "prods \<Rightarrow> follow_map closure" where
  "calculate_closure_lr1 prodlist state fl = get_lr1_transition_state_closure state prodlist fl"

subsection \<open>Merging states\<close>

text \<open>The items of a state in order, with the item whose follow sets are being joined.\<close>

fun merge_follow :: "transition_item \<Rightarrow> int \<Rightarrow> int list \<Rightarrow> transition_state \<Rightarrow> follow_map \<Rightarrow> (transition_state \<times> follow_map) run" where
  "merge_follow item joined [] newstate fl =
     returnR (ts_insert (TransitionItem (ti_prodindex item) (ti_prodpos item) joined) newstate, fl)"
| "merge_follow item joined (elem # elems) newstate fl =
     (let item2 = item_unpack elem in
      if ti_prodindex item2 \<noteq> ti_prodindex item \<or> ti_prodpos item2 \<noteq> ti_prodpos item then
        merge_follow item2 (ti_follow item2) elems
          (ts_insert (TransitionItem (ti_prodindex item) (ti_prodpos item) joined) newstate) fl
      else bindR (fl_join (ti_follow item2) joined fl) (\<lambda>(h, fl'). merge_follow item h elems newstate fl'))"

definition merge_transition_state_follow :: "transition_state \<Rightarrow> follow_map \<Rightarrow> (transition_state \<times> follow_map) run" where
  "merge_transition_state_follow state fl =
     (case state of
        [] \<Rightarrow> returnR ([], fl)
      | elem # elems \<Rightarrow> let item = item_unpack elem in merge_follow item (ti_follow item) elems [] fl)"

definition join_lr1_transition_states :: "transition_state \<Rightarrow> transition_state \<Rightarrow> follow_map \<Rightarrow> (transition_state \<times> follow_map) run" where
  "join_lr1_transition_states s1 s2 fl = merge_transition_state_follow (ts_join s1 s2) fl"

definition get_lr0_transition_state_from_lr1_state :: "transition_state \<Rightarrow> transition_state" where
  "get_lr0_transition_state_from_lr1_state ts =
     fold (\<lambda>elem rt. let item = item_unpack elem in ts_insert (TransitionItem (ti_prodindex item) (ti_prodpos item) 0) rt) ts []"

subsection \<open>Goto\<close>

definition collect_goto_node :: "prods \<Rightarrow> int \<Rightarrow> production_node list \<Rightarrow> production_node list run" where
  "collect_goto_node prodlist elem result =
     (let item = item_unpack elem in
      bindR (prod_at prodlist (ti_prodindex item)) (\<lambda>p.
        case next_node p (ti_prodpos item) of
          None \<Rightarrow> returnR result
        | Some nd \<Rightarrow> returnR (insort_insert (nd_node nd) result)))"

definition collect_goto_nodes :: "transition_state \<Rightarrow> prods \<Rightarrow> production_node list run" where
  "collect_goto_nodes state prodlist = runR (collect_goto_node prodlist) state []"

definition goto_item :: "prods \<Rightarrow> production_node \<Rightarrow> int \<Rightarrow> transition_state \<Rightarrow> transition_state run" where
  "goto_item prodlist gto elem gto_state =
     (let item = item_unpack elem in
      bindR (prod_at prodlist (ti_prodindex item)) (\<lambda>p.
        case next_node p (ti_prodpos item) of
          None \<Rightarrow> returnR gto_state
        | Some nd \<Rightarrow>
            if gto = nd_node nd then
              returnR (ts_insert (TransitionItem (ti_prodindex item) (ti_prodpos item + 1) (ti_follow item)) gto_state)
            else returnR gto_state))"

definition get_goto_state :: "transition_state \<Rightarrow> production_node \<Rightarrow> prods \<Rightarrow> 'c closure \<Rightarrow> 'c \<Rightarrow> (transition_state \<times> 'c) run" where
  "get_goto_state state gto prodlist closure c =
     bindR (runR (goto_item prodlist gto) state []) (\<lambda>gto_state. closure gto_state c)"

text \<open>
  The numbers of the states, in the order the states were entered. A new state gets the number of
  states, itself included.
\<close>

type_synonym state_map = "(transition_state \<times> int) list"

definition sm_insert :: "state_map \<Rightarrow> transition_state \<Rightarrow> state_map \<times> bool" where
  "sm_insert rt state =
     (case map_of rt state of
        None \<Rightarrow> (rt @ [(state, int (length rt) + 1)], True)
      | Some _ \<Rightarrow> (rt, False))"

definition assign_goto :: "prods \<Rightarrow> 'c closure \<Rightarrow> transition_state \<Rightarrow> production_node \<Rightarrow>
    transition_state list \<times> state_map \<times> 'c \<Rightarrow> (transition_state list \<times> state_map \<times> 'c) run" where
  "assign_goto prodlist closure state gto st =
     (case st of (newstates, rt, c) \<Rightarrow>
      bindR (get_goto_state state gto prodlist closure c) (\<lambda>(newstate, c').
        if newstate = [] then throwR logic_error
        else
          (case sm_insert rt newstate of (rt', ins) \<Rightarrow>
           returnR (if ins then newstates @ [newstate] else newstates, rt', c'))))"

partial_function (option) assign_loop :: "prods \<Rightarrow> 'c closure \<Rightarrow> nat \<Rightarrow> transition_state list \<Rightarrow> state_map \<Rightarrow> 'c \<Rightarrow> (state_map \<times> 'c) run" where
  "assign_loop prodlist closure stkidx statestk rt c =
     (if stkidx < length statestk then
        bindR (collect_goto_nodes (statestk ! stkidx) prodlist) (\<lambda>gtos.
        bindR (runR (assign_goto prodlist closure (statestk ! stkidx)) gtos ([], rt, c)) (\<lambda>(newstates, rt', c').
          assign_loop prodlist closure (Suc stkidx) (statestk @ newstates) rt' c'))
      else returnR (rt, c))"

declare assign_loop.simps [code]

definition get_automaton_state_assignments :: "prods \<Rightarrow> 'c closure \<Rightarrow> 'c \<Rightarrow> (state_map \<times> 'c) run" where
  "get_automaton_state_assignments prodlist closure c =
     bindR (closure (ts_of_list [TransitionItem 0 0 0] []) c) (\<lambda>(state, c').
       assign_loop prodlist closure 0 [state] [(state, 1)] c')"

fun is_accept_elems :: "prods \<Rightarrow> int list \<Rightarrow> bool run" where
  "is_accept_elems prodlist [] = returnR False"
| "is_accept_elems prodlist (elem # elems) =
     (let item = item_unpack elem in
      if ti_prodindex item = 0 then
        bindR (prod_at prodlist 0) (\<lambda>p.
          if ti_prodpos item = int (length (pd_right p)) \<and> ti_follow item = 0 then returnR True
          else is_accept_elems prodlist elems)
      else is_accept_elems prodlist elems)"

definition is_accept_state :: "transition_state \<Rightarrow> prods \<Rightarrow> bool run" where
  "is_accept_state state prodlist = is_accept_elems prodlist state"

subsection \<open>The LALR(1) states\<close>

type_synonym lalr_states = "(int, transition_state) std_map"

definition lalr1_state_step :: "state_map \<Rightarrow> transition_state \<times> int \<Rightarrow> lalr_states \<times> follow_map \<Rightarrow> (lalr_states \<times> follow_map) run" where
  "lalr1_state_step lr0statemap st acc =
     (case acc of (rt, fl) \<Rightarrow>
      bindR (liftR (map_of lr0statemap (get_lr0_transition_state_from_lr1_state (fst st)))) (\<lambda>stateidx.
        bindR (join_lr1_transition_states (case map_find rt stateidx of None \<Rightarrow> [] | Some s \<Rightarrow> s) (fst st) fl) (\<lambda>(s, fl').
          returnR (map_put rt stateidx s, fl'))))"

definition calculate_lalr1_state_map ::
    "(state_map \<Rightarrow> state_map) \<Rightarrow> state_map \<Rightarrow> state_map \<Rightarrow> follow_map \<Rightarrow> (lalr_states \<times> follow_map) run" where
  "calculate_lalr1_state_map order lr0statemap lr1statemap fl =
     runR (lalr1_state_step lr0statemap) (order lr1statemap) ([], fl)"

type_synonym item_goto_map = "flat_set \<Rightarrow> int option"

definition state_core :: "transition_state \<Rightarrow> flat_set" where
  "state_core state =
     fold (\<lambda>elem key. let item = item_unpack elem in
         if ti_prodpos item > 0 then fst (fs_insert (item_packed (TransitionItem (ti_prodindex item) (ti_prodpos item) 0)) key) else key)
       state []"

definition item_goto_step :: "int \<times> transition_state \<Rightarrow> item_goto_map \<Rightarrow> item_goto_map run" where
  "item_goto_step st rt =
     (case rt (state_core (snd st)) of
        None \<Rightarrow> returnR (rt(state_core (snd st) \<mapsto> fst st))
      | Some _ \<Rightarrow> throwR logic_error)"

definition calculate_lalr1_transition_item_goto_map :: "lalr_states \<Rightarrow> item_goto_map run" where
  "calculate_lalr1_transition_item_goto_map lalr1_states = runR item_goto_step lalr1_states Map.empty"

end
