(* ===== verification/LrTables.thy ===== *)
theory LrTables
  imports LrStates
begin

text \<open>
  The tables of the automaton, from \<open>src/automaton.cpp\<close> and \<open>src/automaton.hpp\<close>: shifts and reductions of
  a state, the resolution of conflicts by priority and associativity, and \<open>Automaton::build\<close> for a
  parsed grammar. The warnings are appended to a list, as in the code. Debug output is left out.
\<close>

subsection \<open>Names of the lexems\<close>

text \<open>What the automaton uses of the lexer: the names of the lexems and if an id is a keyword.\<close>

record lexer_names =
  lx_namelist :: "string list"
  lx_id2keyword :: "bool list"

definition nof_terminals :: "lexer_names \<Rightarrow> int" where
  "nof_terminals lexer = int (length (lx_namelist lexer))"

definition lexem_name :: "int \<Rightarrow> lexer_names \<Rightarrow> string run" where
  "lexem_name lexid lexer =
     (if lexid < 1 \<or> lexid > int (length (lx_namelist lexer)) then throwR (Error ArrayBoundReadInLexer [])
      else returnR (lx_namelist lexer ! nat (lexid - 1)))"

definition is_keyword :: "int \<Rightarrow> lexer_names \<Rightarrow> bool run" where
  "is_keyword lexid lexer = liftR (vec_at (lx_id2keyword lexer) lexid)"

definition get_lexem_name :: "lexer_names \<Rightarrow> int \<Rightarrow> string run" where
  "get_lexem_name lexer terminal = (if terminal \<noteq> 0 then lexem_name terminal lexer else returnR ''$'')"

definition follow2string_step :: "lexer_names \<Rightarrow> int \<Rightarrow> string \<times> nat \<Rightarrow> (string \<times> nat) run" where
  "follow2string_step lexer terminal st =
     (case st of (rt, tidx) \<Rightarrow>
      bindR (get_lexem_name lexer terminal) (\<lambda>name.
        returnR ((if tidx \<noteq> 0 then rt @ '' '' else rt) @ name, Suc tidx)))"

definition follow2string :: "int \<Rightarrow> lexer_names \<Rightarrow> follow_map \<Rightarrow> string run" where
  "follow2string follow lexer fl =
     bindR (fl_content follow fl) (\<lambda>terminals.
     bindR (runR (follow2string_step lexer) terminals ([], 0)) (\<lambda>(rt, _). returnR rt))"

subsection \<open>State transitions in messages\<close>

record transition_string =
  tr_redu :: bool
  tr_shift :: bool
  tr_prod :: string
  tr_sum :: string

definition transition_string_step :: "prods \<Rightarrow> follow_map \<Rightarrow> int \<Rightarrow> int \<Rightarrow> transition_string \<Rightarrow> transition_string run" where
  "transition_string_step prodlist fl terminal elem st =
     (let item = item_unpack elem;
          add = (\<lambda>p. (if tr_sum st \<noteq> [] then tr_sum st @ '', '' else tr_sum st) @ prod_tostring p) in
      bindR (prod_at prodlist (ti_prodindex item)) (\<lambda>p.
        if ti_prodpos item < int (length (pd_right p)) then
          bindR (liftR (vec_at (pd_right p) (ti_prodpos item))) (\<lambda>nd.
            if nd_type nd = Terminal \<and> nd_index nd = terminal then
              returnR (st\<lparr>tr_shift := True, tr_prod := prefix_tostring p (nat (ti_prodpos item)), tr_sum := add p\<rparr>)
            else returnR st)
        else
          bindR (fl_content (ti_follow item) fl) (\<lambda>follow.
            if fs_contains terminal follow then
              returnR (st\<lparr>tr_redu := True,
                tr_prod := (if tr_prod st = [] then prod_tostring_at p (nat (ti_prodpos item)) else tr_prod st),
                tr_sum := add p\<rparr>)
            else returnR st)))"

definition get_state_transition_string :: "transition_state \<Rightarrow> int \<Rightarrow> prods \<Rightarrow> lexer_names \<Rightarrow> follow_map \<Rightarrow> string run" where
  "get_state_transition_string state terminal prodlist lexer fl =
     bindR (runR (transition_string_step prodlist fl terminal) state \<lparr>tr_redu = False, tr_shift = False, tr_prod = [], tr_sum = []\<rparr>) (\<lambda>st.
     bindR (if tr_redu st \<and> tr_shift st then
              bindR (get_lexem_name lexer terminal) (\<lambda>name. returnR (tr_prod st @ '' ->|<- '' @ name))
            else if tr_redu st then
              bindR (get_lexem_name lexer terminal) (\<lambda>name. returnR (tr_prod st @ '' <- '' @ name))
            else if tr_shift st then
              bindR (get_lexem_name lexer terminal) (\<lambda>name. returnR (tr_prod st @ '' -> '' @ name))
            else returnR (tr_prod st)) (\<lambda>prodstr.
       returnR (if tr_sum st \<noteq> [] then prodstr @ '' ['' @ tr_sum st @ '']'' else prodstr)))"

subsection \<open>Shifts and gotos of a state\<close>

datatype shift_node = ProductionShiftNode (sn_node: production_node) (sn_goto: int) (sn_priority: priority)

definition priority_conflict :: "priority \<Rightarrow> priority \<Rightarrow> string" where
  "priority_conflict p1 p2 = '' ('' @ priority_tostring p1 @ '' != '' @ priority_tostring p2 @ '')''"

text \<open>The nodes behind a dot with the packed successor items, the priorities of the terminals, the warnings.\<close>

type_synonym shift_maps = "(production_node, int) std_map \<times> (production_node, priority) std_map \<times> error list"

definition shift_node_step :: "prods \<Rightarrow> int \<Rightarrow> shift_maps \<Rightarrow> shift_maps run" where
  "shift_node_step prodlist elem st =
     (case st of (nodemap, prioritymap, warnings) \<Rightarrow>
      let item = item_unpack elem in
      bindR (prod_at prodlist (ti_prodindex item)) (\<lambda>p.
        case next_node p (ti_prodpos item) of
          None \<Rightarrow> returnR st
        | Some nd \<Rightarrow>
            let succ = item_packed (TransitionItem (ti_prodindex item) (ti_prodpos item + 1) 0);
                nodemap' = multimap_insert nodemap (nd_node nd) succ in
            if nd_type nd = Terminal then
              (case map_insert prioritymap (nd_node nd) (pd_priority p) of (prioritymap', old, ins) \<Rightarrow>
               returnR (nodemap', prioritymap',
                 if \<not> ins \<and> old \<noteq> pd_priority p then
                   warnings @ [Error PriorityConflictInGrammarDef
                     (prefix_tostring p (nat (ti_prodpos item)) @ '' -> '' @ node_tostring nd @ priority_conflict old (pd_priority p))]
                 else warnings))
            else returnR (nodemap', prioritymap, warnings)))"

text \<open>The successor items of the first node, and the rest of the map.\<close>

fun shift_key :: "production_node \<Rightarrow> (production_node, int) std_map \<Rightarrow> flat_set \<Rightarrow> flat_set \<times> (production_node, int) std_map" where
  "shift_key nd [] key = (key, [])"
| "shift_key nd ((nd', succ) # rest) key =
     (if nd' = nd then shift_key nd rest (fst (fs_insert succ key)) else (key, (nd', succ) # rest))"

lemma shift_key_length: "length (snd (shift_key nd m key)) \<le> length m"
  by (induction nd m key rule: shift_key.induct) auto

function shift_nodes :: "item_goto_map \<Rightarrow> (production_node, priority) std_map \<Rightarrow> (production_node, int) std_map \<Rightarrow> shift_node list \<Rightarrow> shift_node list run" where
  "shift_nodes gotomap prioritymap [] rt = returnR rt"
| "shift_nodes gotomap prioritymap ((nd, succ) # rest) rt =
     (case shift_key nd ((nd, succ) # rest) [] of (key, rest') \<Rightarrow>
      case gotomap key of
        None \<Rightarrow> throwR logic_error
      | Some state \<Rightarrow>
          bindR (if pn_type nd = Terminal then liftR (map_find prioritymap nd) else returnR no_priority) (\<lambda>priority.
            shift_nodes gotomap prioritymap rest' (rt @ [ProductionShiftNode nd state priority])))"
  by pat_completeness auto
termination
  by (relation "measure (\<lambda>(_, _, m, _). length m)")
    (auto simp: less_Suc_eq_le split: prod.splits, metis shift_key_length snd_conv)

definition get_shift_nodes :: "transition_state \<Rightarrow> item_goto_map \<Rightarrow> prods \<Rightarrow> error list \<Rightarrow> (shift_node list \<times> error list) run" where
  "get_shift_nodes state gotomap prodlist warnings =
     bindR (runR (shift_node_step prodlist) state ([], [], warnings)) (\<lambda>(nodemap, prioritymap, warnings').
     bindR (shift_nodes gotomap prioritymap nodemap []) (\<lambda>rt. returnR (rt, warnings')))"

subsection \<open>Reductions of a state\<close>

definition reduce_follow_step :: "prods \<Rightarrow> int \<Rightarrow> flat_set \<Rightarrow> flat_set run" where
  "reduce_follow_step prodlist elem rt =
     (let item = item_unpack elem in
      bindR (prod_at prodlist (ti_prodindex item)) (\<lambda>p.
        returnR (if ti_prodpos item = int (length (pd_right p)) then fst (fs_insert (ti_follow item) rt) else rt)))"

definition get_reduce_follow :: "transition_state \<Rightarrow> prods \<Rightarrow> flat_set run" where
  "get_reduce_follow state prodlist = runR (reduce_follow_step prodlist) state []"

record reduction_def =
  rd_priority :: priority
  rd_head :: int
  rd_callidx :: int
  rd_count :: int
  rd_prodindex :: int
  rd_scope :: scope_flag
  rd_headname :: string

definition no_reduction :: reduction_def where
  "no_reduction = \<lparr>rd_priority = no_priority, rd_head = -1, rd_callidx = -1, rd_count = -1, rd_prodindex = -1,
     rd_scope = NoScope, rd_headname = []\<rparr>"

text \<open>The state of the loop: the reduction, the index of its production or \<open>-1\<close>, the warnings.\<close>

definition reduction_step :: "prods \<Rightarrow> lexer_names \<Rightarrow> follow_map \<Rightarrow> int \<Rightarrow> int \<Rightarrow>
    reduction_def \<times> int \<times> error list \<Rightarrow> (reduction_def \<times> int \<times> error list) run" where
  "reduction_step prodlist lexer fl follow elem st =
     (case st of (rt, last_prodidx, warnings) \<Rightarrow>
      let item = item_unpack elem in
      bindR (prod_at prodlist (ti_prodindex item)) (\<lambda>p.
        if ti_prodpos item = int (length (pd_right p)) \<and> ti_follow item = follow then
          if last_prodidx = -1 then
            returnR (\<lparr>rd_priority = pd_priority p, rd_head = nd_index (pd_left p), rd_callidx = pd_callidx p,
                rd_count = int (length (pd_right p)), rd_prodindex = ti_prodindex item, rd_scope = pd_scope p,
                rd_headname = nd_name (pd_left p)\<rparr>, ti_prodindex item, warnings)
          else if rd_head rt \<noteq> nd_index (pd_left p) \<or> rd_count rt \<noteq> int (length (pd_right p)) \<or> rd_callidx rt \<noteq> pd_callidx p then
            bindR (prod_at prodlist last_prodidx) (\<lambda>lastp.
            bindR (follow2string follow lexer fl) (\<lambda>fstr.
              returnR (rt, last_prodidx, warnings @ [Error ReduceReduceConflictInGrammarDef
                (prod_tostring p @ '', '' @ prod_tostring lastp @ '' <- '' @ fstr)])))
          else if rd_priority rt \<noteq> pd_priority p then
            bindR (prod_at prodlist last_prodidx) (\<lambda>lastp.
            bindR (follow2string follow lexer fl) (\<lambda>fstr.
              returnR (rt, last_prodidx, warnings @ [Error PriorityConflictInGrammarDef
                (prod_tostring p @ '', '' @ prod_tostring lastp @ '' <- '' @ fstr @ priority_conflict (rd_priority rt) (pd_priority p))])))
          else returnR st
        else returnR st))"

definition get_reduction_def :: "transition_state \<Rightarrow> int \<Rightarrow> prods \<Rightarrow> lexer_names \<Rightarrow> follow_map \<Rightarrow> error list \<Rightarrow> (reduction_def \<times> error list) run" where
  "get_reduction_def state follow prodlist lexer fl warnings =
     bindR (runR (reduction_step prodlist lexer fl follow) state (no_reduction, -1, warnings)) (\<lambda>(rt, _, warnings').
       returnR (rt, warnings'))"

subsection \<open>Conflicts\<close>

record solved_conflict_map =
  sc_map :: "(action_key, int) std_map"
  sc_count :: int

definition sc_insert :: "action_key \<Rightarrow> solved_conflict_map \<Rightarrow> solved_conflict_map" where
  "sc_insert key sc =
     (case map_insert (sc_map sc) key 1 of (m, old, ins) \<Rightarrow>
      \<lparr>sc_map = (if ins then m else map_put m key (old + 1)), sc_count = sc_count sc + 1\<rparr>)"

text \<open>A key that was solved \<open>n\<close> times counts \<open>n!\<close>.\<close>

definition sc_total :: "solved_conflict_map \<Rightarrow> int" where
  "sc_total sc = sum_list (map (\<lambda>(key, n). fold (\<lambda>i nn. nn * i) (rev [1..n]) 1) (sc_map sc))"

record lr_tables =
  tb_actions :: "(action_key, action) std_map"
  tb_gotos :: "(goto_key, goto) std_map"
  tb_priorities :: "(action_key, priority) std_map"
  tb_solved :: solved_conflict_map
  tb_warnings :: "error list"

definition tb_warn :: "prods \<Rightarrow> follow_map \<Rightarrow> transition_state \<Rightarrow> int \<Rightarrow> lexer_names \<Rightarrow> error_code \<Rightarrow> lr_tables \<Rightarrow> lr_tables run" where
  "tb_warn prodlist fl state terminal lexer code tb =
     bindR (get_state_transition_string state terminal prodlist lexer fl) (\<lambda>str.
       returnR (tb\<lparr>tb_warnings := tb_warnings tb @ [Error code str]\<rparr>))"

definition tb_put :: "action_key \<Rightarrow> action \<Rightarrow> priority \<Rightarrow> lr_tables \<Rightarrow> lr_tables" where
  "tb_put key action priority tb =
     tb\<lparr>tb_actions := map_put (tb_actions tb) key action, tb_priorities := map_put (tb_priorities tb) key priority\<rparr>"

definition tb_solve :: "action_key \<Rightarrow> lr_tables \<Rightarrow> lr_tables" where
  "tb_solve key tb = tb\<lparr>tb_solved := sc_insert key (tb_solved tb)\<rparr>"

definition insert_action :: "prods \<Rightarrow> follow_map \<Rightarrow> transition_state \<Rightarrow> int \<Rightarrow> action_key \<Rightarrow> action \<Rightarrow> priority \<Rightarrow> lexer_names \<Rightarrow> lr_tables \<Rightarrow> lr_tables run" where
  "insert_action prodlist fl state terminal key action priority lexer tb =
     (case map_insert (tb_actions tb) key action of (actions, old, is_new) \<Rightarrow>
      let tb = tb\<lparr>tb_actions := actions\<rparr>;
          warn = (\<lambda>code. tb_warn prodlist fl state terminal lexer code tb) in
      case map_find (tb_priorities tb) key of
        None \<Rightarrow> returnR (tb\<lparr>tb_priorities := map_put (tb_priorities tb) key priority\<rparr>)
      | Some pi \<Rightarrow>
          if is_new then returnR (tb\<lparr>tb_priorities := map_put (tb_priorities tb) key priority\<rparr>)
          else if ac_type action = ac_type old then
            if old \<noteq> action then
              warn (if ac_type action = Shift then ShiftShiftConflictInGrammarDef else ReduceReduceConflictInGrammarDef)
            else returnR tb
          else if priority_defined priority \<noteq> priority_defined pi then warn ShiftReduceConflictInGrammarDef
          else if pr_value priority > pr_value pi then returnR (tb_solve key (tb_put key action priority tb))
          else if pr_value priority = pr_value pi then
            if pr_assoziativity priority \<noteq> pr_assoziativity pi \<or> pr_assoziativity priority = Undefined then
              warn ShiftReduceConflictInGrammarDef
            else if ac_type action = Reduce then
              returnR (tb_solve key (if pr_assoziativity priority = LeftAssoc then tb_put key action priority tb else tb))
            else
              returnR (tb_solve key (if pr_assoziativity priority = RightAssoc then tb_put key action priority tb else tb))
          else returnR (tb_solve key tb))"

subsection \<open>Calls and actions as text\<close>

datatype call_argtype = NoArg | StringArg | ReferenceArg

record automaton_call =
  cl_function :: string
  cl_arg :: string
  cl_argtype :: call_argtype

fun call_argtype_code :: "call_argtype \<Rightarrow> int" where
  "call_argtype_code NoArg = 0"
| "call_argtype_code StringArg = 1"
| "call_argtype_code ReferenceArg = 2"

text \<open>The order of \<open>std::string\<close>: by the first different byte, a prefix first.\<close>

fun string_less :: "string \<Rightarrow> string \<Rightarrow> bool" where
  "string_less _ [] \<longleftrightarrow> False"
| "string_less [] (_ # _) \<longleftrightarrow> True"
| "string_less (c # cs) (d # ds) \<longleftrightarrow> (if c = d then string_less cs ds else (of_char c :: nat) < of_char d)"

definition call_less :: "automaton_call \<Rightarrow> automaton_call \<Rightarrow> bool" where
  "call_less a b \<longleftrightarrow>
     (if cl_function a = cl_function b then
        (if cl_arg a = cl_arg b then call_argtype_code (cl_argtype a) < call_argtype_code (cl_argtype b)
         else string_less (cl_arg a) (cl_arg b))
      else string_less (cl_function a) (cl_function b))"

definition call_tostring :: "automaton_call \<Rightarrow> string" where
  "call_tostring c =
     (case cl_argtype c of
        NoArg \<Rightarrow> cl_function c
      | StringArg \<Rightarrow> cl_function c @ '' '' @ ''\"'' @ cl_arg c @ ''\"''
      | ReferenceArg \<Rightarrow> cl_function c @ '' '' @ cl_arg c)"

subsection \<open>The automaton\<close>

text \<open>A parsed grammar, as \<open>parseLanguageDef\<close> returns it.\<close>

record language_def =
  ld_language :: string
  ld_typesystem :: string
  ld_cmdline :: string
  ld_lexer :: lexer_names
  ld_prodlist :: prods
  ld_calls :: "automaton_call list"
  ld_nonterminals :: "string list"

record automaton =
  am_language :: string
  am_typesystem :: string
  am_cmdline :: string
  am_lexer :: lexer_names
  am_actions :: "(action_key, action) std_map"
  am_gotos :: "(goto_key, goto) std_map"
  am_calls :: "automaton_call list"
  am_nonterminals :: "string list"

definition am_call :: "int \<Rightarrow> automaton \<Rightarrow> automaton_call run" where
  "am_call callidx am = liftR (vec_at (am_calls am) (callidx - 1))"

definition am_nonterminal :: "int \<Rightarrow> automaton \<Rightarrow> string run" where
  "am_nonterminal idx am = liftR (vec_at (am_nonterminals am) (idx - 1))"

text \<open>What \<open>snprintf\<close> leaves of a text in the buffer, read with the length it returned, capped.\<close>

definition print_buffer :: "nat \<Rightarrow> string \<Rightarrow> string" where
  "print_buffer bufsize text = (if length text \<ge> bufsize then take (bufsize - 1) text @ [CHR 0x00] else text)"

definition action_string :: "action \<Rightarrow> automaton \<Rightarrow> string run" where
  "action_string action am =
     (case ac_type action of
        Shift \<Rightarrow> returnR (print_buffer 2048 (''Shift goto '' @ dec_int (ac_value action)))
      | Reduce \<Rightarrow>
          if ac_call action \<noteq> 0 then
            bindR (am_call (ac_call action) am) (\<lambda>c.
            bindR (am_nonterminal (ac_value action) am) (\<lambda>name.
              returnR (print_buffer 2048
                (''Reduce #'' @ dec_int (ac_count action) @ '' '' @ name @ '' call '' @ call_tostring c))))
          else
            bindR (am_nonterminal (ac_value action) am) (\<lambda>name.
              returnR (print_buffer 2048 (''Reduce #'' @ dec_int (ac_count action) @ '' '' @ name)))
      | Accept \<Rightarrow> returnR (print_buffer 2048 ''Accept''))"

definition build_limits :: "language_def \<Rightarrow> unit run" where
  "build_limits ld =
     (if int (length (ld_prodlist ld)) \<ge> max_nof_productions then throwR (Error ComplexityMaxStateInGrammarDef [])
      else if nof_terminals (ld_lexer ld) \<ge> max_terminal then throwR (Error ComplexityMaxTerminalInGrammarDef [])
      else
        runR (\<lambda>p _.
            if int (length (pd_right p)) \<ge> max_production_length then throwR (Error ComplexityMaxProductionLengthInGrammarDef [])
            else if pr_value (pd_priority p) < 0 \<or> pr_value (pd_priority p) \<ge> max_priority then
              throwR (Error ComplexityMaxProductionPriorityInGrammarDef [])
            else returnR ())
          (ld_prodlist ld) ())"

text \<open>The states in the end and the map from the kernels to the states.\<close>

definition build_states :: "(state_map \<Rightarrow> state_map) \<Rightarrow> prods \<Rightarrow> (lalr_states \<times> item_goto_map \<times> follow_map) run" where
  "build_states order prodlist =
     bindR (liftR (get_nullable_nonterminal_set prodlist)) (\<lambda>nullable.
     bindR (get_nonterminal_first_set_map prodlist nullable) (\<lambda>firsts.
     bindR (follow_map_new prodlist firsts nullable) (\<lambda>fl.
     bindR (get_automaton_state_assignments prodlist (calculate_closure_lr0 prodlist) ()) (\<lambda>(lr0, _).
     bindR (get_automaton_state_assignments prodlist (calculate_closure_lr1 prodlist) fl) (\<lambda>(lr1, fl).
     bindR (calculate_lalr1_state_map order lr0 lr1 fl) (\<lambda>(states, fl).
     bindR (calculate_lalr1_transition_item_goto_map states) (\<lambda>gotomap.
       if int (length lr0) \<ge> max_state then throwR (Error ComplexityMaxStateInGrammarDef [])
       else returnR (states, gotomap, fl))))))))"

definition build_shift :: "prods \<Rightarrow> follow_map \<Rightarrow> transition_state \<Rightarrow> int \<Rightarrow> lexer_names \<Rightarrow> shift_node \<Rightarrow> lr_tables \<Rightarrow> lr_tables run" where
  "build_shift prodlist fl state stateidx lexer shft tb =
     (let nd = sn_node shft; to_stateidx = sn_goto shft in
      if pn_type nd = Terminal then
        insert_action prodlist fl state (pn_index nd) (mk_action_key stateidx (pn_index nd)) (action_shift to_stateidx)
          (sn_priority shft) lexer tb
      else
        (case map_insert (tb_gotos tb) (mk_goto_key stateidx (pn_index nd)) (mk_goto to_stateidx) of (gotos, old, ins) \<Rightarrow>
         if \<not> ins \<and> old \<noteq> mk_goto to_stateidx then throwR logic_error
         else returnR (tb\<lparr>tb_gotos := gotos\<rparr>)))"

definition build_reduce :: "prods \<Rightarrow> follow_map \<Rightarrow> transition_state \<Rightarrow> int \<Rightarrow> lexer_names \<Rightarrow> int \<Rightarrow> lr_tables \<Rightarrow> lr_tables run" where
  "build_reduce prodlist fl state stateidx lexer follow tb =
     bindR (get_reduction_def state follow prodlist lexer fl (tb_warnings tb)) (\<lambda>(rd, warnings).
     bindR (fl_content follow fl) (\<lambda>terminals.
       runR (\<lambda>terminal. insert_action prodlist fl state terminal (mk_action_key stateidx terminal)
           (action_reduce (rd_head rd) (rd_scope rd) (rd_callidx rd) (rd_count rd)) (rd_priority rd) lexer)
         terminals (tb\<lparr>tb_warnings := warnings\<rparr>)))"

definition build_accept :: "prods \<Rightarrow> transition_state \<Rightarrow> int \<Rightarrow> lr_tables \<times> int \<Rightarrow> (lr_tables \<times> int) run" where
  "build_accept prodlist state stateidx st =
     (case st of (tb, nof_accept) \<Rightarrow>
      bindR (is_accept_state state prodlist) (\<lambda>acc.
        if acc then
          bindR (prod_at prodlist 0) (\<lambda>p.
            if nd_index (pd_left p) \<noteq> 1 then throwR logic_error
            else returnR (tb\<lparr>tb_actions := map_put (tb_actions tb) (mk_action_key stateidx 0)
                (action_accept (nd_index (pd_left p)) (pd_scope p) (pd_callidx p) (int (length (pd_right p))))\<rparr>, nof_accept + 1))
        else returnR st))"

definition build_state :: "prods \<Rightarrow> lexer_names \<Rightarrow> item_goto_map \<Rightarrow> follow_map \<Rightarrow> int \<times> transition_state \<Rightarrow> lr_tables \<times> int \<Rightarrow> (lr_tables \<times> int) run" where
  "build_state prodlist lexer gotomap fl assign st =
     (case assign of (stateidx, state) \<Rightarrow>
      bindR (build_accept prodlist state stateidx st) (\<lambda>(tb, nof_accept).
      bindR (get_shift_nodes state gotomap prodlist (tb_warnings tb)) (\<lambda>(shifts, warnings).
      bindR (runR (build_shift prodlist fl state stateidx lexer) shifts (tb\<lparr>tb_warnings := warnings\<rparr>)) (\<lambda>tb.
      bindR (get_reduce_follow state prodlist) (\<lambda>follows.
      bindR (runR (build_reduce prodlist fl state stateidx lexer) follows tb) (\<lambda>tb.
        returnR (tb, nof_accept)))))))"

text \<open>
  \<open>Automaton::build\<close> for the parsed grammar: the tables of the automaton are extended, the rest is taken
  from the grammar. The warnings are returned with the automaton.
\<close>

definition build :: "(state_map \<Rightarrow> state_map) \<Rightarrow> language_def \<Rightarrow> error list \<Rightarrow> automaton \<Rightarrow> (automaton \<times> error list) run" where
  "build order ld warnings am =
     (let ps = ld_prodlist ld in
      bindR (build_limits ld) (\<lambda>_.
      bindR (build_states order ps) (\<lambda>(states, gotomap, fl).
      bindR (runR (build_state ps (ld_lexer ld) gotomap fl) states
          (\<lparr>tb_actions = am_actions am, tb_gotos = am_gotos am, tb_priorities = [],
            tb_solved = \<lparr>sc_map = [], sc_count = 0\<rparr>, tb_warnings = warnings\<rparr>, 0)) (\<lambda>(tb, nof_accept).
        if nof_accept = 0 then throwR (Error NoAcceptStatesInGrammarDef [])
        else returnR (\<lparr>am_language = ld_language ld, am_typesystem = ld_typesystem ld, am_cmdline = ld_cmdline ld,
            am_lexer = ld_lexer ld, am_actions = tb_actions tb, am_gotos = tb_gotos tb, am_calls = ld_calls ld,
            am_nonterminals = ld_nonterminals ld\<rparr>, tb_warnings tb)))))"

end
