(* ===== verification/LrMachine.thy ===== *)
theory LrMachine
  imports LrTables
begin

text \<open>
  The LALR(1) machine that runs a compiler, from \<open>src/lua_run_compiler.cpp\<close>: the stack of states, the
  indices the states keep into the stack of Lua values, and the abstract syntax tree nodes that are
  built there. A Lua table made for a lexem or a reduction is a node; the Lua stack is the list of the
  nodes above the call table, the last one on top. The scanner is a parameter: a function that
  fetches the next lexem. The file and line that \<open>LanguageAutomatonCorrupted\<close> has as argument after an
  accept are left empty, as those of \<open>LogicError\<close>. Debug output and the calls of the Lua functions at the end are left out.
\<close>

record lexem =
  lm_name :: string
  lm_value :: string
  lm_id :: int
  lm_line :: int

definition lexem_empty :: "lexem \<Rightarrow> bool" where
  "lexem_empty lx \<longleftrightarrow> lm_value lx = [] \<and> lm_name lx = []"

definition eof_lexem :: "int \<Rightarrow> lexem" where
  "eof_lexem line = \<lparr>lm_name = [], lm_value = [], lm_id = 0, lm_line = line\<rparr>"

text \<open>The counter of a node: the step, or the start and end of its scope.\<close>

datatype node_scope = NodeStep int | NodeScope int int

datatype ast =
    Lexem_Node (ast_name: string) (ast_value: string) (ast_line: int)
  | Call_Node (ast_call: int) (ast_line: int) (ast_scope: node_scope) (ast_arg: "ast list")

record pstate =
  st_index :: int
  st_luastki :: int
  st_luastkn :: int
  st_scopecnt :: int

record compiler_context =
  cc_stack :: "pstate list"
  cc_scopestep :: int
  cc_line :: int
  cc_nodes :: "ast list"

definition compiler_context_new :: compiler_context where
  "compiler_context_new =
     \<lparr>cc_stack = [\<lparr>st_index = 1, st_luastki = 0, st_luastkn = 0, st_scopecnt = 0\<rparr>], cc_scopestep = 0, cc_line = 0, cc_nodes = []\<rparr>"

subsection \<open>Messages\<close>

definition expected_terminal_step :: "lexer_names \<Rightarrow> action_key \<times> action \<Rightarrow> string \<times> nat \<Rightarrow> (string \<times> nat) run" where
  "expected_terminal_step lexer a st =
     (case st of (rt, aidx) \<Rightarrow>
      bindR (get_lexem_name lexer (ak_terminal (fst a))) (\<lambda>name.
        returnR ((if aidx \<noteq> 0 then rt @ '', '' else rt) @ name, Suc aidx)))"

definition expected_terminal_list :: "(action_key, action) std_map \<Rightarrow> int \<Rightarrow> lexer_names \<Rightarrow> string run" where
  "expected_terminal_list actions state lexer =
     bindR (runR (expected_terminal_step lexer)
         (takeWhile (\<lambda>a. ak_state (fst a) = state) (dropWhile (\<lambda>a. fst a < mk_action_key state 0) actions)) ([], 0))
       (\<lambda>(rt, _). returnR rt)"

definition state_transition_info :: "int \<Rightarrow> int \<Rightarrow> lexer_names \<Rightarrow> string run" where
  "state_transition_info state terminal lexer =
     bindR (get_lexem_name lexer terminal) (\<lambda>name. returnR (''state '' @ dec_int state @ '', token '' @ name))"

definition token_string :: "lexem \<Rightarrow> lexer_names \<Rightarrow> string run" where
  "token_string lx lexer =
     (if lm_id lx = 0 then returnR ''$''
      else
        bindR (lexem_name (lm_id lx) lexer) (\<lambda>name.
        bindR (is_keyword (lm_id lx) lexer) (\<lambda>keyword.
          returnR (if keyword then name else name @ '' = '' @ ''\"'' @ lm_value lx @ ''\"''))))"

subsection \<open>Indices into the Lua stack\<close>

text \<open>
  The offset by which the indices are to be lowered. The loop that lowers them works on copies of the
  elements, so that the stack stays as it is.
\<close>

definition adjust_state_counters_on_stack :: "pstate list \<Rightarrow> pstate list run" where
  "adjust_state_counters_on_stack stack =
     (let ofs = (case dropWhile (\<lambda>st. st_luastki st = 0) stack of [] \<Rightarrow> 0 | st # _ \<Rightarrow> st_luastki st - 1) in
      if ofs = 0 then throwR (Error CompiledSourceTooComplex []) else returnR stack)"

partial_function (option) get_next_lua_stack_index :: "pstate list \<Rightarrow> int run" where
  "get_next_lua_stack_index stack =
     (case dropWhile (\<lambda>st. st_luastkn st = 0) (rev stack) of
        [] \<Rightarrow> returnR 1
      | st # _ \<Rightarrow>
          let rt = st_luastki st + st_luastkn st in
          if rt \<ge> int_max then bindR (adjust_state_counters_on_stack stack) get_next_lua_stack_index
          else returnR rt)"

declare get_next_lua_stack_index.simps [code]

definition get_lua_stack_reduction_size :: "pstate list \<Rightarrow> nat \<Rightarrow> int" where
  "get_lua_stack_reduction_size stack nn =
     (let top = drop (length stack - nn) stack;
          start = (case dropWhile (\<lambda>st. st_luastki st = 0) top of [] \<Rightarrow> 0 | st # _ \<Rightarrow> st_luastki st);
          stop = (case dropWhile (\<lambda>st. st_luastkn st = 0) (rev top) of [] \<Rightarrow> 0 | st # _ \<Rightarrow> st_luastki st + st_luastkn st)
      in stop - start)"

subsection \<open>Reductions with a call\<close>

text \<open>
  The elements of the Lua stack that belong to the reduced states: from the top down to the first state with
  elements, and from there on to the last one.
\<close>

definition reduce_struct_size :: "pstate list \<Rightarrow> nat \<Rightarrow> int" where
  "reduce_struct_size stack nn =
     (case dropWhile (\<lambda>st. st_luastki st = 0) (rev (drop (length stack - nn) stack)) of
        [] \<Rightarrow> 0
      | st # sts \<Rightarrow>
          let stk_end = st_luastki st + st_luastkn st;
              stk_start = fold (\<lambda>st start. if st_luastki st \<noteq> 0 then st_luastki st else start) (st # sts) 0
          in stk_end - stk_start)"

definition lua_reduce_struct :: "nat \<Rightarrow> int \<Rightarrow> scope_flag \<Rightarrow> int \<Rightarrow> compiler_context \<Rightarrow> compiler_context run" where
  "lua_reduce_struct reduction_size callidx scopeflag scope_start ctx =
     (let n = reduce_struct_size (cc_stack ctx) reduction_size;
          scopestep = (if scopeflag = NoScope then cc_scopestep ctx else cc_scopestep ctx + 1);
          scope = (if scopeflag = ScopeFlag then NodeScope scope_start scopestep else NodeStep scopestep) in
      if 0 \<le> n \<and> nat n \<le> length (cc_nodes ctx) then
        (let rest = length (cc_nodes ctx) - nat n in
         returnR (ctx\<lparr>cc_scopestep := scopestep,
           cc_nodes := take rest (cc_nodes ctx) @ [Call_Node callidx (cc_line ctx) scope (drop rest (cc_nodes ctx))]\<rparr>))
      else None)"

subsection \<open>Feeding a lexem\<close>

definition push_state :: "int \<Rightarrow> int \<Rightarrow> int \<Rightarrow> int \<Rightarrow> compiler_context \<Rightarrow> compiler_context" where
  "push_state index luastki luastkn scopecnt ctx =
     ctx\<lparr>cc_stack := cc_stack ctx @ [\<lparr>st_index = index, st_luastki = luastki, st_luastkn = luastkn, st_scopecnt = scopecnt\<rparr>]\<rparr>"

definition feed_shift :: "automaton \<Rightarrow> lexem \<Rightarrow> int \<Rightarrow> compiler_context \<Rightarrow> compiler_context run" where
  "feed_shift am lx state ctx =
     bindR (is_keyword (lm_id lx) (am_lexer am)) (\<lambda>keyword.
       if \<not> keyword then
         bindR (get_next_lua_stack_index (cc_stack ctx)) (\<lambda>next_luastki.
           returnR ((push_state state next_luastki 1 (cc_scopestep ctx) ctx)
             \<lparr>cc_nodes := cc_nodes ctx @ [Lexem_Node (lm_name lx) (lm_value lx) (lm_line lx)], cc_line := lm_line lx\<rparr>))
       else returnR (push_state state 0 0 (cc_scopestep ctx) ctx))"

text \<open>What reductions and the accept share: the context after the pop, the number of elements on the Lua
  stack, and the scope counter.\<close>

definition feed_pop :: "lexem \<Rightarrow> action \<Rightarrow> compiler_context \<Rightarrow> (compiler_context \<times> int \<times> int) run" where
  "feed_pop lx action ctx =
     (let n = ac_count action; stack = cc_stack ctx in
      if int (length stack) \<le> n \<or> n < 0 then throwR (ErrorAt LanguageAutomatonCorrupted [] (lm_line lx))
      else
        (let scope_start = (if n = 0 then cc_scopestep ctx else st_scopecnt (stack ! (length stack - nat n))) in
         bindR (if ac_call action \<noteq> 0 then
                  bindR (lua_reduce_struct (nat n) (ac_call action) (ac_scopeflag action) scope_start ctx) (\<lambda>ctx'. returnR (ctx', 1))
                else returnR (ctx, get_lua_stack_reduction_size stack (nat n)))
           (\<lambda>(ctx', k). returnR (ctx'\<lparr>cc_stack := take (length stack - nat n) stack\<rparr>, k, scope_start))))"

definition feed_accept :: "lexem \<Rightarrow> compiler_context \<times> int \<times> int \<Rightarrow> compiler_context run" where
  "feed_accept lx popped =
     (case popped of (ctx, k, _) \<Rightarrow>
      if lm_id lx \<noteq> 0 then throwR (ErrorAt LanguageAutomatonUnexpectedAccept [] (lm_line lx))
      else
        (case cc_stack ctx of
           [st] \<Rightarrow>
             if st_luastki st \<noteq> 0 \<or> st_luastkn st \<noteq> 0 then throwR (Error LanguageAutomatonCorrupted [])
             else returnR (ctx\<lparr>cc_stack := [st\<lparr>st_luastki := 1, st_luastkn := k + 1\<rparr>]\<rparr>)
         | _ \<Rightarrow> throwR (Error LanguageAutomatonCorrupted [])))"

definition feed_reduce :: "automaton \<Rightarrow> lexem \<Rightarrow> int \<Rightarrow> compiler_context \<times> int \<times> int \<Rightarrow> compiler_context run" where
  "feed_reduce am lx nonterminal popped =
     (case popped of (ctx, k, scope_start) \<Rightarrow>
      let index = st_index (last (cc_stack ctx)) in
      case map_find (am_gotos am) (mk_goto_key index nonterminal) of
        None \<Rightarrow>
          bindR (state_transition_info index (lm_id lx) (am_lexer am)) (\<lambda>info.
            throwR (ErrorAt LanguageAutomatonMissingGoto info (lm_line lx)))
      | Some g \<Rightarrow>
          if k \<noteq> 0 then
            bindR (get_next_lua_stack_index (cc_stack ctx)) (\<lambda>next_luastki.
              returnR (push_state (go_state g) next_luastki k scope_start ctx))
          else returnR (push_state (go_state g) 0 0 scope_start ctx))"

text \<open>The context and if the lexem has been consumed.\<close>

definition feed_lexem :: "automaton \<Rightarrow> lexem \<Rightarrow> compiler_context \<Rightarrow> (compiler_context \<times> bool) run" where
  "feed_lexem am lx ctx =
     (let index = st_index (last (cc_stack ctx)) in
      case map_find (am_actions am) (mk_action_key index (lm_id lx)) of
        None \<Rightarrow>
          bindR (token_string lx (am_lexer am)) (\<lambda>token.
          bindR (expected_terminal_list (am_actions am) index (am_lexer am)) (\<lambda>expected.
            throwR (ErrorAt UnexpectedTokenNotOneOf (token @ '' { '' @ expected @ '' }'') (lm_line lx))))
      | Some action \<Rightarrow>
          (case ac_type action of
             Shift \<Rightarrow> bindR (feed_shift am lx (ac_value action) ctx) (\<lambda>ctx'. returnR (ctx', True))
           | Accept \<Rightarrow> bindR (bindR (feed_pop lx action ctx) (feed_accept lx)) (\<lambda>ctx'. returnR (ctx', True))
           | Reduce \<Rightarrow> bindR (bindR (feed_pop lx action ctx) (feed_reduce am lx (ac_value action))) (\<lambda>ctx'. returnR (ctx', False))))"

partial_function (option) feed_loop :: "automaton \<Rightarrow> lexem \<Rightarrow> compiler_context \<Rightarrow> compiler_context run" where
  "feed_loop am lx ctx =
     bindR (feed_lexem am lx ctx) (\<lambda>(ctx', consumed). if consumed then returnR ctx' else feed_loop am lx ctx')"

declare feed_loop.simps [code]

subsection \<open>The compiler\<close>

text \<open>The check of the stack indices after each lexem.\<close>

definition stack_check :: "compiler_context \<Rightarrow> bool" where
  "stack_check ctx \<longleftrightarrow>
     (let st = last (cc_stack ctx) in
      \<not> (cc_stack ctx \<noteq> [] \<and> st_luastkn st \<noteq> 0 \<and> int (length (cc_nodes ctx)) \<noteq> st_luastki st + st_luastkn st - 1))"

partial_function (option) lexem_loop :: "('sc \<Rightarrow> (lexem \<times> 'sc) run) \<Rightarrow> automaton \<Rightarrow> 'sc \<Rightarrow> compiler_context \<Rightarrow> (lexem \<times> compiler_context) run" where
  "lexem_loop next_lexem am scanner ctx =
     bindR (next_lexem scanner) (\<lambda>(lx, scanner').
       if lexem_empty lx then returnR (lx, ctx)
       else if lm_id lx \<le> 0 then throwR (ErrorAt BadCharacterInGrammarDef (lm_value lx) (lm_line lx))
       else
         bindR (feed_loop am lx ctx) (\<lambda>ctx'.
           if stack_check ctx' then lexem_loop next_lexem am scanner' ctx' else throwR logic_error))"

declare lexem_loop.simps [code]

text \<open>The nodes on the Lua stack whose functions are called in the end.\<close>

definition run_compiler :: "('sc \<Rightarrow> (lexem \<times> 'sc) run) \<Rightarrow> automaton \<Rightarrow> 'sc \<Rightarrow> ast list run" where
  "run_compiler next_lexem am scanner =
     bindR (lexem_loop next_lexem am scanner compiler_context_new) (\<lambda>(lx, ctx).
     bindR (feed_loop am lx ctx) (\<lambda>ctx'. returnR (cc_nodes ctx')))"

end
