(* ===== verification/Lexer.thy ===== *)
theory Lexer
  imports LexPatterns LrMachine
begin

text \<open>
  The lexer, from \<open>src/lexer.hpp\<close> and \<open>src/lexer.cpp\<close>: definitions of lexems and comments, the scanner with
  its indentation tokens, and the choice of the next lexem.

  \<open>std::regex\<close> is a parameter: if a pattern is valid, and the positions and lengths of the groups of the
  match of a pattern at the front of a text. A string view into the source is its text and the text behind
  it up to the terminator of the source. The map from names to ids is the list of its pairs; the order of
  the names is not used. \<open>std::runtime_error\<close> and a read out of a vector give \<open>None\<close>.
\<close>

record regex_engine =
  re_valid :: "string \<Rightarrow> bool"
  re_search :: "string \<Rightarrow> string \<Rightarrow> (nat \<times> nat) list option"

type_synonym view = "string \<times> string"

subsection \<open>Definitions of lexems\<close>

record lexem_def =
  df_line :: int
  df_name :: string
  df_source :: string
  df_activate :: string
  df_select :: nat
  df_id :: int
  df_keyword :: bool

definition mk_lexem_def :: "regex_engine \<Rightarrow> int \<Rightarrow> string \<Rightarrow> string \<Rightarrow> int \<Rightarrow> bool \<Rightarrow> nat \<Rightarrow> lexem_def run" where
  "mk_lexem_def re line name source nid keyword select =
     (if \<not> re_valid re source then throwR (Error InvalidRegexInLexer source)
      else
        bindR (activation source) (\<lambda>achrs.
          returnR \<lparr>df_line = line, df_name = name, df_source = source, df_activate = achrs, df_select = select,
            df_id = nid, df_keyword = keyword\<rparr>))"

definition mk_indent_def :: "int \<Rightarrow> string \<Rightarrow> int \<Rightarrow> lexem_def" where
  "mk_indent_def line name nid =
     \<lparr>df_line = line, df_name = name, df_source = [], df_activate = [], df_select = 0, df_id = nid, df_keyword = False\<rparr>"

text \<open>The selected group of the match at the front of the text, and the length of the match, 0 if there is none.\<close>

definition def_match :: "regex_engine \<Rightarrow> lexem_def \<Rightarrow> string \<Rightarrow> view \<times> nat" where
  "def_match re d src =
     (case re_search re (df_source d) src of
        None \<Rightarrow> (([], []), 0)
      | Some groups \<Rightarrow>
          if length groups > df_select d then
            (case groups ! df_select d of (pos, len) \<Rightarrow> ((take len (drop pos src), drop (pos + len) src), snd (groups ! 0)))
          else (([], []), 0))"

subsection \<open>Scanner\<close>

record scanner =
  sn_src :: string
  sn_pos :: nat
  sn_line :: int
  sn_indentstk :: "int list"
  sn_consumed :: bool

definition scanner_new :: "string \<Rightarrow> scanner" where
  "scanner_new src = \<lparr>sn_src = src, sn_pos = 0, sn_line = 1, sn_indentstk = [], sn_consumed = False\<rparr>"

definition sn_rest :: "scanner \<Rightarrow> string" where
  "sn_rest sc = drop (sn_pos sc) (sn_src sc)"

definition count_newlines :: "string \<Rightarrow> int" where
  "count_newlines s = int (length (filter (\<lambda>c. c = newline) s))"

definition blank :: "char \<Rightarrow> bool" where
  "blank c \<longleftrightarrow> c \<noteq> nul \<and> byte c \<le> 32"

text \<open>The loops over the steps forwards or back, then over blank characters.\<close>

definition scanner_next :: "int \<Rightarrow> scanner \<Rightarrow> scanner run" where
  "scanner_next incr sc =
     (let pos = int (sn_pos sc) + incr in
      if pos < 0 \<or> pos > int (length (sn_src sc)) then throwR (Error ArrayBoundReadInLexer [])
      else
        (let line = (if incr < 0 then sn_line sc - count_newlines (take (nat (- incr)) (drop (nat pos) (sn_src sc)))
           else sn_line sc + count_newlines (take (nat incr) (sn_rest sc)));
           spaces = takeWhile blank (drop (nat pos) (sn_src sc)) in
         returnR (sc\<lparr>sn_pos := nat pos + length spaces, sn_line := line + count_newlines spaces\<rparr>)))"

text \<open>\<open>strstr\<close> of two C strings: the offset of the first occurrence.\<close>

definition c_text :: "string \<Rightarrow> string" where
  "c_text s = takeWhile (\<lambda>c. c \<noteq> nul) s"

fun strstr_offset :: "string \<Rightarrow> string \<Rightarrow> nat option" where
  "strstr_offset text s =
     (if take (length s) text = s then Some 0
      else case text of [] \<Rightarrow> None | _ # rest \<Rightarrow> map_option Suc (strstr_offset rest s))"

definition scanner_scan :: "string \<Rightarrow> scanner \<Rightarrow> (bool \<times> scanner) run" where
  "scanner_scan str sc =
     (case strstr_offset (c_text (sn_rest sc)) (c_text str) of
        None \<Rightarrow> returnR (False, sc)
      | Some offset \<Rightarrow> bindR (scanner_next (int (offset + length (c_text str))) sc) (\<lambda>sc'. returnR (True, sc')))"

fun match_length :: "string \<Rightarrow> string \<Rightarrow> nat option" where
  "match_length text [] = Some 0"
| "match_length [] (c # s) = (if c = nul then Some 0 else None)"
| "match_length (d # text) (c # s) =
     (if c = nul then Some 0 else if d = c then map_option Suc (match_length text s) else None)"

definition scanner_match :: "string \<Rightarrow> scanner \<Rightarrow> scanner option" where
  "scanner_match str sc =
     (case match_length (sn_rest sc) str of
        None \<Rightarrow> None
      | Some len \<Rightarrow> Some (sc\<lparr>sn_pos := sn_pos sc + len, sn_line := sn_line sc + count_newlines (take len (sn_rest sc))\<rparr>))"

text \<open>The blank characters in front of the position, back to the start of the line.\<close>

fun indent_count_back :: "int \<Rightarrow> string \<Rightarrow> int \<Rightarrow> int" where
  "indent_count_back tab_size [] rt = rt"
| "indent_count_back tab_size (c # cs) rt =
     (if c = newline then rt
      else if byte c \<le> 32 then indent_count_back tab_size cs (rt + (if c = CHR 0x09 then tab_size else 1))
      else -1)"

definition indent_count :: "int \<Rightarrow> scanner \<Rightarrow> int" where
  "indent_count tab_size sc = indent_count_back tab_size (rev (take (sn_pos sc) (sn_src sc))) 0"

datatype indent_token = IndentNone | IndentNewLine | IndentOpen | IndentClose

definition get_indent_token :: "int \<Rightarrow> scanner \<Rightarrow> indent_token \<times> scanner" where
  "get_indent_token tab_size sc =
     (if sn_consumed sc then (IndentNone, sc\<lparr>sn_consumed := False\<rparr>)
      else
        (let cnt = indent_count tab_size sc in
         if cnt = -1 then (IndentNone, sc)
         else if sn_indentstk sc = [] then
           if cnt = 0 then (IndentNewLine, sc\<lparr>sn_consumed := True\<rparr>)
           else (IndentOpen, sc\<lparr>sn_indentstk := sn_indentstk sc @ [cnt]\<rparr>)
         else
           (let bk = last (sn_indentstk sc) in
            if bk < cnt then (IndentOpen, sc\<lparr>sn_indentstk := sn_indentstk sc @ [cnt]\<rparr>)
            else if bk > cnt then (IndentClose, sc\<lparr>sn_indentstk := butlast (sn_indentstk sc)\<rparr>)
            else (IndentNewLine, sc\<lparr>sn_consumed := True\<rparr>))))"

definition get_eof_indent_token :: "scanner \<Rightarrow> indent_token \<times> scanner" where
  "get_eof_indent_token sc =
     (if sn_indentstk sc = [] then (IndentNone, sc)
      else (IndentClose, sc\<lparr>sn_indentstk := butlast (sn_indentstk sc)\<rparr>))"

subsection \<open>Defining a lexer\<close>

record indent_lexems =
  il_line :: int
  il_open :: int
  il_close :: int
  il_newline :: int
  il_tabsize :: int

record lexer =
  lr_errorline :: int
  lr_errorvalue :: string
  lr_defar :: "lexem_def list"
  lr_firstmap :: "(nat, int) std_map"
  lr_nameidmap :: "(string \<times> int) list"
  lr_namelist :: "string list"
  lr_id2keyword :: "bool list"
  lr_bracketcomments :: "(int \<times> string \<times> string) list"
  lr_eolncomments :: "(int \<times> string) list"
  lr_indent :: indent_lexems

definition lexer_new :: lexer where
  "lexer_new = \<lparr>lr_errorline = 0, lr_errorvalue = ''?'', lr_defar = [], lr_firstmap = [], lr_nameidmap = [], lr_namelist = [],
     lr_id2keyword = [], lr_bracketcomments = [], lr_eolncomments = [],
     lr_indent = \<lparr>il_line = 0, il_open = 0, il_close = 0, il_newline = 0, il_tabsize = 0\<rparr>\<rparr>"

text \<open>The part of the lexer the automaton uses.\<close>

definition lexer_names_of :: "lexer \<Rightarrow> lexer_names" where
  "lexer_names_of lx = \<lparr>lx_namelist = lr_namelist lx, lx_id2keyword = lr_id2keyword lx\<rparr>"

definition name_string :: "string \<Rightarrow> string" where
  "name_string name =
     (let sq = CHR 0x27 \<in> set name; dq = CHR 0x22 \<in> set name in
      if sq \<and> dq then name
      else if sq then [CHR 0x22] @ name @ [CHR 0x22]
      else if dq then [CHR 0x27] @ name @ [CHR 0x27]
      else if length name = 1 then [CHR 0x27] @ name @ [CHR 0x27]
      else [CHR 0x22] @ name @ [CHR 0x22])"

definition grow_keywords :: "nat \<Rightarrow> bool list \<Rightarrow> bool list" where
  "grow_keywords nid ks = ks @ replicate (Suc nid - length ks) False"

text \<open>The entry of the new definition, which is the last one, into the map of first characters.\<close>

definition add_first_chars :: "lexer \<Rightarrow> lexer run" where
  "add_first_chars lx =
     (let chars = filter (\<lambda>ii. char_of ii \<in> set (df_activate (last (lr_defar lx)))) [0..<256] in
      if chars = [] then throwR (Error SyntaxErrorInLexer [])
      else returnR (lx\<lparr>lr_firstmap := fold (\<lambda>ii m. multimap_insert m ii (int (length (lr_defar lx)) - 1)) chars (lr_firstmap lx)\<rparr>))"

text \<open>The name of the definition gets an id, and the definition goes into the table.\<close>

definition enter_lexem_def :: "regex_engine \<Rightarrow> int \<Rightarrow> string \<Rightarrow> string \<Rightarrow> bool \<Rightarrow> nat \<Rightarrow> lexer \<Rightarrow> (int \<times> lexer) run" where
  "enter_lexem_def re line name pattern keyword select lx =
     (if name = [] then
        bindR (mk_lexem_def re line [] pattern 0 False select) (\<lambda>d. returnR (0, lx\<lparr>lr_defar := lr_defar lx @ [d]\<rparr>))
      else
        (let nid = length (lr_nameidmap lx) + 1;
             ks = grow_keywords nid (lr_id2keyword lx) in
         case map_of (lr_nameidmap lx) name of
           None \<Rightarrow>
             bindR (mk_lexem_def re line name pattern (int nid) keyword select) (\<lambda>d.
               returnR (int nid, lx\<lparr>lr_nameidmap := lr_nameidmap lx @ [(name, int nid)],
                 lr_namelist := lr_namelist lx @ [if keyword then name_string name else name],
                 lr_id2keyword := (if keyword then ks[nid := True] else ks), lr_defar := lr_defar lx @ [d]\<rparr>))
         | Some old \<Rightarrow>
             if keyword then throwR (Error KeywordDefinedTwiceInLexer name)
             else
               bindR (mk_lexem_def re line name pattern old keyword select) (\<lambda>d.
                 returnR (old, lx\<lparr>lr_id2keyword := ks, lr_defar := lr_defar lx @ [d]\<rparr>))))"

definition define_lexem_entry :: "regex_engine \<Rightarrow> int \<Rightarrow> string \<Rightarrow> string \<Rightarrow> bool \<Rightarrow> nat \<Rightarrow> lexer \<Rightarrow> (int \<times> lexer) run" where
  "define_lexem_entry re line name pattern keyword select lx =
     bindR (enter_lexem_def re line name pattern keyword select lx) (\<lambda>(rt, lx').
       if length pattern > 0 then bindR (add_first_chars lx') (\<lambda>lx''. returnR (rt, lx'')) else returnR (rt, lx'))"

definition define_lexem :: "regex_engine \<Rightarrow> int \<Rightarrow> string \<Rightarrow> string \<Rightarrow> nat \<Rightarrow> lexer \<Rightarrow> (int \<times> lexer) run" where
  "define_lexem re line name pattern select lx = define_lexem_entry re line name pattern False select lx"

definition define_ignore :: "regex_engine \<Rightarrow> int \<Rightarrow> string \<Rightarrow> lexer \<Rightarrow> lexer run" where
  "define_ignore re line pattern lx = bindR (define_lexem_entry re line [] pattern False 0 lx) (\<lambda>(_, lx'). returnR lx')"

definition define_lexem_id :: "string \<Rightarrow> lexer \<Rightarrow> (int \<times> lexer) run" where
  "define_lexem_id name lx =
     (let nid = length (lr_nameidmap lx) + 1 in
      case map_of (lr_nameidmap lx) name of
        None \<Rightarrow> returnR (int nid, lx\<lparr>lr_id2keyword := grow_keywords nid (lr_id2keyword lx),
          lr_nameidmap := lr_nameidmap lx @ [(name, int nid)], lr_namelist := lr_namelist lx @ [name_string name],
          lr_defar := lr_defar lx @ [mk_indent_def 0 name (int nid)]\<rparr>)
      | Some _ \<Rightarrow> None)"

definition define_indent_lexems :: "int \<Rightarrow> string \<Rightarrow> string \<Rightarrow> string \<Rightarrow> int \<Rightarrow> lexer \<Rightarrow> lexer run" where
  "define_indent_lexems line opening close newlining tabsize lx =
     (if il_open (lr_indent lx) \<noteq> 0 then throwR (Error ConflictingCommandInGrammarDef [])
      else
        bindR (define_lexem_id opening lx) (\<lambda>(op, lx).
        bindR (define_lexem_id close lx) (\<lambda>(cl, lx).
        bindR (define_lexem_id newlining lx) (\<lambda>(nl, lx).
          returnR (lx\<lparr>lr_indent := \<lparr>il_line = line, il_open = op, il_close = cl, il_newline = nl, il_tabsize = tabsize\<rparr>\<rparr>)))))"

text \<open>\<open>stringToRegex\<close> reads the view of the name up to a NUL, so also what is behind the view.\<close>

definition string_to_regex :: "view \<Rightarrow> string" where
  "string_to_regex opr =
     concat (map (\<lambda>c. if strchr_found regex_escape_chars c then [CHR 0x5C, c] else [c]) (c_text (fst opr @ snd opr)))"

definition define_keyword :: "regex_engine \<Rightarrow> view \<Rightarrow> lexer \<Rightarrow> (int \<times> lexer) run" where
  "define_keyword re opr lx = define_lexem_entry re 0 (fst opr) (string_to_regex opr) True 0 lx"

definition define_bad_lexem :: "int \<Rightarrow> string \<Rightarrow> lexer \<Rightarrow> lexer" where
  "define_bad_lexem line name lx = lx\<lparr>lr_errorline := line, lr_errorvalue := name\<rparr>"

definition match_eoln_comment :: int where
  "match_eoln_comment = -1"

definition match_bracket_comment :: int where
  "match_bracket_comment = -2"

definition define_eoln_comment :: "int \<Rightarrow> string \<Rightarrow> lexer \<Rightarrow> lexer run" where
  "define_eoln_comment line opr lx =
     (if opr = [] then throwR (Error SyntaxErrorInLexer [])
      else returnR (lx\<lparr>lr_eolncomments := lr_eolncomments lx @ [(line, opr)],
        lr_firstmap := multimap_insert (lr_firstmap lx) (byte (hd opr)) match_eoln_comment\<rparr>))"

definition define_bracket_comment :: "int \<Rightarrow> string \<Rightarrow> string \<Rightarrow> lexer \<Rightarrow> lexer run" where
  "define_bracket_comment line start closing lx =
     (if start = [] \<or> closing = [] then throwR (Error SyntaxErrorInLexer [])
      else returnR (lx\<lparr>lr_bracketcomments := lr_bracketcomments lx @ [(line, start, closing)],
        lr_firstmap := multimap_insert (lr_firstmap lx) (byte (hd start)) match_bracket_comment\<rparr>))"

definition lexem_id :: "string \<Rightarrow> lexer \<Rightarrow> int" where
  "lexem_id name lx = (case map_of (lr_nameidmap lx) name of None \<Rightarrow> 0 | Some nid \<Rightarrow> nid)"

subsection \<open>The next lexem\<close>

fun lexer_match_eoln :: "(int \<times> string) list \<Rightarrow> scanner \<Rightarrow> scanner option" where
  "lexer_match_eoln [] sc = None"
| "lexer_match_eoln ((_, opr) # cs) sc = (case scanner_match opr sc of Some sc' \<Rightarrow> Some sc' | None \<Rightarrow> lexer_match_eoln cs sc)"

fun lexer_match_bracket :: "(int \<times> string \<times> string) list \<Rightarrow> scanner \<Rightarrow> (string \<times> string \<times> scanner) option" where
  "lexer_match_bracket [] sc = None"
| "lexer_match_bracket ((_, start, closing) # cs) sc =
     (case scanner_match start sc of Some sc' \<Rightarrow> Some (start, closing, sc') | None \<Rightarrow> lexer_match_bracket cs sc)"

text \<open>The best match: its length, the index of the definition, the view of the value.\<close>

record best_match =
  bm_len :: nat
  bm_idx :: int
  bm_view :: view

text \<open>
  The outcome of the loop over the definitions the first character activates: the end of the source or the
  error of a comment that is not closed, a skipped comment, or the best match.
\<close>

datatype range_outcome = RangeLexem lexem view | RangeSkipped | RangeEnd best_match

fun lexer_range :: "regex_engine \<Rightarrow> lexer \<Rightarrow> int list \<Rightarrow> best_match \<Rightarrow> scanner \<Rightarrow> (range_outcome \<times> scanner) run" where
  "lexer_range re lx [] bm sc = returnR (RangeEnd bm, sc)"
| "lexer_range re lx (idx # idxs) bm sc =
     (if idx = match_eoln_comment then
        (case lexer_match_eoln (lr_eolncomments lx) sc of
           None \<Rightarrow> lexer_range re lx idxs bm sc
         | Some sc1 \<Rightarrow>
             bindR (scanner_scan [newline] sc1) (\<lambda>(found, sc2).
               if \<not> found then returnR (RangeLexem (eof_lexem (sn_line sc2)) ([], []), sc2) else returnR (RangeSkipped, sc2)))
      else if idx = match_bracket_comment then
        (case lexer_match_bracket (lr_bracketcomments lx) sc of
           None \<Rightarrow> lexer_range re lx idxs bm sc
         | Some (start, closing, sc1) \<Rightarrow>
             bindR (scanner_scan closing sc1) (\<lambda>(found, sc2).
               if \<not> found then
                 returnR (RangeLexem \<lparr>lm_name = lr_errorvalue lx, lm_value = start, lm_id = -1, lm_line = sn_line sc2\<rparr> (start, []), sc2)
               else returnR (RangeSkipped, sc2)))
      else if idx \<ge> int (length (lr_defar lx)) then throwR (Error ArrayBoundReadInLexer [])
      else
        bindR (liftR (vec_at (lr_defar lx) idx)) (\<lambda>d.
          case def_match re d (sn_rest sc) of (view, len) \<Rightarrow>
          if bm_len bm \<le> len \<and> (bm_len bm < len \<or> df_keyword d) then
            lexer_range re lx idxs \<lparr>bm_len = len, bm_idx = idx, bm_view = view\<rparr> sc
          else lexer_range re lx idxs bm sc))"

definition indent_lexem :: "lexer \<Rightarrow> int \<Rightarrow> int \<Rightarrow> lexem run" where
  "indent_lexem lx nid line =
     bindR (liftR (vec_at (lr_namelist lx) (nid - 1))) (\<lambda>name.
       returnR \<lparr>lm_name = name, lm_value = [], lm_id = nid, lm_line = line\<rparr>)"

text \<open>The lexem for the best match: \<open>None\<close> inside if the definition is one to ignore.\<close>

definition lexer_take :: "lexer \<Rightarrow> best_match \<Rightarrow> scanner \<Rightarrow> ((lexem \<times> view) option \<times> scanner) run" where
  "lexer_take lx bm sc =
     (let line = sn_line sc in
      if bm_idx bm < 0 then
        bindR (parse_char (c_str (sn_rest sc))) (\<lambda>(chr, _).
        bindR (scanner_next (int (length chr)) sc) (\<lambda>sc'.
          returnR (Some (\<lparr>lm_name = lr_errorvalue lx, lm_value = chr, lm_id = -1, lm_line = line\<rparr>, (chr, drop (length chr) (sn_rest sc))), sc')))
      else
        bindR (liftR (vec_at (lr_defar lx) (bm_idx bm))) (\<lambda>d.
          if df_id d = 0 then returnR (None, sc)
          else
            (case (if il_open (lr_indent lx) \<noteq> 0 then get_indent_token (il_tabsize (lr_indent lx)) sc else (IndentNone, sc)) of (token, sc1) \<Rightarrow>
             case token of
               IndentNewLine \<Rightarrow> bindR (indent_lexem lx (il_newline (lr_indent lx)) line) (\<lambda>l. returnR (Some (l, ([], [])), sc1))
             | IndentOpen \<Rightarrow> bindR (indent_lexem lx (il_open (lr_indent lx)) line) (\<lambda>l. returnR (Some (l, ([], [])), sc1))
             | IndentClose \<Rightarrow> bindR (indent_lexem lx (il_close (lr_indent lx)) line) (\<lambda>l. returnR (Some (l, ([], [])), sc1))
             | IndentNone \<Rightarrow>
                 bindR (scanner_next (int (bm_len bm)) sc1) (\<lambda>sc2.
                   returnR (Some (\<lparr>lm_name = df_name d, lm_value = fst (bm_view bm), lm_id = df_id d, lm_line = line\<rparr>, bm_view bm), sc2)))))"

text \<open>One iteration of the loop: a lexem with the view of its value, or nothing yet.\<close>

definition lexer_iteration :: "regex_engine \<Rightarrow> lexer \<Rightarrow> scanner \<Rightarrow> ((lexem \<times> view) option \<times> scanner) run" where
  "lexer_iteration re lx sc0 =
     bindR (scanner_next 0 sc0) (\<lambda>sc.
     bindR (deref (c_str (sn_rest sc))) (\<lambda>c.
       if c = nul then
         (case (if il_open (lr_indent lx) \<noteq> 0 then get_eof_indent_token sc else (IndentNone, sc)) of (token, sc1) \<Rightarrow>
          if token = IndentClose then
            bindR (indent_lexem lx (il_close (lr_indent lx)) (sn_line sc1)) (\<lambda>l. returnR (Some (l, ([], [])), sc1))
          else returnR (Some (eof_lexem (sn_line sc1), ([], [])), sc1))
       else
         bindR (lexer_range re lx (multimap_equal_range (lr_firstmap lx) (byte c)) \<lparr>bm_len = 0, bm_idx = -1, bm_view = ([], [])\<rparr> sc) (\<lambda>(out, sc1).
           case out of
             RangeLexem l view \<Rightarrow> returnR (Some (l, view), sc1)
           | RangeSkipped \<Rightarrow> returnR (None, sc1)
           | RangeEnd bm \<Rightarrow> lexer_take lx bm sc1)))"

partial_function (option) lexer_next_view :: "regex_engine \<Rightarrow> lexer \<Rightarrow> scanner \<Rightarrow> (lexem \<times> view \<times> scanner) run" where
  "lexer_next_view re lx sc =
     bindR (lexer_iteration re lx sc) (\<lambda>(res, sc').
       case res of Some (l, view) \<Rightarrow> returnR (l, view, sc') | None \<Rightarrow> lexer_next_view re lx sc')"

declare lexer_next_view.simps [code]

definition lexer_next :: "regex_engine \<Rightarrow> lexer \<Rightarrow> scanner \<Rightarrow> (lexem \<times> scanner) run" where
  "lexer_next re lx sc = bindR (lexer_next_view re lx sc) (\<lambda>(l, _, sc'). returnR (l, sc'))"

subsection \<open>The definitions of a lexer\<close>

datatype definition_type = BadLexem | NamedPatternLexem | KeywordLexem | IgnoreLexem | EolnComment | BracketComment | IndentLexems

fun definition_type_name :: "definition_type \<Rightarrow> string" where
  "definition_type_name BadLexem = ''bad''"
| "definition_type_name NamedPatternLexem = ''token''"
| "definition_type_name KeywordLexem = ''keyword''"
| "definition_type_name IgnoreLexem = ''ignore''"
| "definition_type_name EolnComment = ''comment''"
| "definition_type_name BracketComment = ''comment''"
| "definition_type_name IndentLexems = ''indentl''"

record lexer_definition =
  de_line :: int
  de_type :: definition_type
  de_arg :: "string list"
  de_select :: int
  de_id :: int
  de_activation :: string

definition de_first :: "lexer_definition \<Rightarrow> string" where
  "de_first d = (if de_arg d = [] then [] else de_arg d ! 0)"

definition de_second :: "lexer_definition \<Rightarrow> string" where
  "de_second d = (if length (de_arg d) \<le> 1 then [] else de_arg d ! 1)"

definition definition_of_def :: "lexem_def \<Rightarrow> lexer_definition run" where
  "definition_of_def d =
     bindR (activation (df_source d)) (\<lambda>achrs.
       returnR
         (if df_name d = [] then \<lparr>de_line = df_line d, de_type = IgnoreLexem, de_arg = [df_source d], de_select = 0, de_id = df_id d, de_activation = achrs\<rparr>
          else if df_keyword d then \<lparr>de_line = df_line d, de_type = KeywordLexem, de_arg = [df_name d], de_select = 0, de_id = df_id d, de_activation = achrs\<rparr>
          else \<lparr>de_line = df_line d, de_type = NamedPatternLexem, de_arg = [df_name d, df_source d], de_select = int (df_select d), de_id = df_id d, de_activation = achrs\<rparr>))"

definition get_definitions :: "lexer \<Rightarrow> lexer_definition list run" where
  "get_definitions lx =
     bindR (runR (\<lambda>d rt. bindR (definition_of_def d) (\<lambda>x. returnR (rt @ [x]))) (lr_defar lx)
       (if lr_errorvalue lx \<noteq> ''?'' then
          [\<lparr>de_line = lr_errorline lx, de_type = BadLexem, de_arg = [lr_errorvalue lx], de_select = 0, de_id = 0, de_activation = []\<rparr>]
        else [])) (\<lambda>rt.
       returnR (rt
         @ map (\<lambda>(line, start, closing). \<lparr>de_line = line, de_type = BracketComment, de_arg = [start, closing], de_select = 0,
             de_id = match_bracket_comment, de_activation = [hd (c_str start)]\<rparr>) (lr_bracketcomments lx)
         @ map (\<lambda>(line, start). \<lparr>de_line = line, de_type = EolnComment, de_arg = [start], de_select = 0,
             de_id = match_eoln_comment, de_activation = [hd (c_str start)]\<rparr>) (lr_eolncomments lx)
         @ (if il_open (lr_indent lx) \<noteq> 0 then
              [\<lparr>de_line = il_line (lr_indent lx), de_type = IndentLexems, de_arg = [], de_select = il_tabsize (lr_indent lx),
                de_id = il_open (lr_indent lx), de_activation = []\<rparr>]
            else [])))"

text \<open>
  One case of the constructor. The case of a pattern to ignore has no \<open>break\<close> and goes on with the case of a
  comment to the end of the line.
\<close>

definition lexer_add_definition :: "regex_engine \<Rightarrow> lexer_definition \<Rightarrow> lexer \<Rightarrow> lexer run" where
  "lexer_add_definition re d lx =
     (case de_type d of
        BadLexem \<Rightarrow> bindR (liftR (vec_at (de_arg d) 0)) (\<lambda>name. returnR (define_bad_lexem (de_line d) name lx))
      | NamedPatternLexem \<Rightarrow> bindR (liftR (vec_at (de_arg d) 0)) (\<lambda>name.
          bindR (define_lexem re (de_line d) name (de_second d) (nat (de_select d)) lx) (\<lambda>(_, lx'). returnR lx'))
      | KeywordLexem \<Rightarrow> bindR (liftR (vec_at (de_arg d) 0)) (\<lambda>name.
          bindR (define_keyword re (name, []) lx) (\<lambda>(_, lx'). returnR lx'))
      | IgnoreLexem \<Rightarrow> bindR (define_ignore re (de_line d) (de_second d) lx) (define_eoln_comment (de_line d) (de_first d))
      | EolnComment \<Rightarrow> define_eoln_comment (de_line d) (de_first d) lx
      | BracketComment \<Rightarrow> define_bracket_comment (de_line d) (de_first d) (de_second d) lx
      | IndentLexems \<Rightarrow> returnR (lx\<lparr>lr_indent := \<lparr>il_line = de_line d, il_open = de_id d, il_close = de_id d + 1, il_newline = de_id d + 2,
          il_tabsize = de_select d\<rparr>\<rparr>))"

text \<open>
  The constructor does not initialize the members of the indentation lexems and leaves the name of the error
  lexem empty; the model takes zeros for the numbers.
\<close>

definition lexer_of_definitions :: "regex_engine \<Rightarrow> lexer_definition list \<Rightarrow> lexer run" where
  "lexer_of_definitions re defs = runR (lexer_add_definition re) defs (lexer_new\<lparr>lr_errorvalue := []\<rparr>)"

end
