(* ===== verification/GrammarParser.thy ===== *)
theory GrammarParser
  imports Lexer
begin

text \<open>
  The parser of grammars, from \<open>src/automaton_parser.cpp\<close>: the lexer for grammars, the state machine over its
  lexems that collects productions, calls and the lexer of the language, and the checks of the grammar.

  A string view is its string; for the text of a keyword, where the code reads behind the view, the rest of
  the source goes with it. An overflow of a signed number and \<open>back()\<close> of an empty list give \<open>None\<close>.
\<close>

subsection \<open>The lexer for grammars\<close>

datatype grammar_token =
    G_Error | G_None | G_Ident | G_Number | G_Priority | G_DQString | G_SQString | G_Percent | G_Slash | G_Equal | G_Arrow | G_DDot
  | G_Semicolon | G_Epsilon | G_Call | G_OpenCurly | G_CloseCurly | G_Comma | G_OpenBrk | G_CloseBrk | G_Or | G_Step | G_Scope | G_Other

text \<open>The constants of \<open>GrammarLexer::LexemType\<close>; the \<open>switch\<close> has no case for another number.\<close>

definition grammar_token_of :: "int \<Rightarrow> grammar_token" where
  "grammar_token_of i =
     (let tokens = [G_Error, G_None, G_Ident, G_Number, G_Priority, G_DQString, G_SQString, G_Percent, G_Slash, G_Equal, G_Arrow, G_DDot,
        G_Semicolon, G_Epsilon, G_Call, G_OpenCurly, G_CloseCurly, G_Comma, G_OpenBrk, G_CloseBrk, G_Or, G_Step, G_Scope] in
      if -1 \<le> i \<and> nat (i + 1) < length tokens then tokens ! nat (i + 1) else G_Other)"

definition dq :: char where "dq = CHR 0x22"
definition sq :: char where "sq = CHR 0x27"
definition bs :: char where "bs = CHR 0x5C"

definition string_pattern :: "char \<Rightarrow> string" where
  "string_pattern q = ''['' @ [q] @ '']((([^'' @ [bs, bs, q, bs] @ ''n])|(['' @ [bs, bs] @ ''][^'' @ [q, bs] @ ''n]))*)['' @ [q] @ '']''"

definition grammar_patterns :: "(string \<times> string \<times> nat) list" where
  "grammar_patterns =
     [(''IDENT'', ''[a-zA-Z_][a-zA-Z_0-9]*'', 0), (''NUMBER'', ''[0-9]+'', 0), (''PRIORITY'', ''[0-9]+[LR]'', 0),
      (''DQSTRING'', string_pattern dq, 1), (''SQSTRING'', string_pattern sq, 1)]"

definition define_patterns :: "regex_engine \<Rightarrow> (string \<times> string \<times> nat) list \<Rightarrow> lexer \<Rightarrow> lexer run" where
  "define_patterns re = runR (\<lambda>(name, pattern, select) lx. bindR (define_lexem re 0 name pattern select lx) (\<lambda>(_, lx'). returnR lx'))"

definition define_operators :: "regex_engine \<Rightarrow> string list \<Rightarrow> lexer \<Rightarrow> lexer run" where
  "define_operators re = runR (\<lambda>opr lx. bindR (define_keyword re (opr, []) lx) (\<lambda>(_, lx'). returnR lx'))"

definition grammar_lexer :: "regex_engine \<Rightarrow> lexer run" where
  "grammar_lexer re =
     bindR (define_eoln_comment 0 ''//'' lexer_new) (\<lambda>lx.
     bindR (define_eoln_comment 0 ''#'' lx) (\<lambda>lx.
     bindR (define_bracket_comment 0 ''/*'' ''*/'' lx) (\<lambda>lx.
     bindR (define_patterns re grammar_patterns lx) (\<lambda>lx.
     bindR (define_operators re [''%'', ''/'', ''='', [CHR 0xE2, CHR 0x86, CHR 0x92], '':'', '';'', [CHR 0xCE, CHR 0xB5]] lx) (\<lambda>lx.
     bindR (define_patterns re [(''CALL'', ''[-]{0,1}[a-zA-Z_][.a-zA-Z_0-9]*'', 0)] lx) (\<lambda>lx.
       define_operators re [''{'', ''}'', '','', ''('', '')'', ''|'', ''>>'', ''{}''] lx))))))"

subsection \<open>Numbers and names\<close>

fun string_to_int_loop :: "string \<Rightarrow> string \<Rightarrow> int \<Rightarrow> int run" where
  "string_to_int_loop str [] rt = returnR rt"
| "string_to_int_loop str (ch # cs) rt =
     (if schar (CHR ''0'') \<le> schar ch \<and> schar ch \<le> schar (CHR ''9'') then
        (let rt' = rt * 10 + (schar ch - schar (CHR ''0'')) in
         if rt' > int_max then None
         else if rt' < 0 then throwR (Error ValueOutOfRangeInGrammarDef str)
         else string_to_int_loop str cs rt')
      else throwR (Error UnexpectedTokenInGrammarDef str))"

definition convert_string_to_int :: "string \<Rightarrow> int run" where
  "convert_string_to_int str =
     (if str = [] then throwR (Error UnexpectedTokenInGrammarDef str) else string_to_int_loop str str 0)"

definition assoc_of_char :: "char \<Rightarrow> assoziativity" where
  "assoc_of_char c = (if c = CHR ''L'' then LeftAssoc else RightAssoc)"

definition convert_string_to_priority :: "string \<Rightarrow> priority run" where
  "convert_string_to_priority str =
     (if str = [] then throwR (Error UnexpectedTokenInGrammarDef str)
      else
        bindR
          (if hd str = CHR ''L'' \<or> hd str = CHR ''R'' then
             (if length str = 1 then returnR (Priority 0 (assoc_of_char (hd str)))
              else bindR (convert_string_to_int (tl str)) (\<lambda>v. returnR (Priority (to_short v) (assoc_of_char (hd str)))))
           else if last str = CHR ''L'' \<or> last str = CHR ''R'' then
             bindR (convert_string_to_int (butlast str)) (\<lambda>v. returnR (Priority (to_short v) (assoc_of_char (last str))))
           else bindR (convert_string_to_int str) (\<lambda>v. returnR (Priority (to_short v) Undefined)))
          (\<lambda>rt. if pr_value rt \<ge> max_priority then throwR (Error ComplexityMaxProductionPriorityInGrammarDef str) else returnR rt))"

definition ascii_lower :: "char \<Rightarrow> char" where
  "ascii_lower c = (if 65 \<le> byte c \<and> byte c \<le> 90 then char_of (byte c + 32) else c)"

definition case_insensitive_equal :: "string \<Rightarrow> string \<Rightarrow> bool" where
  "case_insensitive_equal a b \<longleftrightarrow> map ascii_lower a = map ascii_lower b"

subsection \<open>The state of the parser\<close>

datatype gp_state = Init | ParseProductionAttributes | ParsePriority | ParseAssign | ParseProductionElement | ParseCall | ParseCallName
  | ParseCallArg | ParseCallArgMemberName | ParseCallArgMemberEquals | ParseCallArgMemberValue | ParseCallArgMemberDelim | ParseCallClose
  | ParseEndOfProduction | ParsePattern | ParsePatternSelect | ParseEndOfLexemDef | ParseLexerCommand | ParseLexerCommandArg

fun gp_state_name :: "gp_state \<Rightarrow> string" where
  "gp_state_name Init = ''Init''"
| "gp_state_name ParseProductionAttributes = ''ParseProductionAttributes''"
| "gp_state_name ParsePriority = ''ParsePriority''"
| "gp_state_name ParseAssign = ''ParseAssign''"
| "gp_state_name ParseProductionElement = ''ParseProductionElement''"
| "gp_state_name ParseCall = ''ParseCall''"
| "gp_state_name ParseCallName = ''ParseCallName''"
| "gp_state_name ParseCallArg = ''ParseCallArg''"
| "gp_state_name ParseCallArgMemberName = ''ParseCallArgMemberName''"
| "gp_state_name ParseCallArgMemberEquals = ''ParseCallArgMemberEquals''"
| "gp_state_name ParseCallArgMemberValue = ''ParseCallArgMemberValue''"
| "gp_state_name ParseCallArgMemberDelim = ''ParseCallArgMemberDelim''"
| "gp_state_name ParseCallClose = ''ParseCallClose''"
| "gp_state_name ParseEndOfProduction = ''ParseEndOfProduction''"
| "gp_state_name ParsePattern = ''ParsePattern''"
| "gp_state_name ParsePatternSelect = ''ParsePatternSelect''"
| "gp_state_name ParseEndOfLexemDef = ''ParseEndOfLexemDef''"
| "gp_state_name ParseLexerCommand = ''ParseLexerCommand''"
| "gp_state_name ParseLexerCommandArg = ''ParseLexerCommandArg''"

record grammar_parser =
  gp_state :: gp_state
  gp_language :: string
  gp_typesystem :: string
  gp_cmdline :: string
  gp_lexer :: lexer
  gp_prodlist :: prods
  gp_calls :: "automaton_call list"
  gp_nonterminals :: "string list"
  gp_rulename :: string
  gp_pattern :: string
  gp_cmdname :: string
  gp_cmdargs :: "string list"
  gp_prodmap :: "(string \<times> nat) list"
  gp_ntids :: "(string \<times> int) list"
  gp_callmap :: "(automaton_call \<times> int) list"
  gp_priority :: priority
  gp_argtype :: call_argtype
  gp_function :: string
  gp_arg :: string
  gp_select :: int

definition grammar_parser_new :: grammar_parser where
  "grammar_parser_new = \<lparr>gp_state = Init, gp_language = [], gp_typesystem = [], gp_cmdline = [], gp_lexer = lexer_new, gp_prodlist = [],
     gp_calls = [], gp_nonterminals = [], gp_rulename = [], gp_pattern = [], gp_cmdname = [], gp_cmdargs = [], gp_prodmap = [], gp_ntids = [],
     gp_callmap = [], gp_priority = no_priority, gp_argtype = NoArg, gp_function = [], gp_arg = [], gp_select = 0\<rparr>"

definition unexpected :: "lexem \<Rightarrow> grammar_parser run" where
  "unexpected l = throwR (Error UnexpectedTokenInGrammarDef (lm_value l))"

text \<open>\<open>back()\<close> of the list of productions, and a change of it.\<close>

definition last_prod :: "grammar_parser \<Rightarrow> production_def run" where
  "last_prod st = (if gp_prodlist st = [] then None else returnR (last (gp_prodlist st)))"

definition change_last :: "(production_def \<Rightarrow> production_def) \<Rightarrow> grammar_parser \<Rightarrow> grammar_parser run" where
  "change_last f st = bindR (last_prod st) (\<lambda>p. returnR (st\<lparr>gp_prodlist := butlast (gp_prodlist st) @ [f p]\<rparr>))"

definition push_element :: "string \<Rightarrow> bool \<Rightarrow> grammar_parser \<Rightarrow> grammar_parser run" where
  "push_element name symbol = change_last (\<lambda>p. p\<lparr>pd_right := pd_right p @ [mk_node_def name symbol]\<rparr>)"

text \<open>\<open>std::multimap\<close> with the order of \<open>std::string_view\<close>.\<close>

fun prodmap_insert :: "(string \<times> nat) list \<Rightarrow> string \<Rightarrow> nat \<Rightarrow> (string \<times> nat) list" where
  "prodmap_insert [] k v = [(k, v)]"
| "prodmap_insert ((k', v') # m) k v = (if string_less k k' then (k, v) # (k', v') # m else (k', v') # prodmap_insert m k v)"

text \<open>A new production with the name and priority of the rule.\<close>

definition push_production :: "lexem \<Rightarrow> grammar_parser \<Rightarrow> grammar_parser" where
  "push_production l st =
     st\<lparr>gp_prodmap := prodmap_insert (gp_prodmap st) (gp_rulename st) (length (gp_prodlist st)),
        gp_prodlist := gp_prodlist st @ [mk_production_def (lm_line l) (gp_rulename st) [] (gp_priority st) 0 NoScope]\<rparr>"

subsection \<open>The cases of the parser\<close>

definition parse_ident :: "lexem \<Rightarrow> grammar_parser \<Rightarrow> grammar_parser run" where
  "parse_ident l st =
     (case gp_state st of
        Init \<Rightarrow> returnR (st\<lparr>gp_rulename := lm_value l, gp_pattern := [], gp_select := 0, gp_priority := no_priority, gp_argtype := NoArg,
          gp_function := [], gp_arg := [], gp_state := ParseProductionAttributes\<rparr>)
      | ParseProductionElement \<Rightarrow> push_element (lm_value l) True st
      | ParseCallName \<Rightarrow> returnR (st\<lparr>gp_function := lm_value l, gp_state := ParseCallArg\<rparr>)
      | ParseCallArg \<Rightarrow> returnR (st\<lparr>gp_arg := lm_value l, gp_argtype := ReferenceArg, gp_state := ParseCallClose\<rparr>)
      | ParseCallArgMemberValue \<Rightarrow> returnR (st\<lparr>gp_arg := gp_arg st @ lm_value l, gp_state := ParseCallArgMemberDelim\<rparr>)
      | ParseCallArgMemberName \<Rightarrow> returnR (st\<lparr>gp_arg := gp_arg st @ lm_value l, gp_state := ParseCallArgMemberEquals\<rparr>)
      | ParseLexerCommand \<Rightarrow> returnR (st\<lparr>gp_cmdname := lm_value l, gp_state := ParseLexerCommandArg\<rparr>)
      | ParseLexerCommandArg \<Rightarrow> returnR (st\<lparr>gp_cmdargs := gp_cmdargs st @ [lm_value l]\<rparr>)
      | ParsePriority \<Rightarrow> bindR (convert_string_to_priority (lm_value l)) (\<lambda>p. returnR (st\<lparr>gp_priority := p, gp_state := ParseAssign\<rparr>))
      | _ \<Rightarrow> unexpected l)"

definition parse_call :: "lexem \<Rightarrow> grammar_parser \<Rightarrow> grammar_parser run" where
  "parse_call l st =
     (case gp_state st of
        ParseCallName \<Rightarrow> returnR (st\<lparr>gp_function := lm_value l, gp_state := ParseCallArg\<rparr>)
      | ParseCallArg \<Rightarrow> returnR (st\<lparr>gp_arg := lm_value l, gp_argtype := ReferenceArg, gp_state := ParseCallClose\<rparr>)
      | _ \<Rightarrow> unexpected l)"

definition parse_open_brk :: "lexem \<Rightarrow> grammar_parser \<Rightarrow> grammar_parser run" where
  "parse_open_brk l st =
     (if gp_state st = ParseProductionElement \<or> gp_state st = ParseCall then returnR (st\<lparr>gp_state := ParseCallName\<rparr>) else unexpected l)"

definition parse_close_brk :: "lexem \<Rightarrow> grammar_parser \<Rightarrow> grammar_parser run" where
  "parse_close_brk l st =
     (if gp_state st = ParseCallArg \<or> gp_state st = ParseCallClose then
        (let call = \<lparr>cl_function = gp_function st, cl_arg = gp_arg st, cl_argtype = gp_argtype st\<rparr> in
         bindR
           (case map_of (gp_callmap st) call of
              Some idx \<Rightarrow> change_last (\<lambda>p. p\<lparr>pd_callidx := idx\<rparr>) st
            | None \<Rightarrow>
                (let idx = int (length (gp_callmap st)) + 1 in
                 change_last (\<lambda>p. p\<lparr>pd_callidx := idx\<rparr>) (st\<lparr>gp_callmap := gp_callmap st @ [(call, idx)], gp_calls := gp_calls st @ [call]\<rparr>)))
           (\<lambda>st'. returnR (st'\<lparr>gp_state := ParseEndOfProduction\<rparr>)))
      else if gp_state st = ParseCallName then returnR (st\<lparr>gp_state := ParseEndOfProduction\<rparr>)
      else unexpected l)"

definition parse_step_scope :: "scope_flag \<Rightarrow> lexem \<Rightarrow> grammar_parser \<Rightarrow> grammar_parser run" where
  "parse_step_scope flag l st =
     (if gp_state st = ParseCallName then
        bindR (last_prod st) (\<lambda>p.
          if pd_scope p \<noteq> NoScope then throwR (Error DuplicateScopeInGrammarDef [])
          else change_last (\<lambda>p. p\<lparr>pd_scope := flag\<rparr>) st)
      else unexpected l)"

definition parse_priority :: "lexem \<Rightarrow> grammar_parser \<Rightarrow> grammar_parser run" where
  "parse_priority l st =
     (if gp_state st = ParsePriority then
        bindR (convert_string_to_priority (lm_value l)) (\<lambda>p. returnR (st\<lparr>gp_priority := p, gp_state := ParseAssign\<rparr>))
      else unexpected l)"

definition parse_number :: "lexem \<Rightarrow> grammar_parser \<Rightarrow> grammar_parser run" where
  "parse_number l st =
     (case gp_state st of
        ParsePriority \<Rightarrow> bindR (convert_string_to_priority (lm_value l)) (\<lambda>p. returnR (st\<lparr>gp_priority := p, gp_state := ParseAssign\<rparr>))
      | ParsePatternSelect \<Rightarrow> bindR (convert_string_to_int (lm_value l)) (\<lambda>n. returnR (st\<lparr>gp_select := n, gp_state := ParseEndOfLexemDef\<rparr>))
      | ParseCallArg \<Rightarrow> returnR (st\<lparr>gp_arg := lm_value l, gp_argtype := ReferenceArg, gp_state := ParseCallClose\<rparr>)
      | ParseCallArgMemberValue \<Rightarrow> returnR (st\<lparr>gp_arg := gp_arg st @ lm_value l, gp_state := ParseCallArgMemberDelim\<rparr>)
      | ParseLexerCommandArg \<Rightarrow> returnR (st\<lparr>gp_cmdargs := gp_cmdargs st @ [lm_value l]\<rparr>)
      | _ \<Rightarrow> unexpected l)"

definition parse_open_curly :: "lexem \<Rightarrow> grammar_parser \<Rightarrow> grammar_parser run" where
  "parse_open_curly l st =
     (case gp_state st of
        ParseCallArg \<Rightarrow> returnR (st\<lparr>gp_argtype := ReferenceArg, gp_arg := ''{'', gp_state := ParseCallArgMemberName\<rparr>)
      | ParseCallArgMemberValue \<Rightarrow> throwR (Error NestedCallArgumentStructureInGrammarDef [])
      | _ \<Rightarrow> unexpected l)"

definition parse_close_curly :: "lexem \<Rightarrow> grammar_parser \<Rightarrow> grammar_parser run" where
  "parse_close_curly l st =
     (if gp_state st = ParseCallArgMemberDelim then returnR (st\<lparr>gp_arg := gp_arg st @ ''}'', gp_state := ParseCallClose\<rparr>) else unexpected l)"

definition parse_comma :: "lexem \<Rightarrow> grammar_parser \<Rightarrow> grammar_parser run" where
  "parse_comma l st =
     (if gp_state st = ParseCallArgMemberDelim then returnR (st\<lparr>gp_arg := gp_arg st @ '','', gp_state := ParseCallArgMemberName\<rparr>) else unexpected l)"

text \<open>A string; the view of its value shows what is behind it in the source.\<close>

definition parse_string :: "regex_engine \<Rightarrow> char \<Rightarrow> lexem \<Rightarrow> view \<Rightarrow> grammar_parser \<Rightarrow> grammar_parser run" where
  "parse_string re quote l view st =
     (case gp_state st of
        ParsePattern \<Rightarrow> returnR (st\<lparr>gp_pattern := lm_value l, gp_state := ParsePatternSelect\<rparr>)
      | ParseLexerCommandArg \<Rightarrow> returnR (st\<lparr>gp_cmdargs := gp_cmdargs st @ [lm_value l]\<rparr>)
      | ParseProductionElement \<Rightarrow>
          bindR
            (if lexem_id (lm_value l) (gp_lexer st) = 0 then bindR (define_keyword re view (gp_lexer st)) (\<lambda>(_, lx). returnR (st\<lparr>gp_lexer := lx\<rparr>))
             else returnR st)
            (push_element (lm_value l) False)
      | ParseCallArg \<Rightarrow> returnR (st\<lparr>gp_arg := lm_value l, gp_argtype := StringArg, gp_state := ParseCallClose\<rparr>)
      | ParseCallArgMemberValue \<Rightarrow> returnR (st\<lparr>gp_arg := gp_arg st @ [quote] @ lm_value l @ [quote], gp_state := ParseCallArgMemberDelim\<rparr>)
      | _ \<Rightarrow> unexpected l)"

definition parse_epsilon :: "lexem \<Rightarrow> grammar_parser \<Rightarrow> grammar_parser run" where
  "parse_epsilon l st =
     (if gp_state st = ParseProductionElement then
        bindR (last_prod st) (\<lambda>p. if pd_right p = [] then returnR (st\<lparr>gp_state := ParseCall\<rparr>) else unexpected l)
      else unexpected l)"

definition parse_percent :: "lexem \<Rightarrow> grammar_parser \<Rightarrow> grammar_parser run" where
  "parse_percent l st =
     (if gp_state st = Init then returnR (st\<lparr>gp_cmdname := [], gp_cmdargs := [], gp_state := ParseLexerCommand\<rparr>) else unexpected l)"

definition parse_slash :: "lexem \<Rightarrow> grammar_parser \<Rightarrow> grammar_parser run" where
  "parse_slash l st = (if gp_state st = ParseProductionAttributes then returnR (st\<lparr>gp_state := ParsePriority\<rparr>) else unexpected l)"

definition parse_assign :: "bool \<Rightarrow> lexem \<Rightarrow> grammar_parser \<Rightarrow> grammar_parser run" where
  "parse_assign is_equal l st =
     (if gp_state st = ParseCallArgMemberEquals \<and> is_equal then returnR (st\<lparr>gp_arg := gp_arg st @ lm_value l, gp_state := ParseCallArgMemberValue\<rparr>)
      else if gp_state st = ParseProductionAttributes \<or> gp_state st = ParseAssign then
        (let st' = push_production l st in
         returnR
           ((case map_of (gp_ntids st') (gp_rulename st') of
               None \<Rightarrow> st'\<lparr>gp_ntids := gp_ntids st' @ [(gp_rulename st', int (length (gp_ntids st')) + 1)],
                 gp_nonterminals := gp_nonterminals st' @ [gp_rulename st']\<rparr>
             | Some _ \<Rightarrow> st')\<lparr>gp_state := ParseProductionElement\<rparr>))
      else unexpected l)"

definition parse_ddot :: "lexem \<Rightarrow> grammar_parser \<Rightarrow> grammar_parser run" where
  "parse_ddot l st =
     (case gp_state st of
        ParseAssign \<Rightarrow> throwR (Error PriorityDefNotForLexemsInGrammarDef [])
      | ParseProductionAttributes \<Rightarrow> returnR (st\<lparr>gp_state := ParsePattern\<rparr>)
      | _ \<Rightarrow> unexpected l)"

text \<open>The commands.\<close>

definition run_command :: "regex_engine \<Rightarrow> lexem \<Rightarrow> grammar_parser \<Rightarrow> grammar_parser run" where
  "run_command re l st =
     (let name = gp_cmdname st; args = gp_cmdargs st;
          wrong = throwR (Error CommandNumberOfArgumentsInGrammarDef name);
          one = (\<lambda>f. if length args \<noteq> 1 then wrong else f (args ! 0));
          set_lexer = (\<lambda>r. bindR r (\<lambda>lx. returnR (st\<lparr>gp_lexer := lx\<rparr>))) in
      if case_insensitive_equal name ''LANGUAGE'' then one (\<lambda>a. returnR (st\<lparr>gp_language := a\<rparr>))
      else if case_insensitive_equal name ''TYPESYSTEM'' then one (\<lambda>a. returnR (st\<lparr>gp_typesystem := a\<rparr>))
      else if case_insensitive_equal name ''CMDLINE'' then one (\<lambda>a. returnR (st\<lparr>gp_cmdline := a\<rparr>))
      else if case_insensitive_equal name ''IGNORE'' then one (\<lambda>a. set_lexer (define_ignore re (lm_line l) a (gp_lexer st)))
      else if case_insensitive_equal name ''BAD'' then one (\<lambda>a. set_lexer (returnR (define_bad_lexem (lm_line l) a (gp_lexer st))))
      else if case_insensitive_equal name ''COMMENT'' then
        (if length args = 1 then set_lexer (define_eoln_comment (lm_line l) (args ! 0) (gp_lexer st))
         else if length args = 2 then set_lexer (define_bracket_comment (lm_line l) (args ! 0) (args ! 1) (gp_lexer st))
         else wrong)
      else if case_insensitive_equal name ''INDENTL'' then
        (if length args \<noteq> 4 then wrong
         else bindR (convert_string_to_int (args ! 3)) (\<lambda>indent.
           set_lexer (define_indent_lexems (lm_line l) (args ! 0) (args ! 1) (args ! 2) indent (gp_lexer st))))
      else throwR (Error CommandNameUnknownInGrammarDef name))"

definition parse_semicolon :: "regex_engine \<Rightarrow> lexem \<Rightarrow> grammar_parser \<Rightarrow> grammar_parser run" where
  "parse_semicolon re l st =
     bindR
       (case gp_state st of
          ParseLexerCommandArg \<Rightarrow> run_command re l st
        | ParsePatternSelect \<Rightarrow> bindR (define_lexem re (lm_line l) (gp_rulename st) (gp_pattern st) 0 (gp_lexer st)) (\<lambda>(_, lx). returnR (st\<lparr>gp_lexer := lx\<rparr>))
        | ParseEndOfLexemDef \<Rightarrow>
            bindR (define_lexem re (lm_line l) (gp_rulename st) (gp_pattern st) (nat (gp_select st)) (gp_lexer st)) (\<lambda>(_, lx). returnR (st\<lparr>gp_lexer := lx\<rparr>))
        | ParseProductionElement \<Rightarrow> returnR st
        | ParseEndOfProduction \<Rightarrow> returnR st
        | ParseCall \<Rightarrow> returnR st
        | state \<Rightarrow> throwR (Error UnexpectedEndOfRuleInGrammarDef (gp_state_name state)))
       (\<lambda>st'. returnR (st'\<lparr>gp_state := Init\<rparr>))"

definition parse_or :: "lexem \<Rightarrow> grammar_parser \<Rightarrow> grammar_parser run" where
  "parse_or l st =
     (if gp_state st = ParseProductionElement \<or> gp_state st = ParseEndOfProduction \<or> gp_state st = ParseCall then
        returnR ((push_production l st)\<lparr>gp_argtype := NoArg, gp_function := [], gp_arg := [], gp_state := ParseProductionElement\<rparr>)
      else unexpected l)"

definition parse_lexem :: "regex_engine \<Rightarrow> lexem \<Rightarrow> view \<Rightarrow> grammar_parser \<Rightarrow> grammar_parser run" where
  "parse_lexem re l view st =
     (case grammar_token_of (lm_id l) of
        G_Error \<Rightarrow> throwR (Error BadCharacterInGrammarDef (lm_value l))
      | G_None \<Rightarrow> throwR (Error LogicError (gp_state_name (gp_state st)))
      | G_Ident \<Rightarrow> parse_ident l st
      | G_Call \<Rightarrow> parse_call l st
      | G_OpenBrk \<Rightarrow> parse_open_brk l st
      | G_CloseBrk \<Rightarrow> parse_close_brk l st
      | G_Step \<Rightarrow> parse_step_scope Step l st
      | G_Scope \<Rightarrow> parse_step_scope ScopeFlag l st
      | G_Priority \<Rightarrow> parse_priority l st
      | G_Number \<Rightarrow> parse_number l st
      | G_OpenCurly \<Rightarrow> parse_open_curly l st
      | G_CloseCurly \<Rightarrow> parse_close_curly l st
      | G_Comma \<Rightarrow> parse_comma l st
      | G_DQString \<Rightarrow> parse_string re dq l view st
      | G_SQString \<Rightarrow> parse_string re sq l view st
      | G_Epsilon \<Rightarrow> parse_epsilon l st
      | G_Percent \<Rightarrow> parse_percent l st
      | G_Slash \<Rightarrow> parse_slash l st
      | G_Equal \<Rightarrow> parse_assign True l st
      | G_Arrow \<Rightarrow> parse_assign False l st
      | G_DDot \<Rightarrow> parse_ddot l st
      | G_Semicolon \<Rightarrow> parse_semicolon re l st
      | G_Or \<Rightarrow> parse_or l st
      | G_Other \<Rightarrow> returnR st)"

text \<open>The rethrow of an error, with the line of the lexem if the error has none.\<close>

definition relocate :: "int \<Rightarrow> 'a run \<Rightarrow> 'a run" where
  "relocate line m =
     (case m of
        Some (Inl (ErrorAt code arg eline)) \<Rightarrow> throwR (ErrorAt code arg (if eline \<noteq> 0 then eline else line))
      | _ \<Rightarrow> m)"

lemma relocate_eq_returnR [simp]: "relocate line m = returnR x \<longleftrightarrow> m = returnR x"
  by (auto simp: relocate_def returnR_def throwR_def split: option.splits sum.splits error.splits)

partial_function (option) parse_loop :: "regex_engine \<Rightarrow> lexer \<Rightarrow> scanner \<Rightarrow> int \<Rightarrow> grammar_parser \<Rightarrow> (grammar_parser \<times> int) run" where
  "parse_loop re glx sc line st =
     bindR (relocate line (lexer_next_view re glx sc)) (\<lambda>(l, view, sc').
       if lexem_empty l then returnR (st, lm_line l)
       else bindR (relocate (lm_line l) (parse_lexem re l view st)) (\<lambda>st'. parse_loop re glx sc' (lm_line l) st'))"

declare parse_loop.simps [code]

subsection \<open>The checks of the grammar\<close>

definition label_element :: "lexer \<Rightarrow> (string \<times> int) list \<Rightarrow> production_node_def \<Rightarrow> production_node_def list \<times> string set \<Rightarrow>
    (production_node_def list \<times> string set) run" where
  "label_element lx ntids nd acc =
     (case acc of (right, used) \<Rightarrow>
      if nd_type nd = Unresolved then
        (let lxid = lexem_id (nd_name nd) lx in
         case map_of ntids (nd_name nd) of
           None \<Rightarrow>
             if lxid = 0 then throwR (Error UnresolvedIdentifierInGrammarDef (nd_name nd))
             else returnR (right @ [define_as_terminal lxid nd], used)
         | Some nt \<Rightarrow>
             if lxid \<noteq> 0 then throwR (Error DefinedAsTerminalAndNonterminalInGrammarDef (nd_name nd))
             else returnR (right @ [define_as_nonterminal nt nd], insert (nd_name nd) used))
      else returnR (right @ [nd], used))"

definition label_prod :: "lexer \<Rightarrow> (string \<times> int) list \<Rightarrow> production_def \<Rightarrow> prods \<times> string set \<Rightarrow> (prods \<times> string set) run" where
  "label_prod lx ntids p acc =
     (case acc of (ps, used) \<Rightarrow>
      if lexem_id (nd_name (pd_left p)) lx \<noteq> 0 then throwR (Error DefinedAsTerminalAndNonterminalInGrammarDef (nd_name (pd_left p)))
      else
        bindR (liftR (map_of ntids (nd_name (pd_left p)))) (\<lambda>nt.
        bindR (runR (label_element lx ntids) (pd_right p) ([], used)) (\<lambda>(right, used').
          returnR (ps @ [p\<lparr>pd_left := define_as_nonterminal nt (pd_left p), pd_right := right\<rparr>], used'))))"

definition label_prods :: "lexer \<Rightarrow> (string \<times> int) list \<Rightarrow> prods \<Rightarrow> (prods \<times> string set) run" where
  "label_prods lx ntids ps = runR (label_prod lx ntids) ps ([], {})"

definition reachable_step :: "(string \<times> int) list \<Rightarrow> string set \<Rightarrow> string \<times> nat \<Rightarrow> string \<Rightarrow> string run" where
  "reachable_step ntids used pr unreachable =
     bindR (liftR (map_of ntids (fst pr))) (\<lambda>nt.
       if fst pr \<notin> used then
         returnR (if nt \<noteq> 1 then (if unreachable = [] then [] else unreachable @ '', '') @ fst pr else unreachable)
       else if nt = 1 then throwR (Error StartSymbolReferencedInGrammarDef (fst pr))
       else returnR unreachable)"

definition check_reachable :: "(string \<times> int) list \<Rightarrow> string set \<Rightarrow> (string \<times> nat) list \<Rightarrow> unit run" where
  "check_reachable ntids used prodmap =
     bindR (runR (reachable_step ntids used) prodmap []) (\<lambda>unreachable.
       if unreachable \<noteq> [] then throwR (Error UnreachableNonTerminalInGrammarDef unreachable) else returnR ())"

definition check_start :: "prods \<Rightarrow> unit run" where
  "check_start ps =
     (let n = length (filter (\<lambda>p. nd_index (pd_left p) = 1) ps) in
      if n = 0 then throwR (Error EmptyGrammarDef [])
      else if n > 1 then throwR (Error StartSymbolDefinedTwiceInGrammarDef (nd_name (pd_left (hd ps))))
      else returnR ())"

definition check_duplicate :: "production_def \<Rightarrow> string set \<Rightarrow> string set run" where
  "check_duplicate p prodset =
     (if prodstring p \<in> prodset then throwR (Error DuplicateProductionInGrammarDef (prodstring p)) else returnR (insert (prodstring p) prodset))"

definition finish_grammar :: "grammar_parser \<Rightarrow> (language_def \<times> lexer) run" where
  "finish_grammar st =
     (if gp_state st \<noteq> Init then throwR (Error UnexpectedEofInGrammarDef [])
      else
        bindR (label_prods (gp_lexer st) (gp_ntids st) (gp_prodlist st)) (\<lambda>(ps, used).
        bindR (check_reachable (gp_ntids st) used (gp_prodmap st)) (\<lambda>_.
        bindR (check_start ps) (\<lambda>_.
          if int (length (gp_ntids st)) \<ge> max_nonterminal then throwR (Error ComplexityMaxNonterminalInGrammarDef [])
          else
            bindR (runR check_duplicate ps {}) (\<lambda>_.
              returnR (\<lparr>ld_language = gp_language st, ld_typesystem = gp_typesystem st, ld_cmdline = gp_cmdline st,
                ld_lexer = lexer_names_of (gp_lexer st), ld_prodlist = ps, ld_calls = gp_calls st, ld_nonterminals = gp_nonterminals st\<rparr>,
                gp_lexer st))))))"

text \<open>
  The language defined by a source, with its lexer. What the automaton uses of the lexer is also part of the
  language definition.
\<close>

definition parse_language_def :: "regex_engine \<Rightarrow> string \<Rightarrow> (language_def \<times> lexer) run" where
  "parse_language_def re source =
     bindR (grammar_lexer re) (\<lambda>glx.
     bindR (parse_loop re glx (scanner_new source) 1 grammar_parser_new) (\<lambda>(st, line).
       relocate line (finish_grammar st)))"

subsection \<open>The stub of a type system\<close>

definition stub_function :: "automaton_call \<Rightarrow> string \<times> string set \<Rightarrow> string \<times> string set" where
  "stub_function call acc =
     (case acc of (rt, fset) \<Rightarrow>
      if cl_function call \<in> fset then (rt, fset)
      else (rt @ ''function typesystem.'' @ cl_function call @ ''( node'' @ (if cl_argtype call \<noteq> NoArg then '', decl'' else []) @ '')'' @ [newline] @ ''end'' @ [newline],
        insert (cl_function call) fset))"

definition print_lua_type_system_stub :: "language_def \<Rightarrow> string" where
  "print_lua_type_system_stub ld =
     fst (fold stub_function (ld_calls ld)
       (''local mewa = require '' @ [dq] @ ''mewa'' @ [dq, newline] @ ''local typedb = mewa.typedb()'' @ [newline] @ ''local typesystem = {}'' @ [newline, newline], {}))
     @ [newline] @ ''return typesystem'' @ [newline, newline]"

end
