(* ===== verification/LexerProps.thy ===== *)
theory LexerProps
  imports Lexer
begin

text \<open>
  What the lexer guarantees: the ids and tables of a lexer agree with each other, fetching a lexem never
  throws and stays inside the source, ends when no pattern is to be ignored, and takes the longest match.
\<close>

subsection \<open>The regular expressions\<close>

text \<open>
  What the lexer relies on of \<open>std::regex_search\<close> with \<open>match_continuous\<close> and \<open>match_not_null\<close>: the match starts at the
  front, is not empty, and all groups lie in the text.
\<close>

definition regex_ok :: "regex_engine \<Rightarrow> bool" where
  "regex_ok re \<longleftrightarrow> (\<forall>pattern text groups. re_search re pattern text = Some groups \<longrightarrow>
     groups \<noteq> [] \<and> fst (groups ! 0) = 0 \<and> 0 < snd (groups ! 0) \<and> (\<forall>(pos, len) \<in> set groups. pos + len \<le> length text))"

definition match_len :: "regex_engine \<Rightarrow> lexem_def \<Rightarrow> string \<Rightarrow> nat" where
  "match_len re d src = snd (def_match re d src)"

lemma match_len_cases: "match_len re d src = 0 \<or> (\<exists>groups. re_search re (df_source d) src = Some groups \<and> match_len re d src = snd (groups ! 0))"
  by (cases "re_search re (df_source d) src") (auto simp: match_len_def def_match_def case_prod_unfold)

lemma match_len_le:
  assumes "regex_ok re"
  shows "match_len re d src \<le> length src"
proof (cases "match_len re d src = 0")
  case False
  then obtain groups where g: "re_search re (df_source d) src = Some groups" "match_len re d src = snd (groups ! 0)"
    using match_len_cases [of re d src] by auto
  then have "groups \<noteq> []" "\<forall>(pos, len) \<in> set groups. pos + len \<le> length src" using assms unfolding regex_ok_def by blast+
  then have "case groups ! 0 of (pos, len) \<Rightarrow> pos + len \<le> length src" by simp
  then show ?thesis unfolding g(2) case_prod_unfold by linarith
qed simp

subsection \<open>Positions of the scanner\<close>

definition scanner_ok :: "scanner \<Rightarrow> bool" where
  "scanner_ok sc \<longleftrightarrow> sn_pos sc \<le> length (sn_src sc)"

text \<open>A scanner further on in the same source, its line counted up by the newlines it has passed.\<close>

definition newlines_to :: "scanner \<Rightarrow> int" where
  "newlines_to sc = count_newlines (take (sn_pos sc) (sn_src sc))"

definition scanner_le :: "scanner \<Rightarrow> scanner \<Rightarrow> bool" where
  "scanner_le sc sc' \<longleftrightarrow> sn_src sc' = sn_src sc \<and> sn_pos sc \<le> sn_pos sc' \<and> scanner_ok sc' \<and>
     sn_line sc' - sn_line sc = newlines_to sc' - newlines_to sc"

lemma count_newlines_append: "count_newlines (xs @ ys) = count_newlines xs + count_newlines ys"
  by (simp add: count_newlines_def)

lemma newlines_behind:
  "count_newlines (take (p + n) s) = count_newlines (take p s) + count_newlines (take n (drop p s))"
  by (simp add: take_add count_newlines_append)

lemma scanner_le_refl: "scanner_ok sc \<Longrightarrow> scanner_le sc sc"
  by (simp add: scanner_le_def)

lemma scanner_le_trans: "scanner_le a b \<Longrightarrow> scanner_le b c \<Longrightarrow> scanner_le a c"
  by (simp add: scanner_le_def)

lemma scanner_le_update [simp]:
  "scanner_le sc (sc'\<lparr>sn_indentstk := stk\<rparr>) = scanner_le sc sc'" "scanner_le sc (sc'\<lparr>sn_consumed := b\<rparr>) = scanner_le sc sc'"
  by (simp_all add: scanner_le_def scanner_ok_def newlines_to_def)

lemma scanner_next_ok:
  assumes "scanner_ok sc" "n \<le> length (sn_rest sc)"
  shows "\<exists>sc'. scanner_next (int n) sc = returnR sc' \<and> scanner_le sc sc' \<and> sn_pos sc + n \<le> sn_pos sc' \<and>
    sn_indentstk sc' = sn_indentstk sc \<and> sn_consumed sc' = sn_consumed sc \<and>
    sn_pos sc' = sn_pos sc + n + length (takeWhile blank (drop (sn_pos sc + n) (sn_src sc)))"
proof -
  have pos: "sn_pos sc + n \<le> length (sn_src sc)" using assms by (simp add: scanner_ok_def sn_rest_def)
  have "length (takeWhile blank (drop (sn_pos sc + n) (sn_src sc))) \<le> length (drop (sn_pos sc + n) (sn_src sc))"
    by (rule length_takeWhile_le)
  moreover have "take (length (takeWhile blank xs)) xs = takeWhile blank xs" for xs by (rule takeWhile_eq_take [symmetric])
  ultimately show ?thesis using pos
    by (auto simp: scanner_next_def scanner_le_def scanner_ok_def Let_def nat_int_add newlines_to_def sn_rest_def newlines_behind)
qed

lemma strstr_offset_le: "strstr_offset src s = Some n \<Longrightarrow> n + length s \<le> length src"
proof (induction src s arbitrary: n rule: strstr_offset.induct)
  case (1 src s)
  show ?case
  proof (cases "take (length s) src = s")
    case True
    then have "length s \<le> length src" by (metis length_take min.cobounded1)
    then show ?thesis using 1 True by simp
  next
    case False
    then show ?thesis using 1 by (cases src) auto
  qed
qed

declare strstr_offset.simps [simp del]

lemma c_text_le: "length (c_text s) \<le> length s"
  by (simp add: c_text_def length_takeWhile_le)

lemma scanner_scan_ok:
  assumes "scanner_ok sc"
  shows "\<exists>found sc'. scanner_scan str sc = returnR (found, sc') \<and> scanner_le sc sc' \<and>
    (found \<longrightarrow> sn_pos sc + length (c_text str) \<le> sn_pos sc')"
proof (cases "strstr_offset (c_text (sn_rest sc)) (c_text str)")
  case None
  then show ?thesis using assms by (auto simp: scanner_scan_def scanner_le_refl)
next
  case (Some n)
  have "n + length (c_text str) \<le> length (sn_rest sc)" using strstr_offset_le [OF Some] c_text_le [of "sn_rest sc"] by simp
  from scanner_next_ok [OF assms this] show ?thesis using Some by (auto simp: scanner_scan_def)
qed

lemma match_length_le: "match_length src s = Some n \<Longrightarrow> n \<le> length src \<and> (s \<noteq> [] \<longrightarrow> hd s \<noteq> nul \<longrightarrow> 0 < n)"
  by (induction src s arbitrary: n rule: match_length.induct) (auto split: if_splits)

lemma scanner_match_ok:
  assumes "scanner_ok sc" "scanner_match str sc = Some sc'"
  shows "scanner_le sc sc'" "str \<noteq> [] \<Longrightarrow> hd str \<noteq> nul \<Longrightarrow> sn_pos sc < sn_pos sc'"
proof -
  obtain n where n: "match_length (sn_rest sc) str = Some n" "sn_pos sc' = sn_pos sc + n" "sn_src sc' = sn_src sc"
      "sn_line sc' = sn_line sc + count_newlines (take n (sn_rest sc))"
    using assms(2) by (auto simp: scanner_match_def split: option.splits)
  from match_length_le [OF n(1)] show "scanner_le sc sc'" "str \<noteq> [] \<Longrightarrow> hd str \<noteq> nul \<Longrightarrow> sn_pos sc < sn_pos sc'"
    using n assms(1) by (auto simp: scanner_le_def scanner_ok_def sn_rest_def newlines_to_def newlines_behind)
qed

lemma indent_token_le: "get_indent_token tab sc = (token, sc') \<Longrightarrow> scanner_ok sc \<Longrightarrow> scanner_le sc sc' \<and> sn_pos sc' = sn_pos sc"
  by (auto simp: get_indent_token_def Let_def scanner_le_refl split: if_splits)

lemma eof_indent_token_le: "get_eof_indent_token sc = (token, sc') \<Longrightarrow> scanner_ok sc \<Longrightarrow> scanner_le sc sc'"
  by (auto simp: get_eof_indent_token_def scanner_le_refl split: if_splits)

subsection \<open>The tables of a lexer\<close>

text \<open>The names with their ids, and the keyword flags.\<close>

definition names_ok :: "(string \<times> int) list \<Rightarrow> string list \<Rightarrow> bool list \<Rightarrow> bool" where
  "names_ok m nl ks \<longleftrightarrow> map snd m = map int [1..<Suc (length m)] \<and> distinct (map fst m) \<and> length nl = length m \<and> [] \<notin> set nl \<and>
     (m \<noteq> [] \<longrightarrow> length ks > length m)"

definition def_ok :: "(string \<times> int) list \<Rightarrow> lexem_def \<Rightarrow> bool" where
  "def_ok m d \<longleftrightarrow> (if df_id d = 0 then df_name d = [] \<and> \<not> df_keyword d else (df_name d, df_id d) \<in> set m) \<and>
     (df_id d \<noteq> 0 \<and> df_activate d \<noteq> [] \<longrightarrow> df_name d \<noteq> [])"

definition firstmap_ok :: "lexem_def list \<Rightarrow> (nat, int) std_map \<Rightarrow> bool" where
  "firstmap_ok defs fm \<longleftrightarrow> (\<forall>c idx. (c, idx) \<in> set fm \<longrightarrow> idx \<in> {match_eoln_comment, match_bracket_comment} \<or> 0 \<le> idx) \<and>
     (\<forall>c i. (c, int i) \<in> set fm \<longleftrightarrow> c < 256 \<and> i < length defs \<and> char_of c \<in> set (df_activate (defs ! i)))"

definition indent_ok :: "string list \<Rightarrow> indent_lexems \<Rightarrow> bool" where
  "indent_ok nl il \<longleftrightarrow> (il_open il \<noteq> 0 \<longrightarrow> {il_open il, il_close il, il_newline il} \<subseteq> {1..int (length nl)})"

definition lexer_ok :: "lexer \<Rightarrow> bool" where
  "lexer_ok lx \<longleftrightarrow> names_ok (lr_nameidmap lx) (lr_namelist lx) (lr_id2keyword lx) \<and> (\<forall>d \<in> set (lr_defar lx). def_ok (lr_nameidmap lx) d) \<and>
     firstmap_ok (lr_defar lx) (lr_firstmap lx) \<and> (\<forall>(line, start, closing) \<in> set (lr_bracketcomments lx). start \<noteq> [] \<and> closing \<noteq> []) \<and>
     indent_ok (lr_namelist lx) (lr_indent lx)"

text \<open>The lexers made by the operations.\<close>

inductive lexer_reachable :: "regex_engine \<Rightarrow> lexer \<Rightarrow> bool" for re where
  lexer_new: "lexer_reachable re lexer_new"
| lexer_define: "lexer_reachable re lx \<Longrightarrow> define_lexem re line name pattern select lx = returnR (n, lx') \<Longrightarrow> lexer_reachable re lx'"
| lexer_keyword: "lexer_reachable re lx \<Longrightarrow> define_keyword re opr lx = returnR (n, lx') \<Longrightarrow> lexer_reachable re lx'"
| lexer_ignore: "lexer_reachable re lx \<Longrightarrow> define_ignore re line pattern lx = returnR lx' \<Longrightarrow> lexer_reachable re lx'"
| lexer_eoln: "lexer_reachable re lx \<Longrightarrow> define_eoln_comment line opr lx = returnR lx' \<Longrightarrow> lexer_reachable re lx'"
| lexer_bracket: "lexer_reachable re lx \<Longrightarrow> define_bracket_comment line start closing lx = returnR lx' \<Longrightarrow> lexer_reachable re lx'"
| lexer_indent: "lexer_reachable re lx \<Longrightarrow> define_indent_lexems line a b c tab lx = returnR lx' \<Longrightarrow> lexer_reachable re lx'"
| lexer_bad: "lexer_reachable re lx \<Longrightarrow> lexer_reachable re (define_bad_lexem line name lx)"

lemma lexer_ok_new: "lexer_ok lexer_new"
  by (simp add: lexer_ok_def lexer_new_def names_ok_def firstmap_ok_def indent_ok_def)

lemma multimap_insert_set: "set (multimap_insert m k v) = insert (k, v) (set m)"
  by (induction m k v rule: multimap_insert.induct) auto

lemma fold_multimap_insert_set:
  "set (fold (\<lambda>k m. multimap_insert m k v) ks m) = (\<lambda>k. (k, v)) ` set ks \<union> set m"
  by (induction ks arbitrary: m) (auto simp: multimap_insert_set)

lemma activation_Nil [simp]: "activation [] = returnR []"
  by (simp add: activation_def c_str_def activation_loop.simps deref_def nul_def)

lemma name_string_not_Nil: "name_string name \<noteq> []"
  by (auto simp: name_string_def Let_def)

lemma names_ok_add:
  assumes "names_ok m nl ks" "map_of m name = None" "nm \<noteq> []"
  shows "names_ok (m @ [(name, int (length m + 1))]) (nl @ [nm]) (grow_keywords (length m + 1) ks)"
proof -
  have "name \<notin> fst ` set m" using assms(2) by (simp add: map_of_eq_None_iff)
  then show ?thesis using assms by (auto simp: names_ok_def grow_keywords_def)
qed

lemma names_ok_grow: "names_ok m nl ks \<Longrightarrow> names_ok m nl (grow_keywords n ks)"
  by (auto simp: names_ok_def grow_keywords_def)

lemma names_ok_set: "names_ok m nl ks \<Longrightarrow> names_ok m nl (ks[n := b])"
  by (auto simp: names_ok_def)

lemma names_ok_id: "names_ok m nl ks \<Longrightarrow> (name, nid) \<in> set m \<Longrightarrow> 1 \<le> nid \<and> nid \<le> int (length m)"
proof -
  assume a: "names_ok m nl ks" "(name, nid) \<in> set m"
  then have "nid \<in> set (map snd m)" by force
  then show ?thesis using a(1) unfolding names_ok_def by fastforce
qed

lemma def_ok_add: "def_ok m d \<Longrightarrow> def_ok (m @ m') d"
  by (auto simp: def_ok_def)

lemma indent_ok_add: "indent_ok nl il \<Longrightarrow> indent_ok (nl @ nl') il"
  by (auto simp: indent_ok_def)

lemma firstmap_ok_add:
  assumes "firstmap_ok defs fm" "set fm' = set fm \<union> {(c, int (length defs)) | c. c < 256 \<and> char_of c \<in> set (df_activate d)}"
  shows "firstmap_ok (defs @ [d]) fm'"
  using assms by (auto simp: firstmap_ok_def nth_append less_Suc_eq)

text \<open>A new definition, entered with all its first characters.\<close>

lemma enter_lexem_def_ok:
  assumes ok: "lexer_ok lx" and e: "enter_lexem_def re line name pattern keyword select lx = returnR (n, lx1)"
  obtains d m' nl' where "lr_defar lx1 = lr_defar lx @ [d]" "lr_firstmap lx1 = lr_firstmap lx" "lr_bracketcomments lx1 = lr_bracketcomments lx"
    "lr_indent lx1 = lr_indent lx" "lr_nameidmap lx1 = lr_nameidmap lx @ m'" "lr_namelist lx1 = lr_namelist lx @ nl'"
    "names_ok (lr_nameidmap lx1) (lr_namelist lx1) (lr_id2keyword lx1)" "def_ok (lr_nameidmap lx1) d"
    "pattern = [] \<longrightarrow> df_activate d = []"
proof -
  note parts = ok [unfolded lexer_ok_def]
  note mk = mk_lexem_def_def
  have act: "df_id d = i \<and> df_name d = nm \<and> df_keyword d = kw \<and> (pattern = [] \<longrightarrow> df_activate d = [])"
    if "mk_lexem_def re line nm pattern i kw select = returnR d" for d i nm kw
    using that by (auto simp: mk_lexem_def_def bindR_eq_returnR split: if_splits)
  show ?thesis
  proof (cases "name = []")
    case True
    obtain d where d: "mk_lexem_def re line [] pattern 0 False select = returnR d" "lx1 = lx\<lparr>lr_defar := lr_defar lx @ [d]\<rparr>"
      using e True by (auto simp: enter_lexem_def_def bindR_eq_returnR)
    show ?thesis by (rule that [of d "[]" "[]"]) (use d(2) act [OF d(1)] parts in \<open>simp_all add: def_ok_def\<close>)
  next
    case False
    let ?id = "length (lr_nameidmap lx) + 1"
    let ?ks = "grow_keywords ?id (lr_id2keyword lx)"
    show ?thesis
    proof (cases "map_of (lr_nameidmap lx) name")
      case None
      let ?nm = "if keyword then name_string name else name"
      obtain d where d: "mk_lexem_def re line name pattern (int ?id) keyword select = returnR d"
        and lx1: "lx1 = lx\<lparr>lr_nameidmap := lr_nameidmap lx @ [(name, int ?id)], lr_namelist := lr_namelist lx @ [?nm],
           lr_id2keyword := (if keyword then ?ks[?id := True] else ?ks), lr_defar := lr_defar lx @ [d]\<rparr>"
        using e False None unfolding enter_lexem_def_def Let_def by (simp add: bindR_eq_returnR) blast
      have "?nm \<noteq> []" using False name_string_not_Nil by simp
      then have "names_ok (lr_nameidmap lx @ [(name, int ?id)]) (lr_namelist lx @ [?nm]) ?ks"
        using names_ok_add [OF _ None] parts by blast
      then have "names_ok (lr_nameidmap lx1) (lr_namelist lx1) (lr_id2keyword lx1)" unfolding lx1
        by (cases keyword) (simp_all add: names_ok_set)
      moreover have "def_ok (lr_nameidmap lx1) d" using act [OF d] False by (simp add: lx1 def_ok_def)
      ultimately show ?thesis using that [of d "[(name, int ?id)]" "[?nm]"] act [OF d] by (simp add: lx1)
    next
      case (Some old)
      obtain d where d: "mk_lexem_def re line name pattern old keyword select = returnR d"
        and lx1: "lx1 = lx\<lparr>lr_id2keyword := ?ks, lr_defar := lr_defar lx @ [d]\<rparr>"
        using e False Some unfolding enter_lexem_def_def Let_def by (auto simp: bindR_eq_returnR split: if_splits)
      have mem: "(name, old) \<in> set (lr_nameidmap lx)" by (rule map_of_SomeD [OF Some])
      then have "old \<noteq> 0" using names_ok_id parts by fastforce
      then have "def_ok (lr_nameidmap lx1) d" using act [OF d] mem False by (simp add: lx1 def_ok_def)
      moreover have "names_ok (lr_nameidmap lx1) (lr_namelist lx1) (lr_id2keyword lx1)" using parts names_ok_grow by (simp add: lx1)
      ultimately show ?thesis using that [of d "[]" "[]"] act [OF d] by (simp add: lx1)
    qed
  qed
qed

lemma define_entry_ok:
  assumes ok: "lexer_ok lx" and e: "define_lexem_entry re line name pattern keyword select lx = returnR (n, lx')"
  shows "lexer_ok lx'"
proof -
  note parts = ok [unfolded lexer_ok_def]
  obtain n1 lx1 where enter: "enter_lexem_def re line name pattern keyword select lx = returnR (n1, lx1)"
    and rest: "(if pattern \<noteq> [] then bindR (add_first_chars lx1) (\<lambda>lx''. returnR (n1, lx'')) else returnR (n1, lx1)) = returnR (n, lx')"
    using e by (auto simp: define_lexem_entry_def bindR_eq_returnR)
  obtain d m' nl' where lx1: "lr_defar lx1 = lr_defar lx @ [d]" "lr_firstmap lx1 = lr_firstmap lx" "lr_bracketcomments lx1 = lr_bracketcomments lx"
    "lr_indent lx1 = lr_indent lx" "lr_nameidmap lx1 = lr_nameidmap lx @ m'" "lr_namelist lx1 = lr_namelist lx @ nl'"
    and names: "names_ok (lr_nameidmap lx1) (lr_namelist lx1) (lr_id2keyword lx1)" "def_ok (lr_nameidmap lx1) d"
    and pat: "pattern = [] \<longrightarrow> df_activate d = []"
    by (rule enter_lexem_def_ok [OF ok enter])
  have "\<forall>d \<in> set (lr_defar lx). def_ok (lr_nameidmap lx1) d" using parts def_ok_add unfolding lx1(5) by blast
  then have defs: "\<forall>d \<in> set (lr_defar lx1). def_ok (lr_nameidmap lx1) d" using names(2) unfolding lx1(1) by simp
  have indent: "indent_ok (lr_namelist lx1) (lr_indent lx1)" using parts indent_ok_add by (simp add: lx1)
  obtain fm where fm: "lx' = lx1\<lparr>lr_firstmap := fm\<rparr>"
    "set fm = set (lr_firstmap lx) \<union> {(c, int (length (lr_defar lx))) | c. c < 256 \<and> char_of c \<in> set (df_activate d)}"
  proof (cases "pattern = []")
    case True
    then show ?thesis using that [of "lr_firstmap lx1"] rest pat lx1(2) by simp
  next
    case False
    let ?chars = "filter (\<lambda>ii. char_of ii \<in> set (df_activate d)) [0..<256]"
    have "add_first_chars lx1 = returnR lx'" using rest False by (auto simp: bindR_eq_returnR)
    then have "lx' = lx1\<lparr>lr_firstmap := fold (\<lambda>ii m. multimap_insert m ii (int (length (lr_defar lx)))) ?chars (lr_firstmap lx)\<rparr>"
      unfolding add_first_chars_def Let_def lx1(1,2) by (simp split: if_splits)
    moreover have "set (fold (\<lambda>ii m. multimap_insert m ii (int (length (lr_defar lx)))) ?chars (lr_firstmap lx)) =
        set (lr_firstmap lx) \<union> {(c, int (length (lr_defar lx))) | c. c < 256 \<and> char_of c \<in> set (df_activate d)}"
      unfolding fold_multimap_insert_set by auto
    ultimately show ?thesis by (rule that)
  qed
  have "firstmap_ok (lr_defar lx1) fm" unfolding lx1(1) by (rule firstmap_ok_add [OF _ fm(2)]) (use parts in blast)
  then show ?thesis using names(1) defs indent parts lx1(3) by (simp add: lexer_ok_def fm(1))
qed

lemma define_lexem_id_ok:
  assumes ok: "lexer_ok lx" and e: "define_lexem_id name lx = returnR (n, lx')"
  shows "lexer_ok lx' \<and> lr_indent lx' = lr_indent lx \<and> length (lr_namelist lx') = Suc (length (lr_namelist lx)) \<and> n = int (length (lr_namelist lx'))"
proof -
  note parts = ok [unfolded lexer_ok_def]
  let ?id = "length (lr_nameidmap lx) + 1"
  have new: "map_of (lr_nameidmap lx) name = None" using e by (auto simp: define_lexem_id_def Let_def split: option.splits)
  have lx': "n = int ?id" "lx' = lx\<lparr>lr_id2keyword := grow_keywords ?id (lr_id2keyword lx),
      lr_nameidmap := lr_nameidmap lx @ [(name, int ?id)], lr_namelist := lr_namelist lx @ [name_string name],
      lr_defar := lr_defar lx @ [mk_indent_def 0 name (int ?id)]\<rparr>"
    using e new by (auto simp: define_lexem_id_def Let_def)
  have "names_ok (lr_nameidmap lx @ [(name, int ?id)]) (lr_namelist lx @ [name_string name]) (grow_keywords ?id (lr_id2keyword lx))"
    using names_ok_add [OF _ new name_string_not_Nil] parts by blast
  moreover have "\<forall>d \<in> set (lr_defar lx). def_ok (lr_nameidmap lx @ [(name, int ?id)]) d" using parts def_ok_add by blast
  moreover have "def_ok (lr_nameidmap lx @ [(name, int ?id)]) (mk_indent_def 0 name (int ?id))" by (simp add: def_ok_def mk_indent_def_def)
  moreover have "firstmap_ok (lr_defar lx @ [mk_indent_def 0 name (int ?id)]) (lr_firstmap lx)"
    by (rule firstmap_ok_add) (use parts in \<open>simp_all add: mk_indent_def_def\<close>)
  moreover have "indent_ok (lr_namelist lx @ [name_string name]) (lr_indent lx)" using parts indent_ok_add by blast
  moreover have "length (lr_namelist lx) = length (lr_nameidmap lx)" using parts by (simp add: names_ok_def)
  ultimately show ?thesis using parts by (simp add: lexer_ok_def lx')
qed

lemma firstmap_ok_comment:
  assumes "firstmap_ok defs fm" "idx \<in> {match_eoln_comment, match_bracket_comment}"
  shows "firstmap_ok defs (multimap_insert fm c idx)"
  using assms by (auto simp: firstmap_ok_def multimap_insert_set match_eoln_comment_def match_bracket_comment_def)

lemma lexer_reachable_ok: "lexer_reachable re lx \<Longrightarrow> lexer_ok lx"
proof (induction rule: lexer_reachable.induct)
  case lexer_new
  then show ?case by (rule lexer_ok_new)
next
  case (lexer_define lx line name pattern select n lx')
  then show ?case using define_entry_ok by (simp add: define_lexem_def)
next
  case (lexer_keyword lx opr n lx')
  then show ?case using define_entry_ok by (simp add: define_keyword_def)
next
  case (lexer_ignore lx line pattern lx')
  then show ?case using define_entry_ok by (auto simp: define_ignore_def bindR_eq_returnR)
next
  case (lexer_eoln lx line opr lx')
  then show ?case using firstmap_ok_comment by (auto simp: define_eoln_comment_def lexer_ok_def split: if_splits)
next
  case (lexer_bracket lx line start closing lx')
  then show ?case using firstmap_ok_comment by (auto simp: define_bracket_comment_def lexer_ok_def split: if_splits)
next
  case (lexer_indent lx line a b c tab lx')
  obtain op lx1 cl lx2 nl lx3 where d: "define_lexem_id a lx = returnR (op, lx1)" "define_lexem_id b lx1 = returnR (cl, lx2)"
    "define_lexem_id c lx2 = returnR (nl, lx3)"
    and lx': "lx' = lx3\<lparr>lr_indent := \<lparr>il_line = line, il_open = op, il_close = cl, il_newline = nl, il_tabsize = tab\<rparr>\<rparr>"
    using lexer_indent.hyps(2) by (auto simp: define_indent_lexems_def bindR_eq_returnR split: if_splits)
  note 1 = define_lexem_id_ok [OF lexer_indent.IH d(1)]
  then have l1: "lexer_ok lx1" by blast
  note 2 = define_lexem_id_ok [OF l1 d(2)]
  then have l2: "lexer_ok lx2" by blast
  note 3 = define_lexem_id_ok [OF l2 d(3)]
  show ?case using 1 2 3 by (simp add: lx' lexer_ok_def indent_ok_def)
next
  case (lexer_bad lx line name)
  then show ?case by (simp add: define_bad_lexem_def lexer_ok_def)
qed

subsection \<open>Fetching a lexem\<close>

lemma match_eoln_ok:
  assumes "scanner_ok sc" "lexer_match_eoln cs sc = Some sc'"
  shows "scanner_le sc sc'"
  using assms by (induction cs sc rule: lexer_match_eoln.induct) (auto split: option.splits intro: scanner_match_ok(1))

lemma match_bracket_ok:
  assumes "scanner_ok sc" "lexer_match_bracket cs sc = Some (start, closing, sc')"
  shows "scanner_le sc sc' \<and> (\<exists>line. (line, start, closing) \<in> set cs) \<and> (start \<noteq> [] \<longrightarrow> hd start \<noteq> nul \<longrightarrow> sn_pos sc < sn_pos sc')"
  using assms by (induction cs sc rule: lexer_match_bracket.induct) (auto split: option.splits dest: scanner_match_ok)

text \<open>The best match so far, for the definitions seen.\<close>

definition best_ok :: "regex_engine \<Rightarrow> lexer \<Rightarrow> string \<Rightarrow> int set \<Rightarrow> best_match \<Rightarrow> bool" where
  "best_ok re lx src seen bm \<longleftrightarrow>
     (if bm_idx bm < 0 then bm_idx bm = -1 \<and> bm_len bm = 0
      else bm_idx bm \<in> seen \<and> nat (bm_idx bm) < length (lr_defar lx) \<and> def_match re (lr_defar lx ! nat (bm_idx bm)) src = (bm_view bm, bm_len bm)) \<and>
     (\<forall>i \<in> seen. 0 \<le> i \<longrightarrow> match_len re (lr_defar lx ! nat i) src \<le> bm_len bm) \<and>
     (\<forall>i \<in> seen. 0 \<le> i \<and> df_keyword (lr_defar lx ! nat i) \<and> match_len re (lr_defar lx ! nat i) src = bm_len bm \<longrightarrow>
        0 \<le> bm_idx bm \<and> df_keyword (lr_defar lx ! nat (bm_idx bm)))"

lemma best_ok_step:
  assumes "best_ok re lx src seen bm" "0 \<le> idx" "nat idx < length (lr_defar lx)" "def_match re (lr_defar lx ! nat idx) src = (view, len)"
  shows "best_ok re lx src (insert idx seen)
     (if bm_len bm \<le> len \<and> (bm_len bm < len \<or> df_keyword (lr_defar lx ! nat idx)) then \<lparr>bm_len = len, bm_idx = idx, bm_view = view\<rparr> else bm)"
proof -
  have len: "match_len re (lr_defar lx ! nat idx) src = len" using assms(4) by (simp add: match_len_def)
  show ?thesis
  proof (cases "bm_len bm \<le> len \<and> (bm_len bm < len \<or> df_keyword (lr_defar lx ! nat idx))")
    case True
    have "match_len re (lr_defar lx ! nat i) src \<le> len" if "i \<in> seen" "0 \<le> i" for i
      using assms(1) that True unfolding best_ok_def by (meson le_trans)
    moreover have "df_keyword (lr_defar lx ! nat idx)"
      if "i \<in> seen" "0 \<le> i" "df_keyword (lr_defar lx ! nat i)" "match_len re (lr_defar lx ! nat i) src = len" for i
    proof -
      have "len \<le> bm_len bm" using assms(1) that unfolding best_ok_def by metis
      then show ?thesis using True by auto
    qed
    ultimately show ?thesis using True assms len unfolding best_ok_def by auto
  next
    case False
    then have "len \<le> bm_len bm" "df_keyword (lr_defar lx ! nat idx) \<longrightarrow> len < bm_len bm" by auto
    then show ?thesis using False assms(1) len unfolding best_ok_def by auto
  qed
qed

definition idx_ok :: "lexer \<Rightarrow> int \<Rightarrow> bool" where
  "idx_ok lx idx \<longleftrightarrow> idx \<in> {match_eoln_comment, match_bracket_comment} \<or> (0 \<le> idx \<and> nat idx < length (lr_defar lx))"

text \<open>The comments start with a character that is not the terminator.\<close>

definition comments_start :: "lexer \<Rightarrow> bool" where
  "comments_start lx \<longleftrightarrow> (\<forall>(line, start, closing) \<in> set (lr_bracketcomments lx). hd start \<noteq> nul)"

definition range_ok :: "regex_engine \<Rightarrow> lexer \<Rightarrow> int set \<Rightarrow> scanner \<Rightarrow> range_outcome \<Rightarrow> scanner \<Rightarrow> bool" where
  "range_ok re lx seen sc out sc' \<longleftrightarrow> scanner_le sc sc' \<and>
     (case out of
        RangeLexem l view \<Rightarrow> (lm_id l = 0 \<and> lexem_empty l) \<or> (lm_id l = -1 \<and> \<not> lexem_empty l)
      | RangeSkipped \<Rightarrow> comments_start lx \<longrightarrow> sn_pos sc < sn_pos sc'
      | RangeEnd bm \<Rightarrow> sc' = sc \<and> best_ok re lx (sn_rest sc) seen bm)"

lemma best_ok_comment: "best_ok re lx src seen bm \<Longrightarrow> idx < 0 \<Longrightarrow> best_ok re lx src (insert idx seen) bm"
  by (auto simp: best_ok_def)

lemma lexer_range_ok:
  assumes "lexer_ok lx" "scanner_ok sc" "\<forall>idx \<in> set idxs. idx_ok lx idx" "best_ok re lx (sn_rest sc) seen bm"
  shows "\<exists>out sc'. lexer_range re lx idxs bm sc = returnR (out, sc') \<and> range_ok re lx (seen \<union> set idxs) sc out sc'"
  using assms(3,4)
proof (induction idxs arbitrary: bm seen)
  case Nil
  then show ?case using assms(2) by (simp add: range_ok_def scanner_le_refl)
next
  case (Cons idx idxs)
  have comment: "?case" if "lexer_range re lx (idx # idxs) bm sc = lexer_range re lx idxs bm sc" "idx < 0"
    using Cons.IH [OF _ best_ok_comment [OF Cons.prems(2) that(2)]] Cons.prems(1) that(1) by simp
  consider "idx = match_eoln_comment" | "idx = match_bracket_comment" | "0 \<le> idx" "nat idx < length (lr_defar lx)"
    using Cons.prems(1) by (auto simp: idx_ok_def)
  then show ?case
  proof cases
    case 1
    show ?thesis
    proof (cases "lexer_match_eoln (lr_eolncomments lx) sc")
      case None
      then show ?thesis using comment 1 by (simp add: match_eoln_comment_def)
    next
      case (Some sc1)
      have le: "scanner_le sc sc1" by (rule match_eoln_ok [OF assms(2) Some])
      then have "scanner_ok sc1" by (simp add: scanner_le_def)
      from scanner_scan_ok [OF this, of "[newline]"] obtain found sc2 where sc2: "scanner_scan [newline] sc1 = returnR (found, sc2)"
        "scanner_le sc1 sc2" "found \<longrightarrow> sn_pos sc1 + 1 \<le> sn_pos sc2"
        by (auto simp: c_text_def newline_def nul_def)
      have "scanner_le sc sc2" by (rule scanner_le_trans [OF le sc2(2)])
      then show ?thesis using 1 Some sc2 le
        by (cases found) (auto simp: range_ok_def eof_lexem_def lexem_empty_def scanner_le_def)
    qed
  next
    case 2
    then have neq: "idx \<noteq> match_eoln_comment" by (simp add: match_eoln_comment_def match_bracket_comment_def)
    show ?thesis
    proof (cases "lexer_match_bracket (lr_bracketcomments lx) sc")
      case None
      then show ?thesis using comment 2 by (simp add: match_eoln_comment_def match_bracket_comment_def)
    next
      case (Some r)
      obtain start closing sc1 where r: "r = (start, closing, sc1)" by (cases r)
      note m = match_bracket_ok [OF assms(2) Some [unfolded r]]
      then have start: "start \<noteq> []" "comments_start lx \<longrightarrow> sn_pos sc < sn_pos sc1"
        using assms(1) by (auto simp: lexer_ok_def comments_start_def)
      have "scanner_ok sc1" using m by (simp add: scanner_le_def)
      from scanner_scan_ok [OF this, of closing] obtain found sc2 where sc2: "scanner_scan closing sc1 = returnR (found, sc2)"
        "scanner_le sc1 sc2" by blast
      have "scanner_le sc sc2" using scanner_le_trans m sc2(2) by blast
      then show ?thesis using 2 neq Some r sc2 start m
        by (cases found) (auto simp: range_ok_def lexem_empty_def scanner_le_def)
    qed
  next
    case 3
    then have neq: "idx \<noteq> match_eoln_comment" "idx \<noteq> match_bracket_comment" by (simp_all add: match_eoln_comment_def match_bracket_comment_def)
    obtain view len where m: "def_match re (lr_defar lx ! nat idx) (sn_rest sc) = (view, len)" by fastforce
    let ?bm = "if bm_len bm \<le> len \<and> (bm_len bm < len \<or> df_keyword (lr_defar lx ! nat idx)) then \<lparr>bm_len = len, bm_idx = idx, bm_view = view\<rparr> else bm"
    have "vec_at (lr_defar lx) idx = Some (lr_defar lx ! nat idx)" using 3 by (simp add: vec_at_def)
    moreover have "\<not> idx \<ge> int (length (lr_defar lx))" using 3 by simp
    ultimately have "lexer_range re lx (idx # idxs) bm sc = lexer_range re lx idxs ?bm sc"
      using neq m by (auto split: if_splits)
    moreover have "best_ok re lx (sn_rest sc) (insert idx seen) ?bm" by (rule best_ok_step [OF Cons.prems(2) 3 m])
    ultimately show ?thesis using Cons.IH [of "insert idx seen" ?bm] Cons.prems(1) by simp
  qed
qed

lemma range_idx_ok:
  assumes "lexer_ok lx"
  shows "\<forall>idx \<in> set (multimap_equal_range (lr_firstmap lx) c). idx_ok lx idx"
proof
  fix idx
  assume "idx \<in> set (multimap_equal_range (lr_firstmap lx) c)"
  then have mem: "(c, idx) \<in> set (lr_firstmap lx)" by (auto simp: multimap_equal_range_def)
  have fm: "firstmap_ok (lr_defar lx) (lr_firstmap lx)" using assms by (simp add: lexer_ok_def)
  show "idx_ok lx idx"
  proof (cases "idx \<in> {match_eoln_comment, match_bracket_comment}")
    case False
    then have "0 \<le> idx" using fm mem unfolding firstmap_ok_def by blast
    then obtain i where "idx = int i" using nonneg_int_cases by blast
    then show ?thesis using fm mem unfolding firstmap_ok_def idx_ok_def by auto
  qed (simp add: idx_ok_def)
qed

lemma indent_lexem_ok:
  assumes "lexer_ok lx" "1 \<le> nid" "nid \<le> int (length (lr_namelist lx))"
  shows "\<exists>l. indent_lexem lx nid line = returnR l \<and> lm_id l = nid \<and> \<not> lexem_empty l"
proof -
  have "vec_at (lr_namelist lx) (nid - 1) = Some (lr_namelist lx ! nat (nid - 1))" using assms(2,3) by (simp add: vec_at_def)
  moreover have "lr_namelist lx ! nat (nid - 1) \<in> set (lr_namelist lx)" using assms(2,3) by simp
  then have "lr_namelist lx ! nat (nid - 1) \<noteq> []" using assms(1) by (metis lexer_ok_def names_ok_def)
  ultimately show ?thesis by (simp add: indent_lexem_def lexem_empty_def)
qed

text \<open>What a lexem that is fetched is like.\<close>

definition lexem_ok :: "lexer \<Rightarrow> lexem \<Rightarrow> bool" where
  "lexem_ok lx l \<longleftrightarrow> (if lexem_empty l then lm_id l = 0 else lm_id l = -1 \<or> (1 \<le> lm_id l \<and> lm_id l \<le> int (length (lr_namelist lx))))"

lemma def_lexem_ok:
  assumes "lexer_ok lx" "d \<in> set (lr_defar lx)" "df_id d \<noteq> 0" "df_activate d \<noteq> []"
  shows "lexem_ok lx \<lparr>lm_name = df_name d, lm_value = v, lm_id = df_id d, lm_line = line\<rparr>"
proof -
  have d: "def_ok (lr_nameidmap lx) d" and n: "names_ok (lr_nameidmap lx) (lr_namelist lx) (lr_id2keyword lx)"
    using assms(1,2) by (simp_all add: lexer_ok_def)
  have "(df_name d, df_id d) \<in> set (lr_nameidmap lx)" "df_name d \<noteq> []" using d assms(3,4) by (auto simp: def_ok_def)
  then have "1 \<le> df_id d \<and> df_id d \<le> int (length (lr_nameidmap lx))" by (intro names_ok_id [OF n])
  then show ?thesis using n \<open>df_name d \<noteq> []\<close> by (simp add: lexem_ok_def lexem_empty_def names_ok_def)
qed

lemma parse_char_ok:
  assumes "src \<noteq> []" "hd src \<noteq> nul"
  shows "\<exists>chr si. parse_char (c_str src) = returnR (chr, si) \<and> chr \<noteq> [] \<and> length chr \<le> length src"
proof -
  obtain c cs where src: "src = c # cs" using assms(1) by (cases src) auto
  show ?thesis
  proof (cases "byte c \<ge> 128")
    case True
    let ?mid = "takeWhile (\<lambda>d. d \<noteq> nul \<and> utf8mid (byte_word d)) (cs @ [nul])"
    have "?mid = takeWhile (\<lambda>d. d \<noteq> nul \<and> utf8mid (byte_word d)) cs" by (induction cs) auto
    then have le: "length ?mid \<le> length cs" using length_takeWhile_le by metis
    then have "drop (length ?mid) (cs @ [nul]) \<noteq> []" by simp
    then obtain e es where "drop (length ?mid) (cs @ [nul]) = e # es" by (meson list.exhaust)
    then show ?thesis using True le by (simp add: src parse_char_def c_str_def deref_def Let_def)
  qed (simp add: src parse_char_def c_str_def deref_def)
qed

lemma lexer_take_ok:
  assumes ok: "lexer_ok lx" and re: "regex_ok re" and sc: "scanner_ok sc" and src: "sn_rest sc \<noteq> []" "hd (sn_rest sc) \<noteq> nul"
    and best: "best_ok re lx (sn_rest sc) (set (multimap_equal_range (lr_firstmap lx) c)) bm"
  shows "\<exists>res sc'. lexer_take lx bm sc = returnR (res, sc') \<and> scanner_le sc sc' \<and>
    (case res of None \<Rightarrow> \<exists>d \<in> set (lr_defar lx). df_id d = 0 | Some (l, view) \<Rightarrow> lexem_ok lx l)"
proof (cases "bm_idx bm < 0")
  case True
  obtain chr si where chr: "parse_char (c_str (sn_rest sc)) = returnR (chr, si)" "chr \<noteq> []" "length chr \<le> length (sn_rest sc)"
    using parse_char_ok [OF src] by blast
  from scanner_next_ok [OF sc chr(3)] chr(1,2) show ?thesis
    using True by (auto simp: lexer_take_def Let_def lexem_ok_def lexem_empty_def)
next
  case False
  let ?d = "lr_defar lx ! nat (bm_idx bm)"
  have idx: "nat (bm_idx bm) < length (lr_defar lx)" "bm_idx bm \<in> set (multimap_equal_range (lr_firstmap lx) c)"
    "def_match re ?d (sn_rest sc) = (bm_view bm, bm_len bm)" using best False by (auto simp: best_ok_def)
  have vec: "vec_at (lr_defar lx) (bm_idx bm) = Some ?d" using False idx(1) by (simp add: vec_at_def)
  have mem: "?d \<in> set (lr_defar lx)" using idx(1) by simp
  have len: "bm_len bm \<le> length (sn_rest sc)" using match_len_le [OF re, of ?d "sn_rest sc"] idx(3) by (simp add: match_len_def)
  show ?thesis
  proof (cases "df_id ?d = 0")
    case True
    then show ?thesis using False vec mem sc by (auto simp: lexer_take_def Let_def scanner_le_refl)
  next
    case id: False
    have "(c, int (nat (bm_idx bm))) \<in> set (lr_firstmap lx)" using idx(2) False by (auto simp: multimap_equal_range_def)
    then have "char_of c \<in> set (df_activate ?d)" using ok unfolding lexer_ok_def firstmap_ok_def by blast
    then have act: "df_activate ?d \<noteq> []" by auto
    obtain token sc1 where t: "(if il_open (lr_indent lx) \<noteq> 0 then get_indent_token (il_tabsize (lr_indent lx)) sc else (IndentNone, sc)) = (token, sc1)"
      by fastforce
    have sc1: "scanner_le sc sc1" "sn_pos sc1 = sn_pos sc"
      using t indent_token_le [OF _ sc] scanner_le_refl [OF sc] by (auto split: if_splits)
    then have rest: "sn_rest sc1 = sn_rest sc" "scanner_ok sc1" by (simp_all add: sn_rest_def scanner_le_def)
    show ?thesis
    proof (cases "token = IndentNone")
      case True
      obtain sc2 where sc2: "scanner_next (int (bm_len bm)) sc1 = returnR sc2" "scanner_le sc1 sc2"
        using scanner_next_ok [OF rest(2), of "bm_len bm"] len rest(1) by auto
      then show ?thesis using False vec id t True def_lexem_ok [OF ok mem id act] scanner_le_trans [OF sc1(1) sc2(2)]
        by (simp add: lexer_take_def Let_def)
    next
      case tok: False
      then have "il_open (lr_indent lx) \<noteq> 0" using t by (auto split: if_splits)
      then have ids: "{il_open (lr_indent lx), il_close (lr_indent lx), il_newline (lr_indent lx)} \<subseteq> {1..int (length (lr_namelist lx))}"
        using ok by (simp add: lexer_ok_def indent_ok_def)
      have ind: "\<exists>l. indent_lexem lx nid (sn_line sc) = returnR l \<and> lexem_ok lx l" if "nid \<in> {1..int (length (lr_namelist lx))}" for nid
        using indent_lexem_ok [OF ok, of nid "sn_line sc"] that by (fastforce simp: lexem_ok_def)
      have "\<exists>l1 l2 l3. indent_lexem lx (il_open (lr_indent lx)) (sn_line sc) = returnR l1 \<and> lexem_ok lx l1 \<and>
          indent_lexem lx (il_close (lr_indent lx)) (sn_line sc) = returnR l2 \<and> lexem_ok lx l2 \<and>
          indent_lexem lx (il_newline (lr_indent lx)) (sn_line sc) = returnR l3 \<and> lexem_ok lx l3"
        using ind ids by (metis insert_subset)
      then show ?thesis using False vec id t tok sc1 by (cases token) (auto simp: lexer_take_def Let_def)
    qed
  qed
qed

subsection \<open>The loop\<close>

definition no_ignore :: "lexer \<Rightarrow> bool" where
  "no_ignore lx \<longleftrightarrow> (\<forall>d \<in> set (lr_defar lx). df_id d \<noteq> 0)"

text \<open>
  The lexem \<open>l\<close> is the longest match at the scanner \<open>sc\<close> among the definitions the first character activates,
  a keyword if a keyword is as long.
\<close>

definition longest_match :: "regex_engine \<Rightarrow> lexer \<Rightarrow> scanner \<Rightarrow> lexem \<Rightarrow> scanner \<Rightarrow> bool" where
  "longest_match re lx sc l sc' \<longleftrightarrow> sn_rest sc \<noteq> [] \<and>
     (\<exists>d \<in> set (lr_defar lx). hd (sn_rest sc) \<in> set (df_activate d) \<and>
       lm_name l = df_name d \<and> lm_id l = df_id d \<and> lm_line l = sn_line sc \<and> lm_value l = fst (fst (def_match re d (sn_rest sc))) \<and>
       sn_pos sc + match_len re d (sn_rest sc) \<le> sn_pos sc' \<and>
       (\<forall>e \<in> set (lr_defar lx). hd (sn_rest sc) \<in> set (df_activate e) \<longrightarrow>
          match_len re e (sn_rest sc) \<le> match_len re d (sn_rest sc) \<and>
          (df_keyword e \<and> match_len re e (sn_rest sc) = match_len re d (sn_rest sc) \<longrightarrow> df_keyword d)))"

lemma byte_less [simp]: "byte c < 256" "char_of (byte c) = c"
  by (simp_all add: byte_def)

lemma activated_range:
  assumes "lexer_ok lx"
  shows "0 \<le> idx \<Longrightarrow> idx \<in> set (multimap_equal_range (lr_firstmap lx) (byte c)) \<longleftrightarrow> nat idx < length (lr_defar lx) \<and> c \<in> set (df_activate (lr_defar lx ! nat idx))"
proof -
  assume "0 \<le> idx"
  then obtain i where i: "idx = int i" using nonneg_int_cases by blast
  have "idx \<in> set (multimap_equal_range (lr_firstmap lx) (byte c)) \<longleftrightarrow> (byte c, int i) \<in> set (lr_firstmap lx)"
    by (force simp: multimap_equal_range_def i)
  also have "\<dots> \<longleftrightarrow> i < length (lr_defar lx) \<and> c \<in> set (df_activate (lr_defar lx ! i))"
    using assms unfolding lexer_ok_def firstmap_ok_def by (metis byte_less)
  finally show ?thesis by (simp add: i)
qed

lemma lexer_take_longest:
  assumes ok: "lexer_ok lx" and re: "regex_ok re" and sc: "scanner_ok sc" "il_open (lr_indent lx) = 0" "sn_rest sc \<noteq> []"
    and best: "best_ok re lx (sn_rest sc) (set (multimap_equal_range (lr_firstmap lx) (byte (hd (sn_rest sc))))) bm"
    and take: "lexer_take lx bm sc = returnR (Some (l, view), sc')" "1 \<le> lm_id l"
  shows "longest_match re lx sc l sc'"
proof -
  let ?src = "sn_rest sc" and ?i = "nat (bm_idx bm)"
  let ?d = "lr_defar lx ! ?i"
  have idx: "0 \<le> bm_idx bm" using take by (auto simp: lexer_take_def Let_def bindR_eq_returnR split: if_splits)
  then have i: "?i < length (lr_defar lx)" "bm_idx bm \<in> set (multimap_equal_range (lr_firstmap lx) (byte (hd ?src)))"
    "def_match re ?d ?src = (bm_view bm, bm_len bm)" using best by (auto simp: best_ok_def)
  have act: "hd ?src \<in> set (df_activate ?d)" using activated_range [OF ok idx] i(2) by blast
  have len: "match_len re ?d ?src = bm_len bm" using i(3) by (simp add: match_len_def)
  have take': "lexer_take lx bm sc = (if df_id ?d = 0 then returnR (None, sc)
      else bindR (scanner_next (int (bm_len bm)) sc) (\<lambda>sc2.
        returnR (Some (\<lparr>lm_name = df_name ?d, lm_value = fst (bm_view bm), lm_id = df_id ?d, lm_line = sn_line sc\<rparr>, bm_view bm), sc2)))"
    using idx i(1) sc(2) by (simp add: lexer_take_def Let_def vec_at_def)
  obtain sc2 where sc2: "scanner_next (int (bm_len bm)) sc = returnR sc2" "sn_pos sc + bm_len bm \<le> sn_pos sc2"
    using scanner_next_ok [OF sc(1), of "bm_len bm"] match_len_le [OF re, of ?d ?src] len by auto
  then have l: "lm_name l = df_name ?d" "lm_id l = df_id ?d" "lm_line l = sn_line sc" "lm_value l = fst (fst (def_match re ?d ?src))" "sc' = sc2"
    using take take' i(3) by (auto split: if_splits)
  have "match_len re e ?src \<le> match_len re ?d ?src \<and> (df_keyword e \<and> match_len re e ?src = match_len re ?d ?src \<longrightarrow> df_keyword ?d)"
    if e: "e \<in> set (lr_defar lx)" "hd ?src \<in> set (df_activate e)" for e
  proof -
    obtain j where j: "j < length (lr_defar lx)" "lr_defar lx ! j = e" using e(1) by (auto simp: in_set_conv_nth)
    then have "int j \<in> set (multimap_equal_range (lr_firstmap lx) (byte (hd ?src)))" using activated_range [OF ok, of "int j"] e(2) by simp
    then have "0 \<le> int j \<longrightarrow> match_len re (lr_defar lx ! nat (int j)) ?src \<le> bm_len bm"
      "0 \<le> int j \<and> df_keyword (lr_defar lx ! nat (int j)) \<and> match_len re (lr_defar lx ! nat (int j)) ?src = bm_len bm \<longrightarrow>
        0 \<le> bm_idx bm \<and> df_keyword (lr_defar lx ! nat (bm_idx bm))"
      using best unfolding best_ok_def by blast+
    then show ?thesis using j len by simp
  qed
  then show ?thesis using sc(3) i(1) act l sc2(2) len unfolding longest_match_def by (metis nth_mem)
qed

lemma lexer_iteration_ok:
  assumes ok: "lexer_ok lx" and re: "regex_ok re" and sc0: "scanner_ok sc0"
  shows "\<exists>res sc'. lexer_iteration re lx sc0 = returnR (res, sc') \<and> scanner_le sc0 sc' \<and>
    (case res of
       None \<Rightarrow> no_ignore lx \<and> comments_start lx \<longrightarrow> sn_pos sc0 < sn_pos sc'
     | Some (l, view) \<Rightarrow> lexem_ok lx l \<and> (il_open (lr_indent lx) = 0 \<and> 1 \<le> lm_id l \<longrightarrow> (\<exists>sc. scanner_le sc0 sc \<and> longest_match re lx sc l sc')))"
proof -
  obtain sc where sc: "scanner_next 0 sc0 = returnR sc" "scanner_le sc0 sc" using scanner_next_ok [OF sc0, of 0] by auto
  then have sc_ok: "scanner_ok sc" by (simp add: scanner_le_def)
  obtain c cs where c: "c_str (sn_rest sc) = c # cs" by (cases "c_str (sn_rest sc)") (auto simp: c_str_def)
  then have d: "deref (c_str (sn_rest sc)) = returnR c" by (simp add: deref_def)
  show ?thesis
  proof (cases "c = nul")
    case True
    obtain token sc1 where t: "(if il_open (lr_indent lx) \<noteq> 0 then get_eof_indent_token sc else (IndentNone, sc)) = (token, sc1)" by fastforce
    have le: "scanner_le sc0 sc1"
      using t eof_indent_token_le [OF _ sc_ok] scanner_le_refl [OF sc_ok] scanner_le_trans [OF sc(2)] by (auto split: if_splits)
    show ?thesis
    proof (cases "token = IndentClose")
      case tok: True
      then have open0: "il_open (lr_indent lx) \<noteq> 0" using t by (auto split: if_splits)
      then have "il_close (lr_indent lx) \<in> {1..int (length (lr_namelist lx))}" using ok by (simp add: lexer_ok_def indent_ok_def)
      then obtain l where "indent_lexem lx (il_close (lr_indent lx)) (sn_line sc1) = returnR l" "lexem_ok lx l"
        using indent_lexem_ok [OF ok, of "il_close (lr_indent lx)" "sn_line sc1"] by (fastforce simp: lexem_ok_def)
      then show ?thesis using sc(1) d True t tok le open0 by (simp add: lexer_iteration_def)
    next
      case False
      then show ?thesis using sc(1) d True t le by (simp add: lexer_iteration_def lexem_ok_def eof_lexem_def lexem_empty_def)
    qed
  next
    case False
    then have src: "sn_rest sc \<noteq> []" "hd (sn_rest sc) = c" using c by (auto simp: c_str_def append_eq_Cons_conv)
    let ?range = "multimap_equal_range (lr_firstmap lx) (byte c)"
    have start: "best_ok re lx (sn_rest sc) {} \<lparr>bm_len = 0, bm_idx = -1, bm_view = ([], [])\<rparr>" by (simp add: best_ok_def)
    obtain out sc1 where out: "lexer_range re lx ?range \<lparr>bm_len = 0, bm_idx = -1, bm_view = ([], [])\<rparr> sc = returnR (out, sc1)"
      "range_ok re lx ({} \<union> set ?range) sc out sc1"
      using lexer_range_ok [OF ok sc_ok range_idx_ok [OF ok] start] by blast
    have le1: "scanner_le sc0 sc1" using out(2) scanner_le_trans [OF sc(2)] by (simp add: range_ok_def)
    have it: "lexer_iteration re lx sc0 = (case out of RangeLexem l view \<Rightarrow> returnR (Some (l, view), sc1)
           | RangeSkipped \<Rightarrow> returnR (None, sc1) | RangeEnd bm \<Rightarrow> lexer_take lx bm sc1)"
      using sc(1) d False out(1) by (simp add: lexer_iteration_def)
    show ?thesis
    proof (cases out)
      case (RangeLexem l view)
      then show ?thesis using it le1 out(2) by (auto simp: range_ok_def lexem_ok_def)
    next
      case RangeSkipped
      then show ?thesis using it le1 out(2) sc(2) by (auto simp: range_ok_def scanner_le_def)
    next
      case (RangeEnd bm)
      then have best: "sc1 = sc" "best_ok re lx (sn_rest sc) (set (multimap_equal_range (lr_firstmap lx) (byte (hd (sn_rest sc))))) bm"
        using out(2) src(2) by (auto simp: range_ok_def)
      have "hd (sn_rest sc) \<noteq> nul" using src(2) False by simp
      from lexer_take_ok [OF ok re sc_ok src(1) this best(2)] obtain res sc' where res: "lexer_take lx bm sc = returnR (res, sc')"
        "scanner_le sc sc'" "case res of None \<Rightarrow> \<exists>d \<in> set (lr_defar lx). df_id d = 0 | Some (l, view) \<Rightarrow> lexem_ok lx l" by blast
      have le: "scanner_le sc0 sc'" by (rule scanner_le_trans [OF sc(2) res(2)])
      show ?thesis
      proof (cases res)
        case None
        then show ?thesis using it RangeEnd best(1) res le by (auto simp: no_ignore_def)
      next
        case (Some r)
        obtain l view where r: "r = (l, view)" by (cases r)
        have "longest_match re lx sc l sc'" if "il_open (lr_indent lx) = 0" "1 \<le> lm_id l"
          using lexer_take_longest [OF ok re sc_ok that(1) src(1) best(2)] res(1) Some r that(2) by blast
        then show ?thesis using it RangeEnd best(1) res le sc(2) by (auto simp: Some r)
      qed
    qed
  qed
qed

lemma lexer_iteration_scanner_ok: "lexer_iteration re lx sc = returnR r \<Longrightarrow> scanner_ok sc"
  by (auto simp: lexer_iteration_def scanner_next_def scanner_ok_def Let_def bindR_eq_returnR split: if_splits)

lemma lexer_next_view_ok:
  assumes ok: "lexer_ok lx" and re: "regex_ok re" and y: "lexer_next_view re lx sc = Some y" and sc: "scanner_ok sc"
  shows "\<exists>l view sc'. y = Inr (l, view, sc') \<and> lexem_ok lx l \<and> scanner_le sc sc' \<and>
    (il_open (lr_indent lx) = 0 \<and> 1 \<le> lm_id l \<longrightarrow> (\<exists>sc1. scanner_le sc sc1 \<and> longest_match re lx sc1 l sc'))"
proof -
  let ?P = "\<lambda>(re' :: regex_engine) (lx' :: lexer) (sc :: scanner) (y :: error + (lexem \<times> view \<times> scanner)).
    re' = re \<longrightarrow> lx' = lx \<longrightarrow> scanner_ok sc \<longrightarrow> (\<exists>l view sc'. y = Inr (l, view, sc') \<and> lexem_ok lx l \<and> scanner_le sc sc' \<and>
      (il_open (lr_indent lx) = 0 \<and> 1 \<le> lm_id l \<longrightarrow> (\<exists>sc1. scanner_le sc sc1 \<and> longest_match re lx sc1 l sc')))"
  have "?P re lx sc y"
    using y
  proof (rule lexer_next_view.raw_induct [where P = ?P, rotated], intro impI)
    fix self re' lx' sc y
    assume IH: "\<And>re' lx' sc y. self re' lx' sc = Some y \<Longrightarrow> ?P re' lx' sc y"
      and body: "bindR (lexer_iteration re' lx' sc) (\<lambda>(res, sc'). case res of Some (l, view) \<Rightarrow> returnR (l, view, sc') | None \<Rightarrow> self re' lx' sc') = Some y"
      and eqs: "re' = re" "lx' = lx" and sc: "scanner_ok sc"
    obtain res sc' where it: "lexer_iteration re lx sc = returnR (res, sc')" "scanner_le sc sc'"
      "case res of None \<Rightarrow> no_ignore lx \<and> comments_start lx \<longrightarrow> sn_pos sc < sn_pos sc'
       | Some (l, view) \<Rightarrow> lexem_ok lx l \<and> (il_open (lr_indent lx) = 0 \<and> 1 \<le> lm_id l \<longrightarrow> (\<exists>sc1. scanner_le sc sc1 \<and> longest_match re lx sc1 l sc'))"
      using lexer_iteration_ok [OF ok re sc] by blast
    show "\<exists>l view sc'. y = Inr (l, view, sc') \<and> lexem_ok lx l \<and> scanner_le sc sc' \<and>
      (il_open (lr_indent lx) = 0 \<and> 1 \<le> lm_id l \<longrightarrow> (\<exists>sc1. scanner_le sc sc1 \<and> longest_match re lx sc1 l sc'))"
    proof (cases res)
      case None
      then have "self re lx sc' = Some y" using body it(1) eqs by simp
      from IH [OF this] it(2) show ?thesis using scanner_le_trans [OF it(2)] by (fastforce simp: scanner_le_def)
    next
      case (Some r)
      obtain l view where r: "r = (l, view)" by (cases r)
      then have "y = Inr (l, view, sc')" using body it(1) eqs Some by (simp add: returnR_def)
      then show ?thesis using it(2,3) by (simp add: Some r)
    qed
  qed
  then show ?thesis using sc by blast
qed

lemma lexer_next_view_returns:
  assumes ok: "lexer_ok lx" and re: "regex_ok re" and plain: "no_ignore lx" "comments_start lx"
  shows "scanner_ok sc \<Longrightarrow> \<exists>r. lexer_next_view re lx sc = returnR r"
proof (induction "length (sn_src sc) - sn_pos sc" arbitrary: sc rule: less_induct)
  case less
  obtain res sc' where it: "lexer_iteration re lx sc = returnR (res, sc')" "scanner_le sc sc'"
    "res = None \<longrightarrow> sn_pos sc < sn_pos sc'"
    using lexer_iteration_ok [OF ok re less.prems] plain by fastforce
  show ?case
  proof (cases res)
    case None
    have "length (sn_src sc') - sn_pos sc' < length (sn_src sc) - sn_pos sc" "scanner_ok sc'"
      using it None by (auto simp: scanner_le_def scanner_ok_def)
    then show ?thesis using less.hyps it(1) None by (simp add: lexer_next_view.simps [of re lx sc])
  next
    case (Some r)
    then show ?thesis using it(1) by (cases r) (simp add: lexer_next_view.simps [of re lx sc])
  qed
qed

lemma lexer_next_spec:
  assumes "lexer_ok lx" "regex_ok re" "lexer_next re lx sc = returnR (l, sc')"
  shows "lexem_ok lx l" "scanner_le sc sc'"
    "il_open (lr_indent lx) = 0 \<Longrightarrow> 1 \<le> lm_id l \<Longrightarrow> \<exists>sc1. scanner_le sc sc1 \<and> longest_match re lx sc1 l sc'"
proof -
  obtain view where "lexer_next_view re lx sc = returnR (l, view, sc')"
    using assms(3) by (auto simp: lexer_next_def bindR_eq_returnR)
  then have v: "lexer_next_view re lx sc = Some (Inr (l, view, sc'))" by (simp add: returnR_def)
  then have "scanner_ok sc" using lexer_iteration_scanner_ok
    by (subst (asm) lexer_next_view.simps) (auto simp: bindR_def returnR_def split: option.splits sum.splits)
  from lexer_next_view_ok [OF assms(1,2) v this]
  show "lexem_ok lx l" "scanner_le sc sc'"
    "il_open (lr_indent lx) = 0 \<Longrightarrow> 1 \<le> lm_id l \<Longrightarrow> \<exists>sc1. scanner_le sc sc1 \<and> longest_match re lx sc1 l sc'" by auto
qed

subsection \<open>Properties\<close>

text \<open>An engine for patterns without operators: a pattern matches itself.\<close>

definition literal_engine :: regex_engine where
  "literal_engine = \<lparr>re_valid = (\<lambda>_. True),
     re_search = (\<lambda>p s. if p \<noteq> [] \<and> take (length p) s = p then Some [(0, length p)] else None)\<rparr>"

lemma literal_engine_ok: "regex_ok literal_engine"
proof -
  have "length p \<le> length s" if "take (length p) s = p" for p s :: string using that by (metis length_take min.cobounded1)
  then show ?thesis by (auto simp: regex_ok_def literal_engine_def split: if_splits)
qed

text \<open>A lexer with the keyword \<open>if\<close> and a name \<open>i\<close>.\<close>

definition if_lexer :: "lexer run" where
  "if_lexer = bindR (define_keyword literal_engine (''if'', []) lexer_new) (\<lambda>(_, lx).
     bindR (define_lexem literal_engine 1 ''ID'' ''i'' 0 lx) (\<lambda>(_, lx). returnR lx))"

definition if_lexer_value :: lexer where
  "if_lexer_value = \<lparr>lr_errorline = 0, lr_errorvalue = ''?'',
     lr_defar = [\<lparr>df_line = 0, df_name = ''if'', df_source = ''if'', df_activate = ''i'', df_select = 0, df_id = 1, df_keyword = True\<rparr>,
       \<lparr>df_line = 1, df_name = ''ID'', df_source = ''i'', df_activate = ''i'', df_select = 0, df_id = 2, df_keyword = False\<rparr>],
     lr_firstmap = [(105, 0), (105, 1)], lr_nameidmap = [(''if'', 1), (''ID'', 2)], lr_namelist = [[CHR 0x22, CHR ''i'', CHR ''f'', CHR 0x22], ''ID''],
     lr_id2keyword = [False, True, False], lr_bracketcomments = [], lr_eolncomments = [],
     lr_indent = \<lparr>il_line = 0, il_open = 0, il_close = 0, il_newline = 0, il_tabsize = 0\<rparr>\<rparr>"

lemma filter_single: "filter (\<lambda>i. i = n) [0..<m] = (if n < m then [n] else [])"
  by (induction m) auto

lemma first_chars_single: "filter (\<lambda>ii. char_of ii = c) [0..<256] = [byte c]"
proof -
  have "filter (\<lambda>ii. char_of ii = c) [0..<256] = filter (\<lambda>ii. ii = byte c) [0..<256]"
    by (rule filter_cong) (auto simp: byte_def)
  then show ?thesis by (simp add: filter_single)
qed

lemmas pattern_eval = string_to_regex_def c_text_def strchr_found_def regex_escape_chars_def c_str_def nul_def newline_def activation_def
  activation_loop.simps parse_first_char_def deref_def utf8charlen_def byte_word_def bit_scan_reverse_def byte_def

lemma if_patterns: "string_to_regex (''if'', []) = ''if''" "activation ''if'' = returnR ''i''" "activation ''i'' = returnR ''i''"
  by (simp_all add: pattern_eval)

lemma if_lexer_eval: "if_lexer = returnR if_lexer_value"
  by (simp add: if_lexer_def if_lexer_value_def define_keyword_def define_lexem_def define_lexem_entry_def enter_lexem_def_def
      mk_lexem_def_def if_patterns add_first_chars_def first_chars_single grow_keywords_def lexer_new_def literal_engine_def
      name_string_def byte_def)

lemma if_lexer_reachable: "lexer_reachable literal_engine if_lexer_value"
proof -
  obtain n1 lx1 n2 where "define_keyword literal_engine (''if'', []) lexer_new = returnR (n1, lx1)"
    "define_lexem literal_engine 1 ''ID'' ''i'' 0 lx1 = returnR (n2, if_lexer_value)"
    using if_lexer_eval by (auto simp: if_lexer_def bindR_eq_returnR)
  then show ?thesis by (meson lexer_new lexer_keyword lexer_define)
qed

lemma scanner_next_same: "scanner_ok sc \<Longrightarrow> \<not> blank (hd (sn_rest sc)) \<Longrightarrow> sn_rest sc \<noteq> [] \<Longrightarrow> scanner_next 0 sc = returnR sc"
  by (cases "sn_rest sc") (auto simp: scanner_next_def sn_rest_def scanner_ok_def count_newlines_def)

lemma lexer_range_no_comment:
  "\<forall>idx \<in> set idxs. 0 \<le> idx \<Longrightarrow> lexer_range re lx idxs bm sc = returnR (out, sc') \<Longrightarrow> \<exists>bm. out = RangeEnd bm"
proof (induction idxs arbitrary: bm)
  case (Cons idx idxs)
  have idx: "idx \<noteq> match_eoln_comment" "idx \<noteq> match_bracket_comment" "\<not> idx \<ge> int (length (lr_defar lx))"
    using Cons.prems by (auto simp: match_eoln_comment_def match_bracket_comment_def split: if_splits)
  obtain d where d: "liftR (vec_at (lr_defar lx) idx) = returnR d" using Cons.prems(2) idx by (auto simp: bindR_eq_returnR)
  obtain view len where m: "def_match re d (sn_rest sc) = (view, len)" by fastforce
  obtain bm' where "lexer_range re lx idxs bm' sc = returnR (out, sc')"
    using Cons.prems(2) idx d m by (auto split: if_splits)
  from Cons.IH [OF _ this] Cons.prems(1) show ?case by simp
qed auto

text \<open>At a character no comment starts with, the lexer takes the best match.\<close>

lemma iteration_no_comment:
  assumes "lexer_ok lx" "scanner_ok sc" "sn_rest sc = c # cs" "\<not> blank c" "c \<noteq> nul"
    "\<And>idx. (byte c, idx) \<in> set (lr_firstmap lx) \<Longrightarrow> 0 \<le> idx"
  obtains bm where "lexer_iteration re lx sc = lexer_take lx bm sc"
    "best_ok re lx (sn_rest sc) (set (multimap_equal_range (lr_firstmap lx) (byte c))) bm"
proof -
  let ?range = "multimap_equal_range (lr_firstmap lx) (byte c)"
  have "best_ok re lx (sn_rest sc) {} \<lparr>bm_len = 0, bm_idx = -1, bm_view = ([], [])\<rparr>" by (simp add: best_ok_def)
  from lexer_range_ok [OF assms(1,2) range_idx_ok [OF assms(1), of "byte c"] this] obtain out sc1
    where out: "lexer_range re lx ?range \<lparr>bm_len = 0, bm_idx = -1, bm_view = ([], [])\<rparr> sc = returnR (out, sc1)" "range_ok re lx (set ?range) sc out sc1"
    by auto
  have "\<forall>idx \<in> set ?range. 0 \<le> idx" using assms(6) by (auto simp: multimap_equal_range_def)
  then obtain bm where bm: "out = RangeEnd bm" using lexer_range_no_comment [OF _ out(1)] by blast
  then have "sc1 = sc" "best_ok re lx (sn_rest sc) (set ?range) bm" using out(2) by (simp_all add: range_ok_def)
  moreover have "scanner_next 0 sc = returnR sc" using scanner_next_same [OF assms(2)] assms(3,4) by simp
  ultimately show ?thesis using that out(1) bm assms(3,5) by (simp add: lexer_iteration_def c_str_def deref_def)
qed

lemma lexer_next_stuck: "lexer_iteration re lx sc = returnR (None, sc) \<Longrightarrow> lexer_next re lx sc = None"
proof -
  assume it: "lexer_iteration re lx sc = returnR (None, sc)"
  let ?P = "\<lambda>(re' :: regex_engine) (lx' :: lexer) (sc' :: scanner) (y :: error + (lexem \<times> view \<times> scanner)). \<not> (re' = re \<and> lx' = lx \<and> sc' = sc)"
  have "?P re lx sc y" if "lexer_next_view re lx sc = Some y" for y
    using that
  proof (rule lexer_next_view.raw_induct [where P = ?P, rotated])
    fix self re' lx' sc' y
    assume IH: "\<And>re' lx' sc' y. self re' lx' sc' = Some y \<Longrightarrow> ?P re' lx' sc' y"
      and body: "bindR (lexer_iteration re' lx' sc') (\<lambda>(res, sc'). case res of Some (l, view) \<Rightarrow> returnR (l, view, sc') | None \<Rightarrow> self re' lx' sc') = Some y"
    show "?P re' lx' sc' y"
    proof
      assume eqs: "re' = re \<and> lx' = lx \<and> sc' = sc"
      then have "self re lx sc = Some y" using body it by simp
      from IH [OF this] show False by simp
    qed
  qed
  then show ?thesis by (cases "lexer_next_view re lx sc") (auto simp: lexer_next_def)
qed



text \<open>
  C33: Fetching a lexem ends, for a lexer without patterns to ignore, whatever the source is: every comment that
  is skipped moves the scanner forward.
\<close>

theorem lexer_next_ends:
  assumes "lexer_reachable re lx" "regex_ok re" "scanner_ok sc" "no_ignore lx" "comments_start lx"
  shows "\<exists>l sc'. lexer_next re lx sc = returnR (l, sc')"
  using lexer_next_view_returns [OF lexer_reachable_ok [OF assms(1)] assms(2,4,5,3)]
  by (auto simp: lexer_next_def)

theorem lexer_next_ends_witness: "\<exists>l sc'. lexer_next literal_engine if_lexer_value (scanner_new ''if i'') = returnR (l, sc')"
  by (rule lexer_next_ends [OF if_lexer_reachable literal_engine_ok])
    (simp_all add: scanner_ok_def scanner_new_def no_ignore_def comments_start_def if_lexer_value_def)


lemma if_lexer_next:
  "lexer_next literal_engine if_lexer_value (scanner_new ''if'') =
     returnR (\<lparr>lm_name = ''if'', lm_value = ''if'', lm_id = 1, lm_line = 1\<rparr>, (scanner_new ''if'')\<lparr>sn_pos := 2\<rparr>)"
  unfolding lexer_next_def
  by (subst lexer_next_view.simps)
    (simp add: lexer_iteration_def lexer_take_def scanner_next_def scanner_new_def if_lexer_value_def literal_engine_def def_match_def
      multimap_equal_range_def vec_at_def match_eoln_comment_def match_bracket_comment_def sn_rest_def count_newlines_def blank_def
      c_str_def deref_def nul_def newline_def byte_def)


text \<open>
  C35: A text that matches a pattern to ignore, and no lexem as long, is not skipped: the loop of the lexer
  goes on at the same place and never ends.
\<close>

theorem ignored_pattern_stuck:
  assumes "lexer_reachable re lx" "regex_ok re" "scanner_ok sc" "sn_rest sc = c # cs" "\<not> blank c" "c \<noteq> nul"
    "\<And>idx. (byte c, idx) \<in> set (lr_firstmap lx) \<Longrightarrow> 0 \<le> idx"
    "d \<in> set (lr_defar lx)" "c \<in> set (df_activate d)" "df_id d = 0" "0 < match_len re d (sn_rest sc)"
    "\<And>e. e \<in> set (lr_defar lx) \<Longrightarrow> df_id e \<noteq> 0 \<Longrightarrow> match_len re e (sn_rest sc) < match_len re d (sn_rest sc)"
  shows "lexer_next re lx sc = None"
proof -
  note ok = lexer_reachable_ok [OF assms(1)]
  obtain bm where bm: "lexer_iteration re lx sc = lexer_take lx bm sc"
    "best_ok re lx (sn_rest sc) (set (multimap_equal_range (lr_firstmap lx) (byte c))) bm"
    by (rule iteration_no_comment [OF ok assms(3-7)])
  obtain j where j: "j < length (lr_defar lx)" "lr_defar lx ! j = d" using assms(8) by (auto simp: in_set_conv_nth)
  then have "int j \<in> set (multimap_equal_range (lr_firstmap lx) (byte c))" using activated_range [OF ok, of "int j"] assms(9) by simp
  then have "0 \<le> int j \<longrightarrow> match_len re (lr_defar lx ! nat (int j)) (sn_rest sc) \<le> bm_len bm" using bm(2) unfolding best_ok_def by blast
  then have len: "match_len re d (sn_rest sc) \<le> bm_len bm" using j by simp
  let ?e = "lr_defar lx ! nat (bm_idx bm)"
  have idx: "\<not> bm_idx bm < 0" "nat (bm_idx bm) < length (lr_defar lx)" "match_len re ?e (sn_rest sc) = bm_len bm"
    using bm(2) len assms(11) by (auto simp: best_ok_def match_len_def split: if_splits)
  then have "df_id ?e = 0" using assms(12) [of ?e] len by fastforce
  then have "lexer_take lx bm sc = returnR (None, sc)" using idx by (simp add: lexer_take_def Let_def vec_at_def)
  then show ?thesis using lexer_next_stuck bm(1) by simp
qed

text \<open>A lexer that ignores \<open>x\<close>.\<close>

definition ignore_lexer :: lexer where
  "ignore_lexer = \<lparr>lr_errorline = 0, lr_errorvalue = ''?'',
     lr_defar = [\<lparr>df_line = 1, df_name = [], df_source = ''x'', df_activate = ''x'', df_select = 0, df_id = 0, df_keyword = False\<rparr>],
     lr_firstmap = [(120, 0)], lr_nameidmap = [], lr_namelist = [], lr_id2keyword = [], lr_bracketcomments = [], lr_eolncomments = [],
     lr_indent = \<lparr>il_line = 0, il_open = 0, il_close = 0, il_newline = 0, il_tabsize = 0\<rparr>\<rparr>"

lemma ignore_lexer_reachable: "lexer_reachable literal_engine ignore_lexer"
proof -
  have "define_ignore literal_engine 1 ''x'' lexer_new = returnR ignore_lexer"
    by (simp add: define_ignore_def define_lexem_entry_def enter_lexem_def_def mk_lexem_def_def add_first_chars_def first_chars_single
        lexer_new_def ignore_lexer_def literal_engine_def pattern_eval)
  then show ?thesis by (rule lexer_ignore [OF lexer_reachable.lexer_new])
qed

theorem ignored_pattern_stuck_witness: "lexer_next literal_engine ignore_lexer (scanner_new ''x'') = None"
  by (rule ignored_pattern_stuck [OF ignore_lexer_reachable literal_engine_ok, where c = "CHR ''x''" and cs = "[]" and d = "hd (lr_defar ignore_lexer)"])
    (simp_all add: scanner_ok_def scanner_new_def sn_rest_def ignore_lexer_def blank_def byte_def nul_def match_len_def def_match_def literal_engine_def)

text \<open>
  Where no definition that is activated matches but one of them is a keyword, the lexer returns a keyword
  with an empty value instead of a bad lexem, and the scanner stays where it is.
\<close>

theorem unmatched_keyword_returned:
  assumes "lexer_reachable re lx" "regex_ok re" "scanner_ok sc" "sn_rest sc = c # cs" "\<not> blank c" "c \<noteq> nul" "il_open (lr_indent lx) = 0"
    "\<And>idx. (byte c, idx) \<in> set (lr_firstmap lx) \<Longrightarrow> 0 \<le> idx"
    "\<And>e. e \<in> set (lr_defar lx) \<Longrightarrow> match_len re e (sn_rest sc) = 0"
    "d \<in> set (lr_defar lx)" "c \<in> set (df_activate d)" "df_keyword d"
  shows "\<exists>l. lexer_next re lx sc = returnR (l, sc) \<and> 1 \<le> lm_id l \<and> lm_value l = []"
proof -
  note ok = lexer_reachable_ok [OF assms(1)]
  obtain bm where bm: "lexer_iteration re lx sc = lexer_take lx bm sc"
    "best_ok re lx (sn_rest sc) (set (multimap_equal_range (lr_firstmap lx) (byte c))) bm"
    by (rule iteration_no_comment [OF ok assms(3-6,8)])
  obtain j where j: "j < length (lr_defar lx)" "lr_defar lx ! j = d" using assms(10) by (auto simp: in_set_conv_nth)
  then have mem: "int j \<in> set (multimap_equal_range (lr_firstmap lx) (byte c))" using activated_range [OF ok, of "int j"] assms(11) by simp
  let ?e = "lr_defar lx ! nat (bm_idx bm)"
  have len: "bm_len bm = 0"
    using bm(2) assms(9) unfolding best_ok_def match_len_def by (metis nth_mem snd_conv)
  then have "match_len re (lr_defar lx ! nat (int j)) (sn_rest sc) = bm_len bm" using assms(9,10) j(2) by simp
  then have idx: "0 \<le> bm_idx bm" "df_keyword ?e" using bm(2) mem j assms(12) unfolding best_ok_def by (metis nat_int of_nat_0_le_iff)+
  then have e: "nat (bm_idx bm) < length (lr_defar lx)" "def_match re ?e (sn_rest sc) = (bm_view bm, bm_len bm)"
    using bm(2) by (auto simp: best_ok_def)
  have "bm_view bm = ([], [])"
  proof (cases "re_search re (df_source ?e) (sn_rest sc)")
    case None
    then show ?thesis using e(2) by (simp add: def_match_def)
  next
    case (Some groups)
    then have "0 < snd (groups ! 0)" using assms(2) unfolding regex_ok_def by blast
    then show ?thesis using e(2) len Some by (auto simp: def_match_def split: if_splits prod.splits)
  qed
  moreover have "?e \<in> set (lr_defar lx)" using e(1) by simp
  then have "def_ok (lr_nameidmap lx) ?e" using ok by (simp add: lexer_ok_def)
  then have "df_id ?e \<noteq> 0 \<and> (df_name ?e, df_id ?e) \<in> set (lr_nameidmap lx)" using idx(2) by (auto simp: def_ok_def split: if_splits)
  then have "df_id ?e \<noteq> 0" "1 \<le> df_id ?e" using ok names_ok_id unfolding lexer_ok_def by blast+
  moreover have "scanner_next 0 sc = returnR sc" using scanner_next_same [OF assms(3)] assms(4,5) by simp
  ultimately have "lexer_take lx bm sc = returnR (Some (\<lparr>lm_name = df_name ?e, lm_value = [], lm_id = df_id ?e, lm_line = sn_line sc\<rparr>, ([], [])), sc)"
    using idx e(1) assms(7) len by (simp add: lexer_take_def Let_def vec_at_def)
  then show ?thesis using bm(1) \<open>1 \<le> df_id ?e\<close> by (simp add: lexer_next_def lexer_next_view.simps [of re lx sc])
qed

text \<open>A lexer with the keyword \<open>if\<close> alone.\<close>

definition keyword_lexer :: lexer where
  "keyword_lexer = \<lparr>lr_errorline = 0, lr_errorvalue = ''?'',
     lr_defar = [\<lparr>df_line = 0, df_name = ''if'', df_source = ''if'', df_activate = ''i'', df_select = 0, df_id = 1, df_keyword = True\<rparr>],
     lr_firstmap = [(105, 0)], lr_nameidmap = [(''if'', 1)], lr_namelist = [[CHR 0x22, CHR ''i'', CHR ''f'', CHR 0x22]],
     lr_id2keyword = [False, True], lr_bracketcomments = [], lr_eolncomments = [],
     lr_indent = \<lparr>il_line = 0, il_open = 0, il_close = 0, il_newline = 0, il_tabsize = 0\<rparr>\<rparr>"

lemma keyword_lexer_reachable: "lexer_reachable literal_engine keyword_lexer"
proof -
  have "define_keyword literal_engine (''if'', []) lexer_new = returnR (1, keyword_lexer)"
    by (simp add: define_keyword_def define_lexem_entry_def enter_lexem_def_def mk_lexem_def_def if_patterns add_first_chars_def
        first_chars_single grow_keywords_def lexer_new_def literal_engine_def name_string_def keyword_lexer_def byte_def)
  then show ?thesis by (rule lexer_keyword [OF lexer_reachable.lexer_new])
qed

theorem unmatched_keyword_returned_witness:
  "\<exists>l. lexer_next literal_engine keyword_lexer (scanner_new ''i'') = returnR (l, scanner_new ''i'') \<and> 1 \<le> lm_id l \<and> lm_value l = []"
  by (rule unmatched_keyword_returned [OF keyword_lexer_reachable literal_engine_ok, where c = "CHR ''i''" and cs = "[]" and d = "hd (lr_defar keyword_lexer)"])
    (simp_all add: scanner_ok_def scanner_new_def sn_rest_def keyword_lexer_def blank_def byte_def nul_def match_len_def def_match_def literal_engine_def)

end
