(* ===== verification/LrMachineProps.thy ===== *)
theory LrMachineProps
  imports LrMachine
begin

text \<open>
  The indices into the Lua stack that the machine of \<open>src/lua_run_compiler.cpp\<close> keeps, for any tables:
  the states with elements divide the stack into consecutive ranges, so that the check after each
  lexem holds, and the nodes that are left in the end hold all lexems of the source in order.
\<close>

subsection \<open>Consecutive ranges\<close>

fun contiguous :: "int \<Rightarrow> pstate list \<Rightarrow> bool" where
  "contiguous k [] \<longleftrightarrow> True"
| "contiguous k (st # sts) \<longleftrightarrow>
     (if st_luastki st = 0 then st_luastkn st = 0 \<and> contiguous k sts
      else st_luastki st = k \<and> 0 < st_luastkn st \<and> contiguous (k + st_luastkn st) sts)"

definition elems :: "pstate list \<Rightarrow> int" where
  "elems sts = sum_list (map st_luastkn sts)"

lemma elems_simps [simp]: "elems [] = 0" "elems (st # sts) = st_luastkn st + elems sts" "elems (xs @ ys) = elems xs + elems ys"
  by (simp_all add: elems_def)

lemma contiguous_append: "1 \<le> k \<Longrightarrow> contiguous k (xs @ ys) \<longleftrightarrow> contiguous k xs \<and> contiguous (k + elems xs) ys"
  by (induction k xs rule: contiguous.induct) (auto simp: add.assoc)

lemma contiguous_elems: "1 \<le> k \<Longrightarrow> contiguous k sts \<Longrightarrow> 0 \<le> elems sts"
  by (induction k sts rule: contiguous.induct) (auto split: if_splits)

lemma contiguous_mem: "1 \<le> k \<Longrightarrow> contiguous k sts \<Longrightarrow> st \<in> set sts \<Longrightarrow> st_luastki st = 0 \<longleftrightarrow> st_luastkn st = 0"
  by (induction k sts rule: contiguous.induct) (auto split: if_splits)

lemma contiguous_mem_nonneg: "1 \<le> k \<Longrightarrow> contiguous k sts \<Longrightarrow> st \<in> set sts \<Longrightarrow> 0 \<le> st_luastkn st"
  by (induction k sts rule: contiguous.induct) (auto split: if_splits)

lemma elems_0: "\<forall>st \<in> set sts. st_luastkn st = 0 \<Longrightarrow> elems sts = 0"
  by (induction sts) auto

text \<open>The first and the last state with elements.\<close>

lemma contiguous_first:
  assumes "1 \<le> k" "contiguous k sts"
  shows "dropWhile (\<lambda>st. st_luastki st = 0) sts = [] \<and> elems sts = 0 \<or>
    (\<exists>st rest. dropWhile (\<lambda>st. st_luastki st = 0) sts = st # rest \<and> st_luastki st = k)"
  using assms by (induction k sts rule: contiguous.induct) (auto split: if_splits)

lemma contiguous_last:
  assumes "1 \<le> k" "contiguous k sts"
  shows "dropWhile (\<lambda>st. st_luastkn st = 0) (rev sts) = [] \<and> elems sts = 0 \<or>
    (\<exists>st rest. dropWhile (\<lambda>st. st_luastkn st = 0) (rev sts) = st # rest \<and> 0 < st_luastkn st \<and> st_luastki st + st_luastkn st = k + elems sts)"
  using assms
proof (induction sts rule: rev_induct)
  case (snoc st sts)
  then have c: "contiguous k sts" "contiguous (k + elems sts) [st]" by (simp_all add: contiguous_append)
  show ?case
  proof (cases "st_luastki st = 0")
    case True
    then show ?thesis using c snoc.IH [OF snoc.prems(1) c(1)] by simp
  next
    case False
    then show ?thesis using c(2) by simp
  qed
qed simp

lemma next_luastki:
  assumes "contiguous 1 sts" "get_next_lua_stack_index sts = returnR r"
  shows "r = 1 + elems sts"
proof -
  let ?P = "\<lambda>sts y. \<forall>r. y = Inr r \<longrightarrow>
    (case dropWhile (\<lambda>st. st_luastkn st = 0) (rev sts) of [] \<Rightarrow> r = 1 | st # _ \<Rightarrow> r = st_luastki st + st_luastkn st)"
  have "?P sts y" if y: "get_next_lua_stack_index sts = Some y" for y
  proof (rule get_next_lua_stack_index.raw_induct [where P = ?P, OF _ y])
    fix self sts y
    assume IH: "\<And>sts y. self sts = Some y \<Longrightarrow> ?P sts y"
      and body: "(case dropWhile (\<lambda>st. st_luastkn st = 0) (rev sts) of [] \<Rightarrow> returnR 1
       | st # _ \<Rightarrow> let rt = st_luastki st + st_luastkn st in
           if rt \<ge> int_max then bindR (adjust_state_counters_on_stack sts) self else returnR rt) = Some y"
    show "?P sts y"
    proof (cases "dropWhile (\<lambda>st. st_luastkn st = 0) (rev sts)")
      case Nil
      show ?thesis using body unfolding Nil by (auto simp: returnR_def)
    next
      case (Cons st rest)
      show ?thesis
        using body IH [of sts y] unfolding Cons
        by (auto simp: adjust_state_counters_on_stack_def Let_def throwR_def returnR_def split: if_splits)
    qed
  qed
  from this [of "Inr r"] have "case dropWhile (\<lambda>st. st_luastkn st = 0) (rev sts) of [] \<Rightarrow> r = 1 | st # _ \<Rightarrow> r = st_luastki st + st_luastkn st"
    using assms(2) by (simp add: returnR_def)
  then show ?thesis using contiguous_last [OF _ assms(1)] by (auto simp del: dropWhile_eq_Nil_conv)
qed

lemma next_luastki_throw:
  assumes "get_next_lua_stack_index sts = throwR e"
  shows "e = Error CompiledSourceTooComplex []"
proof -
  have "y = Inl e \<longrightarrow> e = Error CompiledSourceTooComplex []" if y: "get_next_lua_stack_index sts = Some y" for y
  proof (rule get_next_lua_stack_index.raw_induct [where P = "\<lambda>_ y. y = Inl e \<longrightarrow> e = Error CompiledSourceTooComplex []", OF _ y])
    fix self sts y
    assume IH: "\<And>sts y. self sts = Some y \<Longrightarrow> y = Inl e \<longrightarrow> e = Error CompiledSourceTooComplex []"
      and body: "(case dropWhile (\<lambda>st. st_luastkn st = 0) (rev sts) of [] \<Rightarrow> returnR 1
       | st # _ \<Rightarrow> let rt = st_luastki st + st_luastkn st in
           if rt \<ge> int_max then bindR (adjust_state_counters_on_stack sts) self else returnR rt) = Some y"
    show "y = Inl e \<longrightarrow> e = Error CompiledSourceTooComplex []"
      using body IH [of sts y]
      by (auto simp: adjust_state_counters_on_stack_def Let_def throwR_def returnR_def split: if_splits list.splits)
  qed
  from this [of "Inl e"] assms show ?thesis by (simp add: throwR_def)
qed

lemma fold_start:
  "fold (\<lambda>st start. if st_luastki st \<noteq> 0 then st_luastki st else start) (rev sts) s =
    (case dropWhile (\<lambda>st. st_luastki st = 0) sts of [] \<Rightarrow> s | st # _ \<Rightarrow> st_luastki st)"
  by (induction sts) auto

lemma fold_start_drop:
  "fold (\<lambda>st start. if st_luastki st \<noteq> 0 then st_luastki st else start) (dropWhile (\<lambda>st. st_luastki st = 0) sts) s =
    fold (\<lambda>st start. if st_luastki st \<noteq> 0 then st_luastki st else start) sts s"
  by (induction sts arbitrary: s) auto

lemma reduction_size:
  assumes "contiguous 1 sts"
  shows "get_lua_stack_reduction_size sts n = elems (drop (length sts - n) sts)"
    "reduce_struct_size sts n = elems (drop (length sts - n) sts)"
proof -
  define top where "top = drop (length sts - n) sts"
  define k where "k = 1 + elems (take (length sts - n) sts)"
  have "contiguous 1 (take (length sts - n) sts @ top)" using assms by (simp add: top_def)
  then have parts: "contiguous 1 (take (length sts - n) sts)" "contiguous k top" by (simp_all only: contiguous_append k_def)
  have k: "1 \<le> k" using contiguous_elems [OF _ parts(1)] by (simp add: k_def)
  have same: "dropWhile (\<lambda>st. st_luastkn st = 0) (rev top) = dropWhile (\<lambda>st. st_luastki st = 0) (rev top)"
    using contiguous_mem [OF k parts(2)] by (auto intro!: dropWhile_cong)
  let ?f = "\<lambda>st start. if st_luastki st \<noteq> 0 then st_luastki st else start"
  have fold: "fold ?f (dropWhile (\<lambda>st. st_luastki st = 0) (rev top)) 0 =
      (case dropWhile (\<lambda>st. st_luastki st = 0) top of [] \<Rightarrow> 0 | st # _ \<Rightarrow> st_luastki st)"
    unfolding fold_start_drop fold_start ..
  have "(dropWhile (\<lambda>st. st_luastki st = 0) (rev top) = [] \<longleftrightarrow> dropWhile (\<lambda>st. st_luastki st = 0) top = [])"
    by (simp add: dropWhile_eq_Nil_conv)
  then consider "dropWhile (\<lambda>st. st_luastki st = 0) (rev top) = []" "dropWhile (\<lambda>st. st_luastki st = 0) top = []" "elems top = 0"
    | st rest st' rest' where "dropWhile (\<lambda>st. st_luastki st = 0) (rev top) = st # rest" "st_luastki st + st_luastkn st = k + elems top"
      "dropWhile (\<lambda>st. st_luastki st = 0) top = st' # rest'" "st_luastki st' = k"
    using contiguous_first [OF k parts(2)] contiguous_last [OF k parts(2)] unfolding same by fastforce
  then show "get_lua_stack_reduction_size sts n = elems (drop (length sts - n) sts)"
    "reduce_struct_size sts n = elems (drop (length sts - n) sts)"
    unfolding get_lua_stack_reduction_size_def reduce_struct_size_def Let_def top_def [symmetric] same
    by (cases; use fold in \<open>simp del: dropWhile_eq_Nil_conv\<close>)+
qed

subsection \<open>The invariant of the machine\<close>

definition ctx_ok :: "compiler_context \<Rightarrow> bool" where
  "ctx_ok ctx \<longleftrightarrow> cc_stack ctx \<noteq> [] \<and> contiguous 1 (cc_stack ctx) \<and> elems (cc_stack ctx) = int (length (cc_nodes ctx))"

lemma ctx_ok_new: "ctx_ok compiler_context_new"
  by (simp add: ctx_ok_def compiler_context_new_def)

lemma ctx_ok_check:
  assumes "ctx_ok ctx"
  shows "stack_check ctx"
proof -
  obtain sts st where s: "cc_stack ctx = sts @ [st]" using assms by (metis ctx_ok_def append_butlast_last_id)
  then have "contiguous (1 + elems sts) [st]" "elems sts + st_luastkn st = int (length (cc_nodes ctx))"
    using assms by (simp_all add: ctx_ok_def contiguous_append)
  then show ?thesis by (auto simp: stack_check_def s split: if_splits)
qed

text \<open>The lexems in the nodes, from left to right.\<close>

fun ast_lexems :: "ast \<Rightarrow> (string \<times> string \<times> int) list" where
  "ast_lexems (Lexem_Node name val line) = [(name, val, line)]"
| "ast_lexems (Call_Node callidx line scope args) = concat (map ast_lexems args)"

definition ctx_lexems :: "compiler_context \<Rightarrow> (string \<times> string \<times> int) list" where
  "ctx_lexems ctx = concat (map ast_lexems (cc_nodes ctx))"

definition shifted_lexem :: "automaton \<Rightarrow> lexem \<Rightarrow> (string \<times> string \<times> int) list" where
  "shifted_lexem am lx = (if is_keyword (lm_id lx) (am_lexer am) = returnR True then [] else [(lm_name lx, lm_value lx, lm_line lx)])"

lemma ctx_ok_push:
  assumes "contiguous 1 (cc_stack ctx)" "0 < k" "get_next_lua_stack_index (cc_stack ctx) = returnR i"
    "elems (cc_stack ctx) + k = int (length (cc_nodes ctx'))"
    "cc_stack ctx' = cc_stack (push_state index i k scope ctx)"
  shows "ctx_ok ctx'"
  using assms next_luastki [OF assms(1,3)] contiguous_elems [of 1 "cc_stack ctx"]
  by (auto simp: ctx_ok_def push_state_def contiguous_append)

lemma ctx_ok_push_empty:
  assumes "contiguous 1 (cc_stack ctx)" "elems (cc_stack ctx) = int (length (cc_nodes ctx'))"
    "cc_stack ctx' = cc_stack (push_state index 0 0 scope ctx)"
  shows "ctx_ok ctx'"
  using assms by (auto simp: ctx_ok_def push_state_def contiguous_append)

lemma push_state_simps [simp]:
  "cc_nodes (push_state i a b c ctx) = cc_nodes ctx" "cc_scopestep (push_state i a b c ctx) = cc_scopestep ctx"
  "cc_stack (push_state i a b c ctx) = cc_stack ctx @ [\<lparr>st_index = i, st_luastki = a, st_luastkn = b, st_scopecnt = c\<rparr>]"
  "ctx_lexems (push_state i a b c ctx) = ctx_lexems ctx"
  by (simp_all add: push_state_def ctx_lexems_def)

lemma feed_shift_spec:
  assumes "ctx_ok ctx" "feed_shift am lx state ctx = returnR ctx'"
  shows "ctx_ok ctx'" "ctx_lexems ctx' = ctx_lexems ctx @ shifted_lexem am lx"
    "map st_index (cc_stack ctx') = map st_index (cc_stack ctx) @ [state]"
proof -
  obtain keyword where kw: "is_keyword (lm_id lx) (am_lexer am) = returnR keyword"
    using assms(2) by (cases "is_keyword (lm_id lx) (am_lexer am)" rule: run_cases) (auto simp: feed_shift_def)
  have "ctx_ok ctx' \<and> ctx_lexems ctx' = ctx_lexems ctx @ shifted_lexem am lx \<and>
    map st_index (cc_stack ctx') = map st_index (cc_stack ctx) @ [state]"
  proof (cases keyword)
    case True
    then show ?thesis
      using assms kw by (auto simp: feed_shift_def shifted_lexem_def intro!: ctx_ok_push_empty) (auto simp: ctx_ok_def)
  next
    case False
    then obtain i where i: "get_next_lua_stack_index (cc_stack ctx) = returnR i"
      and ctx': "ctx' = (push_state state i 1 (cc_scopestep ctx) ctx)
             \<lparr>cc_nodes := cc_nodes ctx @ [Lexem_Node (lm_name lx) (lm_value lx) (lm_line lx)], cc_line := lm_line lx\<rparr>"
      using assms(2) kw by (auto simp: feed_shift_def bindR_eq_returnR)
    have "ctx_ok ctx'"
      by (rule ctx_ok_push [OF _ _ i]) (use assms(1) in \<open>auto simp: ctx' ctx_ok_def\<close>)
    then show ?thesis using False kw by (simp add: ctx' shifted_lexem_def ctx_lexems_def)
  qed
  then show "ctx_ok ctx'" "ctx_lexems ctx' = ctx_lexems ctx @ shifted_lexem am lx"
    "map st_index (cc_stack ctx') = map st_index (cc_stack ctx) @ [state]" by blast+
qed

lemma lua_reduce_struct_spec:
  assumes "ctx_ok ctx" "n \<le> length (cc_stack ctx)"
  obtains ctx' where "lua_reduce_struct n callidx flag start ctx = returnR ctx'" "cc_stack ctx' = cc_stack ctx"
    "int (length (cc_nodes ctx')) = elems (take (length (cc_stack ctx) - n) (cc_stack ctx)) + 1" "ctx_lexems ctx' = ctx_lexems ctx"
proof -
  let ?stack = "cc_stack ctx" and ?m = "length (cc_stack ctx) - n"
  have c: "contiguous 1 ?stack" using assms(1) by (simp add: ctx_ok_def)
  then have "contiguous 1 (take ?m ?stack @ drop ?m ?stack)" by simp
  then have parts: "contiguous 1 (take ?m ?stack)" "contiguous (1 + elems (take ?m ?stack)) (drop ?m ?stack)"
    by (simp_all only: contiguous_append)
  have nonneg: "0 \<le> elems (take ?m ?stack)" "0 \<le> elems (drop ?m ?stack)"
    using contiguous_elems [OF _ parts(1)] contiguous_elems [OF _ parts(2)] by simp_all
  have total: "elems (take ?m ?stack) + elems (drop ?m ?stack) = int (length (cc_nodes ctx))"
    using assms(1) by (metis append_take_drop_id ctx_ok_def elems_simps(3))
  define k where "k = nat (elems (drop ?m ?stack))"
  have k: "reduce_struct_size ?stack n = int k" "k \<le> length (cc_nodes ctx)"
    "int (length (cc_nodes ctx) - k) = elems (take ?m ?stack)"
    using reduction_size(2) [OF c, of n] nonneg total by (auto simp: k_def)
  have "concat (map ast_lexems (take j nodes)) @ concat (map ast_lexems (drop j nodes)) = concat (map ast_lexems nodes)" for j nodes
    by (metis append_take_drop_id concat_append map_append)
  then show ?thesis
    using that k by (auto simp: lua_reduce_struct_def Let_def ctx_lexems_def)
qed

lemma feed_pop_spec:
  assumes "ctx_ok ctx" "feed_pop lx a ctx = returnR (ctx', k, start)"
  shows "0 \<le> ac_count a" "nat (ac_count a) < length (cc_stack ctx)"
    "cc_stack ctx' = take (length (cc_stack ctx) - nat (ac_count a)) (cc_stack ctx)" "0 \<le> k"
    "elems (cc_stack ctx') + k = int (length (cc_nodes ctx'))" "ctx_lexems ctx' = ctx_lexems ctx"
    "contiguous 1 (cc_stack ctx')"
proof -
  let ?n = "nat (ac_count a)" and ?m = "length (cc_stack ctx) - nat (ac_count a)"
  have c: "contiguous 1 (take ?m (cc_stack ctx) @ drop ?m (cc_stack ctx))" using assms(1) by (simp add: ctx_ok_def)
  then have parts: "contiguous 1 (take ?m (cc_stack ctx))" "contiguous (1 + elems (take ?m (cc_stack ctx))) (drop ?m (cc_stack ctx))"
    by (simp_all only: contiguous_append)
  have nonneg: "0 \<le> elems (take ?m (cc_stack ctx))" "0 \<le> elems (drop ?m (cc_stack ctx))"
    using contiguous_elems [OF _ parts(1)] contiguous_elems [OF _ parts(2)] by simp_all
  have total: "elems (take ?m (cc_stack ctx)) + elems (drop ?m (cc_stack ctx)) = int (length (cc_nodes ctx))"
    using assms(1) by (metis append_take_drop_id ctx_ok_def elems_simps(3))
  have n: "0 \<le> ac_count a" "?n < length (cc_stack ctx)" "\<not> (int (length (cc_stack ctx)) \<le> ac_count a \<or> ac_count a < 0)"
    using assms(2) by (auto simp: feed_pop_def Let_def split: if_splits)
  obtain ctx1 where b: "(if ac_call a \<noteq> 0 then
                  bindR (lua_reduce_struct ?n (ac_call a) (ac_scopeflag a) start ctx) (\<lambda>ctx'. returnR (ctx', 1))
                else returnR (ctx, get_lua_stack_reduction_size (cc_stack ctx) ?n)) = returnR (ctx1, k)"
    and ctx': "ctx' = ctx1\<lparr>cc_stack := take ?m (cc_stack ctx)\<rparr>"
    using assms(2) n(3) by (simp add: feed_pop_def Let_def) (force simp: bindR_eq_returnR)
  have "0 \<le> k \<and> elems (take ?m (cc_stack ctx)) + k = int (length (cc_nodes ctx1)) \<and> ctx_lexems ctx1 = ctx_lexems ctx"
  proof (cases "ac_call a = 0")
    case True
    then show ?thesis using b reduction_size(1) [of "cc_stack ctx" ?n] nonneg total assms(1) by (auto simp: ctx_ok_def)
  next
    case False
    obtain ctx2 where "lua_reduce_struct ?n (ac_call a) (ac_scopeflag a) start ctx = returnR ctx2"
      "int (length (cc_nodes ctx2)) = elems (take ?m (cc_stack ctx)) + 1" "ctx_lexems ctx2 = ctx_lexems ctx"
      using lua_reduce_struct_spec [OF assms(1), of ?n "ac_call a" "ac_scopeflag a" start] n by auto
    then show ?thesis using b False by auto
  qed
  then show "0 \<le> ac_count a" "nat (ac_count a) < length (cc_stack ctx)"
    "cc_stack ctx' = take (length (cc_stack ctx) - nat (ac_count a)) (cc_stack ctx)" "0 \<le> k"
    "elems (cc_stack ctx') + k = int (length (cc_nodes ctx'))" "ctx_lexems ctx' = ctx_lexems ctx"
    "contiguous 1 (cc_stack ctx')"
    using n parts(1) by (auto simp: ctx' ctx_lexems_def)
qed

lemma feed_reduce_spec:
  assumes "contiguous 1 (cc_stack ctx)" "0 \<le> k" "elems (cc_stack ctx) + k = int (length (cc_nodes ctx))"
    "feed_reduce am lx A (ctx, k, start) = returnR ctx'"
  shows "ctx_ok ctx'" "ctx_lexems ctx' = ctx_lexems ctx"
    "\<exists>g. map_find (am_gotos am) (mk_goto_key (st_index (last (cc_stack ctx))) A) = Some g \<and>
      map st_index (cc_stack ctx') = map st_index (cc_stack ctx) @ [go_state g]"
proof -
  obtain g where g: "map_find (am_gotos am) (mk_goto_key (st_index (last (cc_stack ctx))) A) = Some g"
    using assms(4) by (cases "map_find (am_gotos am) (mk_goto_key (st_index (last (cc_stack ctx))) A)")
      (auto simp: feed_reduce_def Let_def bindR_eq_returnR)
  have "ctx_ok ctx' \<and> ctx_lexems ctx' = ctx_lexems ctx \<and> map st_index (cc_stack ctx') = map st_index (cc_stack ctx) @ [go_state g]"
  proof (cases "k = 0")
    case True
    then have "ctx' = push_state (go_state g) 0 0 start ctx" using assms(4) g by (simp add: feed_reduce_def Let_def)
    then show ?thesis using ctx_ok_push_empty [OF assms(1), of ctx' "go_state g" start] assms(3) True by auto
  next
    case False
    then obtain i where i: "get_next_lua_stack_index (cc_stack ctx) = returnR i" "ctx' = push_state (go_state g) i k start ctx"
      using assms(4) g by (auto simp: feed_reduce_def Let_def bindR_eq_returnR)
    then show ?thesis using ctx_ok_push [OF assms(1) _ i(1), of k ctx' "go_state g" start] assms(2,3) False by auto
  qed
  then show "ctx_ok ctx'" "ctx_lexems ctx' = ctx_lexems ctx"
    "\<exists>g. map_find (am_gotos am) (mk_goto_key (st_index (last (cc_stack ctx))) A) = Some g \<and>
      map st_index (cc_stack ctx') = map st_index (cc_stack ctx) @ [go_state g]" using g by blast+
qed

text \<open>The calls of \<open>feedLexem\<close>, as steps of the states on the stack.\<close>

inductive machine_shift :: "automaton \<Rightarrow> int \<Rightarrow> int list \<Rightarrow> int list \<Rightarrow> bool" for am t where
  machine_shift: "map_find (am_actions am) (mk_action_key (last ss) t) = Some a \<Longrightarrow> ac_type a = Shift \<Longrightarrow>
    machine_shift am t ss (ss @ [ac_value a])"

inductive machine_reduce :: "automaton \<Rightarrow> int \<Rightarrow> int list \<Rightarrow> int list \<Rightarrow> bool" for am t where
  machine_reduce: "map_find (am_actions am) (mk_action_key (last ss) t) = Some a \<Longrightarrow> ac_type a = Reduce \<Longrightarrow>
    0 \<le> ac_count a \<Longrightarrow> nat (ac_count a) < length ss \<Longrightarrow> ss' = take (length ss - nat (ac_count a)) ss \<Longrightarrow>
    map_find (am_gotos am) (mk_goto_key (last ss') (ac_value a)) = Some g \<Longrightarrow> machine_reduce am t ss (ss' @ [go_state g])"

definition machine_accept :: "automaton \<Rightarrow> int list \<Rightarrow> bool" where
  "machine_accept am ss \<longleftrightarrow> (\<exists>a. map_find (am_actions am) (mk_action_key (last ss) 0) = Some a \<and> ac_type a = Accept \<and>
     0 \<le> ac_count a \<and> length ss = nat (ac_count a) + 1)"

lemma feed_lexem_spec:
  assumes "ctx_ok ctx" "feed_lexem am lx ctx = returnR (ctx', consumed)"
  obtains (shift) "consumed" "ctx_ok ctx'" "ctx_lexems ctx' = ctx_lexems ctx @ shifted_lexem am lx"
      "machine_shift am (lm_id lx) (map st_index (cc_stack ctx)) (map st_index (cc_stack ctx'))"
    | (reduce) "\<not> consumed" "ctx_ok ctx'" "ctx_lexems ctx' = ctx_lexems ctx"
      "machine_reduce am (lm_id lx) (map st_index (cc_stack ctx)) (map st_index (cc_stack ctx'))"
    | (accept) "consumed" "lm_id lx = 0" "ctx_lexems ctx' = ctx_lexems ctx" "machine_accept am (map st_index (cc_stack ctx))"
proof -
  let ?ss = "map st_index (cc_stack ctx)"
  have ne: "cc_stack ctx \<noteq> []" using assms(1) by (simp add: ctx_ok_def)
  then have last: "st_index (last (cc_stack ctx)) = last ?ss" by (simp add: last_map)
  obtain a where a: "map_find (am_actions am) (mk_action_key (last ?ss) (lm_id lx)) = Some a"
    using assms(2) by (cases "map_find (am_actions am) (mk_action_key (last ?ss) (lm_id lx))")
      (auto simp: feed_lexem_def Let_def last bindR_eq_returnR)
  show ?thesis
  proof (cases "ac_type a")
    case Shift
    then have "feed_shift am lx (ac_value a) ctx = returnR ctx'" "consumed"
      using assms(2) a by (auto simp: feed_lexem_def Let_def last bindR_eq_returnR)
    note spec = feed_shift_spec [OF assms(1) this(1)] this(2)
    have "machine_shift am (lm_id lx) ?ss (map st_index (cc_stack ctx'))" unfolding spec(3) by (rule machine_shift [OF a Shift])
    then show ?thesis using that(1) spec by blast
  next
    case Reduce
    then obtain ctx1 k start where pop: "feed_pop lx a ctx = returnR (ctx1, k, start)"
      and red: "feed_reduce am lx (ac_value a) (ctx1, k, start) = returnR ctx'" and "\<not> consumed"
      using assms(2) a by (auto simp: feed_lexem_def Let_def last bindR_eq_returnR)
    note p = feed_pop_spec [OF assms(1) pop]
    note r = feed_reduce_spec [OF p(7,4,5) red]
    have ss: "map st_index (cc_stack ctx1) = take (length ?ss - nat (ac_count a)) ?ss" "cc_stack ctx1 \<noteq> []"
      using p(2,3) by (auto simp: take_map)
    from r(3) obtain g where g: "map_find (am_gotos am) (mk_goto_key (last (map st_index (cc_stack ctx1))) (ac_value a)) = Some g"
      "map st_index (cc_stack ctx') = map st_index (cc_stack ctx1) @ [go_state g]" using ss(2) by (auto simp: last_map)
    have "machine_reduce am (lm_id lx) ?ss (map st_index (cc_stack ctx'))"
      unfolding g(2) by (rule machine_reduce [OF a Reduce p(1) _ ss(1) g(1)]) (use p(2) in simp)
    then show ?thesis using that(2) r(1,2) p(6) \<open>\<not> consumed\<close> a Reduce by auto
  next
    case Accept
    then obtain ctx1 k start where pop: "feed_pop lx a ctx = returnR (ctx1, k, start)"
      and acc: "feed_accept lx (ctx1, k, start) = returnR ctx'" and "consumed"
      using assms(2) a by (auto simp: feed_lexem_def Let_def last bindR_eq_returnR)
    note p = feed_pop_spec [OF assms(1) pop]
    have id: "lm_id lx = 0" using acc by (auto simp: feed_accept_def split: if_splits)
    from acc id have "length (cc_stack ctx1) = 1 \<and> cc_nodes ctx' = cc_nodes ctx1"
      by (auto simp: feed_accept_def split: list.splits if_splits)
    then have "ctx_lexems ctx' = ctx_lexems ctx1" "length (cc_stack ctx) - nat (ac_count a) = 1"
      using p(2,3) by (auto simp: ctx_lexems_def)
    then have "machine_accept am ?ss" using a Accept p(1,2) id by (auto simp: machine_accept_def)
    then show ?thesis using that(3) \<open>consumed\<close> id p(6) \<open>ctx_lexems ctx' = ctx_lexems ctx1\<close> by simp
  qed
qed

subsection \<open>Runs\<close>

text \<open>What the machine does with a sequence of terminals, whatever it looks ahead to when it reduces.\<close>

inductive machine_run :: "automaton \<Rightarrow> int list \<Rightarrow> int list \<Rightarrow> int list \<Rightarrow> bool" for am where
  run_done: "machine_run am ss [] ss"
| run_reduce: "machine_reduce am t ss ss1 \<Longrightarrow> machine_run am ss1 w ss2 \<Longrightarrow> machine_run am ss w ss2"
| run_shift: "machine_shift am t ss ss1 \<Longrightarrow> machine_run am ss1 w ss2 \<Longrightarrow> machine_run am ss (t # w) ss2"

lemma machine_run_trans: "machine_run am ss v ss1 \<Longrightarrow> machine_run am ss1 w ss2 \<Longrightarrow> machine_run am ss (v @ w) ss2"
  by (induction rule: machine_run.induct) (auto intro: machine_run.intros)

definition ctx_states :: "compiler_context \<Rightarrow> int list" where
  "ctx_states ctx = map st_index (cc_stack ctx)"

lemma feed_loop_spec:
  assumes "ctx_ok ctx" "feed_loop am lx ctx = returnR ctx'"
  shows "ctx_ok ctx' \<and> machine_run am (ctx_states ctx) [lm_id lx] (ctx_states ctx') \<and>
      ctx_lexems ctx' = ctx_lexems ctx @ shifted_lexem am lx \<and> (\<exists>ss ss'. machine_shift am (lm_id lx) ss ss') \<or>
    lm_id lx = 0 \<and> ctx_lexems ctx' = ctx_lexems ctx \<and> (\<exists>ss. machine_run am (ctx_states ctx) [] ss \<and> machine_accept am ss)"
proof -
  let ?P = "\<lambda>(am :: automaton) (lx :: lexem) (ctx :: compiler_context) (y :: error + compiler_context). \<forall>ctx'. y = Inr ctx' \<longrightarrow> ctx_ok ctx \<longrightarrow>
    (ctx_ok ctx' \<and> machine_run am (ctx_states ctx) [lm_id lx] (ctx_states ctx') \<and>
      ctx_lexems ctx' = ctx_lexems ctx @ shifted_lexem am lx \<and> (\<exists>ss ss'. machine_shift am (lm_id lx) ss ss')) \<or>
    (lm_id lx = 0 \<and> ctx_lexems ctx' = ctx_lexems ctx \<and> (\<exists>ss. machine_run am (ctx_states ctx) [] ss \<and> machine_accept am ss))"
  have "feed_loop am lx ctx = Some (Inr ctx')" using assms(2) by (simp add: returnR_def)
  then have "?P am lx ctx (Inr ctx')"
  proof (rule feed_loop.raw_induct [where P = ?P, rotated], intro allI impI)
    fix self am lx ctx y ctx'
    assume IH: "\<And>am lx ctx y. self am lx ctx = Some y \<Longrightarrow> ?P am lx ctx y"
      and body: "bindR (feed_lexem am lx ctx) (\<lambda>(ctx', consumed). if consumed then returnR ctx' else self am lx ctx') = Some y"
      and y: "y = Inr ctx'" and ok: "ctx_ok ctx"
    obtain ctx1 consumed where feed: "feed_lexem am lx ctx = returnR (ctx1, consumed)"
      using body y by (cases "feed_lexem am lx ctx" rule: run_cases) (auto simp: throwR_def)
    show "(ctx_ok ctx' \<and> machine_run am (ctx_states ctx) [lm_id lx] (ctx_states ctx') \<and>
      ctx_lexems ctx' = ctx_lexems ctx @ shifted_lexem am lx \<and> (\<exists>ss ss'. machine_shift am (lm_id lx) ss ss')) \<or>
    (lm_id lx = 0 \<and> ctx_lexems ctx' = ctx_lexems ctx \<and> (\<exists>ss. machine_run am (ctx_states ctx) [] ss \<and> machine_accept am ss))"
    proof (cases rule: feed_lexem_spec [OF ok feed, case_names shift reduce accept])
      case shift
      then have "ctx1 = ctx'" using body feed y by (simp add: returnR_def)
      then show ?thesis using shift run_shift [OF shift(4) run_done] by (auto simp: ctx_states_def)
    next
      case reduce
      then have "self am lx ctx1 = Some (Inr ctx')" using body feed y by simp
      from IH [OF this] reduce(2) have "(ctx_ok ctx' \<and> machine_run am (ctx_states ctx1) [lm_id lx] (ctx_states ctx') \<and>
          ctx_lexems ctx' = ctx_lexems ctx1 @ shifted_lexem am lx \<and> (\<exists>ss ss'. machine_shift am (lm_id lx) ss ss')) \<or>
        (lm_id lx = 0 \<and> ctx_lexems ctx' = ctx_lexems ctx1 \<and> (\<exists>ss. machine_run am (ctx_states ctx1) [] ss \<and> machine_accept am ss))" by blast
      then show ?thesis
        unfolding reduce(3) ctx_states_def using run_reduce [OF reduce(4)] by blast
    next
      case accept
      then have "ctx1 = ctx'" using body feed y by (simp add: returnR_def)
      then show ?thesis using accept run_done by (auto simp: ctx_states_def)
    qed
  qed
  then show ?thesis using assms(1) by blast
qed

text \<open>The lexems the scanner fetches up to the empty one.\<close>

inductive scanned :: "('sc \<Rightarrow> (lexem \<times> 'sc) run) \<Rightarrow> 'sc \<Rightarrow> lexem list \<Rightarrow> lexem \<Rightarrow> bool" for next_lexem where
  scanned_end: "next_lexem sc = returnR (lx, sc') \<Longrightarrow> lexem_empty lx \<Longrightarrow> scanned next_lexem sc [] lx"
| scanned_next: "next_lexem sc = returnR (lx, sc') \<Longrightarrow> \<not> lexem_empty lx \<Longrightarrow> scanned next_lexem sc' lxs eof \<Longrightarrow>
    scanned next_lexem sc (lx # lxs) eof"

lemma lexem_loop_spec:
  fixes next_lexem :: "'a \<Rightarrow> (lexem \<times> 'a) run"
  assumes "ctx_ok ctx" "lexem_loop next_lexem am sc ctx = returnR (eof, ctx')"
  shows "\<exists>lxs. scanned next_lexem sc lxs eof \<and> lexem_empty eof \<and> (\<exists>sc sc'. next_lexem sc = returnR (eof, sc')) \<and> ctx_ok ctx' \<and>
    machine_run am (ctx_states ctx) (map lm_id lxs) (ctx_states ctx') \<and>
    ctx_lexems ctx' = ctx_lexems ctx @ concat (map (shifted_lexem am) lxs)"
proof -
  let ?Q = "\<lambda>(next_lexem :: 'a \<Rightarrow> (lexem \<times> 'a) run) (am :: automaton) (sc :: 'a) (ctx :: compiler_context) (eof :: lexem) (ctx' :: compiler_context). \<exists>lxs. scanned next_lexem sc lxs eof \<and> lexem_empty eof \<and>
    (\<exists>sc sc'. next_lexem sc = returnR (eof, sc')) \<and> ctx_ok ctx' \<and>
    machine_run am (ctx_states ctx) (map lm_id lxs) (ctx_states ctx') \<and>
    ctx_lexems ctx' = ctx_lexems ctx @ concat (map (shifted_lexem am) lxs)"
  let ?P = "\<lambda>(next_lexem :: 'a \<Rightarrow> (lexem \<times> 'a) run) (am :: automaton) (sc :: 'a) (ctx :: compiler_context) (y :: error + (lexem \<times> compiler_context)). \<forall>eof ctx'. y = Inr (eof, ctx') \<longrightarrow> ctx_ok ctx \<longrightarrow> ?Q next_lexem am sc ctx eof ctx'"
  have "lexem_loop next_lexem am sc ctx = Some (Inr (eof, ctx'))" using assms(2) by (simp add: returnR_def)
  then have "?P next_lexem am sc ctx (Inr (eof, ctx'))"
  proof (rule lexem_loop.raw_induct [where P = ?P, rotated], intro allI impI)
    fix self next_lexem am sc ctx y eof ctx'
    assume IH: "\<And>next_lexem am sc ctx y. self next_lexem am sc ctx = Some y \<Longrightarrow> ?P next_lexem am sc ctx y"
      and body: "bindR (next_lexem sc) (\<lambda>(lx, scanner').
       if lexem_empty lx then returnR (lx, ctx)
       else if lm_id lx \<le> 0 then throwR (ErrorAt BadCharacterInGrammarDef (lm_value lx) (lm_line lx))
       else bindR (feed_loop am lx ctx) (\<lambda>ctx'.
           if stack_check ctx' then self next_lexem am scanner' ctx' else throwR logic_error)) = Some y"
      and y: "y = Inr (eof, ctx')" and ok: "ctx_ok ctx"
    obtain lx sc' where fetch: "next_lexem sc = returnR (lx, sc')"
      using body y by (cases "next_lexem sc" rule: run_cases) (auto simp: throwR_def)
    show "?Q next_lexem am sc ctx eof ctx'"
    proof (cases "lexem_empty lx")
      case True
      then have "eof = lx" "ctx' = ctx" using body fetch y by (auto simp: returnR_def)
      then show ?thesis using True ok fetch by (auto intro!: exI [of _ "[]"] scanned_end run_done)
    next
      case False
      obtain ctx1 where feed: "feed_loop am lx ctx = returnR ctx1" and id: "lm_id lx > 0"
        using body y fetch False
        by (cases "feed_loop am lx ctx" rule: run_cases) (auto simp: throwR_def split: if_splits)
      from feed_loop_spec [OF ok feed] id
      have one: "ctx_ok ctx1" "machine_run am (ctx_states ctx) [lm_id lx] (ctx_states ctx1)"
        "ctx_lexems ctx1 = ctx_lexems ctx @ shifted_lexem am lx" by auto
      then have "self next_lexem am sc' ctx1 = Some (Inr (eof, ctx'))"
        using body fetch False id feed y ctx_ok_check [OF one(1)] by simp
      from IH [OF this] one(1) have "?Q next_lexem am sc' ctx1 eof ctx'" by blast
      then obtain lxs where "scanned next_lexem sc' lxs eof" "lexem_empty eof" "\<exists>sc sc'. next_lexem sc = returnR (eof, sc')" "ctx_ok ctx'"
        "machine_run am (ctx_states ctx1) (map lm_id lxs) (ctx_states ctx')"
        "ctx_lexems ctx' = ctx_lexems ctx1 @ concat (map (shifted_lexem am) lxs)" by blast
      then show ?thesis
        using scanned_next [where next_lexem = next_lexem, OF fetch False] machine_run_trans [OF one(2)] one(3) by (intro exI [of _ "lx # lxs"]) auto
    qed
  qed
  then show ?thesis using assms(1) by blast
qed

subsection \<open>No logic error\<close>

definition no_logic_error :: "'a run \<Rightarrow> bool" where
  "no_logic_error m \<longleftrightarrow> (\<forall>e. m = throwR e \<longrightarrow> err_code e \<noteq> LogicError)"

named_theorems no_logic_error_intros \<open>composition of calls that throw no \<open>LogicError\<close>\<close>

lemma no_logic_error_basic [no_logic_error_intros, simp]:
  "no_logic_error (returnR x)" "no_logic_error None" "no_logic_error (throwR e) \<longleftrightarrow> err_code e \<noteq> LogicError" "no_logic_error (liftR m)"
  by (auto simp: no_logic_error_def liftR_def throwR_def returnR_def split: option.splits)

lemma no_logic_error_bind [no_logic_error_intros]:
  "no_logic_error m \<Longrightarrow> (\<And>x. m = returnR x \<Longrightarrow> no_logic_error (f x)) \<Longrightarrow> no_logic_error (bindR m f)"
  by (cases m rule: run_cases) (auto simp: no_logic_error_def)

lemma no_logic_error_runR [no_logic_error_intros]:
  "(\<And>x s. no_logic_error (step x s)) \<Longrightarrow> no_logic_error (runR step xs s)"
  by (induction xs arbitrary: s) (auto intro: no_logic_error_intros)

lemma no_logic_error_names [no_logic_error_intros]:
  "no_logic_error (lexem_name i lexer)" "no_logic_error (get_lexem_name lexer i)" "no_logic_error (is_keyword i lexer)"
  by (auto simp: lexem_name_def get_lexem_name_def is_keyword_def)

lemma no_logic_error_messages [no_logic_error_intros]:
  "no_logic_error (token_string lx lexer)" "no_logic_error (expected_terminal_list actions state lexer)"
  "no_logic_error (state_transition_info state t lexer)"
proof -
  show "no_logic_error (token_string lx lexer)"
    by (auto simp: token_string_def intro!: no_logic_error_intros)
  have "no_logic_error (expected_terminal_step lexer a st)" for a st
    by (cases st) (auto simp: expected_terminal_step_def intro!: no_logic_error_intros)
  then show "no_logic_error (expected_terminal_list actions state lexer)"
    by (auto simp: expected_terminal_list_def intro!: no_logic_error_intros)
  show "no_logic_error (state_transition_info state t lexer)"
    by (auto simp: state_transition_info_def intro!: no_logic_error_intros)
qed

lemma no_logic_error_next [no_logic_error_intros]: "no_logic_error (get_next_lua_stack_index sts)"
  using next_luastki_throw [of sts] by (auto simp: no_logic_error_def)

lemma no_logic_error_feed [no_logic_error_intros]: "no_logic_error (feed_lexem am lx ctx)"
proof -
  have shift: "no_logic_error (feed_shift am lx state ctx)" for state
    by (auto simp: feed_shift_def intro!: no_logic_error_intros)
  have struct: "no_logic_error (lua_reduce_struct n c f s ctx)" for n c f s
    by (auto simp: lua_reduce_struct_def Let_def)
  have pop: "no_logic_error (feed_pop lx a ctx)" for a
    by (auto simp: feed_pop_def Let_def intro!: no_logic_error_intros struct)
  have acc: "no_logic_error (feed_accept lx popped)" for popped
    by (cases popped) (auto simp: feed_accept_def split: list.splits)
  have red: "no_logic_error (feed_reduce am lx A popped)" for A popped
    by (cases popped) (auto simp: feed_reduce_def Let_def intro!: no_logic_error_intros split: option.splits)
  show ?thesis
    by (auto simp: feed_lexem_def Let_def intro!: no_logic_error_intros shift pop acc red split: option.splits action_type.splits)
qed

lemma no_logic_error_feed_loop [no_logic_error_intros]: "no_logic_error (feed_loop am lx ctx)"
proof -
  let ?P = "\<lambda>(am :: automaton) (lx :: lexem) (ctx :: compiler_context) (y :: error + compiler_context). \<forall>e. y = Inl e \<longrightarrow> err_code e \<noteq> LogicError"
  have "?P am lx ctx y" if "feed_loop am lx ctx = Some y" for y
    using that
  proof (rule feed_loop.raw_induct [where P = ?P, rotated], intro allI impI)
    fix self am lx ctx y e
    assume IH: "\<And>am lx ctx y. self am lx ctx = Some y \<Longrightarrow> ?P am lx ctx y"
      and body: "bindR (feed_lexem am lx ctx) (\<lambda>(ctx', consumed). if consumed then returnR ctx' else self am lx ctx') = Some y"
      and y: "y = Inl e"
    show "err_code e \<noteq> LogicError"
    proof (cases "feed_lexem am lx ctx" rule: run_cases)
      case stuck
      then show ?thesis using body by simp
    next
      case (throw e')
      then have "e' = e" using body y by (simp add: throwR_def)
      then show ?thesis using throw no_logic_error_feed [of am lx ctx] by simp
    next
      case (return r)
      then show ?thesis using body y IH [of am lx "fst r" y] by (cases r) (auto simp: returnR_def split: if_splits)
    qed
  qed
  then show ?thesis by (auto simp: no_logic_error_def throwR_def)
qed

lemma no_logic_error_lexem_loop:
  fixes next_lexem :: "'a \<Rightarrow> (lexem \<times> 'a) run"
  assumes "\<And>sc. no_logic_error (next_lexem sc)" "ctx_ok ctx"
  shows "no_logic_error (lexem_loop next_lexem am sc ctx)"
proof -
  let ?P = "\<lambda>(next_lexem :: 'a \<Rightarrow> (lexem \<times> 'a) run) (am :: automaton) (sc :: 'a) (ctx :: compiler_context) (y :: error + (lexem \<times> compiler_context)).
    (\<forall>sc. no_logic_error (next_lexem sc)) \<longrightarrow> ctx_ok ctx \<longrightarrow> (\<forall>e. y = Inl e \<longrightarrow> err_code e \<noteq> LogicError)"
  have "?P next_lexem am sc ctx y" if "lexem_loop next_lexem am sc ctx = Some y" for y
    using that
  proof (rule lexem_loop.raw_induct [where P = ?P, rotated], intro allI impI)
    fix self and next_lexem :: "'a \<Rightarrow> (lexem \<times> 'a) run" and am and sc :: 'a and ctx y e
    assume IH: "\<And>next_lexem am sc ctx y. self next_lexem am sc ctx = Some y \<Longrightarrow> ?P next_lexem am sc ctx y"
      and body: "bindR (next_lexem sc) (\<lambda>(lx, scanner').
       if lexem_empty lx then returnR (lx, ctx)
       else if lm_id lx \<le> 0 then throwR (ErrorAt BadCharacterInGrammarDef (lm_value lx) (lm_line lx))
       else bindR (feed_loop am lx ctx) (\<lambda>ctx'.
           if stack_check ctx' then self next_lexem am scanner' ctx' else throwR logic_error)) = Some y"
      and next_ok: "\<forall>sc. no_logic_error (next_lexem sc)" and ok: "ctx_ok ctx" and y: "y = Inl e"
    show "err_code e \<noteq> LogicError"
    proof (cases "next_lexem sc" rule: run_cases)
      case stuck
      then show ?thesis using body by simp
    next
      case (throw e')
      then have "e' = e" using body y by (simp add: throwR_def)
      then show ?thesis using throw next_ok [rule_format, of sc] by simp
    next
      case (return r)
      obtain lx sc' where r: "r = (lx, sc')" by fastforce
      show ?thesis
      proof (cases "lexem_empty lx \<or> lm_id lx \<le> 0")
        case True
        then show ?thesis using body y return r by (auto simp: returnR_def throwR_def split: if_splits)
      next
        case False
        then have body': "bindR (feed_loop am lx ctx) (\<lambda>ctx'. if stack_check ctx' then self next_lexem am sc' ctx' else throwR logic_error) = Some y"
          using body return r by simp
        show ?thesis
        proof (cases "feed_loop am lx ctx" rule: run_cases)
          case stuck
          then show ?thesis using body' by simp
        next
          case (throw e')
          then have "e' = e" using body' y by (simp add: throwR_def)
          then show ?thesis using throw no_logic_error_feed_loop [of am lx ctx] by simp
        next
          case (return ctx')
          have ok': "ctx_ok ctx'" using feed_loop_spec [OF ok return] False by auto
          then have "self next_lexem am sc' ctx' = Some y" using body' return ctx_ok_check [OF ok'] by simp
          from IH [OF this] show ?thesis using next_ok ok' y by blast
        qed
      qed
    qed
  qed
  then show ?thesis using assms by (auto simp: no_logic_error_def throwR_def)
qed


definition list_scanner :: "lexem list \<Rightarrow> (lexem \<times> lexem list) run" where
  "list_scanner lxs =
     (case lxs of [] \<Rightarrow> returnR (eof_lexem 1, [])
      | lx # lxs' \<Rightarrow> if lexem_empty lx then returnR (eof_lexem 1, []) else returnR (lx, lxs'))"

text \<open>A grammar of one production \<open>S = x\<close>.\<close>

definition tiny_automaton :: automaton where
  "tiny_automaton = \<lparr>am_language = ''tiny'', am_typesystem = [], am_cmdline = [],
     am_lexer = \<lparr>lx_namelist = [''x''], lx_id2keyword = [False, False]\<rparr>,
     am_actions = [(ActionKey 1 1, Action Shift NoScope 2 0 0), (ActionKey 2 0, Action Accept NoScope 1 0 1)],
     am_gotos = [], am_calls = [], am_nonterminals = [''S'']\<rparr>"

definition tiny_lexem :: lexem where
  "tiny_lexem = \<lparr>lm_name = ''x'', lm_value = ''y'', lm_id = 1, lm_line = 3\<rparr>"


lemmas tiny_defs = tiny_automaton_def tiny_lexem_def list_scanner_def eof_lexem_def lexem_empty_def compiler_context_new_def
  mk_action_key_def map_find_def feed_lexem_def feed_shift_def feed_pop_def feed_accept_def is_keyword_def vec_at_def
  push_state_def stack_check_def get_lua_stack_reduction_size_def action_key_eq_iff

lemma tiny_feed:
  "feed_loop tiny_automaton tiny_lexem compiler_context_new = returnR
     \<lparr>cc_stack = [\<lparr>st_index = 1, st_luastki = 0, st_luastkn = 0, st_scopecnt = 0\<rparr>, \<lparr>st_index = 2, st_luastki = 1, st_luastkn = 1, st_scopecnt = 0\<rparr>],
      cc_scopestep = 0, cc_line = 3, cc_nodes = [Lexem_Node ''x'' ''y'' 3]\<rparr>"
  by (subst feed_loop.simps) (simp add: tiny_defs get_next_lua_stack_index.simps)

lemma tiny_run: "run_compiler list_scanner tiny_automaton [tiny_lexem] = returnR [Lexem_Node ''x'' ''y'' 3]"
proof -
  have first: "list_scanner [tiny_lexem] = returnR (tiny_lexem, [])" "\<not> lexem_empty tiny_lexem" "\<not> lm_id tiny_lexem \<le> 0"
    by (simp_all add: tiny_defs)
  have second: "lexem_loop list_scanner tiny_automaton [] ctx = returnR (eof_lexem 1, ctx)" for ctx
    by (subst lexem_loop.simps) (simp add: list_scanner_def eof_lexem_def lexem_empty_def)
  have "lexem_loop list_scanner tiny_automaton [tiny_lexem] compiler_context_new = returnR (eof_lexem 1,
     \<lparr>cc_stack = [\<lparr>st_index = 1, st_luastki = 0, st_luastkn = 0, st_scopecnt = 0\<rparr>, \<lparr>st_index = 2, st_luastki = 1, st_luastkn = 1, st_scopecnt = 0\<rparr>],
      cc_scopestep = 0, cc_line = 3, cc_nodes = [Lexem_Node ''x'' ''y'' 3]\<rparr>)"
    by (subst lexem_loop.simps) (simp add: first tiny_feed second stack_check_def)
  moreover have "feed_loop tiny_automaton (eof_lexem 1)
     \<lparr>cc_stack = [\<lparr>st_index = 1, st_luastki = 0, st_luastkn = 0, st_scopecnt = 0\<rparr>, \<lparr>st_index = 2, st_luastki = 1, st_luastkn = 1, st_scopecnt = 0\<rparr>],
      cc_scopestep = 0, cc_line = 3, cc_nodes = [Lexem_Node ''x'' ''y'' 3]\<rparr> = returnR
     \<lparr>cc_stack = [\<lparr>st_index = 1, st_luastki = 1, st_luastkn = 2, st_scopecnt = 0\<rparr>],
      cc_scopestep = 0, cc_line = 3, cc_nodes = [Lexem_Node ''x'' ''y'' 3]\<rparr>"
    by (subst feed_loop.simps) (simp add: tiny_defs)
  ultimately show ?thesis by (simp add: run_compiler_def)
qed

lemma list_scanner_eof: "list_scanner sc = returnR (lx, sc') \<Longrightarrow> lexem_empty lx \<Longrightarrow> lm_id lx = 0"
  by (auto simp: list_scanner_def eof_lexem_def split: list.splits if_splits)

lemma run_compiler_lexems:
  assumes "run_compiler next_lexem am scanner = returnR nodes"
    and "\<And>s a. map_find (am_actions am) (mk_action_key s 0) = Some a \<Longrightarrow> ac_type a \<noteq> Shift"
    and "\<And>sc lx sc'. next_lexem sc = returnR (lx, sc') \<Longrightarrow> lexem_empty lx \<Longrightarrow> lm_id lx = 0"
  shows "\<exists>lxs eof ss. scanned next_lexem scanner lxs eof \<and>
    concat (map ast_lexems nodes) = concat (map (shifted_lexem am) lxs) \<and>
    machine_run am [1] (map lm_id lxs) ss \<and> machine_accept am ss"
proof -
  obtain eof ctx where loop: "lexem_loop next_lexem am scanner compiler_context_new = returnR (eof, ctx)"
    and last: "bindR (feed_loop am eof ctx) (\<lambda>ctx'. returnR (cc_nodes ctx')) = returnR nodes"
    using assms(1) by (auto simp: run_compiler_def bindR_eq_returnR)
  then obtain ctx' where feed: "feed_loop am eof ctx = returnR ctx'" "cc_nodes ctx' = nodes" by (auto simp: bindR_eq_returnR)
  from lexem_loop_spec [OF ctx_ok_new loop] obtain lxs where lxs: "scanned next_lexem scanner lxs eof" "lexem_empty eof"
    "\<exists>sc sc'. next_lexem sc = returnR (eof, sc')" "ctx_ok ctx" "machine_run am (ctx_states compiler_context_new) (map lm_id lxs) (ctx_states ctx)"
    "ctx_lexems ctx = ctx_lexems compiler_context_new @ concat (map (shifted_lexem am) lxs)" by blast
  have id: "lm_id eof = 0" using lxs(2,3) assms(3) by blast
  have no_shift: "\<not> machine_shift am (lm_id eof) ss ss'" for ss ss'
    using assms(2) by (auto simp: id machine_shift.simps)
  obtain ss where "ctx_lexems ctx' = ctx_lexems ctx" "machine_run am (ctx_states ctx) [] ss" "machine_accept am ss"
    using feed_loop_spec [OF lxs(4) feed(1)] no_shift by blast
  then show ?thesis
    using machine_run_trans [OF lxs(5)] lxs(1,6) feed(2)
    by (force simp: ctx_states_def ctx_lexems_def compiler_context_new_def)
qed

text \<open>
  C12: When \<open>luaRunCompiler\<close> succeeds, for tables that do not shift the end of the source and a scanner whose
  empty lexem has the id 0, the nodes that are left on the Lua stack hold, from left to right, exactly the
  lexems of the source that are not keywords, and the machine has consumed all lexems and accepted.
\<close>

theorem compiler_keeps_lexems:
  assumes "run_compiler next_lexem am scanner = returnR nodes"
    and "\<And>s a. map_find (am_actions am) (mk_action_key s 0) = Some a \<Longrightarrow> ac_type a \<noteq> Shift"
    and "\<And>sc lx sc'. next_lexem sc = returnR (lx, sc') \<Longrightarrow> lexem_empty lx \<Longrightarrow> lm_id lx = 0"
  shows "\<exists>lxs eof ss. scanned next_lexem scanner lxs eof \<and>
    concat (map ast_lexems nodes) = concat (map (shifted_lexem am) lxs) \<and>
    machine_run am [1] (map lm_id lxs) ss \<and> machine_accept am ss"
  by (rule run_compiler_lexems [OF assms])

theorem compiler_keeps_lexems_witness:
  "\<exists>lxs eof ss. scanned list_scanner [tiny_lexem] lxs eof \<and>
    concat (map ast_lexems [Lexem_Node ''x'' ''y'' 3]) = concat (map (shifted_lexem tiny_automaton) lxs) \<and>
    machine_run tiny_automaton [1] (map lm_id lxs) ss \<and> machine_accept tiny_automaton ss"
  by (rule compiler_keeps_lexems [OF tiny_run])
    (auto simp: list_scanner_eof tiny_automaton_def map_find_def mk_action_key_def split: if_splits)

end
