(* ===== verification/LrFirst.thy ===== *)
theory LrFirst
  imports LrGrammar
begin

text \<open>
  The derivations of a grammar, and that the sets \<open>getNullableNonterminalSet\<close> and
  \<open>getNonTerminalFirstSetMap\<close> of \<open>src/automaton.cpp\<close> compute are the ones defined by derivations: both
  loops end, the first always, the second when every element of a right side is a terminal or a
  nonterminal with a production.
\<close>

subsection \<open>Derivations\<close>

abbreviation NT :: "int \<Rightarrow> production_node" where
  "NT A \<equiv> ProductionNode NonTerminal A"

abbreviation TM :: "int \<Rightarrow> production_node" where
  "TM t \<equiv> ProductionNode Terminal t"

definition pd_lhs :: "production_def \<Rightarrow> int" where
  "pd_lhs p = nd_index (pd_left p)"

definition pd_rhs :: "production_def \<Rightarrow> production_node list" where
  "pd_rhs p = map nd_node (pd_right p)"

inductive derive1 :: "prods \<Rightarrow> production_node list \<Rightarrow> production_node list \<Rightarrow> bool" for ps where
  derive1: "p \<in> set ps \<Longrightarrow> derive1 ps (u @ NT (pd_lhs p) # v) (u @ pd_rhs p @ v)"

abbreviation derives :: "prods \<Rightarrow> production_node list \<Rightarrow> production_node list \<Rightarrow> bool" where
  "derives ps \<equiv> (derive1 ps)\<^sup>*\<^sup>*"

lemma derive1_context: "derive1 ps w w' \<Longrightarrow> derive1 ps (x @ w @ y) (x @ w' @ y)"
proof (induction rule: derive1.induct)
  case (derive1 p u v)
  then show ?case using derive1.derive1 [of p ps "x @ u" "v @ y"] by simp
qed

lemma derives_context: "derives ps w w' \<Longrightarrow> derives ps (x @ w @ y) (x @ w' @ y)"
  by (induction rule: rtranclp_induct) (auto intro: derive1_context rtranclp.rtrancl_into_rtrancl)

lemma derives_append: "derives ps u u' \<Longrightarrow> derives ps v v' \<Longrightarrow> derives ps (u @ v) (u' @ v')"
  using derives_context [of ps u u' "[]" v] derives_context [of ps v v' u' "[]"] by simp

lemma derives_rule: "p \<in> set ps \<Longrightarrow> derives ps (pd_rhs p) w \<Longrightarrow> derives ps [NT (pd_lhs p)] w"
  using derive1.derive1 [of p ps "[]" "[]"] by (auto intro: converse_rtranclp_into_rtranclp)

subsection \<open>Nullable nonterminals\<close>

inductive nullable_nt :: "prods \<Rightarrow> int \<Rightarrow> bool" for ps where
  nullable_nt: "p \<in> set ps \<Longrightarrow> \<forall>nd \<in> set (pd_rhs p). \<exists>A. nd = NT A \<and> nullable_nt ps A \<Longrightarrow> nullable_nt ps (pd_lhs p)"

definition nullable_word :: "prods \<Rightarrow> production_node list \<Rightarrow> bool" where
  "nullable_word ps w \<longleftrightarrow> (\<forall>nd \<in> set w. \<exists>A. nd = NT A \<and> nullable_nt ps A)"

lemma nullable_word_simps [simp]:
  "nullable_word ps []"
  "nullable_word ps (nd # w) \<longleftrightarrow> (\<exists>A. nd = NT A \<and> nullable_nt ps A) \<and> nullable_word ps w"
  "nullable_word ps (v @ w) \<longleftrightarrow> nullable_word ps v \<and> nullable_word ps w"
  by (auto simp: nullable_word_def)

lemma nullable_nt_intro: "p \<in> set ps \<Longrightarrow> nullable_word ps (pd_rhs p) \<Longrightarrow> nullable_nt ps (pd_lhs p)"
  by (auto simp: nullable_word_def intro: nullable_nt)

lemma derives_Nil_word: "\<forall>nd \<in> set w. derives ps [nd] [] \<Longrightarrow> derives ps w []"
proof (induction w)
  case (Cons nd w)
  then show ?case using derives_append [of ps "[nd]" "[]" w "[]"] by simp
qed simp

lemma nullable_nt_derives: "nullable_nt ps A \<Longrightarrow> derives ps [NT A] []"
proof (induction rule: nullable_nt.induct)
  case (nullable_nt p)
  have "derives ps (pd_rhs p) []" by (rule derives_Nil_word) (use nullable_nt(2) in auto)
  then show ?case by (rule derives_rule [OF nullable_nt(1)])
qed

lemma nullable_word_derives: "nullable_word ps w \<Longrightarrow> derives ps w []"
  by (rule derives_Nil_word) (auto simp: nullable_word_def nullable_nt_derives)

lemma derives_nullable_word: "derives ps w [] \<Longrightarrow> nullable_word ps w"
proof (induction rule: converse_rtranclp_induct)
  case (step w w')
  from step(1) obtain p u v where "p \<in> set ps" "w = u @ NT (pd_lhs p) # v" "w' = u @ pd_rhs p @ v"
    by (cases rule: derive1.cases) auto
  then show ?case using step(3) by (auto intro: nullable_nt_intro)
qed simp

lemma nullable_nt_iff: "nullable_nt ps A \<longleftrightarrow> derives ps [NT A] []"
  using nullable_nt_derives [of ps A] derives_nullable_word [of ps "[NT A]"] by auto

text \<open>One pass of the loop.\<close>

definition nullable_in :: "flat_set \<Rightarrow> production_node list \<Rightarrow> bool" where
  "nullable_in rt w \<longleftrightarrow> (\<forall>nd \<in> set w. \<exists>A. nd = NT A \<and> A \<in> set rt)"

lemma nullable_rest_Nil: "fs_ok rt \<Longrightarrow> nullable_rest rt nds = [] \<longleftrightarrow> nullable_in rt (map nd_node nds)"
  by (induction rt nds rule: nullable_rest.induct) (auto simp: nullable_in_def nd_node_def fs_contains_spec)

lemma nullable_prod_eq:
  assumes "fs_ok rt"
  shows "nullable_prod p (rt, changed) =
    (if nullable_in rt (pd_rhs p) then (fst (fs_insert (pd_lhs p) rt), changed \<or> pd_lhs p \<notin> set rt) else (rt, changed))"
  using assms fs_insert_spec [OF assms, of "pd_lhs p"]
  by (auto simp: nullable_prod_def nullable_rest_Nil pd_rhs_def pd_lhs_def case_prod_unfold)

definition nullable_sound :: "prods \<Rightarrow> flat_set \<Rightarrow> bool" where
  "nullable_sound ps rt \<longleftrightarrow> fs_ok rt \<and> set rt \<subseteq> Collect (nullable_nt ps) \<and> set rt \<subseteq> pd_lhs ` set ps"

lemma nullable_step:
  assumes "nullable_sound qs rt" "p \<in> set qs" "nullable_prod p (rt, changed) = (rt', changed')"
  shows "nullable_sound qs rt'" "set rt \<subseteq> set rt'" "changed' \<longleftrightarrow> changed \<or> set rt \<noteq> set rt'"
    "nullable_in rt (pd_rhs p) \<Longrightarrow> pd_lhs p \<in> set rt'"
proof -
  have ok: "fs_ok rt" using assms(1) by (simp add: nullable_sound_def)
  have "nullable_nt qs (pd_lhs p)" if "nullable_in rt (pd_rhs p)"
    using that assms(1) nullable_nt_intro [OF assms(2)] by (fastforce simp: nullable_in_def nullable_word_def nullable_sound_def)
  moreover have "(rt', changed') = (if nullable_in rt (pd_rhs p) then (fst (fs_insert (pd_lhs p) rt), changed \<or> pd_lhs p \<notin> set rt) else (rt, changed))"
    using assms(3) nullable_prod_eq [OF ok] by metis
  ultimately show "nullable_sound qs rt'" "set rt \<subseteq> set rt'" "changed' \<longleftrightarrow> changed \<or> set rt \<noteq> set rt'"
    "nullable_in rt (pd_rhs p) \<Longrightarrow> pd_lhs p \<in> set rt'"
    using assms(1,2) fs_insert_spec [OF ok, of "pd_lhs p"] by (auto simp: nullable_sound_def split: if_splits)
qed

lemma nullable_pass:
  assumes "fold nullable_prod ps (rt, changed) = (rt', changed')" "nullable_sound qs rt" "set ps \<subseteq> set qs"
  shows "nullable_sound qs rt' \<and> set rt \<subseteq> set rt' \<and> (changed' \<longleftrightarrow> changed \<or> set rt \<noteq> set rt') \<and>
    (set rt = set rt' \<longrightarrow> (\<forall>p \<in> set ps. nullable_in rt (pd_rhs p) \<longrightarrow> pd_lhs p \<in> set rt))"
  using assms
proof (induction ps arbitrary: rt changed)
  case (Cons p ps)
  obtain rt1 ch1 where eq: "nullable_prod p (rt, changed) = (rt1, ch1)" by fastforce
  have p: "p \<in> set qs" using Cons.prems(3) by simp
  note step = nullable_step [OF Cons.prems(2) p eq]
  have IH: "nullable_sound qs rt' \<and> set rt1 \<subseteq> set rt' \<and> (changed' \<longleftrightarrow> ch1 \<or> set rt1 \<noteq> set rt') \<and>
    (set rt1 = set rt' \<longrightarrow> (\<forall>p \<in> set ps. nullable_in rt1 (pd_rhs p) \<longrightarrow> pd_lhs p \<in> set rt1))"
    by (rule Cons.IH) (use Cons.prems step eq in auto)
  have "nullable_in rt = nullable_in rt1" if "set rt = set rt1" using that by (auto simp: nullable_in_def fun_eq_iff)
  then show ?case using IH step by auto
qed simp

lemma nullable_loop_spec:
  "nullable_sound ps rt \<Longrightarrow> \<exists>rt'. nullable_loop ps rt = Some rt' \<and> nullable_sound ps rt' \<and>
      (\<forall>p \<in> set ps. nullable_in rt' (pd_rhs p) \<longrightarrow> pd_lhs p \<in> set rt')"
proof (induction "card (pd_lhs ` set ps - set rt)" arbitrary: rt rule: less_induct)
  case less
  obtain rt' changed where eq: "fold nullable_prod ps (rt, False) = (rt', changed)" by fastforce
  note pass = nullable_pass [OF eq less.prems subset_refl]
  show ?case
  proof (cases changed)
    case True
    have "card (pd_lhs ` set ps - set rt') < card (pd_lhs ` set ps - set rt)"
      by (rule psubset_card_mono) (use pass True in \<open>auto simp: nullable_sound_def\<close>)
    from less.hyps [OF this] show ?thesis
      using pass True by (subst nullable_loop.simps) (simp add: eq)
  next
    case False
    then have same: "set rt = set rt'" using pass by auto
    then have "nullable_in rt = nullable_in rt'" by (auto simp: nullable_in_def fun_eq_iff)
    then show ?thesis using pass False same by (subst nullable_loop.simps) (simp add: eq)
  qed
qed

lemma get_nullable_spec:
  obtains rt where "get_nullable_nonterminal_set ps = Some rt" "fs_ok rt" "set rt = Collect (nullable_nt ps)"
proof -
  have "nullable_sound ps []" by (simp add: nullable_sound_def)
  from nullable_loop_spec [OF this] obtain rt where rt: "nullable_loop ps [] = Some rt" "nullable_sound ps rt"
    "\<forall>p \<in> set ps. nullable_in rt (pd_rhs p) \<longrightarrow> pd_lhs p \<in> set rt" by blast
  have "A \<in> set rt" if "nullable_nt ps A" for A
    using that
  proof (induction rule: nullable_nt.induct)
    case (nullable_nt p)
    then have "nullable_in rt (pd_rhs p)" unfolding nullable_in_def by blast
    then show ?case using rt(3) nullable_nt(1) by blast
  qed
  then show ?thesis using that [of rt] rt by (auto simp: nullable_sound_def get_nullable_nonterminal_set_def)
qed

text \<open>
  C28: \<open>getNullableNonterminalSet\<close> ends for every list of productions, and the set it returns is
  ordered and holds exactly the nonterminals that derive the empty word.
\<close>

theorem nullable_set_derives:
  "\<exists>rt. get_nullable_nonterminal_set ps = Some rt \<and> fs_ok rt \<and> set rt = {A. derives ps [NT A] []}"
  by (rule get_nullable_spec [of ps]) (auto simp: nullable_nt_iff)

subsection \<open>FIRST sets\<close>

text \<open>The terminals a nonterminal can start with, by the productions.\<close>

inductive first_nt :: "prods \<Rightarrow> int \<Rightarrow> int \<Rightarrow> bool" for ps where
  first_terminal: "p \<in> set ps \<Longrightarrow> pd_rhs p = u @ TM t # v \<Longrightarrow> nullable_word ps u \<Longrightarrow> first_nt ps (pd_lhs p) t"
| first_nonterminal: "p \<in> set ps \<Longrightarrow> pd_rhs p = u @ NT B # v \<Longrightarrow> nullable_word ps u \<Longrightarrow> first_nt ps B t \<Longrightarrow> first_nt ps (pd_lhs p) t"

definition first_word :: "prods \<Rightarrow> production_node list \<Rightarrow> int \<Rightarrow> bool" where
  "first_word ps w t \<longleftrightarrow> (\<exists>u nd v. w = u @ nd # v \<and> nullable_word ps u \<and> (nd = TM t \<or> (\<exists>B. nd = NT B \<and> first_nt ps B t)))"

lemma first_word_Nil [simp]: "\<not> first_word ps [] t"
  by (simp add: first_word_def)

lemma first_word_Cons:
  "first_word ps (nd # w) t \<longleftrightarrow>
    nd = TM t \<or> (\<exists>B. nd = NT B \<and> (first_nt ps B t \<or> (nullable_nt ps B \<and> first_word ps w t)))"
proof
  assume "first_word ps (nd # w) t"
  then obtain u nd' v where *: "nd # w = u @ nd' # v" "nullable_word ps u" "nd' = TM t \<or> (\<exists>B. nd' = NT B \<and> first_nt ps B t)"
    by (auto simp: first_word_def)
  show "nd = TM t \<or> (\<exists>B. nd = NT B \<and> (first_nt ps B t \<or> (nullable_nt ps B \<and> first_word ps w t)))"
  proof (cases u)
    case (Cons x u')
    then have "first_word ps w t" using * by (auto simp: first_word_def)
    then show ?thesis using * Cons by auto
  qed (use * in auto)
next
  assume "nd = TM t \<or> (\<exists>B. nd = NT B \<and> (first_nt ps B t \<or> (nullable_nt ps B \<and> first_word ps w t)))"
  then consider "nd = TM t" | B where "nd = NT B" "first_nt ps B t" | B where "nd = NT B" "nullable_nt ps B" "first_word ps w t" by blast
  then show "first_word ps (nd # w) t"
  proof cases
    case 3
    then obtain u nd' v where "w = u @ nd' # v" "nullable_word ps u" "nd' = TM t \<or> (\<exists>B. nd' = NT B \<and> first_nt ps B t)"
      by (auto simp: first_word_def)
    then show ?thesis using 3 unfolding first_word_def by (intro exI [of _ "NT B # u"] exI [of _ nd'] exI [of _ v]) auto
  qed (auto simp: first_word_def intro: exI [of _ "[]"])
qed

lemma first_word_append: "first_word ps (v @ w) t \<longleftrightarrow> first_word ps v t \<or> (nullable_word ps v \<and> first_word ps w t)"
  by (induction v) (auto simp: first_word_Cons)

lemma first_nt_rule: "p \<in> set ps \<Longrightarrow> first_word ps (pd_rhs p) t \<Longrightarrow> first_nt ps (pd_lhs p) t"
  by (auto simp: first_word_def intro: first_terminal first_nonterminal)

lemma derives_first_word: "derives ps w (TM t # v) \<Longrightarrow> first_word ps w t"
proof (induction rule: converse_rtranclp_induct)
  case (step w w')
  from step(1) obtain p x y where p: "p \<in> set ps" "w = x @ NT (pd_lhs p) # y" "w' = x @ pd_rhs p @ y"
    by (cases rule: derive1.cases) auto
  then show ?case
    using step(3) first_nt_rule [OF p(1)] nullable_nt_intro [OF p(1)] by (auto simp: first_word_append first_word_Cons)
qed (simp add: first_word_Cons)

lemma first_nt_derives: "first_nt ps A t \<Longrightarrow> \<exists>v. derives ps [NT A] (TM t # v)"
proof (induction rule: first_nt.induct)
  case (first_terminal p u t v)
  have "derives ps (pd_rhs p) (TM t # v)"
    using derives_context [OF nullable_word_derives [OF first_terminal(3)], of "[]" "TM t # v"] first_terminal(2) by simp
  then show ?case using derives_rule [OF first_terminal(1)] by blast
next
  case (first_nonterminal p u B v t)
  then obtain y where y: "derives ps [NT B] (TM t # y)" by blast
  have "derives ps (pd_rhs p) (NT B # v)"
    using derives_context [OF nullable_word_derives [OF first_nonterminal(3)], of "[]" "NT B # v"] first_nonterminal(2) by simp
  moreover have "derives ps (NT B # v) (TM t # y @ v)" using derives_context [OF y, of "[]" v] by simp
  ultimately have "derives ps (pd_rhs p) (TM t # y @ v)" by (rule rtranclp_trans)
  then show ?case using derives_rule [OF first_nonterminal(1)] by blast
qed

lemma first_nt_iff: "first_nt ps A t \<longleftrightarrow> (\<exists>v. derives ps [NT A] (TM t # v))"
  using first_nt_derives [of ps A t] derives_first_word [of ps "[NT A]" t] by (auto simp: first_word_Cons)

text \<open>
  A grammar as \<open>Automaton::build\<close> hands it over: every element of a right side is a terminal, or a
  nonterminal that has a production.
\<close>

definition wf_prods :: "prods \<Rightarrow> bool" where
  "wf_prods ps \<longleftrightarrow> (\<forall>p \<in> set ps. \<forall>nd \<in> set (pd_right p).
      nd_type nd = Terminal \<or> (nd_type nd = NonTerminal \<and> nd_index nd \<in> pd_lhs ` set ps))"

definition fmv :: "first_map \<Rightarrow> int \<Rightarrow> int set" where
  "fmv rt A = set (fm_at A rt)"

definition fm_keys :: "first_map \<Rightarrow> int set" where
  "fm_keys rt = {A. map_find rt A \<noteq> None}"

definition fm_ok :: "first_map \<Rightarrow> bool" where
  "fm_ok rt \<longleftrightarrow> (\<forall>A. fs_ok (fm_at A rt))"

text \<open>The terminal \<open>0\<close> in a FIRST set stands for \<open>$\<close>; it marks sets of nonterminals that may be empty.\<close>

definition fm_sound :: "prods \<Rightarrow> first_map \<Rightarrow> bool" where
  "fm_sound ps rt \<longleftrightarrow> fm_ok rt \<and> fm_keys rt \<subseteq> pd_lhs ` set ps \<and> (\<forall>A. fmv rt A \<subseteq> Collect (first_nt ps A) \<union> {0})"

lemma fm_at_add: "fm_at B (fm_add A es rt) = (if B = A then fst (fs_insert_range es (fm_at A rt)) else fm_at B rt)"
  by (simp add: fm_at_def fm_add_def)

lemma fm_keys_add [simp]: "fm_keys (fm_add A es rt) = insert A (fm_keys rt)"
  by (auto simp: fm_keys_def fm_add_def)

lemma fmv_add [simp]: "fm_ok rt \<Longrightarrow> fmv (fm_add A es rt) B = (if B = A then set es \<union> fmv rt A else fmv rt B)"
  using fs_insert_range_spec [of "fm_at A rt" es] by (simp add: fmv_def fm_at_add fm_ok_def)

lemma fm_ok_add [simp]: "fm_ok rt \<Longrightarrow> fm_ok (fm_add A es rt)"
  using fs_insert_range_spec [of "fm_at A rt" es] by (auto simp: fm_ok_def fm_at_add)

lemma fm_sound_add:
  "fm_sound ps rt \<Longrightarrow> p \<in> set ps \<Longrightarrow> set es \<subseteq> Collect (first_nt ps (pd_lhs p)) \<union> {0} \<Longrightarrow> fm_sound ps (fm_add (pd_lhs p) es rt)"
  by (auto simp: fm_sound_def split: if_splits)

lemma fm_add_length: "fm_ok rt \<Longrightarrow> length (fm_at A rt) < length (fm_at A (fm_add A es rt)) \<longleftrightarrow> \<not> set es \<subseteq> fmv rt A"
proof -
  assume ok: "fm_ok rt"
  have card: "length fs = card (set fs)" if "fs_ok fs" for fs
    using that distinct_card [of fs] by (simp add: fs_ok_def strict_sorted_iff)
  have "fs_ok (fm_at A rt)" "fs_ok (fm_at A (fm_add A es rt))" using ok fm_ok_add [OF ok] by (auto simp: fm_ok_def)
  then have "length (fm_at A rt) < length (fm_at A (fm_add A es rt)) \<longleftrightarrow> card (fmv rt A) < card (set es \<union> fmv rt A)"
    using fmv_add [OF ok, of A es A] by (simp add: card fmv_def)
  also have "\<dots> \<longleftrightarrow> \<not> set es \<subseteq> fmv rt A"
  proof
    assume "\<not> set es \<subseteq> fmv rt A"
    then show "card (fmv rt A) < card (set es \<union> fmv rt A)"
      by (intro psubset_card_mono) (auto simp: fmv_def)
  qed (auto simp: Un_absorb1)
  finally show ?thesis .
qed

text \<open>The sets of a map grow; a change is a set that has grown or a set that was missing.\<close>

definition fm_le :: "first_map \<Rightarrow> first_map \<Rightarrow> bool" where
  "fm_le rt rt' \<longleftrightarrow> fm_keys rt \<subseteq> fm_keys rt' \<and> (\<forall>A. fmv rt A \<subseteq> fmv rt' A)"

lemma fm_le_refl [simp]: "fm_le rt rt"
  by (simp add: fm_le_def)

lemma fm_le_trans: "fm_le a b \<Longrightarrow> fm_le b c \<Longrightarrow> fm_le a c"
  unfolding fm_le_def by blast

lemma fm_le_add [simp]: "fm_ok rt \<Longrightarrow> fm_le rt (fm_add A es rt)"
  by (auto simp: fm_le_def)

lemma fm_add_same: "fm_ok rt \<Longrightarrow> set es \<subseteq> fmv rt A \<Longrightarrow> fmv (fm_add A es rt) = fmv rt"
  by (auto simp: fun_eq_iff)

text \<open>What a pass guarantees for a production when nothing changes.\<close>

definition fm_closed_word :: "(int \<Rightarrow> int set) \<Rightarrow> prods \<Rightarrow> int \<Rightarrow> production_node list \<Rightarrow> bool" where
  "fm_closed_word F ps A w \<longleftrightarrow> (\<forall>u nd v. w = u @ nd # v \<longrightarrow> nullable_word ps u \<longrightarrow>
      (\<forall>t. nd = TM t \<longrightarrow> t \<in> F A) \<and> (\<forall>B. nd = NT B \<longrightarrow> F B \<subseteq> F A))"

lemma fm_closed_word_Nil [simp]: "fm_closed_word F ps A []"
  by (simp add: fm_closed_word_def)

lemma fm_closed_word_Cons:
  "fm_closed_word F ps A (nd # w) \<longleftrightarrow> (\<forall>t. nd = TM t \<longrightarrow> t \<in> F A) \<and> (\<forall>B. nd = NT B \<longrightarrow> F B \<subseteq> F A) \<and>
      (nullable_word ps [nd] \<longrightarrow> fm_closed_word F ps A w)"
proof
  assume *: "fm_closed_word F ps A (nd # w)"
  have "(\<forall>t. nd = TM t \<longrightarrow> t \<in> F A) \<and> (\<forall>B. nd = NT B \<longrightarrow> F B \<subseteq> F A)"
    using * [unfolded fm_closed_word_def, rule_format, of "[]" nd w] by simp
  moreover have "fm_closed_word F ps A w" if "nullable_word ps [nd]"
    unfolding fm_closed_word_def
  proof (intro allI impI)
    fix u nd' v assume "w = u @ nd' # v" "nullable_word ps u"
    then show "(\<forall>t. nd' = TM t \<longrightarrow> t \<in> F A) \<and> (\<forall>B. nd' = NT B \<longrightarrow> F B \<subseteq> F A)"
      using * [unfolded fm_closed_word_def, rule_format, of "nd # u" nd' v] that by simp
  qed
  ultimately show "(\<forall>t. nd = TM t \<longrightarrow> t \<in> F A) \<and> (\<forall>B. nd = NT B \<longrightarrow> F B \<subseteq> F A) \<and> (nullable_word ps [nd] \<longrightarrow> fm_closed_word F ps A w)"
    by blast
next
  assume *: "(\<forall>t. nd = TM t \<longrightarrow> t \<in> F A) \<and> (\<forall>B. nd = NT B \<longrightarrow> F B \<subseteq> F A) \<and> (nullable_word ps [nd] \<longrightarrow> fm_closed_word F ps A w)"
  show "fm_closed_word F ps A (nd # w)"
    unfolding fm_closed_word_def
  proof (intro allI impI)
    fix u nd' v assume w: "nd # w = u @ nd' # v" and u: "nullable_word ps u"
    show "(\<forall>t. nd' = TM t \<longrightarrow> t \<in> F A) \<and> (\<forall>B. nd' = NT B \<longrightarrow> F B \<subseteq> F A)"
    proof (cases u)
      case Nil
      then show ?thesis using w * by simp
    next
      case (Cons x u')
      then have "nullable_word ps [nd]" "nullable_word ps u'" "w = u' @ nd' # v" using w u by auto
      then show ?thesis using * unfolding fm_closed_word_def by blast
    qed
  qed
qed

lemma fmv_neq_le: "fm_le a b \<Longrightarrow> fm_le b c \<Longrightarrow> fmv a \<noteq> fmv b \<or> fmv b \<noteq> fmv c \<Longrightarrow> fmv a \<noteq> fmv c"
  unfolding fm_le_def fun_eq_iff by blast

text \<open>A pass has changed something: a set has grown, or an element \<open>w\<close> of the productions has no set yet.\<close>

definition fm_changed :: "production_node list \<Rightarrow> first_map \<Rightarrow> first_map \<Rightarrow> bool" where
  "fm_changed w rt rt' \<longleftrightarrow> fmv rt \<noteq> fmv rt' \<or> (\<exists>B. NT B \<in> set w \<and> B \<notin> fm_keys rt)"

lemma fm_changed_later: "fm_changed w b c \<Longrightarrow> fm_le a b \<Longrightarrow> fm_le b c \<Longrightarrow> set w \<subseteq> set w' \<Longrightarrow> fm_changed w' a c"
  using fmv_neq_le [of a b c] unfolding fm_changed_def fm_le_def by blast

lemma fm_changed_earlier: "fm_changed w a b \<Longrightarrow> fm_le a b \<Longrightarrow> fm_le b c \<Longrightarrow> set w \<subseteq> set w' \<Longrightarrow> fm_changed w' a c"
  using fmv_neq_le [of a b c] unfolding fm_changed_def fm_le_def by blast

definition first_result :: "prods \<Rightarrow> int \<Rightarrow> production_node list \<Rightarrow> first_map \<Rightarrow> bool \<Rightarrow> first_map \<Rightarrow> bool \<Rightarrow> bool" where
  "first_result ps A w rt changed rt' changed' \<longleftrightarrow>
     fm_sound ps rt' \<and> fm_le rt rt' \<and> (w \<noteq> [] \<longrightarrow> A \<in> fm_keys rt') \<and> (changed \<longrightarrow> changed') \<and>
     (changed' \<longrightarrow> changed \<or> fm_changed w rt rt') \<and>
     (\<not> changed' \<longrightarrow> fmv rt' = fmv rt \<and> fm_closed_word (fmv rt) ps A w)"

lemma first_result_trans:
  assumes "first_result ps A [nd] rt ch rt1 ch1" "first_result ps A w rt1 ch1 rt' ch'" "nullable_word ps [nd]"
  shows "first_result ps A (nd # w) rt ch rt' ch'"
proof -
  have le: "fm_le rt rt1" "fm_le rt1 rt'" using assms by (auto simp: first_result_def)
  have "fm_changed (nd # w) rt rt'" if "fm_changed [nd] rt rt1 \<or> fm_changed w rt1 rt'"
    using that fm_changed_later [OF _ le, of w "nd # w"] fm_changed_earlier [OF _ le, of "[nd]" "nd # w"] by auto
  moreover have "A \<in> fm_keys rt'" using assms by (auto simp: first_result_def fm_le_def)
  moreover have "fm_closed_word (fmv rt) ps A (nd # w)" "fmv rt' = fmv rt" if "\<not> ch'"
    using that assms unfolding first_result_def by (auto simp: fm_closed_word_Cons)
  ultimately show ?thesis
    using assms fm_le_trans [OF le] unfolding first_result_def by blast
qed

lemma first_result_stop:
  assumes "first_result ps A [nd] rt ch rt' ch'" "\<not> nullable_word ps [nd]"
  shows "first_result ps A (nd # w) rt ch rt' ch'"
proof -
  have le: "fm_le rt rt'" using assms by (auto simp: first_result_def)
  show ?thesis
    using assms fm_changed_earlier [OF _ le fm_le_refl, of "[nd]" "nd # w"]
    unfolding first_result_def by (auto simp: fm_closed_word_Cons)
qed

lemma first_right_spec:
  assumes "first_right (pd_lhs p) nullable nds rt ch = (rt', ch', at_end)"
    and "fs_ok nullable" "set nullable = Collect (nullable_nt ps)" "fm_sound ps rt"
    and "p \<in> set ps" "pd_rhs p = u @ map nd_node nds" "nullable_word ps u" "\<forall>nd \<in> set nds. nd_type nd \<noteq> Unresolved"
  shows "first_result ps (pd_lhs p) (map nd_node nds) rt ch rt' ch' \<and> (at_end \<longleftrightarrow> nullable_word ps (map nd_node nds))"
  using assms
proof (induction nds arbitrary: rt ch u)
  case Nil
  then show ?case by (simp add: first_result_def)
next
  case (Cons nd nds)
  have ok: "fm_ok rt" using Cons.prems(4) by (simp add: fm_sound_def)
  have word: "pd_rhs p = u @ nd_node nd # map nd_node nds" using Cons.prems(6) by simp
  note contains = fs_contains_spec [OF Cons.prems(2)]
  show ?case
  proof (cases "nd_type nd")
    case Unresolved
    then show ?thesis using Cons.prems(8) by simp
  next
    case Terminal
    let ?t = "nd_index nd"
    have nd: "nd_node nd = TM ?t" using Terminal by (simp add: nd_node_def)
    have "first_nt ps (pd_lhs p) ?t" using first_terminal [OF Cons.prems(5) word [unfolded nd] Cons.prems(7)] .
    then have sound: "fm_sound ps (fm_add (pd_lhs p) [?t] rt)" by (intro fm_sound_add Cons.prems(4) Cons.prems(5)) simp
    have eq: "rt' = fm_add (pd_lhs p) [?t] rt" "ch' \<longleftrightarrow> ch \<or> ?t \<notin> fmv rt (pd_lhs p)" "\<not> at_end"
      using Cons.prems(1) Terminal fs_insert_spec [of "fm_at (pd_lhs p) rt" ?t] ok by (auto simp: fm_ok_def fmv_def)
    have "fmv rt \<noteq> fmv rt'" if "?t \<notin> fmv rt (pd_lhs p)"
    proof -
      have "?t \<in> fmv rt' (pd_lhs p)" by (simp add: eq(1) ok)
      with that show ?thesis by metis
    qed
    then have "first_result ps (pd_lhs p) [TM ?t] rt ch rt' ch'"
      using sound ok fm_add_same [OF ok, of "[?t]"]
      by (auto simp: first_result_def eq fm_changed_def fm_closed_word_Cons)
    then show ?thesis using first_result_stop [of ps _ "TM ?t"] eq(3) by (simp add: nd)
  next
    case NonTerminal
    let ?B = "nd_index nd"
    have nd: "nd_node nd = NT ?B" using NonTerminal by (simp add: nd_node_def)
    let ?es = "case map_find rt ?B of None \<Rightarrow> [] | Some fs \<Rightarrow> fs"
    let ?rt = "fm_add (pd_lhs p) ?es rt"
    let ?ch = "ch \<or> map_find rt ?B = None \<or> \<not> set ?es \<subseteq> fmv rt (pd_lhs p)"
    have es: "set ?es = fmv rt ?B" by (simp add: fmv_def fm_at_def)
    have "set ?es \<subseteq> Collect (first_nt ps (pd_lhs p)) \<union> {0}"
      using Cons.prems(4) first_nonterminal [OF Cons.prems(5) word [unfolded nd] Cons.prems(7)] unfolding es fm_sound_def by blast
    then have sound: "fm_sound ps ?rt" by (rule fm_sound_add [OF Cons.prems(4,5)])
    have step: "first_right (pd_lhs p) nullable (nd # nds) rt ch =
      (if nullable_nt ps ?B then first_right (pd_lhs p) nullable nds ?rt ?ch else (?rt, ?ch, False))"
      using NonTerminal contains Cons.prems(3) fm_add_length [OF ok, of "pd_lhs p" ?es] by (cases "map_find rt ?B") (auto simp: Let_def)
    have "fmv rt \<noteq> fmv ?rt" if "\<not> set ?es \<subseteq> fmv rt (pd_lhs p)"
    proof -
      have "fmv ?rt (pd_lhs p) = set ?es \<union> fmv rt (pd_lhs p)" using ok by simp
      with that show ?thesis by (metis sup.absorb_iff2)
    qed
    then have changed: "?ch \<longleftrightarrow> ch \<or> fm_changed [NT ?B] rt ?rt"
      using fm_add_same [OF ok, of ?es "pd_lhs p"] by (auto simp: fm_changed_def fm_keys_def)
    then have res: "first_result ps (pd_lhs p) [NT ?B] rt ch ?rt ?ch"
      using sound ok fm_add_same [OF ok, of ?es "pd_lhs p"] es unfolding first_result_def
      by (auto simp: fm_closed_word_Cons)
    show ?thesis
    proof (cases "nullable_nt ps ?B")
      case True
      have "first_result ps (pd_lhs p) (map nd_node nds) ?rt ?ch rt' ch' \<and> (at_end \<longleftrightarrow> nullable_word ps (map nd_node nds))"
        by (rule Cons.IH [of ?rt ?ch "u @ [NT ?B]"]) (use Cons.prems step True sound nd in auto)
      then show ?thesis using first_result_trans [OF res] True by (simp add: nd)
    next
      case False
      then show ?thesis using first_result_stop [OF res] step Cons.prems(1) by (auto simp: nd)
    qed
  qed
qed

definition fm_closed_prod :: "(int \<Rightarrow> int set) \<Rightarrow> prods \<Rightarrow> production_def \<Rightarrow> bool" where
  "fm_closed_prod F ps p \<longleftrightarrow> fm_closed_word F ps (pd_lhs p) (pd_rhs p) \<and> (nullable_word ps (pd_rhs p) \<longrightarrow> 0 \<in> F (pd_lhs p))"

lemma first_prod_spec:
  assumes "first_prod nullable p (rt, ch, verify) = (rt', ch', verify')"
    and "fs_ok nullable" "set nullable = Collect (nullable_nt ps)" "fm_sound ps rt" "fs_ok verify"
    and "p \<in> set ps" "wf_prods ps"
  shows "fm_sound ps rt'" "fm_le rt rt'" "pd_lhs p \<in> fm_keys rt'" "ch \<longrightarrow> ch'"
    "ch' \<longrightarrow> ch \<or> fm_changed (pd_rhs p) rt rt'"
    "\<not> ch' \<longrightarrow> fmv rt' = fmv rt \<and> fm_closed_prod (fmv rt) ps p"
    "fs_ok verify'" "set verify' = set verify \<union> {A. A = pd_lhs p \<and> nullable_word ps (pd_rhs p)}"
proof -
  let ?A = "pd_lhs p" and ?w = "pd_rhs p"
  obtain rt1 ch1 at_end where right: "first_right ?A nullable (pd_right p) rt ch = (rt1, ch1, at_end)" by (cases "first_right ?A nullable (pd_right p) rt ch")
  have "\<forall>nd \<in> set (pd_right p). nd_type nd \<noteq> Unresolved" using assms(6,7) by (force simp: wf_prods_def)
  with first_right_spec [OF right assms(2,3,4,6), of "[]"]
  have res: "first_result ps ?A ?w rt ch rt1 ch1" and at_end: "at_end \<longleftrightarrow> nullable_word ps ?w" by (simp_all add: pd_rhs_def)
  have ok: "fm_ok rt1" and le: "fm_le rt rt1" using res by (auto simp: first_result_def fm_sound_def)
  have eq: "(rt', ch', verify') = (if at_end then (fm_add ?A [0] rt1, ch1 \<or> 0 \<notin> fmv rt1 ?A, fst (fs_insert ?A verify)) else (rt1, ch1, verify))"
    using assms(1) right fs_insert_spec [of "fm_at ?A rt1" 0] ok
    by (simp add: first_prod_def pd_lhs_def [symmetric] fm_ok_def fmv_def Let_def case_prod_unfold split: if_splits)
  have "fm_sound ps rt' \<and> fm_le rt rt' \<and> ?A \<in> fm_keys rt' \<and> (ch \<longrightarrow> ch') \<and> (ch' \<longrightarrow> ch \<or> fm_changed ?w rt rt') \<and>
    (\<not> ch' \<longrightarrow> fmv rt' = fmv rt \<and> fm_closed_prod (fmv rt) ps p) \<and>
    fs_ok verify' \<and> set verify' = set verify \<union> {A. A = ?A \<and> nullable_word ps ?w}"
  proof (cases at_end)
    case False
    then have "?w \<noteq> []" using at_end by auto
    then show ?thesis using False eq res at_end assms(5) by (auto simp: first_result_def fm_closed_prod_def)
  next
    case True
    have le': "fm_le rt1 (fm_add ?A [0] rt1)" using ok by simp
    have grown: "fmv rt1 \<noteq> fmv (fm_add ?A [0] rt1)" if "0 \<notin> fmv rt1 ?A"
    proof -
      have "0 \<in> fmv (fm_add ?A [0] rt1) ?A" using ok by simp
      with that show ?thesis by metis
    qed
    have "fm_changed ?w rt (fm_add ?A [0] rt1)" if "fm_changed ?w rt rt1 \<or> 0 \<notin> fmv rt1 ?A"
      using that fm_changed_earlier [OF _ le le', of ?w ?w] fmv_neq_le [OF le le'] grown by (auto simp: fm_changed_def)
    then have "ch' \<longrightarrow> ch \<or> fm_changed ?w rt rt'" using True eq res by (auto simp: first_result_def)
    moreover have "\<not> ch' \<longrightarrow> fmv rt' = fmv rt \<and> fm_closed_prod (fmv rt) ps p"
    proof
      assume "\<not> ch'"
      with True eq have *: "rt' = fm_add ?A [0] rt1" "\<not> ch1" "0 \<in> fmv rt1 ?A" by auto
      then show "fmv rt' = fmv rt \<and> fm_closed_prod (fmv rt) ps p" using res fm_add_same [OF ok, of "[0]" ?A] by (simp add: first_result_def fm_closed_prod_def)
    qed
    moreover have "fm_sound ps rt' \<and> fm_le rt rt' \<and> ?A \<in> fm_keys rt' \<and> (ch \<longrightarrow> ch') \<and> fs_ok verify' \<and>
        set verify' = set verify \<union> {A. A = ?A \<and> nullable_word ps ?w}"
      using True eq res at_end assms(4,5,6) fs_insert_spec [of verify ?A] fm_le_trans [OF le le'] fm_sound_add [of ps rt1 p "[0]"]
      by (simp add: first_result_def)
    ultimately show ?thesis by blast
  qed
  then show "fm_sound ps rt'" "fm_le rt rt'" "pd_lhs p \<in> fm_keys rt'" "ch \<longrightarrow> ch'"
    "ch' \<longrightarrow> ch \<or> fm_changed (pd_rhs p) rt rt'"
    "\<not> ch' \<longrightarrow> fmv rt' = fmv rt \<and> fm_closed_prod (fmv rt) ps p"
    "fs_ok verify'" "set verify' = set verify \<union> {A. A = pd_lhs p \<and> nullable_word ps (pd_rhs p)}" by blast+
qed

lemma first_pass:
  assumes "fold (first_prod nullable) ps (rt, ch, verify) = (rt', ch', verify')"
    and "fs_ok nullable" "set nullable = Collect (nullable_nt qs)" "fm_sound qs rt" "fs_ok verify"
    and "set ps \<subseteq> set qs" "wf_prods qs" "\<And>p. p \<in> set ps \<Longrightarrow> set (pd_rhs p) \<subseteq> set w"
  shows "fm_sound qs rt' \<and> fm_le rt rt' \<and> pd_lhs ` set ps \<subseteq> fm_keys rt' \<and> (ch \<longrightarrow> ch') \<and>
    (ch' \<longrightarrow> ch \<or> fm_changed w rt rt') \<and>
    (\<not> ch' \<longrightarrow> fmv rt' = fmv rt \<and> (\<forall>p \<in> set ps. fm_closed_prod (fmv rt) qs p)) \<and>
    fs_ok verify' \<and> set verify' = set verify \<union> {pd_lhs p | p. p \<in> set ps \<and> nullable_word qs (pd_rhs p)}"
  using assms
proof (induction ps arbitrary: rt ch verify)
  case (Cons p ps)
  obtain rt1 ch1 ver1 where eq: "first_prod nullable p (rt, ch, verify) = (rt1, ch1, ver1)" by (cases "first_prod nullable p (rt, ch, verify)")
  have p: "p \<in> set qs" "set (pd_rhs p) \<subseteq> set w" using Cons.prems(6,8) by auto
  note step = first_prod_spec [OF eq Cons.prems(2,3,4,5) p(1) Cons.prems(7)]
  have IH: "fm_sound qs rt' \<and> fm_le rt1 rt' \<and> pd_lhs ` set ps \<subseteq> fm_keys rt' \<and> (ch1 \<longrightarrow> ch') \<and>
    (ch' \<longrightarrow> ch1 \<or> fm_changed w rt1 rt') \<and>
    (\<not> ch' \<longrightarrow> fmv rt' = fmv rt1 \<and> (\<forall>p \<in> set ps. fm_closed_prod (fmv rt1) qs p)) \<and>
    fs_ok verify' \<and> set verify' = set ver1 \<union> {pd_lhs p | p. p \<in> set ps \<and> nullable_word qs (pd_rhs p)}"
    by (rule Cons.IH) (use Cons.prems step eq in auto)
  have le: "fm_le rt rt1" "fm_le rt1 rt'" using IH step by auto
  have changed: "ch' \<longrightarrow> ch \<or> fm_changed w rt rt'"
    using IH step(5) fm_changed_later [OF _ le subset_refl, of w] fm_changed_earlier [OF _ le p(2)] by blast
  have keys: "pd_lhs p \<in> fm_keys rt'" using step(3) le(2) by (auto simp: fm_le_def)
  have verify: "set verify' = set verify \<union> {pd_lhs q | q. q \<in> set (p # ps) \<and> nullable_word qs (pd_rhs q)}"
    using IH step(8) by auto
  show ?case using IH step(4,6) fm_le_trans [OF le] changed keys verify by auto
qed simp

definition fm_entries :: "first_map \<Rightarrow> (int \<times> int option) set" where
  "fm_entries rt = {(A, None) | A. A \<in> fm_keys rt} \<union> {(A, Some t) | A t. t \<in> fmv rt A}"

definition fm_universe :: "prods \<Rightarrow> (int \<times> int option) set" where
  "fm_universe ps = pd_lhs ` set ps \<times> insert None (insert (Some 0) (Some ` pn_index ` (\<Union>p \<in> set ps. set (pd_rhs p))))"

lemma fmv_key: "t \<in> fmv rt A \<Longrightarrow> A \<in> fm_keys rt"
  by (cases "map_find rt A") (simp_all add: fmv_def fm_at_def fm_keys_def)

lemma first_nt_terminal: "first_nt ps A t \<Longrightarrow> t \<in> pn_index ` (\<Union>p \<in> set ps. set (pd_rhs p))"
  by (induction rule: first_nt.induct) (force simp: image_iff)+

lemma fm_entries_universe:
  assumes "fm_sound ps rt"
  shows "fm_entries rt \<subseteq> fm_universe ps"
proof
  fix x assume "x \<in> fm_entries rt"
  then consider A where "x = (A, None)" "A \<in> fm_keys rt" | A t where "x = (A, Some t)" "t \<in> fmv rt A"
    by (auto simp: fm_entries_def)
  then show "x \<in> fm_universe ps"
  proof cases
    case (2 A t)
    then have "A \<in> pd_lhs ` set ps" "t = 0 \<or> first_nt ps A t" using assms fmv_key by (auto simp: fm_sound_def)
    then show ?thesis using 2 first_nt_terminal [of ps A t] by (auto simp: fm_universe_def)
  qed (use assms in \<open>auto simp: fm_sound_def fm_universe_def\<close>)
qed

lemma fm_entries_mem [simp]:
  "(A, None) \<in> fm_entries rt \<longleftrightarrow> A \<in> fm_keys rt" "(A, Some t) \<in> fm_entries rt \<longleftrightarrow> t \<in> fmv rt A"
  by (auto simp: fm_entries_def)

lemma fm_le_entries: "fm_le a b \<Longrightarrow> fm_entries a \<subseteq> fm_entries b"
  unfolding fm_le_def fm_entries_def by blast

lemma finite_fm_universe: "finite (fm_universe ps)"
  by (simp add: fm_universe_def)

lemma nullable_nt_lhs: "{pd_lhs p | p. p \<in> set ps \<and> nullable_word ps (pd_rhs p)} = Collect (nullable_nt ps)"
  unfolding nullable_word_def by (auto elim: nullable_nt.cases intro: nullable_nt)

lemma wf_prods_lhs:
  assumes "wf_prods ps" "p \<in> set ps" "NT B \<in> set (pd_rhs p)"
  shows "B \<in> pd_lhs ` set ps"
proof -
  obtain nd where "nd \<in> set (pd_right p)" "nd_node nd = NT B" using assms(3) by (auto simp: pd_rhs_def)
  then have "nd_type nd = NonTerminal" "nd_index nd = B" by (simp_all add: nd_node_def)
  with \<open>nd \<in> set (pd_right p)\<close> assms(1,2) show ?thesis unfolding wf_prods_def by fastforce
qed

lemma first_loop_spec:
  assumes "wf_prods ps" "fs_ok nullable" "set nullable = Collect (nullable_nt ps)"
  shows "fm_sound ps rt \<Longrightarrow> fs_ok verify \<Longrightarrow> set verify \<subseteq> Collect (nullable_nt ps) \<Longrightarrow>
    \<exists>rt' verify'. first_loop ps nullable rt verify = Some (rt', verify') \<and> fm_sound ps rt' \<and> pd_lhs ` set ps \<subseteq> fm_keys rt' \<and>
      (\<forall>p \<in> set ps. fm_closed_prod (fmv rt') ps p) \<and> fs_ok verify' \<and> set verify' = Collect (nullable_nt ps)"
proof (induction "card (fm_universe ps - fm_entries rt)" arbitrary: rt verify rule: less_induct)
  case less
  let ?w = "concat (map pd_rhs ps)"
  obtain rt' changed verify' where eq: "fold (first_prod nullable) ps (rt, False, verify) = (rt', changed, verify')"
    by (cases "fold (first_prod nullable) ps (rt, False, verify)")
  have "fm_sound ps rt' \<and> fm_le rt rt' \<and> pd_lhs ` set ps \<subseteq> fm_keys rt' \<and> (False \<longrightarrow> changed) \<and>
    (changed \<longrightarrow> False \<or> fm_changed ?w rt rt') \<and>
    (\<not> changed \<longrightarrow> fmv rt' = fmv rt \<and> (\<forall>p \<in> set ps. fm_closed_prod (fmv rt) ps p)) \<and>
    fs_ok verify' \<and> set verify' = set verify \<union> {pd_lhs p | p. p \<in> set ps \<and> nullable_word ps (pd_rhs p)}"
    by (rule first_pass [OF eq assms(2,3) less.prems(1,2) subset_refl assms(1)]) auto
  then have pass: "fm_sound ps rt'" "fm_le rt rt'" "pd_lhs ` set ps \<subseteq> fm_keys rt'" "changed \<Longrightarrow> fm_changed ?w rt rt'"
    "\<not> changed \<Longrightarrow> fmv rt' = fmv rt \<and> (\<forall>p \<in> set ps. fm_closed_prod (fmv rt) ps p)"
    "fs_ok verify'" "set verify' = Collect (nullable_nt ps)"
    using less.prems(3) unfolding nullable_nt_lhs by auto
  show ?case
  proof (cases changed)
    case True
    from pass(4) [OF True] have "fm_entries rt \<noteq> fm_entries rt'"
      unfolding fm_changed_def
    proof
      assume "fmv rt \<noteq> fmv rt'"
      then show ?thesis by (metis fm_entries_mem(2) ext set_eqI)
    next
      assume "\<exists>B. NT B \<in> set ?w \<and> B \<notin> fm_keys rt"
      then obtain B where "NT B \<in> set ?w" "B \<notin> fm_keys rt" by blast
      moreover have "B \<in> fm_keys rt'" using \<open>NT B \<in> set ?w\<close> wf_prods_lhs [OF assms(1)] pass(3) by auto
      ultimately show ?thesis by (metis fm_entries_mem(1))
    qed
    then have "fm_entries rt \<subset> fm_entries rt'" using fm_le_entries [OF pass(2)] by blast
    then have "card (fm_universe ps - fm_entries rt') < card (fm_universe ps - fm_entries rt)"
      using fm_entries_universe [OF pass(1)] by (intro psubset_card_mono) (auto simp: finite_fm_universe)
    from less.hyps [OF this pass(1,6)] show ?thesis
      using pass(7) True by (subst first_loop.simps) (simp add: eq)
  next
    case False
    then show ?thesis using pass(1,3,6,7) pass(5) [OF False] by (subst first_loop.simps) (simp add: eq)
  qed
qed

lemma fm_closed_complete:
  assumes "\<forall>p \<in> set ps. fm_closed_prod F ps p" "first_nt ps A t"
  shows "t \<in> F A"
  using assms(2)
proof (induction rule: first_nt.induct)
  case (first_terminal p u t v)
  then show ?case using assms(1) unfolding fm_closed_prod_def fm_closed_word_def by blast
next
  case (first_nonterminal p u B v t)
  then show ?case using assms(1) unfolding fm_closed_prod_def fm_closed_word_def by blast
qed

lemma get_first_spec:
  assumes "wf_prods ps" "get_nullable_nonterminal_set ps = Some nullable"
  obtains rt where "get_nonterminal_first_set_map ps nullable = returnR rt" "fm_sound ps rt" "fm_keys rt = pd_lhs ` set ps"
    "\<forall>p \<in> set ps. fm_closed_prod (fmv rt) ps p"
proof -
  obtain nl where nl: "get_nullable_nonterminal_set ps = Some nl" "fs_ok nl" "set nl = Collect (nullable_nt ps)"
    by (rule get_nullable_spec)
  then have nullable: "fs_ok nullable" "set nullable = Collect (nullable_nt ps)" using assms(2) by auto
  have "fm_sound ps []" by (auto simp: fm_sound_def fm_ok_def fm_keys_def fmv_def fm_at_def)
  then have "\<exists>rt' verify'. first_loop ps nullable [] [] = Some (rt', verify') \<and> fm_sound ps rt' \<and> pd_lhs ` set ps \<subseteq> fm_keys rt' \<and>
      (\<forall>p \<in> set ps. fm_closed_prod (fmv rt') ps p) \<and> fs_ok verify' \<and> set verify' = Collect (nullable_nt ps)"
    by (intro first_loop_spec assms(1) nullable) simp_all
  then obtain rt verify where rt: "first_loop ps nullable [] [] = Some (rt, verify)" "fm_sound ps rt" "pd_lhs ` set ps \<subseteq> fm_keys rt"
    "\<forall>p \<in> set ps. fm_closed_prod (fmv rt) ps p" "fs_ok verify" "set verify = Collect (nullable_nt ps)" by blast
  then have "verify = nullable" using fs_set_eq [of verify nullable] nullable by simp
  then show ?thesis using that [of rt] rt by (auto simp: get_nonterminal_first_set_map_def fm_sound_def)
qed

text \<open>
  C10: In a grammar where every element of a right side is a terminal or a nonterminal with a
  production, \<open>getNonTerminalFirstSetMap\<close> ends and does not throw. It returns a set for every nonterminal
  of the grammar; beside the mark \<open>0\<close> for \<open>$\<close>, which is there if the nonterminal derives the empty word,
  the set holds exactly the terminals that a word derived from the nonterminal can start with.
\<close>

theorem first_sets_derive:
  assumes "wf_prods ps" "get_nullable_nonterminal_set ps = Some nullable"
  shows "\<exists>rt. get_nonterminal_first_set_map ps nullable = returnR rt \<and>
    (\<forall>A. (\<exists>fs. map_find rt A = Some fs) \<longleftrightarrow> (\<exists>p \<in> set ps. nd_index (pd_left p) = A)) \<and>
    (\<forall>A fs. map_find rt A = Some fs \<longrightarrow> fs_ok fs \<and> (derives ps [NT A] [] \<longrightarrow> 0 \<in> set fs) \<and>
      (\<forall>t. t \<noteq> 0 \<longrightarrow> t \<in> set fs \<longleftrightarrow> (\<exists>v. derives ps [NT A] (TM t # v))))"
proof (rule get_first_spec [OF assms])
  fix rt
  assume rt: "get_nonterminal_first_set_map ps nullable = returnR rt" "fm_sound ps rt" "fm_keys rt = pd_lhs ` set ps"
    "\<forall>p \<in> set ps. fm_closed_prod (fmv rt) ps p"
  have "(\<exists>fs. map_find rt A = Some fs) \<longleftrightarrow> (\<exists>p \<in> set ps. nd_index (pd_left p) = A)" for A
    using rt(3) by (auto simp: fm_keys_def pd_lhs_def set_eq_iff)
  moreover have "fs_ok fs \<and> (derives ps [NT A] [] \<longrightarrow> 0 \<in> set fs) \<and>
      (\<forall>t. t \<noteq> 0 \<longrightarrow> t \<in> set fs \<longleftrightarrow> (\<exists>v. derives ps [NT A] (TM t # v)))" if "map_find rt A = Some fs" for A fs
  proof -
    have fs: "fm_at A rt = fs" "fmv rt A = set fs" using that by (simp_all add: fm_at_def fmv_def)
    have "0 \<in> set fs" if "nullable_nt ps A"
      using that
    proof (cases rule: nullable_nt.cases)
      case (nullable_nt p)
      then show ?thesis using rt(4) fs(2) unfolding fm_closed_prod_def nullable_word_def by blast
    qed
    moreover have "t \<in> set fs \<longleftrightarrow> first_nt ps A t" if "t \<noteq> 0" for t
      using rt(2) fm_closed_complete [OF rt(4), of A t] that fs(2) by (auto simp: fm_sound_def)
    moreover have "fs_ok fs" using rt(2) fs(1) by (auto simp: fm_sound_def fm_ok_def)
    ultimately show ?thesis by (auto simp: first_nt_iff nullable_nt_iff)
  qed
  ultimately show ?thesis using rt(1) by blast
qed

definition first_example :: prods where
  "first_example =
    (let nd = (\<lambda>t i. \<lparr>nd_type = t, nd_index = i, nd_name = [], nd_symbol = True\<rparr>);
         p = (\<lambda>l r. \<lparr>pd_left = nd NonTerminal l, pd_right = r, pd_priority = no_priority, pd_callidx = 0, pd_scope = NoScope, pd_line = 1\<rparr>)
     in [p 1 [nd NonTerminal 2, nd Terminal 1], p 2 [nd Terminal 2], p 2 []])"

theorem first_sets_derive_witness:
  "\<exists>rt. get_nonterminal_first_set_map first_example [2] = returnR rt \<and>
    (\<forall>A. (\<exists>fs. map_find rt A = Some fs) \<longleftrightarrow> (\<exists>p \<in> set first_example. nd_index (pd_left p) = A)) \<and>
    (\<forall>A fs. map_find rt A = Some fs \<longrightarrow> fs_ok fs \<and> (derives first_example [NT A] [] \<longrightarrow> 0 \<in> set fs) \<and>
      (\<forall>t. t \<noteq> 0 \<longrightarrow> t \<in> set fs \<longleftrightarrow> (\<exists>v. derives first_example [NT A] (TM t # v))))"
proof (rule first_sets_derive)
  show "wf_prods first_example" by (auto simp: wf_prods_def first_example_def pd_lhs_def)
  show "get_nullable_nonterminal_set first_example = Some [2]"
    unfolding get_nullable_nonterminal_set_def
    by (subst nullable_loop.simps, simp add: first_example_def nullable_prod_def fs_insert_def fs_contains_def,
        subst nullable_loop.simps, simp add: nullable_prod_def fs_insert_def fs_contains_def)
qed

end
