(* ===== verification/LrSound.thy ===== *)
theory LrSound
  imports LrMachineProps LrFirst
begin

text \<open>
  Tables that belong to a grammar, and that the machine accepts only words of the grammar with them.
  What a table has to do with the grammar is stated by the items each state stands for: a pair of the
  index of a production and a position in its right side.
\<close>

subsection \<open>Tables of a grammar\<close>

type_synonym state_items = "int \<Rightarrow> (nat \<times> nat) set"

definition short :: "int \<Rightarrow> bool" where
  "short x \<longleftrightarrow> -32768 \<le> x \<and> x < 32768"

lemma to_short_short [simp]: "short x \<Longrightarrow> to_short x = x"
  by (simp add: short_def)

lemma short_to_short [simp]: "short (to_short x)"
proof -
  have "0 \<le> (x + 32768) mod 65536" "(x + 32768) mod 65536 < 65536" by simp_all
  then show ?thesis unfolding short_def to_short_def by linarith
qed

text \<open>From \<open>s\<close> the machine goes to \<open>s'\<close> over the symbol \<open>x\<close>: the items of \<open>s'\<close> are the ones of \<open>s\<close> moved over \<open>x\<close>.\<close>

definition lr_link :: "prods \<Rightarrow> state_items \<Rightarrow> int \<Rightarrow> production_node \<Rightarrow> int \<Rightarrow> bool" where
  "lr_link ps K s x s' \<longleftrightarrow> short s' \<and>
     (\<forall>p pos. (p, Suc pos) \<in> K s' \<longrightarrow> (p, pos) \<in> K s \<and> p < length ps \<and> pos < length (pd_rhs (ps ! p)) \<and> pd_rhs (ps ! p) ! pos = x)"

definition tables_ok :: "prods \<Rightarrow> state_items \<Rightarrow> (action_key, action) std_map \<Rightarrow> (goto_key, goto) std_map \<Rightarrow> bool" where
  "tables_ok ps K actions gotos \<longleftrightarrow>
     (\<forall>p pos. (p, Suc pos) \<notin> K 1) \<and>
     (\<forall>s t a. map_find actions (ActionKey s t) = Some a \<longrightarrow>
       (case ac_type a of
          Shift \<Rightarrow> t \<noteq> 0 \<and> lr_link ps K s (TM t) (ac_value a)
        | Reduce \<Rightarrow> (\<exists>p. p < length ps \<and> (p, length (pd_rhs (ps ! p))) \<in> K s \<and> ac_value a = pd_lhs (ps ! p) \<and>
            short (ac_value a) \<and> ac_count a = int (length (pd_rhs (ps ! p))))
        | Accept \<Rightarrow> t = 0 \<and> 0 < length ps \<and> (0, length (pd_rhs (ps ! 0))) \<in> K s \<and> ac_count a = int (length (pd_rhs (ps ! 0))))) \<and>
     (\<forall>s A g. map_find gotos (GotoKey s A) = Some g \<longrightarrow> lr_link ps K s (NT A) (go_state g))"

subsection \<open>The stack\<close>

text \<open>The states of the machine with the symbols between them.\<close>

inductive lr_stack :: "prods \<Rightarrow> state_items \<Rightarrow> int list \<Rightarrow> production_node list \<Rightarrow> bool" for ps K where
  lr_bottom: "lr_stack ps K [1] []"
| lr_push: "lr_stack ps K ss xs \<Longrightarrow> lr_link ps K (last ss) x s \<Longrightarrow> lr_stack ps K (ss @ [s]) (xs @ [x])"

lemma lr_stack_length: "lr_stack ps K ss xs \<Longrightarrow> length ss = Suc (length xs)"
  by (induction rule: lr_stack.induct) auto

lemma lr_stack_last_short: "lr_stack ps K ss xs \<Longrightarrow> short (last ss)"
  by (cases rule: lr_stack.cases) (auto simp: lr_link_def short_def)

lemma lr_stack_pop:
  "lr_stack ps K ss xs \<Longrightarrow> n \<le> length xs \<Longrightarrow> lr_stack ps K (take (length ss - n) ss) (take (length xs - n) xs)"
proof (induction arbitrary: n rule: lr_stack.induct)
  case (lr_push ss xs x s)
  show ?case
  proof (cases n)
    case 0
    then show ?thesis using lr_stack.lr_push [OF lr_push(1,2)] by simp
  next
    case (Suc m)
    have "take (length (ss @ [s]) - n) (ss @ [s]) = take (length ss - m) ss" "take (length (xs @ [x]) - n) (xs @ [x]) = take (length xs - m) xs"
      by (simp_all add: Suc)
    then show ?thesis using lr_push(3) [of m] lr_push(4) Suc by simp
  qed
qed (simp add: lr_bottom)

text \<open>The symbols in front of the position of an item of the last state are on the stack.\<close>

lemma lr_stack_item:
  assumes "\<forall>p pos. (p, Suc pos) \<notin> K 1"
  shows "lr_stack ps K ss xs \<Longrightarrow> (p, pos) \<in> K (last ss) \<Longrightarrow>
    pos \<le> length xs \<and> drop (length xs - pos) xs = take pos (pd_rhs (ps ! p))"
proof (induction arbitrary: pos rule: lr_stack.induct)
  case lr_bottom
  then show ?case using assms by (cases pos) auto
next
  case (lr_push ss xs x s)
  show ?case
  proof (cases pos)
    case (Suc q)
    have "(p, Suc q) \<in> K s" using lr_push.prems Suc by simp
    with lr_push(2) have q: "(p, q) \<in> K (last ss)" "q < length (pd_rhs (ps ! p))" "pd_rhs (ps ! p) ! q = x"
      unfolding lr_link_def by blast+
    from lr_push.IH [OF q(1)] q(2,3) show ?thesis by (simp add: Suc take_Suc_conv_app_nth)
  qed simp
qed

subsection \<open>Runs\<close>

definition tm_word :: "int list \<Rightarrow> production_node list" where
  "tm_word w = map (\<lambda>t. TM (to_short t)) w"

lemma machine_shift_sound:
  assumes "tables_ok ps K (am_actions am) (am_gotos am)" "lr_stack ps K ss xs" "machine_shift am t ss ss'"
  shows "lr_stack ps K ss' (xs @ [TM (to_short t)])"
  using assms(3)
proof cases
  case (machine_shift a)
  have "mk_action_key (last ss) t = ActionKey (last ss) (to_short t)"
    using lr_stack_last_short [OF assms(2)] by (simp add: mk_action_key_def)
  then have a: "map_find (am_actions am) (ActionKey (last ss) (to_short t)) = Some a" using machine_shift(2) by simp
  have "case ac_type a of Shift \<Rightarrow> to_short t \<noteq> 0 \<and> lr_link ps K (last ss) (TM (to_short t)) (ac_value a) | _ \<Rightarrow> True"
    using assms(1) a unfolding tables_ok_def by (cases "ac_type a") fastforce+
  then show ?thesis using machine_shift(1,3) lr_push [OF assms(2)] by simp
qed

lemma machine_reduce_sound:
  assumes "tables_ok ps K (am_actions am) (am_gotos am)" "lr_stack ps K ss xs" "machine_reduce am t ss ss'"
  obtains xs' where "lr_stack ps K ss' xs'" "derives ps xs' xs"
  using assms(3)
proof cases
  case (machine_reduce a ss1 g)
  have "mk_action_key (last ss) t = ActionKey (last ss) (to_short t)"
    using lr_stack_last_short [OF assms(2)] by (simp add: mk_action_key_def)
  then have a: "map_find (am_actions am) (ActionKey (last ss) (to_short t)) = Some a" using machine_reduce(2) by simp
  have "\<exists>p. p < length ps \<and> (p, length (pd_rhs (ps ! p))) \<in> K (last ss) \<and> ac_value a = pd_lhs (ps ! p) \<and>
      short (ac_value a) \<and> ac_count a = int (length (pd_rhs (ps ! p)))"
    using assms(1) a machine_reduce(3) unfolding tables_ok_def by fastforce
  then obtain p where p: "p < length ps" "(p, length (pd_rhs (ps ! p))) \<in> K (last ss)" "ac_value a = pd_lhs (ps ! p)"
    "short (ac_value a)" "ac_count a = int (length (pd_rhs (ps ! p)))" by blast
  let ?n = "length (pd_rhs (ps ! p))"
  have kernel: "\<forall>p pos. (p, Suc pos) \<notin> K 1" using assms(1) by (simp add: tables_ok_def)
  from lr_stack_item [OF kernel assms(2) p(2)]
  have n: "?n \<le> length xs" "drop (length xs - ?n) xs = pd_rhs (ps ! p)" by simp_all
  let ?xs = "take (length xs - ?n) xs"
  have ss1: "ss1 = take (length ss - ?n) ss" using machine_reduce(6) p(5) by simp
  have pop: "lr_stack ps K ss1 ?xs" using lr_stack_pop [OF assms(2) n(1)] by (simp add: ss1)
  have "mk_goto_key (last ss1) (ac_value a) = GotoKey (last ss1) (pd_lhs (ps ! p))"
    using lr_stack_last_short [OF pop] p(3,4) by (simp add: mk_goto_key_def)
  then have link: "lr_link ps K (last ss1) (NT (pd_lhs (ps ! p))) (go_state g)"
    using assms(1) machine_reduce(7) unfolding tables_ok_def by simp
  have xs: "xs = ?xs @ pd_rhs (ps ! p)" using n(2) by (metis append_take_drop_id)
  have "derives ps (?xs @ [NT (pd_lhs (ps ! p))]) (?xs @ pd_rhs (ps ! p))"
    using derive1.derive1 [of "ps ! p" ps ?xs "[]"] p(1) by auto
  then have "derives ps (?xs @ [NT (pd_lhs (ps ! p))]) xs" using xs by simp
  then show ?thesis using that [of "?xs @ [NT (pd_lhs (ps ! p))]"] lr_push [OF pop link] machine_reduce(1) by simp
qed

lemma machine_run_sound:
  assumes "tables_ok ps K (am_actions am) (am_gotos am)"
  shows "machine_run am ss w ss' \<Longrightarrow> lr_stack ps K ss xs \<Longrightarrow> derives ps xs (tm_word v) \<Longrightarrow>
    \<exists>xs'. lr_stack ps K ss' xs' \<and> derives ps xs' (tm_word (v @ w))"
proof (induction arbitrary: xs v rule: machine_run.induct)
  case (run_done ss)
  then show ?case by auto
next
  case (run_reduce t ss ss1 w ss2)
  obtain xs1 where "lr_stack ps K ss1 xs1" "derives ps xs1 xs"
    by (rule machine_reduce_sound [OF assms run_reduce.prems(1) run_reduce.hyps(1)])
  then show ?case using run_reduce.IH [of xs1 v] run_reduce.prems(2) by (auto intro: rtranclp_trans)
next
  case (run_shift t ss ss1 w ss2)
  have "lr_stack ps K ss1 (xs @ [TM (to_short t)])"
    by (rule machine_shift_sound [OF assms run_shift.prems(1) run_shift.hyps(1)])
  moreover have "derives ps (xs @ [TM (to_short t)]) (tm_word (v @ [t]))"
    using derives_append [OF run_shift.prems(2), of "[TM (to_short t)]" "[TM (to_short t)]"] by (simp add: tm_word_def)
  ultimately show ?case using run_shift.IH [of "xs @ [TM (to_short t)]" "v @ [t]"] by simp
qed

lemma machine_accept_sound:
  assumes "tables_ok ps K (am_actions am) (am_gotos am)" "machine_run am [1] w ss" "machine_accept am ss"
  shows "derives ps [NT (pd_lhs (ps ! 0))] (tm_word w)"
proof -
  obtain xs where xs: "lr_stack ps K ss xs" "derives ps xs (tm_word w)"
    using machine_run_sound [OF assms(1,2) lr_bottom, of "[]"] by (auto simp: tm_word_def)
  obtain a where a: "map_find (am_actions am) (mk_action_key (last ss) 0) = Some a" "ac_type a = Accept"
    "0 \<le> ac_count a" "length ss = nat (ac_count a) + 1"
    using assms(3) by (auto simp: machine_accept_def)
  have "mk_action_key (last ss) 0 = ActionKey (last ss) 0"
    using lr_stack_last_short [OF xs(1)] by (simp add: mk_action_key_def short_def)
  then have p: "0 < length ps" "(0, length (pd_rhs (ps ! 0))) \<in> K (last ss)" "ac_count a = int (length (pd_rhs (ps ! 0)))"
    using assms(1) a(1,2) unfolding tables_ok_def by fastforce+
  have kernel: "\<forall>p pos. (p, Suc pos) \<notin> K 1" using assms(1) by (simp add: tables_ok_def)
  have "length xs = length (pd_rhs (ps ! 0))" using lr_stack_length [OF xs(1)] a(4) p(3) by simp
  then have "xs = pd_rhs (ps ! 0)" using lr_stack_item [OF kernel xs(1) p(2)] by simp
  then show ?thesis using derives_rule [of "ps ! 0" ps "tm_word w"] xs(2) p(1) by simp
qed

end
