(* ===== verification/LrStatesInv.thy ===== *)
theory LrStatesInv
  imports LrStates
begin

text \<open>
  Invariants of the construction of the states: all items of all states lie in the productions and
  within the limits, follow handles fit into the packed items, a closure only adds items with the dot in
  front, and merging states keeps the productions and positions of their items.
\<close>

subsection \<open>Valid items\<close>

definition prods_fit :: "prods \<Rightarrow> bool" where
  "prods_fit ps \<longleftrightarrow> int (length ps) < max_nof_productions \<and> (\<forall>p \<in> set ps. int (length (pd_right p)) < max_production_length)"

definition item_valid :: "prods \<Rightarrow> transition_item \<Rightarrow> bool" where
  "item_valid ps i \<longleftrightarrow> item_ok i \<and> ti_prodindex i < int (length ps) \<and>
     ti_prodpos i \<le> int (length (pd_right (ps ! nat (ti_prodindex i))))"

definition lr_ok :: "prods \<Rightarrow> transition_state \<Rightarrow> bool" where
  "lr_ok ps ts \<longleftrightarrow> ts_ok ts \<and> (\<forall>i \<in> items ts. item_valid ps i)"

text \<open>The productions and positions of the items of a state.\<close>

definition item_pair :: "transition_item \<Rightarrow> int \<times> int" where
  "item_pair i = (ti_prodindex i, ti_prodpos i)"

definition pairs :: "transition_state \<Rightarrow> (int \<times> int) set" where
  "pairs ts = item_pair ` items ts"

lemma lr_ok_Nil [simp]: "lr_ok ps []" "pairs [] = {}"
  by (simp_all add: lr_ok_def pairs_def)

lemma unpack_mem: "elem \<in> set ts \<Longrightarrow> item_unpack elem \<in> items ts"
  by (simp add: items_def ts_unpack_def)

lemma lr_ok_elem: "lr_ok ps ts \<Longrightarrow> elem \<in> set ts \<Longrightarrow> item_valid ps (item_unpack elem)"
  using unpack_mem by (auto simp: lr_ok_def)

lemma item_valid_ok: "item_valid ps i \<Longrightarrow> item_ok i"
  by (simp add: item_valid_def)

lemma lr_ok_insert: "lr_ok ps ts \<Longrightarrow> item_valid ps i \<Longrightarrow> lr_ok ps (ts_insert i ts) \<and> items (ts_insert i ts) = insert i (items ts)"
  by (auto simp: lr_ok_def ts_insert_ok items_insert item_valid_ok)

lemma prod_at_eq: "item_valid ps i \<Longrightarrow> prod_at ps (ti_prodindex i) = returnR (ps ! nat (ti_prodindex i))"
  by (auto simp: prod_at_def vec_at_def item_valid_def item_ok_def)

lemma prod_at_returnR: "prod_at ps i = returnR p \<longleftrightarrow> 0 \<le> i \<and> nat i < length ps \<and> p = ps ! nat i"
  by (auto simp: prod_at_def vec_at_def)

lemma next_node_Some:
  "next_node p pos = Some nd \<longleftrightarrow> 0 \<le> pos \<and> pos < int (length (pd_right p)) \<and> nd = pd_right p ! nat pos"
  by (auto simp: next_node_def vec_at_def)

subsection \<open>Follow maps\<close>

definition handle_fits :: "int \<Rightarrow> bool" where
  "handle_fits h \<longleftrightarrow> 0 \<le> h \<and> h < max_terminal"

definition fl_fits :: "follow_map \<Rightarrow> bool" where
  "fl_fits fl \<longleftrightarrow> hm_ok (fl_sets fl) \<and> hm_startidx (fl_sets fl) = 0 \<and> hm_size (fl_sets fl) \<le> max_terminal \<and>
     (\<forall>k fh. map_find (fl_nodes fl) k = Some fh \<longrightarrow> handle_fits (fh_handle fh)) \<and>
     (\<forall>k h. map_find (fl_joins fl) k = Some h \<longrightarrow> handle_fits h)"

lemma hm_content_fits: "fl_fits fl \<Longrightarrow> hm_content h (fl_sets fl) = Some fs \<Longrightarrow> handle_fits h"
  using hm_content_handle [of h "fl_sets fl"] by (auto simp: fl_fits_def handle_fits_def hm_handles_def)

lemma fl_join_fits:
  assumes "fl_fits fl" "fl_join h1 h2 fl = returnR (h, fl')"
  shows "fl_fits fl' \<and> handle_fits h"
proof (cases "map_find (fl_joins fl) (h1, h2)")
  case (Some h0)
  then show ?thesis using assms by (auto simp: fl_join_def fl_fits_def split: if_splits)
next
  case None
  then obtain sets where j: "hm_join h1 h2 (fl_sets fl) = Some (sets, h)"
    and fl': "fl' = fl\<lparr>fl_joins := map_put (fl_joins fl) (h1, h2) h, fl_sets := sets\<rparr>" and size: "hm_size (fl_sets fl) < 1023"
    using assms(2) by (cases "hm_join h1 h2 (fl_sets fl)") (auto simp: fl_join_def split: if_splits)
  obtain a b where ab: "hm_content h1 (fl_sets fl) = Some a" "hm_content h2 (fl_sets fl) = Some b"
    using j by (auto simp: hm_join_def bind_eq_Some_conv)
  have ok: "hm_ok (fl_sets fl)" using assms(1) by (simp add: fl_fits_def)
  obtain c where c: "hm_ok sets" "hm_content h sets = Some c" "hm_startidx sets = hm_startidx (fl_sets fl)" "hm_size sets \<le> hm_size (fl_sets fl) + 1"
    by (rule hm_join_spec [OF ok ab]) (use j in auto)
  have "handle_fits h"
    using c size assms(1) hm_content_handle [of h sets] by (auto simp: handle_fits_def hm_handles_def fl_fits_def)
  then show ?thesis using assms(1) c size by (auto simp: fl_fits_def fl' split: if_splits)
qed

definition fs_fits :: "follow_state \<Rightarrow> bool" where
  "fs_fits st \<longleftrightarrow> fl_fits (snd st) \<and> (\<forall>A h. map_find (fst st) A = Some h \<longrightarrow> handle_fits h)"

lemma nf_join_fits:
  assumes "fs_fits st" "handle_fits h" "nf_join A h st = returnR st'"
  shows "fs_fits st'"
proof -
  obtain nf fl where st: "st = (nf, fl)" by fastforce
  show ?thesis
  proof (cases "map_find nf A")
    case None
    then show ?thesis using assms by (auto simp: st nf_join_def map_insert_def fs_fits_def split: if_splits)
  next
    case (Some old)
    then obtain g fl' where g: "fl_join h old fl = returnR (g, fl')" "st' = (map_put nf A g, fl')"
      using assms(3) by (auto simp: st nf_join_def map_insert_def bindR_eq_returnR)
    then show ?thesis using fl_join_fits [OF _ g(1)] assms(1) by (auto simp: st fs_fits_def split: if_splits)
  qed
qed

subsection \<open>Closures\<close>

lemma lr0_fold_inner:
  assumes "lr_ok ps rt" "\<forall>i \<in> set is. 0 \<le> i \<and> i < int (length ps)" "prods_fit ps"
  shows "lr_ok ps (fold (\<lambda>i rt. ts_insert (TransitionItem i 0 0) rt) is rt) \<and>
    items (fold (\<lambda>i rt. ts_insert (TransitionItem i 0 0) rt) is rt) = items rt \<union> (\<lambda>i. TransitionItem i 0 0) ` set is"
  using assms
proof (induction "is" arbitrary: rt)
  case (Cons i "is")
  have "item_valid ps (TransitionItem i 0 0)" using Cons.prems by (auto simp: item_valid_def item_ok_def prods_fit_def)
  from lr_ok_insert [OF Cons.prems(1) this] show ?case using Cons by auto
qed simp

lemma lr0_fold_outer:
  assumes "lr_ok ps rt" "prods_fit ps"
  shows "lr_ok ps (fold (\<lambda>A rt. fold (\<lambda>i rt. ts_insert (TransitionItem i 0 0) rt) (prod_range ps A) rt) As rt) \<and>
    items (fold (\<lambda>A rt. fold (\<lambda>i rt. ts_insert (TransitionItem i 0 0) rt) (prod_range ps A) rt) As rt) =
      items rt \<union> {TransitionItem i 0 0 | i A. A \<in> set As \<and> i \<in> set (prod_range ps A)}"
  using assms
proof (induction As arbitrary: rt)
  case (Cons A As)
  have "\<forall>i \<in> set (prod_range ps A). 0 \<le> i \<and> i < int (length ps)" by (auto simp: set_prod_range)
  from lr0_fold_inner [OF Cons.prems(1) this Cons.prems(2)] show ?case using Cons by auto
qed simp

lemma lr0_closure_inv:
  assumes "lr_ok ps ts" "prods_fit ps" "get_lr0_transition_state_closure ts ps = returnR rt"
  shows "lr_ok ps rt" "items ts \<subseteq> items rt" "\<And>i. i \<in> items rt \<Longrightarrow> i \<notin> items ts \<Longrightarrow> ti_prodpos i = 0 \<and> ti_follow i = 0"
proof -
  obtain As where "rt = fold (\<lambda>A rt. fold (\<lambda>i rt. ts_insert (TransitionItem i 0 0) rt) (prod_range ps A) rt) As ts"
    using assms(3) by (auto simp: get_lr0_transition_state_closure_def bindR_eq_returnR)
  then show "lr_ok ps rt" "items ts \<subseteq> items rt" "\<And>i. i \<in> items rt \<Longrightarrow> i \<notin> items ts \<Longrightarrow> ti_prodpos i = 0 \<and> ti_follow i = 0"
    using lr0_fold_outer [OF assms(1,2), of As] by auto
qed

lemma lr1_closure_steps:
  assumes "lr_ok ps ts" "elem \<in> set ts" "fs_fits st"
  shows "lr1_closure_inherited ps elem st = returnR st' \<Longrightarrow> fs_fits st'"
    "lr1_closure_first ps elem st = returnR st' \<Longrightarrow> fs_fits st'"
    "lr1_closure_inherit ps elem (st, ch) = returnR (st', ch') \<Longrightarrow> fs_fits st'"
proof -
  have v: "item_valid ps (item_unpack elem)" using lr_ok_elem assms(1,2) by blast
  have follow: "handle_fits (ti_follow (item_unpack elem))" using v by (auto simp: item_valid_def item_ok_def handle_fits_def)
  have entry: "handle_fits (fh_handle fh)" if "fl_get k (snd st) = returnR fh" for k fh
    using that assms(3) by (auto simp: fl_get_def fs_fits_def fl_fits_def split: option.splits)
  show "lr1_closure_inherited ps elem st = returnR st' \<Longrightarrow> fs_fits st'"
    by (auto simp: lr1_closure_inherited_def Let_def bindR_eq_returnR intro: nf_join_fits [OF assms(3) follow])
  show "lr1_closure_first ps elem st = returnR st' \<Longrightarrow> fs_fits st'"
    using assms(3) by (auto simp: lr1_closure_first_def Let_def bindR_eq_returnR split: option.splits if_splits
        intro: nf_join_fits [OF assms(3) entry])
  obtain nf fl where st: "st = (nf, fl)" by fastforce
  show "fs_fits st'" if step: "lr1_closure_inherit ps elem (st, ch) = returnR (st', ch')"
  proof -
    let ?item = "item_unpack elem"
    obtain p where p: "prod_at ps (ti_prodindex ?item) = returnR p" using prod_at_eq [OF v] by blast
    show ?thesis
    proof (cases "next_node p (ti_prodpos ?item)")
      case None
      then show ?thesis using step p assms(3) by (simp add: st lr1_closure_inherit_def)
    next
      case (Some nd)
      show ?thesis
      proof (cases "nd_type nd = NonTerminal")
        case True
        then obtain entry where e: "fl_get (FollowKey (ti_prodindex ?item) (ti_prodpos ?item)) fl = returnR entry"
          using step p Some by (auto simp: st lr1_closure_inherit_def Let_def bindR_eq_returnR)
        show ?thesis
        proof (cases "fh_inherit entry \<and> map_find nf (nd_index nd) \<noteq> None \<and> map_find nf (nd_index (pd_left p)) \<noteq> None")
          case False
          then show ?thesis using step p Some True e assms(3)
            by (auto simp: st lr1_closure_inherit_def Let_def split: option.splits if_splits)
        next
          case inherit: True
          then obtain inh lft where il: "map_find nf (nd_index nd) = Some inh" "map_find nf (nd_index (pd_left p)) = Some lft" by auto
          then obtain h fl' where j: "fl_join inh lft fl = returnR (h, fl')"
            and st': "st' = (if inh \<noteq> h then (map_put nf (nd_index nd) h, fl') else (nf, fl'))"
            using step p Some True e inherit by (auto simp: st lr1_closure_inherit_def Let_def bindR_eq_returnR split: if_splits)
          have "fl_fits fl' \<and> handle_fits h" using fl_join_fits [OF _ j] assms(3) by (simp add: st fs_fits_def)
          then show ?thesis using assms(3) by (auto simp: st st' fs_fits_def)
        qed
      qed (use step p Some assms(3) in \<open>simp add: st lr1_closure_inherit_def\<close>)
    qed
  qed
qed

lemma lr1_closure_loop_fits:
  assumes "lr_ok ps ts" "lr1_closure_loop ps ts st = returnR st'" "fs_fits st"
  shows "fs_fits st'"
proof -
  let ?P = "\<lambda>(ps :: prods) (ts :: flat_set) (st :: follow_state) (y :: error + follow_state).
    \<forall>st'. y = Inr st' \<longrightarrow> lr_ok ps ts \<longrightarrow> fs_fits st \<longrightarrow> fs_fits st'"
  have "lr1_closure_loop ps ts st = Some (Inr st')" using assms(2) by (simp add: returnR_def)
  then have "?P ps ts st (Inr st')"
  proof (rule lr1_closure_loop.raw_induct [where P = ?P, rotated], intro allI impI)
    fix self ps ts st y st'
    assume IH: "\<And>ps ts st y. self ps ts st = Some y \<Longrightarrow> ?P ps ts st y"
      and body: "bindR (runR (lr1_closure_inherit ps) ts (st, False)) (\<lambda>(st', changed).
         if changed then self ps ts st' else returnR st') = Some y"
      and y: "y = Inr st'" and ok: "lr_ok ps ts" and fits: "fs_fits st"
    obtain st1 ch where pass: "runR (lr1_closure_inherit ps) ts (st, False) = returnR (st1, ch)"
      using body y by (cases "runR (lr1_closure_inherit ps) ts (st, False)" rule: run_cases) (auto simp: throwR_def)
    have "fs_fits (fst (st1, ch))"
      by (rule runR_invariant [OF pass, where I = "\<lambda>st. fs_fits (fst st)"])
        (use fits lr1_closure_steps(3) [OF ok] in \<open>auto simp del: split_paired_All\<close>)
    then show "fs_fits st'"
      using body pass y IH [of ps ts st1 y] ok by (auto simp: returnR_def split: if_splits)
  qed
  then show ?thesis using assms by blast
qed

lemma lr1_closure_items:
  assumes "lr_ok ps ts" "runR (lr1_closure_item ps nf) ts rt = returnR rt'" "lr_ok ps rt"
    "\<And>A h. map_find nf A = Some h \<Longrightarrow> handle_fits h"
  shows "lr_ok ps rt' \<and> pairs rt' = pairs rt \<union> pairs ts"
proof -
  have "lr_ok ps rt' \<and> pairs rt' = pairs rt \<union> (\<lambda>elem. item_pair (item_unpack elem)) ` set elems"
    if "runR (lr1_closure_item ps nf) elems rt = returnR rt'" "lr_ok ps rt" "set elems \<subseteq> set ts" for elems
    using that
  proof (induction elems arbitrary: rt)
    case (Cons elem elems)
    obtain rt1 where step: "lr1_closure_item ps nf elem rt = returnR rt1" "runR (lr1_closure_item ps nf) elems rt1 = returnR rt'"
      using Cons.prems(1) by (auto simp: bindR_eq_returnR)
    let ?i = "item_unpack elem"
    have v: "item_valid ps ?i" using lr_ok_elem [OF assms(1)] Cons.prems(3) by auto
    obtain h where h: "map_find nf (nd_index (pd_left (ps ! nat (ti_prodindex ?i)))) = Some h"
      "rt1 = ts_insert (TransitionItem (ti_prodindex ?i) (ti_prodpos ?i) h) rt"
      using step(1) by (cases "map_find nf (nd_index (pd_left (ps ! nat (ti_prodindex ?i))))")
        (auto simp: lr1_closure_item_def Let_def prod_at_eq [OF v])
    have "item_valid ps (TransitionItem (ti_prodindex ?i) (ti_prodpos ?i) h)"
      using v assms(4) [OF h(1)] by (auto simp: item_valid_def item_ok_def handle_fits_def)
    from lr_ok_insert [OF Cons.prems(2) this] have "lr_ok ps rt1" "pairs rt1 = insert (item_pair ?i) (pairs rt)"
      by (auto simp: h(2) pairs_def item_pair_def)
    with Cons.IH [OF step(2)] Cons.prems(3) show ?case by auto
  qed simp
  from this [OF assms(2,3) subset_refl] show ?thesis
    by (simp add: pairs_def items_def ts_unpack_def image_image)
qed

lemma lr1_closure_inv:
  assumes "lr_ok ps ts" "prods_fit ps" "fl_fits fl" "get_lr1_transition_state_closure ts ps fl = returnR (rt, fl')"
  shows "lr_ok ps rt" "fl_fits fl'" "\<exists>lr0. get_lr0_transition_state_closure ts ps = returnR lr0 \<and> pairs rt = pairs lr0"
proof -
  obtain lr0 st1 st2 nf where c: "get_lr0_transition_state_closure ts ps = returnR lr0"
    "runR (lr1_closure_inherited ps) ts ([], fl) = returnR st1" "runR (lr1_closure_first ps) lr0 st1 = returnR st2"
    "lr1_closure_loop ps lr0 st2 = returnR (nf, fl')" "runR (lr1_closure_item ps nf) lr0 [] = returnR rt"
    using assms(4) by (auto simp: get_lr1_transition_state_closure_def bindR_eq_returnR)
  note lr0 = lr0_closure_inv [OF assms(1,2) c(1)]
  have "fs_fits ([], fl)" using assms(3) by (simp add: fs_fits_def)
  then have "fs_fits st1"
    by (rule runR_invariant [OF c(2), where I = fs_fits]) (rule lr1_closure_steps(1) [OF assms(1)])
  then have "fs_fits st2"
    by (rule runR_invariant [OF c(3), where I = fs_fits]) (rule lr1_closure_steps(2) [OF lr0(1)])
  then have nf: "fs_fits (nf, fl')" by (rule lr1_closure_loop_fits [OF lr0(1) c(4)])
  then show "fl_fits fl'" by (simp add: fs_fits_def)
  have "lr_ok ps rt \<and> pairs rt = pairs [] \<union> pairs lr0"
    by (rule lr1_closure_items [OF lr0(1) c(5)]) (use nf in \<open>auto simp: fs_fits_def\<close>)
  then show "lr_ok ps rt" "\<exists>lr0. get_lr0_transition_state_closure ts ps = returnR lr0 \<and> pairs rt = pairs lr0"
    using c(1) by simp_all
qed

subsection \<open>Numbering the states\<close>

lemma goto_items:
  assumes "lr_ok ps ts" "prods_fit ps" "runR (goto_item ps gto) ts [] = returnR rt"
  shows "lr_ok ps rt"
proof -
  have "lr_ok ps rt' " if "lr_ok ps rt0" "goto_item ps gto elem rt0 = returnR rt'" "elem \<in> set ts" for elem rt0 rt'
  proof -
    let ?i = "item_unpack elem"
    have v: "item_valid ps ?i" using lr_ok_elem [OF assms(1) that(3)] .
    let ?p = "ps ! nat (ti_prodindex ?i)"
    show ?thesis
    proof (cases "next_node ?p (ti_prodpos ?i)")
      case None
      then show ?thesis using that(1,2) by (simp add: goto_item_def Let_def prod_at_eq [OF v])
    next
      case (Some nd)
      have "?p \<in> set ps" using v by (auto simp: item_valid_def item_ok_def)
      then have "int (length (pd_right ?p)) < 16" using assms(2) by (auto simp: prods_fit_def)
      then have "item_valid ps (TransitionItem (ti_prodindex ?i) (ti_prodpos ?i + 1) (ti_follow ?i))"
        using v Some by (auto simp: item_valid_def item_ok_def next_node_Some)
      from lr_ok_insert [OF that(1) this] show ?thesis
        using that(1,2) Some by (auto simp: goto_item_def Let_def prod_at_eq [OF v] split: if_splits)
    qed
  qed
  with runR_invariant [OF assms(3), where I = "lr_ok ps"] show ?thesis by simp
qed

text \<open>What a numbering of states keeps: valid items, the numbers from 1, a first state with all dots in front.\<close>

definition assign_ok :: "prods \<Rightarrow> state_map \<Rightarrow> bool" where
  "assign_ok ps rt \<longleftrightarrow> (\<forall>(st, n) \<in> set rt. lr_ok ps st) \<and> map snd rt = map int [1..<Suc (length rt)] \<and>
     rt \<noteq> [] \<and> (\<forall>x \<in> pairs (fst (hd rt)). snd x = 0)"

lemma assign_ok_insert:
  assumes "assign_ok ps rt" "lr_ok ps st" "sm_insert rt st = (rt', ins)"
  shows "assign_ok ps rt'"
proof (cases "map_of rt st")
  case None
  have rt': "rt' = rt @ [(st, int (length rt) + 1)]" using assms(3) None by (simp add: sm_insert_def)
  have "\<forall>(st, n) \<in> set rt'. lr_ok ps st" using assms(1,2) by (simp add: assign_ok_def rt')
  moreover have "map snd rt' = map int [1..<Suc (length rt')]" using assms(1) by (simp add: assign_ok_def rt')
  moreover have "fst (hd rt') = fst (hd rt)" "rt' \<noteq> []" using assms(1) by (simp_all add: assign_ok_def rt')
  ultimately show ?thesis using assms(1) by (simp add: assign_ok_def)
next
  case (Some n)
  then show ?thesis using assms(1,3) by (simp add: sm_insert_def)
qed

text \<open>
  What the construction relies on of a closure functor: it keeps the invariant of what the functor keeps,
  returns valid items, and adds only items with the dot in front.
\<close>

locale closure_functor =
  fixes closure :: "prods \<Rightarrow> 'c closure" and inv :: "'c \<Rightarrow> bool"
  assumes closure_inv: "prods_fit ps \<Longrightarrow> lr_ok ps ts \<Longrightarrow> inv c \<Longrightarrow> closure ps ts c = returnR (rt, c') \<Longrightarrow> inv c'"
    and closure_ok: "prods_fit ps \<Longrightarrow> lr_ok ps ts \<Longrightarrow> inv c \<Longrightarrow> closure ps ts c = returnR (rt, c') \<Longrightarrow> lr_ok ps rt"
    and closure_new: "prods_fit ps \<Longrightarrow> lr_ok ps ts \<Longrightarrow> inv c \<Longrightarrow> closure ps ts c = returnR (rt, c') \<Longrightarrow>
      x \<in> pairs rt \<Longrightarrow> x \<notin> pairs ts \<Longrightarrow> snd x = 0"
begin

lemma assign_goto_ok:
  assumes "prods_fit ps" "lr_ok ps state" "assign_ok ps rt" "inv c" "\<forall>st \<in> set new. lr_ok ps st"
    "assign_goto ps (closure ps) state gto (new, rt, c) = returnR (new', rt', c')"
  shows "assign_ok ps rt' \<and> inv c' \<and> (\<forall>st \<in> set new'. lr_ok ps st)"
proof -
  obtain g st where g: "runR (goto_item ps gto) state [] = returnR g" "closure ps g c = returnR (st, c')"
    and r: "(case sm_insert rt st of (rt', ins) \<Rightarrow> returnR (if ins then new @ [st] else new, rt', c')) = returnR (new', rt', c')"
    using assms(6) by (auto simp: assign_goto_def get_goto_state_def bindR_eq_returnR split: if_splits prod.splits)
  have "lr_ok ps g" by (rule goto_items [OF assms(2,1) g(1)])
  then have "inv c'" "lr_ok ps st" using closure_inv closure_ok assms(1,4) g(2) by blast+
  moreover obtain rt1 ins where "sm_insert rt st = (rt1, ins)" by fastforce
  ultimately show ?thesis using r assms(5) assign_ok_insert [OF assms(3)] by (auto split: if_splits)
qed

lemma assign_loop_ok:
  assumes "prods_fit ps" "assign_loop ps (closure ps) k stk rt c = returnR (rt', c')"
    "assign_ok ps rt" "inv c" "\<forall>st \<in> set stk. lr_ok ps st"
  shows "assign_ok ps rt' \<and> inv c'"
proof -
  let ?P = "\<lambda>(ps' :: prods) (cl :: 'c closure) (k :: nat) (stk :: transition_state list) (rt :: state_map) (c :: 'c) (y :: error + (state_map \<times> 'c)).
    \<forall>rt' c'. y = Inr (rt', c') \<longrightarrow> ps' = ps \<longrightarrow> cl = closure ps \<longrightarrow> assign_ok ps rt \<longrightarrow> inv c \<longrightarrow> (\<forall>st \<in> set stk. lr_ok ps st) \<longrightarrow>
      assign_ok ps rt' \<and> inv c'"
  have "assign_loop ps (closure ps) k stk rt c = Some (Inr (rt', c'))" using assms(2) by (simp add: returnR_def)
  then have "?P ps (closure ps) k stk rt c (Inr (rt', c'))"
  proof (rule assign_loop.raw_induct [where P = ?P, rotated], intro allI impI)
    fix self ps' and cl :: "'c closure" and k stk rt c y rt' c'
    assume IH: "\<And>ps' cl k stk rt c y. self ps' cl k stk rt c = Some y \<Longrightarrow> ?P ps' cl k stk rt c y"
      and body: "(if k < length stk then
        bindR (collect_goto_nodes (stk ! k) ps') (\<lambda>gtos.
        bindR (runR (assign_goto ps' cl (stk ! k)) gtos ([], rt, c)) (\<lambda>(newstates, rt', c').
          self ps' cl (Suc k) (stk @ newstates) rt' c'))
      else returnR (rt, c)) = Some y"
      and y: "y = Inr (rt', c')" and eqs: "ps' = ps" "cl = closure ps" and ok: "assign_ok ps rt" "inv c" "\<forall>st \<in> set stk. lr_ok ps st"
    show "assign_ok ps rt' \<and> inv c'"
    proof (cases "k < length stk")
      case False
      then show ?thesis using body y ok by (simp add: returnR_def)
    next
      case True
      obtain gtos where gtos: "collect_goto_nodes (stk ! k) ps = returnR gtos"
        using body y True eqs by (cases "collect_goto_nodes (stk ! k) ps" rule: run_cases) (auto simp: throwR_def)
      obtain new rt1 c1 where inner: "runR (assign_goto ps (closure ps) (stk ! k)) gtos ([], rt, c) = returnR (new, rt1, c1)"
        using body y True eqs gtos by (cases "runR (assign_goto ps (closure ps) (stk ! k)) gtos ([], rt, c)" rule: run_cases) (auto simp: throwR_def)
      have state: "lr_ok ps (stk ! k)" using ok(3) True by simp
      let ?I = "\<lambda>(new, rt, c). assign_ok ps rt \<and> inv c \<and> (\<forall>st \<in> set new. lr_ok ps st)"
      have "?I (new, rt1, c1)"
      proof (rule runR_invariant [OF inner, where I = ?I])
        show "?I ([], rt, c)" using ok by simp
        fix gto s s'
        assume I: "?I s" and step: "assign_goto ps (closure ps) (stk ! k) gto s = returnR s'"
        obtain n r d where s: "s = (n, r, d)" by (cases s)
        obtain n' r' d' where s': "s' = (n', r', d')" by (cases s')
        from assign_goto_ok [OF assms(1) state _ _ _ step [unfolded s s']] I s show "?I s'" by (simp add: s')
      qed
      then have "assign_ok ps rt1" "inv c1" "\<forall>st \<in> set new. lr_ok ps st" by simp_all
      then have one: "assign_ok ps rt1" "inv c1" "\<forall>st \<in> set (stk @ new). lr_ok ps st" using ok(3) by (simp_all add: ball_Un)
      have "self ps (closure ps) (Suc k) (stk @ new) rt1 c1 = Some y" using body True eqs gtos inner by simp
      from IH [OF this] y one show ?thesis by blast
    qed
  qed
  then show ?thesis using assms by blast
qed

lemma assignments_ok:
  assumes "prods_fit ps" "ps \<noteq> []" "inv c" "get_automaton_state_assignments ps (closure ps) c = returnR (rt, c')"
  shows "assign_ok ps rt \<and> inv c'"
proof -
  have start: "item_valid ps (TransitionItem 0 0 0)" using assms(2) by (simp add: item_valid_def item_ok_def)
  have ts: "lr_ok ps (ts_of_list [TransitionItem 0 0 0] [])" "items (ts_of_list [TransitionItem 0 0 0] []) = {TransitionItem 0 0 0}"
    using lr_ok_insert [OF lr_ok_Nil(1) start] by simp_all
  obtain state c1 where st: "closure ps (ts_of_list [TransitionItem 0 0 0] []) c = returnR (state, c1)"
    "assign_loop ps (closure ps) 0 [state] [(state, 1)] c1 = returnR (rt, c')"
    using assms(4) by (auto simp: get_automaton_state_assignments_def bindR_eq_returnR)
  have ok: "inv c1" "lr_ok ps state" using closure_inv closure_ok assms(1,3) ts(1) st(1) by blast+
  have initial: "pairs (ts_of_list [TransitionItem 0 0 0] []) = {(0, 0)}" unfolding pairs_def ts(2) by (simp add: item_pair_def)
  have "snd x = 0" if "x \<in> pairs state" for x
  proof (cases "x = (0, 0)")
    case False
    then have "x \<notin> pairs (ts_of_list [TransitionItem 0 0 0] [])" unfolding initial by simp
    then show ?thesis by (rule closure_new [OF assms(1) ts(1) assms(3) st(1) that])
  qed simp
  then have "assign_ok ps [(state, 1)]" using ok by (simp add: assign_ok_def del: split_paired_All)
  then show ?thesis using assign_loop_ok [OF assms(1) st(2)] ok by simp
qed

end

interpretation lr0_closure: closure_functor calculate_closure_lr0 "\<lambda>_. True"
proof (unfold_locales, goal_cases)
  case (2 ps ts c rt c')
  then show ?case using lr0_closure_inv [of ps ts rt] by (auto simp: calculate_closure_lr0_def bindR_eq_returnR)
next
  case (3 ps ts c rt c' x)
  then have "get_lr0_transition_state_closure ts ps = returnR rt" by (auto simp: calculate_closure_lr0_def bindR_eq_returnR)
  from lr0_closure_inv [OF 3(2,1) this] 3(5,6) show ?case by (force simp: pairs_def item_pair_def)
qed auto

interpretation lr1_closure: closure_functor calculate_closure_lr1 fl_fits
proof (unfold_locales, goal_cases)
  case (1 ps ts c rt c')
  then show ?case using lr1_closure_inv [of ps ts c rt c'] by (auto simp: calculate_closure_lr1_def)
next
  case (2 ps ts c rt c')
  then show ?case using lr1_closure_inv [of ps ts c rt c'] by (auto simp: calculate_closure_lr1_def)
next
  case (3 ps ts c rt c' x)
  then obtain lr0 where lr0: "get_lr0_transition_state_closure ts ps = returnR lr0" "pairs rt = pairs lr0"
    using lr1_closure_inv [of ps ts c rt c'] by (auto simp: calculate_closure_lr1_def)
  from lr0_closure_inv [OF 3(2,1) lr0(1)] 3(5,6) show ?case unfolding lr0(2) by (force simp: pairs_def item_pair_def)
qed

subsection \<open>Merging states\<close>

lemma pairs_set: "pairs ts = (\<lambda>elem. item_pair (item_unpack elem)) ` set ts"
  by (simp add: pairs_def items_def ts_unpack_def image_image)

lemma pairs_insert: "lr_ok ps ts \<Longrightarrow> item_valid ps i \<Longrightarrow> pairs (ts_insert i ts) = insert (item_pair i) (pairs ts)"
  using lr_ok_insert by (simp add: pairs_def)

lemma item_valid_follow: "item_valid ps i \<Longrightarrow> handle_fits h \<Longrightarrow> item_valid ps (TransitionItem (ti_prodindex i) (ti_prodpos i) h)"
  by (auto simp: item_valid_def item_ok_def handle_fits_def)

lemma item_valid_handle: "item_valid ps i \<Longrightarrow> handle_fits (ti_follow i)"
  by (auto simp: item_valid_def item_ok_def handle_fits_def)

lemma merge_follow_inv:
  assumes "merge_follow item joined elems ts fl = returnR (rt, fl')" "lr_ok ps ts" "item_valid ps item" "handle_fits joined"
    "\<forall>elem \<in> set elems. item_valid ps (item_unpack elem)" "fl_fits fl"
  shows "lr_ok ps rt \<and> fl_fits fl' \<and>
    pairs rt = insert (item_pair item) (pairs ts) \<union> (\<lambda>elem. item_pair (item_unpack elem)) ` set elems"
  using assms
proof (induction item joined elems ts fl rule: merge_follow.induct)
  case (1 item joined ts fl)
  note v = item_valid_follow [OF 1(3,4)]
  from lr_ok_insert [OF 1(2) v] pairs_insert [OF 1(2) v] 1(1,6) show ?case by (simp add: item_pair_def)
next
  case (2 item joined elem elems ts fl)
  let ?i = "item_unpack elem"
  have i: "item_valid ps ?i" using "2.prems"(5) by simp
  show ?case
  proof (cases "ti_prodindex ?i \<noteq> ti_prodindex item \<or> ti_prodpos ?i \<noteq> ti_prodpos item")
    case True
    note v = item_valid_follow [OF "2.prems"(3,4)]
    have "merge_follow ?i (ti_follow ?i) elems (ts_insert (TransitionItem (ti_prodindex item) (ti_prodpos item) joined) ts) fl = returnR (rt, fl')"
      using "2.prems"(1) True by (simp add: Let_def)
    from "2.IH"(1) [OF refl True this _ i item_valid_handle [OF i]] lr_ok_insert [OF "2.prems"(2) v] pairs_insert [OF "2.prems"(2) v] "2.prems"(5,6)
    show ?thesis by (auto simp: item_pair_def)
  next
    case False
    obtain h fl1 where j: "fl_join (ti_follow ?i) joined fl = returnR (h, fl1)" "merge_follow item h elems ts fl1 = returnR (rt, fl')"
      using "2.prems"(1) False by (auto simp: Let_def bindR_eq_returnR)
    have "fl_fits fl1" "handle_fits h" using fl_join_fits [OF "2.prems"(6) j(1)] by simp_all
    from "2.IH"(2) [OF refl False j(2) "2.prems"(2,3) this(2) _ this(1)] "2.prems"(5) False
    show ?thesis by (auto simp: item_pair_def)
  qed
qed

lemma join_states_inv:
  assumes "join_lr1_transition_states s1 s2 fl = returnR (rt, fl')" "lr_ok ps s1" "lr_ok ps s2" "fl_fits fl"
  shows "lr_ok ps rt \<and> fl_fits fl' \<and> pairs rt = pairs s1 \<union> pairs s2"
proof -
  have j: "items (ts_join s1 s2) = items s1 \<union> items s2" "ts_ok (ts_join s1 s2)"
    using ts_join_spec [of s1 s2] assms(2,3) by (auto simp: lr_ok_def)
  then have ok: "lr_ok ps (ts_join s1 s2)" using assms(2,3) by (auto simp: lr_ok_def)
  have p: "pairs (ts_join s1 s2) = pairs s1 \<union> pairs s2" by (simp add: pairs_def j(1) image_Un)
  show ?thesis
  proof (cases "ts_join s1 s2")
    case Nil
    then show ?thesis using assms(1,4) p by (simp add: join_lr1_transition_states_def merge_transition_state_follow_def)
  next
    case (Cons elem elems)
    let ?i = "item_unpack elem"
    have m: "merge_follow ?i (ti_follow ?i) elems [] fl = returnR (rt, fl')"
      using assms(1) by (simp add: join_lr1_transition_states_def merge_transition_state_follow_def Cons Let_def)
    have v: "\<forall>e \<in> set (elem # elems). item_valid ps (item_unpack e)" using lr_ok_elem [OF ok] Cons by simp
    then have i: "item_valid ps ?i" by simp
    have "pairs (elem # elems) = insert (item_pair ?i) ((\<lambda>elem. item_pair (item_unpack elem)) ` set elems)"
      by (simp add: pairs_set)
    with merge_follow_inv [OF m lr_ok_Nil(1) i item_valid_handle [OF i] _ assms(4)] v p Cons show ?thesis by simp
  qed
qed

lemma lr0_state_inv:
  assumes "lr_ok ps ts"
  shows "lr_ok ps (get_lr0_transition_state_from_lr1_state ts) \<and> pairs (get_lr0_transition_state_from_lr1_state ts) = pairs ts"
proof -
  have "lr_ok ps (fold (\<lambda>elem rt. let item = item_unpack elem in ts_insert (TransitionItem (ti_prodindex item) (ti_prodpos item) 0) rt) elems rt) \<and>
      pairs (fold (\<lambda>elem rt. let item = item_unpack elem in ts_insert (TransitionItem (ti_prodindex item) (ti_prodpos item) 0) rt) elems rt) =
        (\<lambda>elem. item_pair (item_unpack elem)) ` set elems \<union> pairs rt"
    if "\<forall>elem \<in> set elems. item_valid ps (item_unpack elem)" "lr_ok ps rt" for elems rt
    using that
  proof (induction elems arbitrary: rt)
    case (Cons elem elems)
    have "handle_fits 0" by (simp add: handle_fits_def)
    with Cons.prems(1) have v: "item_valid ps (TransitionItem (ti_prodindex (item_unpack elem)) (ti_prodpos (item_unpack elem)) 0)"
      using item_valid_follow by simp
    from lr_ok_insert [OF Cons.prems(2) v] pairs_insert [OF Cons.prems(2) v] Cons
    show ?case by (auto simp: item_pair_def Let_def)
  qed simp
  from this [OF _ lr_ok_Nil(1)] lr_ok_elem [OF assms] show ?thesis
    by (simp add: get_lr0_transition_state_from_lr1_state_def pairs_set)
qed

text \<open>The LALR(1) states: valid items, numbers of the LR(0) states, and a first state with all dots in front.\<close>

definition lalr_ok :: "prods \<Rightarrow> nat \<Rightarrow> lalr_states \<Rightarrow> bool" where
  "lalr_ok ps n states \<longleftrightarrow> map_ok states \<and>
     (\<forall>s state. (s, state) \<in> set states \<longrightarrow> lr_ok ps state \<and> 1 \<le> s \<and> s \<le> int n \<and> (s = 1 \<longrightarrow> (\<forall>x \<in> pairs state. snd x = 0)))"

lemma assign_ok_find:
  assumes "assign_ok ps rt" "map_of rt st = Some n"
  shows "1 \<le> n" "n \<le> int (length rt)" "n = 1 \<Longrightarrow> x \<in> pairs st \<Longrightarrow> snd x = 0"
proof -
  obtain i where i: "i < length rt" "rt ! i = (st, n)" using map_of_SomeD [OF assms(2)] by (auto simp: in_set_conv_nth)
  have "map snd rt ! i = int (Suc i)" using assms(1) i(1) by (simp add: assign_ok_def del: upt_Suc)
  then have n: "n = int (Suc i)" using i by simp
  then show "1 \<le> n" "n \<le> int (length rt)" using i(1) by simp_all
  show "snd x = 0" if "n = 1" "x \<in> pairs st"
  proof -
    have "hd rt = (st, n)" using that(1) n i assms(1) by (simp add: assign_ok_def hd_conv_nth)
    then show ?thesis using assms(1) that(2) by (simp add: assign_ok_def del: split_paired_All)
  qed
qed

lemma lalr1_state_step_ok:
  assumes "assign_ok ps lr0" "lr_ok ps (fst st)" "lalr_ok ps (length lr0) rt" "fl_fits fl"
    "lalr1_state_step lr0 st (rt, fl) = returnR (rt', fl')"
  shows "lalr_ok ps (length lr0) rt' \<and> fl_fits fl'"
proof -
  let ?lr0 = "get_lr0_transition_state_from_lr1_state (fst st)"
  obtain s where s: "map_of lr0 ?lr0 = Some s"
    using assms(5) by (cases "map_of lr0 ?lr0") (auto simp: lalr1_state_step_def)
  let ?old = "case map_find rt s of None \<Rightarrow> [] | Some x \<Rightarrow> x"
  obtain new where j: "join_lr1_transition_states ?old (fst st) fl = returnR (new, fl')" and rt': "rt' = map_put rt s new"
    using assms(5) s by (auto simp: lalr1_state_step_def bindR_eq_returnR)
  have mo: "map_ok rt" using assms(3) by (simp add: lalr_ok_def)
  have old: "lr_ok ps ?old \<and> (s = 1 \<longrightarrow> (\<forall>x \<in> pairs ?old. snd x = 0))"
  proof (cases "map_find rt s")
    case (Some x)
    then have "(s, x) \<in> set rt" using map_find_iff_mem [OF mo] by simp
    then have "lr_ok ps x \<and> (s = 1 \<longrightarrow> (\<forall>y \<in> pairs x. snd y = 0))" using assms(3) unfolding lalr_ok_def by blast
    then show ?thesis unfolding Some by (simp del: split_paired_All)
  next
    case None
    show ?thesis unfolding None by simp
  qed
  have new: "lr_ok ps new" "fl_fits fl'" "pairs new = pairs ?old \<union> pairs (fst st)"
    using join_states_inv [OF j _ assms(2,4)] old by blast+
  have first: "snd x = 0" if "s = 1" "x \<in> pairs new" for x
  proof (cases "x \<in> pairs (fst st)")
    case True
    then have "x \<in> pairs ?lr0" using lr0_state_inv [OF assms(2)] by simp
    then show ?thesis by (rule assign_ok_find(3) [OF assms(1) s that(1)])
  next
    case False
    then show ?thesis using that new(3) old by blast
  qed
  have "lr_ok ps state \<and> 1 \<le> k \<and> k \<le> int (length lr0) \<and> (k = 1 \<longrightarrow> (\<forall>x \<in> pairs state. snd x = 0))" if "(k, state) \<in> set rt'" for k state
  proof (cases "k = s")
    case True
    then have "state = new" using that mo by (auto simp: rt' set_map_put)
    then show ?thesis using True new(1) first assign_ok_find(1,2) [OF assms(1) s] by blast
  next
    case False
    then have "(k, state) \<in> set rt" using that mo by (auto simp: rt' set_map_put)
    then show ?thesis using assms(3) unfolding lalr_ok_def by blast
  qed
  moreover have "map_ok rt'" using mo by (simp add: rt')
  ultimately show ?thesis using new(2) unfolding lalr_ok_def by blast
qed

lemma lalr_states_ok:
  assumes "assign_ok ps lr0" "assign_ok ps lr1" "fl_fits fl" "set (order lr1) \<subseteq> set lr1"
    "calculate_lalr1_state_map order lr0 lr1 fl = returnR (states, fl')"
  shows "lalr_ok ps (length lr0) states" "fl_fits fl'"
proof -
  let ?I = "\<lambda>acc. lalr_ok ps (length lr0) (fst acc) \<and> fl_fits (snd acc)"
  have run: "runR (lalr1_state_step lr0) (order lr1) ([], fl) = returnR (states, fl')"
    using assms(5) by (simp add: calculate_lalr1_state_map_def)
  have "?I (states, fl')"
  proof (rule runR_invariant [OF run, where I = ?I])
    show "?I ([], fl)" using assms(3) by (simp add: lalr_ok_def)
    fix st s s'
    assume st: "st \<in> set (order lr1)" and I: "?I s" and step: "lalr1_state_step lr0 st s = returnR s'"
    have "lr_ok ps (fst st)" using assms(2,4) st unfolding assign_ok_def by (metis case_prod_unfold subsetD)
    moreover have "lalr1_state_step lr0 st (fst s, snd s) = returnR (fst s', snd s')" using step by simp
    ultimately show "?I s'" using lalr1_state_step_ok [OF assms(1)] I by blast
  qed
  then show "lalr_ok ps (length lr0) states" "fl_fits fl'" by simp_all
qed

end
