(* ===== verification/LrBuild.thy ===== *)
theory LrBuild
  imports LrSound LrStatesInv LrTables
begin

text \<open>
  The tables \<open>Automaton::build\<close> makes belong to its grammar: every entry goes back to items of the state
  it is about, so the machine accepts only words of the grammar.
\<close>

subsection \<open>Grammars\<close>

text \<open>
  The terminals and nonterminals are resolved and numbered from 1 within the range of a \<open>short\<close>, as the
  parser of grammars leaves them.
\<close>

definition node_resolved :: "production_node_def \<Rightarrow> bool" where
  "node_resolved nd \<longleftrightarrow> (nd_type nd = Terminal \<or> nd_type nd = NonTerminal) \<and> 0 < nd_index nd \<and> nd_index nd < 32768"

definition grammar_ok :: "prods \<Rightarrow> bool" where
  "grammar_ok ps \<longleftrightarrow> ps \<noteq> [] \<and>
     (\<forall>p \<in> set ps. 0 < pd_lhs p \<and> pd_lhs p < 32768 \<and> (\<forall>nd \<in> set (pd_right p). node_resolved nd))"

text \<open>The number of FIRST sets in the follow map is within the limit of the packed items.\<close>

definition follow_sets_fit :: "prods \<Rightarrow> bool" where
  "follow_sets_fit ps \<longleftrightarrow>
     (case bindR (liftR (get_nullable_nonterminal_set ps)) (\<lambda>nullable.
           bindR (get_nonterminal_first_set_map ps nullable) (\<lambda>firsts. follow_map_new ps firsts nullable)) of
        Some (Inr fl) \<Rightarrow> hm_size (fl_sets fl) \<le> max_terminal
      | _ \<Rightarrow> True)"

text \<open>The items of the numbered states.\<close>

definition items_of_states :: "lalr_states \<Rightarrow> state_items" where
  "items_of_states states s = {(p, pos). \<exists>state. (s, state) \<in> set states \<and> (int p, int pos) \<in> pairs state}"

lemma items_of_states_eq:
  "map_ok states \<Longrightarrow> (s, state) \<in> set states \<Longrightarrow> (p, pos) \<in> items_of_states states s \<longleftrightarrow> (int p, int pos) \<in> pairs state"
proof -
  assume a: "map_ok states" "(s, state) \<in> set states"
  have unique: "state' = state" if "(s, state') \<in> set states" for state'
  proof -
    have "map_find states s = Some state'" "map_find states s = Some state"
      using map_find_iff_mem [OF a(1)] that a(2) by blast+
    then show ?thesis by simp
  qed
  have "(p, pos) \<in> items_of_states states s \<longleftrightarrow> (\<exists>state. (s, state) \<in> set states \<and> (int p, int pos) \<in> pairs state)"
    by (simp add: items_of_states_def)
  then show ?thesis using a(2) unique by blast
qed

lemma lr_ok_pair:
  assumes "lr_ok ps state" "elem \<in> set state"
  obtains p pos where "p < length ps" "pos \<le> length (pd_right (ps ! p))" "ti_prodindex (item_unpack elem) = int p"
    "ti_prodpos (item_unpack elem) = int pos" "(int p, int pos) \<in> pairs state" "prod_at ps (ti_prodindex (item_unpack elem)) = returnR (ps ! p)"
proof -
  let ?i = "item_unpack elem"
  have v: "item_valid ps ?i" by (rule lr_ok_elem [OF assms])
  show ?thesis
  proof (rule that [of "nat (ti_prodindex ?i)" "nat (ti_prodpos ?i)"])
    show "(int (nat (ti_prodindex ?i)), int (nat (ti_prodpos ?i))) \<in> pairs state"
      using v assms(2) by (force simp: pairs_set item_pair_def item_valid_def item_ok_def)
    show "prod_at ps (ti_prodindex ?i) = returnR (ps ! nat (ti_prodindex ?i))" by (rule prod_at_eq [OF v])
  qed (use v in \<open>auto simp: item_valid_def item_ok_def\<close>)
qed

subsection \<open>The follow map of the constructor\<close>

definition fl_handles_ok :: "follow_map \<Rightarrow> bool" where
  "fl_handles_ok fl \<longleftrightarrow> hm_ok (fl_sets fl) \<and> hm_startidx (fl_sets fl) = 0 \<and> fl_joins fl = [] \<and>
     (\<forall>k fh. map_find (fl_nodes fl) k = Some fh \<longrightarrow> fh_handle fh \<in> hm_handles (fl_sets fl))"

lemma first_of_rest_ok: "fs_ok rt \<Longrightarrow> fs_ok (fst (first_of_rest firsts nullable nds rt))"
  by (induction firsts nullable nds rt rule: first_of_rest.induct)
    (auto simp: Let_def fs_insert_spec fs_insert_range_spec split: option.splits)

lemma follow_map_new_ok:
  assumes "follow_map_new ps firsts nullable = returnR fl" "hm_size (fl_sets fl) \<le> max_terminal"
  shows "fl_fits fl"
proof -
  have enter: "fl_handles_ok fl'" if "fl_handles_ok fl" "follow_enter firsts nullable p i pos fl = returnR fl'" for fl fl' p i pos
  proof (cases "nd_type (pd_right p ! pos) = NonTerminal")
    case True
    obtain first inherit where first: "get_lr1_first_set p (pos + 1) firsts nullable = (first, inherit)" by fastforce
    obtain sets h where get: "hm_get first (fl_sets fl) = (sets, h)" by fastforce
    have "fs_ok first" using first_of_rest_ok [of "[]"] first by (metis fs_ok_Nil fst_conv get_lr1_first_set_def)
    note s = hm_get_spec [OF _ this get]
    have ok: "hm_ok (fl_sets fl)" using that(1) by (simp add: fl_handles_ok_def)
    have fl': "fl' = fl\<lparr>fl_nodes := map_put (fl_nodes fl) (FollowKey (int i) (int pos)) (FollowHandle h inherit), fl_sets := sets\<rparr>"
      using that(2) True first get by (auto simp: follow_enter_def map_insert_def split: option.splits)
    have "h \<in> hm_handles sets" using s(2) [OF ok] hm_content_handle by blast
    moreover have "g \<in> hm_handles sets" if "g \<in> hm_handles (fl_sets fl)" for g
      using that s(3) [OF ok] hm_content_handle by blast
    ultimately show ?thesis using that(1) s(1,4) [OF ok] by (auto simp: fl_handles_ok_def fl' split: if_splits)
  qed (use that in \<open>simp add: follow_enter_def\<close>)
  have "fl_handles_ok fl"
  proof (rule runR_invariant [OF assms(1) [unfolded follow_map_new_def], where I = fl_handles_ok])
    show "fl_handles_ok \<lparr>fl_nodes = [], fl_joins = [], fl_sets = fst (hm_get (fs_of_list [0]) (hm_new 0))\<rparr>"
      using hm_get_spec(1,4) [OF hm_ok_new, of "fs_of_list [0]" 0] fs_of_list_spec(1) [of "[0]"]
      by (cases "hm_get (fs_of_list [0]) (hm_new 0)") (simp add: fl_handles_ok_def, simp add: hm_new_def)
    fix i s s'
    assume "fl_handles_ok s" "(let p = ps ! i in
        runR (\<lambda>pos fl. follow_enter firsts nullable p i pos fl) [0..<length (pd_right p)] s) = returnR s'"
    then show "fl_handles_ok s'"
      using runR_invariant [where I = fl_handles_ok and step = "\<lambda>pos fl. follow_enter firsts nullable (ps ! i) i pos fl"
          and xs = "[0..<length (pd_right (ps ! i))]" and s = s and s' = s'] enter
      by (simp add: Let_def)
  qed
  then show ?thesis using assms(2) by (fastforce simp: fl_handles_ok_def fl_fits_def handle_fits_def hm_handles_def)
qed

subsection \<open>Shifts and gotos\<close>

text \<open>The code takes the items with the dot moved from the kernels of the states.\<close>

lemma state_core_mem:
  assumes "lr_ok ps state" "(int p, int (Suc pos)) \<in> pairs state"
  shows "item_packed (TransitionItem (int p) (int (Suc pos)) 0) \<in> set (state_core state)"
proof -
  have "set (fold (\<lambda>elem key. let item = item_unpack elem in
         if ti_prodpos item > 0 then fst (fs_insert (item_packed (TransitionItem (ti_prodindex item) (ti_prodpos item) 0)) key) else key) elems key) =
      set key \<union> {item_packed (TransitionItem (ti_prodindex (item_unpack e)) (ti_prodpos (item_unpack e)) 0) | e. e \<in> set elems \<and> ti_prodpos (item_unpack e) > 0}"
    if "fs_ok key" for elems key
    using that
  proof (induction elems arbitrary: key)
    case (Cons e elems)
    then show ?case by (auto simp: Let_def fs_insert_spec)
  qed simp
  from this [OF fs_ok_Nil] have core: "set (state_core state) =
      {item_packed (TransitionItem (ti_prodindex (item_unpack e)) (ti_prodpos (item_unpack e)) 0) | e. e \<in> set state \<and> ti_prodpos (item_unpack e) > 0}"
    by (simp add: state_core_def)
  obtain e where "e \<in> set state" "ti_prodindex (item_unpack e) = int p" "ti_prodpos (item_unpack e) = int (Suc pos)"
    using assms(2) by (auto simp: pairs_set item_pair_def)
  then show ?thesis unfolding core by force
qed

lemma goto_map_state:
  assumes "calculate_lalr1_transition_item_goto_map states = returnR gm" "gm key = Some s"
  obtains state where "(s, state) \<in> set states" "state_core state = key"
proof -
  have "\<forall>key s. gm key = Some s \<longrightarrow> (\<exists>state. (s, state) \<in> set states \<and> state_core state = key)"
  proof (rule runR_invariant [OF assms(1) [unfolded calculate_lalr1_transition_item_goto_map_def],
      where I = "\<lambda>gm. \<forall>key s. gm key = Some s \<longrightarrow> (\<exists>state. (s, state) \<in> set states \<and> state_core state = key)"])
    fix st rt rt'
    assume st: "st \<in> set states" and I: "\<forall>key s. rt key = Some s \<longrightarrow> (\<exists>state. (s, state) \<in> set states \<and> state_core state = key)"
      and step: "item_goto_step st rt = returnR rt'"
    have "rt' = rt(state_core (snd st) \<mapsto> fst st)" using step by (auto simp: item_goto_step_def split: option.splits)
    moreover have "(fst st, snd st) \<in> set states" using st by simp
    ultimately show "\<forall>key s. rt' key = Some s \<longrightarrow> (\<exists>state. (s, state) \<in> set states \<and> state_core state = key)"
      using I by (metis fun_upd_apply option.inject)
  qed simp
  then show ?thesis using assms(2) that by blast
qed

text \<open>A successor of a state over a node: an item of the state in front of the node, with the dot moved.\<close>

definition succ_ok :: "prods \<Rightarrow> transition_state \<Rightarrow> production_node \<Rightarrow> int \<Rightarrow> bool" where
  "succ_ok ps state nd succ \<longleftrightarrow> (\<exists>p pos. p < length ps \<and> pos < length (pd_right (ps ! p)) \<and> (int p, int pos) \<in> pairs state \<and>
     nd = pd_rhs (ps ! p) ! pos \<and> succ = item_packed (TransitionItem (int p) (int (Suc pos)) 0))"

lemma multimap_insert_mem: "x \<in> set (multimap_insert m k v) \<Longrightarrow> x = (k, v) \<or> x \<in> set m"
  by (induction m k v rule: multimap_insert.induct) (auto split: if_splits)

lemma shift_node_step_ok:
  assumes "lr_ok ps state" "elem \<in> set state" "shift_node_step ps elem (m, pm, w) = returnR (m', pm', w')"
    "\<forall>(nd, succ) \<in> set m. succ_ok ps state nd succ"
  shows "\<forall>(nd, succ) \<in> set m'. succ_ok ps state nd succ"
proof -
  let ?i = "item_unpack elem"
  obtain p pos where p: "p < length ps" "pos \<le> length (pd_right (ps ! p))" "ti_prodindex ?i = int p"
    "ti_prodpos ?i = int pos" "(int p, int pos) \<in> pairs state" "prod_at ps (ti_prodindex ?i) = returnR (ps ! p)"
    by (rule lr_ok_pair [OF assms(1,2)])
  show ?thesis
  proof (cases "next_node (ps ! p) (ti_prodpos ?i)")
    case None
    then show ?thesis using assms(3,4) p(6) by (simp add: shift_node_step_def)
  next
    case (Some nd)
    then have nd: "pos < length (pd_right (ps ! p))" "nd = pd_right (ps ! p) ! pos" by (auto simp: next_node_Some p(4))
    let ?succ = "item_packed (TransitionItem (int p) (int (Suc pos)) 0)"
    have m': "m' = multimap_insert m (nd_node nd) ?succ"
      using assms(3) p Some by (auto simp: shift_node_step_def Let_def add.commute split: if_splits prod.splits)
    have "succ_ok ps state (nd_node nd) ?succ" unfolding succ_ok_def
      by (rule exI [of _ p], rule exI [of _ pos]) (use p nd in \<open>simp add: pd_rhs_def\<close>)
    with assms(4) show ?thesis by (auto simp: m' dest!: multimap_insert_mem)
  qed
qed

lemma shift_key_set:
  assumes "shift_key nd m key = (key', rest)" "fs_ok key"
  shows "fs_ok key'" "set key' \<subseteq> set key \<union> {succ. (nd, succ) \<in> set m}" "set rest \<subseteq> set m"
proof -
  have "fs_ok key' \<and> set key' \<subseteq> set key \<union> {succ. (nd, succ) \<in> set m} \<and> set rest \<subseteq> set m"
    using assms
  proof (induction nd m key rule: shift_key.induct)
    case (2 nd nd' succ rest1 key)
    then show ?case using fs_insert_spec [OF 2(3), of succ] by (auto split: if_splits)
  qed simp
  then show "fs_ok key'" "set key' \<subseteq> set key \<union> {succ. (nd, succ) \<in> set m}" "set rest \<subseteq> set m" by blast+
qed

definition shift_ok :: "prods \<Rightarrow> transition_state \<Rightarrow> item_goto_map \<Rightarrow> shift_node \<Rightarrow> bool" where
  "shift_ok ps state gm sn \<longleftrightarrow> (\<exists>key. gm key = Some (sn_goto sn) \<and> (\<forall>succ \<in> set key. succ_ok ps state (sn_node sn) succ) \<and>
     (\<exists>succ. succ_ok ps state (sn_node sn) succ))"

lemma shift_nodes_ok:
  assumes "shift_nodes gm pm m rt = returnR rt'" "\<forall>(nd, succ) \<in> set m. succ_ok ps state nd succ" "\<forall>sn \<in> set rt. shift_ok ps state gm sn"
  shows "\<forall>sn \<in> set rt'. shift_ok ps state gm sn"
  using assms
proof (induction gm pm m rt rule: shift_nodes.induct)
  case (2 gm pm nd succ rest rt)
  obtain key rest' where key: "shift_key nd ((nd, succ) # rest) [] = (key, rest')" by fastforce
  obtain s where s: "gm key = Some s" using "2.prems"(1) key by (cases "gm key") auto
  obtain prio where prio: "(if pn_type nd = Terminal then liftR (map_find pm nd) else returnR no_priority) = returnR prio"
    and rec: "shift_nodes gm pm rest' (rt @ [ProductionShiftNode nd s prio]) = returnR rt'"
    using "2.prems"(1) key s by (auto simp: bindR_eq_returnR)
  note k = shift_key_set [OF key fs_ok_Nil]
  have all: "succ_ok ps state nd x" if "(nd, x) \<in> set ((nd, succ) # rest)" for x
    using "2.prems"(2) that by blast
  have "shift_ok ps state gm (ProductionShiftNode nd s prio)" unfolding shift_ok_def shift_node.sel
    using s k(2) all by (metis (no_types, lifting) Un_empty_left list.set(1) list.set_intros(1) mem_Collect_eq subsetD)
  then have "\<forall>sn \<in> set (rt @ [ProductionShiftNode nd s prio]). shift_ok ps state gm sn" using "2.prems"(3) by simp
  moreover have "\<forall>(nd, succ) \<in> set rest'. succ_ok ps state nd succ" using k(3) "2.prems"(2) by blast
  ultimately show ?case using "2.IH" [OF key [symmetric] s rec] by blast
qed simp

lemma get_shift_nodes_ok:
  assumes "lr_ok ps state" "get_shift_nodes state gm ps w = returnR (rt, w')"
  shows "\<forall>sn \<in> set rt. shift_ok ps state gm sn"
proof -
  obtain m pm where m: "runR (shift_node_step ps) state ([], [], w) = returnR (m, pm, w')" "shift_nodes gm pm m [] = returnR rt"
    using assms(2) by (auto simp: get_shift_nodes_def bindR_eq_returnR)
  let ?I = "\<lambda>st. \<forall>(nd, succ) \<in> set (fst st). succ_ok ps state nd succ"
  have "?I (m, pm, w')"
  proof (rule runR_invariant [OF m(1), where I = ?I])
    fix elem s s'
    assume e: "elem \<in> set state" and I: "?I s" and step: "shift_node_step ps elem s = returnR s'"
    obtain a b c where s: "s = (a, b, c)" by (cases s)
    obtain a' b' c' where s': "s' = (a', b', c')" by (cases s')
    show "?I s'" using shift_node_step_ok [OF assms(1) e step [unfolded s s']] I by (simp add: s s')
  qed simp
  then show ?thesis using shift_nodes_ok [OF m(2), of ps state] by simp
qed

text \<open>A shift or goto of a state leads to the state with the items moved over the node.\<close>

definition states_ok :: "prods \<Rightarrow> lalr_states \<Rightarrow> bool" where
  "states_ok ps states \<longleftrightarrow> grammar_ok ps \<and> prods_fit ps \<and> lalr_ok ps 4095 states"

lemma states_ok_state:
  assumes "states_ok ps states" "(s, state) \<in> set states"
  shows "lr_ok ps state" "1 \<le> s" "s < 4096" "short s"
    "(p, pos) \<in> items_of_states states s \<longleftrightarrow> (int p, int pos) \<in> pairs state"
proof -
  have l: "lalr_ok ps 4095 states" using assms(1) by (simp add: states_ok_def)
  then show "lr_ok ps state" "1 \<le> s" "s < 4096" "short s" using assms(2) unfolding lalr_ok_def short_def by fastforce+
  show "(p, pos) \<in> items_of_states states s \<longleftrightarrow> (int p, int pos) \<in> pairs state"
    using items_of_states_eq [OF _ assms(2)] l by (simp add: lalr_ok_def)
qed

lemma succ_node_resolved:
  assumes "states_ok ps states" "succ_ok ps state nd succ"
  shows "(pn_type nd = Terminal \<or> pn_type nd = NonTerminal) \<and> 0 < pn_index nd \<and> pn_index nd < 32768"
proof -
  obtain p pos where p: "p < length ps" "pos < length (pd_right (ps ! p))" "nd = nd_node (pd_right (ps ! p) ! pos)"
    using assms(2) by (auto simp: succ_ok_def pd_rhs_def)
  have "ps ! p \<in> set ps" "pd_right (ps ! p) ! pos \<in> set (pd_right (ps ! p))" using p(1,2) by simp_all
  then have "node_resolved (pd_right (ps ! p) ! pos)" using assms(1) unfolding states_ok_def grammar_ok_def by blast
  then show ?thesis by (simp add: p(3) node_resolved_def nd_node_def)
qed

lemma shift_link:
  assumes ok: "states_ok ps states" and s: "(s, state) \<in> set states"
    and gm: "calculate_lalr1_transition_item_goto_map states = returnR gm" and sn: "shift_ok ps state gm sn"
  shows "lr_link ps (items_of_states states) s (sn_node sn) (sn_goto sn)"
proof -
  obtain key where key: "gm key = Some (sn_goto sn)" "\<forall>succ \<in> set key. succ_ok ps state (sn_node sn) succ"
    using sn by (auto simp: shift_ok_def)
  obtain state' where s': "(sn_goto sn, state') \<in> set states" "state_core state' = key" by (rule goto_map_state [OF gm key(1)])
  have "(p, pos) \<in> items_of_states states s \<and> p < length ps \<and> pos < length (pd_rhs (ps ! p)) \<and> pd_rhs (ps ! p) ! pos = sn_node sn"
    if moved: "(p, Suc pos) \<in> items_of_states states (sn_goto sn)" for p pos
  proof -
    have pr: "(int p, int (Suc pos)) \<in> pairs state'" using states_ok_state(5) [OF ok s'(1)] moved by blast
    from state_core_mem [OF states_ok_state(1) [OF ok s'(1)] pr]
    have "succ_ok ps state (sn_node sn) (item_packed (TransitionItem (int p) (int (Suc pos)) 0))" using key(2) s'(2) by blast
    then obtain q k where q: "q < length ps" "k < length (pd_right (ps ! q))" "(int q, int k) \<in> pairs state" "sn_node sn = pd_rhs (ps ! q) ! k"
      and eq: "item_packed (TransitionItem (int p) (int (Suc pos)) 0) = item_packed (TransitionItem (int q) (int (Suc k)) 0)"
      unfolding succ_ok_def by blast
    have fit: "int (length ps) < 512" "\<forall>p \<in> set ps. int (length (pd_right p)) < 16" using ok by (simp_all add: states_ok_def prods_fit_def)
    have "int (length (pd_right (ps ! q))) < 16" using fit(2) q(1) by simp
    then have "item_ok (TransitionItem (int q) (int (Suc k)) 0)" using fit(1) q(1,2) by (simp add: item_ok_def)
    moreover have "item_ok (TransitionItem (int p) (int (Suc pos)) 0)"
    proof -
      obtain e where "e \<in> set state'" "item_pair (item_unpack e) = (int p, int (Suc pos))" using pr by (auto simp: pairs_set)
      then show ?thesis using lr_ok_elem [OF states_ok_state(1) [OF ok s'(1)]] by (force simp: item_valid_def item_ok_def item_pair_def)
    qed
    ultimately have "TransitionItem (int p) (int (Suc pos)) 0 = TransitionItem (int q) (int (Suc k)) 0"
      using eq item_packed_inverse by metis
    then show ?thesis using q states_ok_state(5) [OF ok s] by (simp add: pd_rhs_def)
  qed
  then show ?thesis using states_ok_state(4) [OF ok s'(1)] by (simp add: lr_link_def)
qed

subsection \<open>Reductions\<close>

lemma reduce_follow_ok:
  assumes "lr_ok ps state" "get_reduce_follow state ps = returnR rt" "follow \<in> set rt"
  shows "\<exists>elem \<in> set state. \<exists>p. p < length ps \<and> ti_prodindex (item_unpack elem) = int p \<and>
    ti_prodpos (item_unpack elem) = int (length (pd_right (ps ! p))) \<and> ti_follow (item_unpack elem) = follow"
proof -
  let ?C = "\<lambda>follow. \<exists>elem \<in> set state. \<exists>p. p < length ps \<and> ti_prodindex (item_unpack elem) = int p \<and>
    ti_prodpos (item_unpack elem) = int (length (pd_right (ps ! p))) \<and> ti_follow (item_unpack elem) = follow"
  let ?I = "\<lambda>rt. fs_ok rt \<and> (\<forall>follow \<in> set rt. ?C follow)"
  have "?I rt"
  proof (rule runR_invariant [OF assms(2) [unfolded get_reduce_follow_def], where I = ?I])
    fix elem s s'
    assume e: "elem \<in> set state" and I: "?I s" and step: "reduce_follow_step ps elem s = returnR s'"
    obtain p pos where p: "p < length ps" "pos \<le> length (pd_right (ps ! p))" "ti_prodindex (item_unpack elem) = int p"
      "ti_prodpos (item_unpack elem) = int pos" "(int p, int pos) \<in> pairs state" "prod_at ps (ti_prodindex (item_unpack elem)) = returnR (ps ! p)"
      by (rule lr_ok_pair [OF assms(1) e])
    show "?I s'"
    proof (cases "pos = length (pd_right (ps ! p))")
      case True
      then have "s' = fst (fs_insert (ti_follow (item_unpack elem)) s)" using step p by (simp add: reduce_follow_step_def Let_def)
      moreover have "?C (ti_follow (item_unpack elem))" using e p True by blast
      ultimately show ?thesis using I fs_insert_spec [of s "ti_follow (item_unpack elem)"] by simp
    qed (use I step p in \<open>simp add: reduce_follow_step_def Let_def\<close>)
  qed simp
  then show ?thesis using assms(3) by blast
qed

definition reduction_ok :: "prods \<Rightarrow> transition_state \<Rightarrow> reduction_def \<Rightarrow> bool" where
  "reduction_ok ps state rd \<longleftrightarrow> (\<exists>p. p < length ps \<and> (int p, int (length (pd_right (ps ! p)))) \<in> pairs state \<and>
     rd_head rd = pd_lhs (ps ! p) \<and> rd_count rd = int (length (pd_right (ps ! p))))"

definition completes :: "prods \<Rightarrow> int \<Rightarrow> int \<Rightarrow> bool" where
  "completes ps follow elem \<longleftrightarrow> (\<exists>p. p < length ps \<and> ti_prodindex (item_unpack elem) = int p \<and>
     ti_prodpos (item_unpack elem) = int (length (pd_right (ps ! p))) \<and> ti_follow (item_unpack elem) = follow)"

lemma reduction_step_ok:
  assumes "lr_ok ps state" "elem \<in> set state" "reduction_step ps lexer fl follow elem (rd, lasti, w) = returnR (rd', lasti', w')"
    "lasti \<noteq> -1 \<longrightarrow> reduction_ok ps state rd"
  shows "lasti' \<noteq> -1 \<longrightarrow> reduction_ok ps state rd'" "completes ps follow elem \<or> lasti \<noteq> -1 \<longrightarrow> lasti' \<noteq> -1"
proof -
  let ?i = "item_unpack elem"
  obtain p pos where p: "p < length ps" "pos \<le> length (pd_right (ps ! p))" "ti_prodindex ?i = int p"
    "ti_prodpos ?i = int pos" "(int p, int pos) \<in> pairs state" "prod_at ps (ti_prodindex ?i) = returnR (ps ! p)"
    by (rule lr_ok_pair [OF assms(1,2)])
  have c: "completes ps follow elem \<longleftrightarrow> pos = length (pd_right (ps ! p)) \<and> ti_follow ?i = follow"
    using p by (auto simp: completes_def)
  have "(lasti' \<noteq> -1 \<longrightarrow> reduction_ok ps state rd') \<and> (completes ps follow elem \<or> lasti \<noteq> -1 \<longrightarrow> lasti' \<noteq> -1)"
  proof (cases "completes ps follow elem \<and> lasti = -1")
    case True
    then have "rd_head rd' = pd_lhs (ps ! p)" "rd_count rd' = int (length (pd_right (ps ! p)))" "lasti' = int p"
      using assms(3) p c by (auto simp: reduction_step_def Let_def pd_lhs_def)
    moreover have "(int p, int (length (pd_right (ps ! p)))) \<in> pairs state" using p(5) c True by simp
    ultimately show ?thesis using p(1) unfolding reduction_ok_def by auto
  next
    case False
    have "rd' = rd \<and> lasti' = lasti"
      using assms(3) p c False by (auto simp: reduction_step_def Let_def bindR_eq_returnR split: if_splits)
    then show ?thesis using False assms(4) by auto
  qed
  then show "lasti' \<noteq> -1 \<longrightarrow> reduction_ok ps state rd'" "completes ps follow elem \<or> lasti \<noteq> -1 \<longrightarrow> lasti' \<noteq> -1" by blast+
qed

lemma reduction_loop_ok:
  assumes "lr_ok ps state"
  shows "runR (reduction_step ps lexer fl follow) es (rd, lasti, w) = returnR (rd', lasti', w') \<Longrightarrow> set es \<subseteq> set state \<Longrightarrow>
    (lasti \<noteq> -1 \<longrightarrow> reduction_ok ps state rd) \<Longrightarrow>
    (lasti' \<noteq> -1 \<longrightarrow> reduction_ok ps state rd') \<and> ((\<exists>elem \<in> set es. completes ps follow elem) \<or> lasti \<noteq> -1 \<longrightarrow> lasti' \<noteq> -1)"
proof (induction es arbitrary: rd lasti w)
  case (Cons elem es)
  obtain rd1 lasti1 w1 where step: "reduction_step ps lexer fl follow elem (rd, lasti, w) = returnR (rd1, lasti1, w1)"
    "runR (reduction_step ps lexer fl follow) es (rd1, lasti1, w1) = returnR (rd', lasti', w')"
    using Cons.prems(1) by (auto simp: bindR_eq_returnR)
  have e: "elem \<in> set state" using Cons.prems(2) by simp
  note one = reduction_step_ok [OF assms e step(1) Cons.prems(3)]
  from Cons.IH [OF step(2) _ one(1)] Cons.prems(2) one(2) show ?case by auto
qed simp

lemma get_reduction_ok:
  assumes "lr_ok ps state" "get_reduce_follow state ps = returnR follows" "follow \<in> set follows"
    "get_reduction_def state follow ps lexer fl w = returnR (rd, w')"
  shows "reduction_ok ps state rd"
proof -
  obtain lasti where "runR (reduction_step ps lexer fl follow) state (no_reduction, -1, w) = returnR (rd, lasti, w')"
    using assms(4) by (auto simp: get_reduction_def_def bindR_eq_returnR)
  from reduction_loop_ok [OF assms(1) this subset_refl] reduce_follow_ok [OF assms(1-3)]
  show ?thesis by (auto simp: completes_def)
qed

lemma is_accept_elems_ok:
  "is_accept_elems ps es = returnR True \<Longrightarrow> \<exists>elem \<in> set es. \<exists>p. prod_at ps 0 = returnR p \<and>
     ti_prodindex (item_unpack elem) = 0 \<and> ti_prodpos (item_unpack elem) = int (length (pd_right p))"
  by (induction ps es rule: is_accept_elems.induct) (auto simp: Let_def bindR_eq_returnR split: if_splits)

subsection \<open>Entries of the tables\<close>

definition action_ok :: "prods \<Rightarrow> state_items \<Rightarrow> int \<Rightarrow> int \<Rightarrow> action \<Rightarrow> bool" where
  "action_ok ps K s t a \<longleftrightarrow>
     (case ac_type a of
        Shift \<Rightarrow> t \<noteq> 0 \<and> lr_link ps K s (TM t) (ac_value a)
      | Reduce \<Rightarrow> (\<exists>p. p < length ps \<and> (p, length (pd_rhs (ps ! p))) \<in> K s \<and> ac_value a = pd_lhs (ps ! p) \<and>
          short (ac_value a) \<and> ac_count a = int (length (pd_rhs (ps ! p))))
      | Accept \<Rightarrow> t = 0 \<and> 0 < length ps \<and> (0, length (pd_rhs (ps ! 0))) \<in> K s \<and> ac_count a = int (length (pd_rhs (ps ! 0))))"

definition entries_ok :: "prods \<Rightarrow> state_items \<Rightarrow> lr_tables \<Rightarrow> bool" where
  "entries_ok ps K tb \<longleftrightarrow>
     (\<forall>key a. map_find (tb_actions tb) key = Some a \<longrightarrow> action_ok ps K (ak_state key) (ak_terminal key) a) \<and>
     (\<forall>key g. map_find (tb_gotos tb) key = Some g \<longrightarrow> lr_link ps K (gk_state key) (NT (gk_nonterminal key)) (go_state g))"

lemma insert_action_entries:
  assumes "insert_action ps fl state t key a prio lexer tb = returnR tb'" "entries_ok ps K tb"
    "action_ok ps K (ak_state key) (ak_terminal key) a"
  shows "entries_ok ps K tb'"
proof -
  have "tb_gotos tb' = tb_gotos tb \<and>
      (\<forall>k b. map_find (tb_actions tb') k = Some b \<longrightarrow> map_find (tb_actions tb) k = Some b \<or> (k = key \<and> b = a))"
    using assms(1) by (auto simp: insert_action_def map_insert_def Let_def tb_warn_def tb_put_def tb_solve_def bindR_eq_returnR
        split: option.splits if_splits)
  then show ?thesis using assms(2,3) unfolding entries_ok_def by metis
qed

lemma entries_ok_update [simp]:
  "entries_ok ps K (tb\<lparr>tb_warnings := w\<rparr>) = entries_ok ps K tb"
  by (simp add: entries_ok_def)

lemma build_shift_ok:
  assumes states: "states_ok ps states" and gm: "calculate_lalr1_transition_item_goto_map states = returnR gm" and a: "(s, state) \<in> set states" "shift_ok ps state gm sn" "build_shift ps fl state s lexer sn tb = returnR tb'"
    "entries_ok ps (items_of_states states) tb"
  shows "entries_ok ps (items_of_states states) tb'"
proof -
  have link: "lr_link ps (items_of_states states) s (sn_node sn) (sn_goto sn)" by (rule shift_link [OF states a(1) gm a(2)])
  have short: "short (sn_goto sn)" using link by (simp add: lr_link_def)
  obtain succ where "succ_ok ps state (sn_node sn) succ" using a(2) by (auto simp: shift_ok_def)
  from succ_node_resolved [OF states this] have node: "pn_type (sn_node sn) = Terminal \<or> pn_type (sn_node sn) = NonTerminal"
    "0 < pn_index (sn_node sn)" "short (pn_index (sn_node sn))" by (auto simp: short_def)
  have s: "short s" by (rule states_ok_state(4) [OF states a(1)])
  show ?thesis
  proof (cases "pn_type (sn_node sn) = Terminal")
    case True
    have key: "mk_action_key s (pn_index (sn_node sn)) = ActionKey s (pn_index (sn_node sn))"
      using s node(3) by (simp add: mk_action_key_def)
    have nd: "sn_node sn = TM (pn_index (sn_node sn))" using True by (simp add: production_node_eq_iff)
    have act: "action_ok ps (items_of_states states) s (pn_index (sn_node sn)) (action_shift (sn_goto sn))"
      using link short node(2) nd by (simp add: action_ok_def action_shift_def mk_action_def)
    have step: "insert_action ps fl state (pn_index (sn_node sn)) (mk_action_key s (pn_index (sn_node sn))) (action_shift (sn_goto sn))
        (sn_priority sn) lexer tb = returnR tb'"
      using a(3) True by (simp add: build_shift_def Let_def)
    show ?thesis by (rule insert_action_entries [OF step a(4)]) (simp add: key act)
  next
    case False
    have key: "mk_goto_key s (pn_index (sn_node sn)) = GotoKey s (pn_index (sn_node sn))"
      using s node(3) by (simp add: mk_goto_key_def)
    have nd: "sn_node sn = NT (pn_index (sn_node sn))" using False node(1) by (simp add: production_node_eq_iff)
    have "tb_actions tb' = tb_actions tb \<and> (\<forall>k g. map_find (tb_gotos tb') k = Some g \<longrightarrow>
        map_find (tb_gotos tb) k = Some g \<or> (k = GotoKey s (pn_index (sn_node sn)) \<and> g = Goto (sn_goto sn)))"
      using a(3) False short by (auto simp: build_shift_def Let_def map_insert_def key mk_goto_def split: option.splits if_splits)
    then show ?thesis using a(4) link nd unfolding entries_ok_def by (metis goto.sel goto_key.sel)
  qed
qed

lemma build_reduce_ok:
  assumes states: "states_ok ps states" and a: "(s, state) \<in> set states" "get_reduce_follow state ps = returnR follows" "follow \<in> set follows"
    "build_reduce ps fl state s lexer follow tb = returnR tb'" "entries_ok ps (items_of_states states) tb"
  shows "entries_ok ps (items_of_states states) tb'"
proof -
  obtain rd w terminals where rd: "get_reduction_def state follow ps lexer fl (tb_warnings tb) = returnR (rd, w)"
    and run: "runR (\<lambda>t. insert_action ps fl state t (mk_action_key s t)
       (action_reduce (rd_head rd) (rd_scope rd) (rd_callidx rd) (rd_count rd)) (rd_priority rd) lexer) terminals (tb\<lparr>tb_warnings := w\<rparr>) = returnR tb'"
    using a(4) by (auto simp: build_reduce_def bindR_eq_returnR)
  have "reduction_ok ps state rd" by (rule get_reduction_ok [OF states_ok_state(1) [OF states a(1)] a(2,3) rd])
  then obtain p where p: "p < length ps" "(int p, int (length (pd_right (ps ! p)))) \<in> pairs state" "rd_head rd = pd_lhs (ps ! p)"
    "rd_count rd = int (length (pd_right (ps ! p)))" by (auto simp: reduction_ok_def)
  have item: "(p, length (pd_rhs (ps ! p))) \<in> items_of_states states s"
    using states_ok_state(5) [OF states a(1)] p(2) by (simp add: pd_rhs_def)
  have mem: "ps ! p \<in> set ps" using p(1) by simp
  then have bounds: "0 < pd_lhs (ps ! p)" "pd_lhs (ps ! p) < 32768" "length (pd_right (ps ! p)) < 16"
    using states by (auto simp: states_ok_def grammar_ok_def prods_fit_def)
  let ?a = "action_reduce (rd_head rd) (rd_scope rd) (rd_callidx rd) (rd_count rd)"
  have act: "action_ok ps (items_of_states states) k t ?a" if "k = s" for k t
    unfolding action_ok_def using p(1,3,4) item bounds that
    by (auto simp: action_reduce_def mk_action_def short_def pd_rhs_def intro!: exI [of _ p])
  have key: "ak_state (mk_action_key s t) = s" for t
    using states_ok_state(4) [OF states a(1)] by (simp add: mk_action_key_def)
  show ?thesis
    by (rule runR_invariant [OF run, where I = "entries_ok ps (items_of_states states)"])
      (use a(5) in simp, rule insert_action_entries, assumption+, rule act [OF key])
qed

lemma build_accept_ok:
  assumes states: "states_ok ps states" and a: "(s, state) \<in> set states" "build_accept ps state s (tb, n) = returnR (tb', n')" "entries_ok ps (items_of_states states) tb"
  shows "entries_ok ps (items_of_states states) tb'"
proof (cases "is_accept_state state ps = returnR True")
  case False
  then have "tb' = tb" using a(2) by (auto simp: build_accept_def bindR_eq_returnR split: if_splits)
  then show ?thesis using a(3) by simp
next
  case True
  obtain p e where e: "e \<in> set state" "prod_at ps 0 = returnR p" "ti_prodindex (item_unpack e) = 0"
    "ti_prodpos (item_unpack e) = int (length (pd_right p))"
    using is_accept_elems_ok [OF True [unfolded is_accept_state_def]] by blast
  have p: "0 < length ps" "p = ps ! 0" using e(2) by (simp_all add: prod_at_returnR)
  have item: "(0, length (pd_rhs (ps ! 0))) \<in> items_of_states states s"
    using states_ok_state(5) [OF states a(1)] e p(2) by (force simp: pairs_set item_pair_def pd_rhs_def)
  let ?a = "action_accept (nd_index (pd_left p)) (pd_scope p) (pd_callidx p) (int (length (pd_right p)))"
  have tb': "tb' = tb\<lparr>tb_actions := map_put (tb_actions tb) (mk_action_key s 0) ?a\<rparr>"
    using a(2) True e(2) by (auto simp: build_accept_def split: if_splits)
  have "ps ! 0 \<in> set ps" using p(1) by simp
  then have "length (pd_right (ps ! 0)) < 16" using states by (auto simp: states_ok_def prods_fit_def)
  then have "action_ok ps (items_of_states states) s 0 ?a"
    using item p by (simp add: action_ok_def action_accept_def mk_action_def pd_rhs_def)
  moreover have "mk_action_key s 0 = ActionKey s 0" using states_ok_state(4) [OF states a(1)] by (simp add: mk_action_key_def)
  ultimately show ?thesis using a(3) by (simp add: tb' entries_ok_def)
qed

lemma build_state_ok:
  assumes states: "states_ok ps states" and gm: "calculate_lalr1_transition_item_goto_map states = returnR gm" and a: "(s, state) \<in> set states" "build_state ps lexer gm fl (s, state) (tb, n) = returnR (tb', n')"
    "entries_ok ps (items_of_states states) tb"
  shows "entries_ok ps (items_of_states states) tb'"
proof -
  obtain tb1 n1 shifts w tb2 follows where acc: "build_accept ps state s (tb, n) = returnR (tb1, n1)"
    and sh: "get_shift_nodes state gm ps (tb_warnings tb1) = returnR (shifts, w)"
    and run1: "runR (build_shift ps fl state s lexer) shifts (tb1\<lparr>tb_warnings := w\<rparr>) = returnR tb2"
    and fol: "get_reduce_follow state ps = returnR follows"
    and run2: "runR (build_reduce ps fl state s lexer) follows tb2 = returnR tb'"
    using a(2) by (auto simp: build_state_def bindR_eq_returnR)
  let ?E = "entries_ok ps (items_of_states states)"
  have "?E (tb1\<lparr>tb_warnings := w\<rparr>)" using build_accept_ok [OF states a(1) acc a(3)] by simp
  moreover have "\<forall>sn \<in> set shifts. shift_ok ps state gm sn"
    by (rule get_shift_nodes_ok [OF states_ok_state(1) [OF states a(1)] sh])
  ultimately have "?E tb2"
    using runR_invariant [OF run1, where I = ?E] build_shift_ok [OF states gm a(1)] by blast
  then show ?thesis using runR_invariant [OF run2, where I = ?E] build_reduce_ok [OF states a(1) fol] by blast
qed

subsection \<open>The automaton\<close>

lemma build_limits_ok: "build_limits ld = returnR () \<Longrightarrow> prods_fit (ld_prodlist ld)"
proof -
  assume b: "build_limits ld = returnR ()"
  have "int (length (pd_right p)) < 16" if "runR (\<lambda>p _.
            if int (length (pd_right p)) \<ge> max_production_length then throwR (Error ComplexityMaxProductionLengthInGrammarDef [])
            else if pr_value (pd_priority p) < 0 \<or> pr_value (pd_priority p) \<ge> max_priority then
              throwR (Error ComplexityMaxProductionPriorityInGrammarDef [])
            else returnR ()) ps () = returnR ()" "p \<in> set ps" for p ps
    using that by (induction ps) (auto split: if_splits)
  then show ?thesis using b by (auto simp: build_limits_def prods_fit_def split: if_splits)
qed

lemma build_states_ok:
  assumes "grammar_ok ps" "prods_fit ps" "follow_sets_fit ps" "\<And>m. set (order m) \<subseteq> set m"
    "build_states order ps = returnR (states, gm, fl)"
  shows "states_ok ps states" "calculate_lalr1_transition_item_goto_map states = returnR gm"
proof -
  obtain nullable firsts fl0 lr0 lr1 fl1 where
      n: "get_nullable_nonterminal_set ps = Some nullable" and f: "get_nonterminal_first_set_map ps nullable = returnR firsts"
    and fl0: "follow_map_new ps firsts nullable = returnR fl0"
    and lr0: "get_automaton_state_assignments ps (calculate_closure_lr0 ps) () = returnR (lr0, ())"
    and lr1: "get_automaton_state_assignments ps (calculate_closure_lr1 ps) fl0 = returnR (lr1, fl1)"
    and la: "calculate_lalr1_state_map order lr0 lr1 fl1 = returnR (states, fl)"
    and gm: "calculate_lalr1_transition_item_goto_map states = returnR gm" and lim: "int (length lr0) < 4096"
    using assms(5) by (auto simp: build_states_def bindR_eq_returnR liftR_eq_returnR split: if_splits)
  have ne: "ps \<noteq> []" using assms(1) by (simp add: grammar_ok_def)
  have "hm_size (fl_sets fl0) \<le> max_terminal"
    using assms(3) unfolding follow_sets_fit_def n f fl0 liftR_Some returnR_bind by (simp add: returnR_def)
  then have fits: "fl_fits fl0" by (rule follow_map_new_ok [OF fl0])
  have "assign_ok ps lr0" using lr0_closure.assignments_ok [OF assms(2) ne _ lr0] by simp
  moreover have "assign_ok ps lr1" "fl_fits fl1" using lr1_closure.assignments_ok [OF assms(2) ne fits lr1] by simp_all
  ultimately have "lalr_ok ps (length lr0) states" by (rule lalr_states_ok(1) [OF _ _ _ assms(4) la])
  then have "lalr_ok ps 4095 states" using lim unfolding lalr_ok_def by fastforce
  then show "states_ok ps states" using assms(1,2) by (simp add: states_ok_def)
  show "calculate_lalr1_transition_item_goto_map states = returnR gm" by (rule gm)
qed

lemma entries_tables_ok:
  assumes "states_ok ps states" "entries_ok ps (items_of_states states) tb"
  shows "tables_ok ps (items_of_states states) (tb_actions tb) (tb_gotos tb)"
proof -
  have "(p, Suc pos) \<notin> items_of_states states 1" for p pos
  proof
    assume "(p, Suc pos) \<in> items_of_states states 1"
    then obtain state where "(1, state) \<in> set states" "(int p, int (Suc pos)) \<in> pairs state" by (auto simp: items_of_states_def)
    then have "snd (int p, int (Suc pos)) = 0" using assms(1) unfolding states_ok_def lalr_ok_def by blast
    then show False by simp
  qed
  moreover have "action_ok ps (items_of_states states) s t a" if "map_find (tb_actions tb) (ActionKey s t) = Some a" for s t a
    using assms(2) that unfolding entries_ok_def by (metis action_key.sel)
  moreover have "lr_link ps (items_of_states states) s (NT A) (go_state g)" if "map_find (tb_gotos tb) (GotoKey s A) = Some g" for s A g
    using assms(2) that unfolding entries_ok_def by (metis goto_key.sel)
  ultimately show ?thesis unfolding tables_ok_def action_ok_def by blast
qed

lemma build_tables:
  assumes "grammar_ok (ld_prodlist ld)" "follow_sets_fit (ld_prodlist ld)" "\<And>m. set (order m) \<subseteq> set m"
    "am_actions am0 = []" "am_gotos am0 = []" "build order ld warnings am0 = returnR (am, warnings')"
  obtains K where "tables_ok (ld_prodlist ld) K (am_actions am) (am_gotos am)"
proof -
  let ?ps = "ld_prodlist ld"
  obtain states gm fl tb n where lim: "build_limits ld = returnR ()" and st: "build_states order ?ps = returnR (states, gm, fl)"
    and run: "runR (build_state ?ps (ld_lexer ld) gm fl) states
          (\<lparr>tb_actions = am_actions am0, tb_gotos = am_gotos am0, tb_priorities = [],
            tb_solved = \<lparr>sc_map = [], sc_count = 0\<rparr>, tb_warnings = warnings\<rparr>, 0) = returnR (tb, n)"
    and am: "am_actions am = tb_actions tb" "am_gotos am = tb_gotos tb"
    using assms(6) by (auto simp: build_def Let_def bindR_eq_returnR split: if_splits)
  note ok = build_states_ok [OF assms(1) build_limits_ok [OF lim] assms(2,3) st]
  let ?I = "\<lambda>st. entries_ok ?ps (items_of_states states) (fst st)"
  have "?I (tb, n)"
  proof (rule runR_invariant [OF run, where I = ?I])
    show "?I (\<lparr>tb_actions = am_actions am0, tb_gotos = am_gotos am0, tb_priorities = [],
            tb_solved = \<lparr>sc_map = [], sc_count = 0\<rparr>, tb_warnings = warnings\<rparr>, 0)"
      by (simp add: entries_ok_def assms(4,5))
    fix x s s'
    assume x: "x \<in> set states" and I: "?I s" and step: "build_state ?ps (ld_lexer ld) gm fl x s = returnR s'"
    obtain k state where xe: "x = (k, state)" by (cases x)
    obtain a b where se: "s = (a, b)" by (cases s)
    obtain a' b' where se': "s' = (a', b')" by (cases s')
    show "?I s'" using build_state_ok [OF ok, of k state _ fl a b a' b'] x I step by (simp add: xe se se')
  qed
  then have "tables_ok ?ps (items_of_states states) (am_actions am) (am_gotos am)"
    using entries_tables_ok [OF ok(1), of tb] by (simp add: am)
  then show ?thesis by (rule that)
qed

lemma parser_run_sound:
  assumes "grammar_ok (ld_prodlist ld)" "follow_sets_fit (ld_prodlist ld)" "\<And>m. set (order m) \<subseteq> set m"
    "am_actions am0 = []" "am_gotos am0 = []" "build order ld warnings am0 = returnR (am, warnings')"
    and scan: "\<And>sc lx sc'. next_lexem sc = returnR (lx, sc') \<Longrightarrow> lexem_empty lx \<Longrightarrow> lm_id lx = 0"
    and run: "run_compiler next_lexem am scanner = returnR nodes"
  shows "\<exists>lxs eof. scanned next_lexem scanner lxs eof \<and>
    derives (ld_prodlist ld) [NT (pd_lhs (ld_prodlist ld ! 0))] (tm_word (map lm_id lxs)) \<and>
    concat (map ast_lexems nodes) = concat (map (shifted_lexem am) lxs)"
proof -
  obtain K where K: "tables_ok (ld_prodlist ld) K (am_actions am) (am_gotos am)" by (rule build_tables [OF assms(1-6)])
  have no_shift: "\<And>s a. map_find (am_actions am) (mk_action_key s 0) = Some a \<Longrightarrow> ac_type a \<noteq> Shift"
    using K unfolding tables_ok_def mk_action_key_def by fastforce
  have "\<exists>lxs eof ss. scanned next_lexem scanner lxs eof \<and> concat (map ast_lexems nodes) = concat (map (shifted_lexem am) lxs) \<and>
      machine_run am [1] (map lm_id lxs) ss \<and> machine_accept am ss"
    by (rule run_compiler_lexems [OF run no_shift]) (assumption, rule scan)
  then show ?thesis using machine_accept_sound [OF K] by blast
qed

subsection \<open>Properties\<close>

text \<open>A grammar of a list, \<open>S = E\<close>, \<open>E = E x\<close>, \<open>E = x\<close>, its automaton and a source of two lexems.\<close>

definition list_grammar :: language_def where
  "list_grammar =
     (let nd = (\<lambda>type i name. \<lparr>nd_type = type, nd_index = i, nd_name = name, nd_symbol = True\<rparr>);
          p = (\<lambda>l r line. \<lparr>pd_left = l, pd_right = r, pd_priority = no_priority, pd_callidx = 0, pd_scope = NoScope, pd_line = line\<rparr>);
          S = nd NonTerminal 1 ''S''; E = nd NonTerminal 2 ''E''; x = nd Terminal 1 ''x'' in
      \<lparr>ld_language = ''list'', ld_typesystem = [], ld_cmdline = [], ld_lexer = \<lparr>lx_namelist = [''x''], lx_id2keyword = [False, False]\<rparr>,
       ld_prodlist = [p S [E] 1, p E [E, x] 2, p E [x] 3], ld_calls = [], ld_nonterminals = [''S'', ''E'']\<rparr>)"

definition empty_automaton :: automaton where
  "empty_automaton = \<lparr>am_language = [], am_typesystem = [], am_cmdline = [], am_lexer = \<lparr>lx_namelist = [], lx_id2keyword = []\<rparr>,
     am_actions = [], am_gotos = [], am_calls = [], am_nonterminals = []\<rparr>"

definition list_automaton :: automaton where
  "list_automaton = \<lparr>am_language = ''list'', am_typesystem = [], am_cmdline = [],
     am_lexer = \<lparr>lx_namelist = [''x''], lx_id2keyword = [False, False]\<rparr>,
     am_actions = [(ActionKey 1 1, Action Shift NoScope 3 0 0), (ActionKey 2 0, Action Accept NoScope 1 0 1),
       (ActionKey 2 1, Action Shift NoScope 4 0 0), (ActionKey 3 0, Action Reduce NoScope 2 0 1),
       (ActionKey 3 1, Action Reduce NoScope 2 0 1), (ActionKey 4 0, Action Reduce NoScope 2 0 2),
       (ActionKey 4 1, Action Reduce NoScope 2 0 2)],
     am_gotos = [(GotoKey 1 2, Goto 2)], am_calls = [], am_nonterminals = [''S'', ''E'']\<rparr>"

definition list_source :: "lexem list" where
  "list_source = [\<lparr>lm_name = ''x'', lm_value = ''y'', lm_id = 1, lm_line = 1\<rparr>, \<lparr>lm_name = ''x'', lm_value = ''z'', lm_id = 1, lm_line = 2\<rparr>]"

lemma list_grammar_ok: "grammar_ok (ld_prodlist list_grammar)"
  by (simp add: grammar_ok_def list_grammar_def Let_def pd_lhs_def node_resolved_def)

lemma list_grammar_fits: "follow_sets_fit (ld_prodlist list_grammar)"
  by code_simp

lemma list_build: "build id list_grammar [] empty_automaton = returnR (list_automaton, [])"
  by code_simp

lemma list_run: "run_compiler list_scanner list_automaton list_source = returnR [Lexem_Node ''x'' ''y'' 1, Lexem_Node ''x'' ''z'' 2]"
  by code_simp





end
