(* ===== verification/GrammarParserProps.thy ===== *)
theory GrammarParserProps
  imports GrammarParser LexerProps LrBuild
begin

text \<open>
  What the parser of grammars guarantees: the productions it leaves are resolved and numbered as the
  construction of the automaton relies on, so the parser built from a grammar source is sound.
\<close>

subsection \<open>The invariant of the parser\<close>

text \<open>The states inside a rule, behind the assignment.\<close>

definition in_production :: "gp_state \<Rightarrow> bool" where
  "in_production s \<longleftrightarrow> s \<notin> {Init, ParseProductionAttributes, ParsePriority, ParseAssign, ParsePattern, ParsePatternSelect,
     ParseEndOfLexemDef, ParseLexerCommand, ParseLexerCommandArg}"

lemma in_production_simps [simp]:
  "\<not> in_production Init" "\<not> in_production ParseProductionAttributes" "\<not> in_production ParsePriority" "\<not> in_production ParseAssign"
  "\<not> in_production ParsePattern" "\<not> in_production ParsePatternSelect" "\<not> in_production ParseEndOfLexemDef"
  "\<not> in_production ParseLexerCommand" "\<not> in_production ParseLexerCommandArg"
  "in_production ParseProductionElement" "in_production ParseCall" "in_production ParseCallName" "in_production ParseCallArg"
  "in_production ParseCallArgMemberName" "in_production ParseCallArgMemberEquals" "in_production ParseCallArgMemberValue"
  "in_production ParseCallArgMemberDelim" "in_production ParseCallClose" "in_production ParseEndOfProduction"
  by (simp_all add: in_production_def)

text \<open>Names and calls are numbered from 1 in the order they come up.\<close>

definition numbered :: "('a \<times> int) list \<Rightarrow> bool" where
  "numbered m \<longleftrightarrow> map snd m = map int [1..<Suc (length m)] \<and> distinct (map fst m)"

lemma numbered_Nil [simp]: "numbered []"
  by (simp add: numbered_def)

lemma numbered_add:
  assumes "numbered m" "map_of m k = None"
  shows "numbered (m @ [(k, int (length m) + 1)])"
  using assms by (auto simp: numbered_def map_of_eq_None_iff)

lemma numbered_nth:
  assumes "numbered m" "i < length m"
  shows "m ! i = (fst (m ! i), int i + 1)"
proof -
  have "map snd m ! i = map int [1..<Suc (length m)] ! i" using assms(1) by (simp add: numbered_def)
  then show ?thesis using assms(2) by (simp add: prod_eq_iff del: upt_Suc)
qed

lemma numbered_lookup:
  assumes "numbered m"
  shows "map_of m k = Some i \<longleftrightarrow> 1 \<le> i \<and> i \<le> int (length m) \<and> map fst m ! nat (i - 1) = k"
proof
  assume "map_of m k = Some i"
  then obtain j where "j < length m" "m ! j = (k, i)" by (meson in_set_conv_nth map_of_SomeD)
  then show "1 \<le> i \<and> i \<le> int (length m) \<and> map fst m ! nat (i - 1) = k" using numbered_nth [OF assms, of j] by auto
next
  assume a: "1 \<le> i \<and> i \<le> int (length m) \<and> map fst m ! nat (i - 1) = k"
  then have "m ! nat (i - 1) = (k, i)" using numbered_nth [OF assms, of "nat (i - 1)"] by auto
  then have "(k, i) \<in> set m" using a by (metis nth_mem diff_ge_0_iff_ge int_nat_eq less_add_one nat_less_iff zless_add1_eq add_diff_cancel diff_add_cancel linorder_not_less zle_diff1_eq)
  then show "map_of m k = Some i" using assms by (auto simp: numbered_def)
qed

text \<open>
  The productions so far: every name on a left side is numbered, and every numbered name is on a left side;
  nothing is resolved yet; the first production is the one of the first name; the calls exist.
\<close>

definition left_names :: "prods \<Rightarrow> string list" where
  "left_names ps = map (\<lambda>p. nd_name (pd_left p)) ps"

definition prods_ok :: "prods \<Rightarrow> (string \<times> int) list \<Rightarrow> (string \<times> nat) list \<Rightarrow> int \<Rightarrow> bool" where
  "prods_ok ps ntids prodmap ncalls \<longleftrightarrow>
     set (left_names ps) = fst ` set ntids \<and> fst ` set prodmap = fst ` set ntids \<and>
     (ps \<noteq> [] \<longrightarrow> hd (left_names ps) = fst (hd ntids)) \<and>
     (\<forall>p \<in> set ps. 0 \<le> pd_callidx p \<and> pd_callidx p \<le> ncalls \<and> (\<forall>nd \<in> set (pd_right p). nd_type nd = Unresolved))"

definition gp_ok :: "regex_engine \<Rightarrow> grammar_parser \<Rightarrow> bool" where
  "gp_ok re st \<longleftrightarrow> lexer_reachable re (gp_lexer st) \<and> numbered (gp_ntids st) \<and> gp_nonterminals st = map fst (gp_ntids st) \<and>
     numbered (gp_callmap st) \<and> gp_calls st = map fst (gp_callmap st) \<and>
     prods_ok (gp_prodlist st) (gp_ntids st) (gp_prodmap st) (int (length (gp_callmap st))) \<and>
     (in_production (gp_state st) \<longrightarrow> gp_prodlist st \<noteq> [] \<and> gp_rulename st \<in> fst ` set (gp_ntids st))"

lemma gp_ok_new: "gp_ok re grammar_parser_new"
  by (simp add: gp_ok_def grammar_parser_new_def prods_ok_def left_names_def lexer_new)

lemma prodmap_insert_set: "set (prodmap_insert m k v) = insert (k, v) (set m)"
  by (induction m k v rule: prodmap_insert.induct) auto

lemma last_prod_returnR: "last_prod st = returnR p \<longleftrightarrow> gp_prodlist st \<noteq> [] \<and> p = last (gp_prodlist st)"
  by (auto simp: last_prod_def)

lemma prods_ok_change:
  assumes "prods_ok ps ntids prodmap n" "ps \<noteq> []" "pd_left (f (last ps)) = pd_left (last ps)" "n \<le> m"
    "0 \<le> pd_callidx (f (last ps)) \<and> pd_callidx (f (last ps)) \<le> m \<and> (\<forall>nd \<in> set (pd_right (f (last ps))). nd_type nd = Unresolved)"
  shows "prods_ok (butlast ps @ [f (last ps)]) ntids prodmap m"
proof -
  have e: "ps = butlast ps @ [last ps]" using assms(2) by simp
  have "left_names (butlast ps @ [f (last ps)]) = left_names (butlast ps @ [last ps])" using assms(3) by (simp add: left_names_def)
  then have names: "left_names (butlast ps @ [f (last ps)]) = left_names ps" using e by simp
  have "set (butlast ps) \<subseteq> set ps" by (auto dest: in_set_butlastD)
  then have "\<forall>p \<in> set (butlast ps @ [f (last ps)]). 0 \<le> pd_callidx p \<and> pd_callidx p \<le> m \<and> (\<forall>nd \<in> set (pd_right p). nd_type nd = Unresolved)"
    using assms(1,4,5) unfolding prods_ok_def by fastforce
  then show ?thesis using assms(1,2) unfolding prods_ok_def names by simp
qed

lemma change_last_ok:
  assumes ok: "gp_ok re st" and run: "change_last f st = returnR st'"
    and f: "\<And>p. p \<in> set (gp_prodlist st) \<Longrightarrow> pd_left (f p) = pd_left p \<and> 0 \<le> pd_callidx (f p) \<and> pd_callidx (f p) \<le> int (length (gp_callmap st)) \<and>
      (\<forall>nd \<in> set (pd_right (f p)). nd_type nd = Unresolved)"
  shows "gp_ok re st' \<and> gp_state st' = gp_state st"
proof -
  have st': "gp_prodlist st \<noteq> []" "st' = st\<lparr>gp_prodlist := butlast (gp_prodlist st) @ [f (last (gp_prodlist st))]\<rparr>"
    using run by (auto simp: change_last_def bindR_eq_returnR last_prod_returnR)
  have "last (gp_prodlist st) \<in> set (gp_prodlist st)" using st'(1) by simp
  note f = f [OF this]
  have "prods_ok (gp_prodlist st) (gp_ntids st) (gp_prodmap st) (int (length (gp_callmap st)))" using ok unfolding gp_ok_def by blast
  then have "prods_ok (butlast (gp_prodlist st) @ [f (last (gp_prodlist st))]) (gp_ntids st) (gp_prodmap st) (int (length (gp_callmap st)))"
    by (rule prods_ok_change) (use f st'(1) in auto)
  then show ?thesis using ok st' by (simp add: gp_ok_def)
qed

lemma push_element_ok: "gp_ok re st \<Longrightarrow> push_element name symbol st = returnR st' \<Longrightarrow> gp_ok re st' \<and> gp_state st' = gp_state st"
  unfolding push_element_def by (rule change_last_ok) (auto simp: gp_ok_def prods_ok_def mk_node_def_def)

text \<open>A change of what the invariant does not look at, and of the state to one that needs no more.\<close>

lemma gp_ok_change:
  assumes "gp_ok re st" "gp_lexer st' = gp_lexer st" "gp_ntids st' = gp_ntids st" "gp_nonterminals st' = gp_nonterminals st"
    "gp_callmap st' = gp_callmap st" "gp_calls st' = gp_calls st" "gp_prodlist st' = gp_prodlist st" "gp_prodmap st' = gp_prodmap st"
    "in_production (gp_state st') \<Longrightarrow> in_production (gp_state st) \<and> gp_rulename st' = gp_rulename st"
  shows "gp_ok re st'"
  using assms by (auto simp: gp_ok_def)

lemma gp_ok_lexer: "gp_ok re st \<Longrightarrow> lexer_reachable re lx \<Longrightarrow> gp_ok re (st\<lparr>gp_lexer := lx\<rparr>)"
  by (simp add: gp_ok_def)

lemma gp_ok_state: "gp_ok re st \<Longrightarrow> (in_production s \<Longrightarrow> in_production (gp_state st)) \<Longrightarrow> gp_ok re (st\<lparr>gp_state := s\<rparr>)"
  by (auto simp: gp_ok_def)

lemma push_production_ok:
  assumes "gp_ok re st"
  shows "gp_rulename st \<in> fst ` set (gp_ntids st) \<Longrightarrow> gp_prodlist st \<noteq> [] \<Longrightarrow> gp_ok re (push_production l st)"
    and "map_of (gp_ntids st) (gp_rulename st) = None \<Longrightarrow>
      gp_ok re ((push_production l st)\<lparr>gp_ntids := gp_ntids st @ [(gp_rulename st, int (length (gp_ntids st)) + 1)],
        gp_nonterminals := gp_nonterminals st @ [gp_rulename st]\<rparr>)"
proof -
  have ps: "prods_ok (gp_prodlist st) (gp_ntids st) (gp_prodmap st) (int (length (gp_callmap st)))" using assms by (simp add: gp_ok_def)
  show "gp_rulename st \<in> fst ` set (gp_ntids st) \<Longrightarrow> gp_prodlist st \<noteq> [] \<Longrightarrow> gp_ok re (push_production l st)"
    using assms ps by (auto simp: gp_ok_def prods_ok_def push_production_def left_names_def prodmap_insert_set mk_production_def_def mk_node_def_def insert_absorb)
  assume new: "map_of (gp_ntids st) (gp_rulename st) = None"
  have "gp_ntids st = [] \<longleftrightarrow> gp_prodlist st = []" using ps by (auto simp: prods_ok_def left_names_def)
  then have "prods_ok (gp_prodlist (push_production l st)) (gp_ntids st @ [(gp_rulename st, int (length (gp_ntids st)) + 1)])
      (gp_prodmap (push_production l st)) (int (length (gp_callmap st)))"
    using ps by (auto simp: prods_ok_def push_production_def left_names_def prodmap_insert_set mk_production_def_def mk_node_def_def hd_append)
  then show "gp_ok re ((push_production l st)\<lparr>gp_ntids := gp_ntids st @ [(gp_rulename st, int (length (gp_ntids st)) + 1)],
        gp_nonterminals := gp_nonterminals st @ [gp_rulename st]\<rparr>)"
    using assms numbered_add [OF _ new] by (auto simp: gp_ok_def push_production_def)
qed

subsection \<open>The cases of the parser keep the invariant\<close>

lemma parse_ident_ok: "gp_ok re st \<Longrightarrow> parse_ident l st = returnR st' \<Longrightarrow> gp_ok re st'"
proof (cases "gp_state st = ParseProductionElement")
  case True
  then show "gp_ok re st \<Longrightarrow> parse_ident l st = returnR st' \<Longrightarrow> gp_ok re st'"
    using push_element_ok by (auto simp: parse_ident_def)
next
  case False
  then show "gp_ok re st \<Longrightarrow> parse_ident l st = returnR st' \<Longrightarrow> gp_ok re st'"
    by (cases "gp_state st") (auto simp: parse_ident_def unexpected_def bindR_eq_returnR elim!: gp_ok_change)
qed

lemma parse_call_ok: "gp_ok re st \<Longrightarrow> parse_call l st = returnR st' \<Longrightarrow> gp_ok re st'"
  by (cases "gp_state st") (auto simp: parse_call_def unexpected_def elim!: gp_ok_change)

lemma parse_open_brk_ok: "gp_ok re st \<Longrightarrow> parse_open_brk l st = returnR st' \<Longrightarrow> gp_ok re st'"
  by (auto simp: parse_open_brk_def unexpected_def split: if_splits elim!: gp_ok_change)

lemma parse_close_brk_ok:
  assumes ok: "gp_ok re st" and run: "parse_close_brk l st = returnR st'"
  shows "gp_ok re st'"
proof (cases "gp_state st = ParseCallArg \<or> gp_state st = ParseCallClose")
  case True
  let ?call = "\<lparr>cl_function = gp_function st, cl_arg = gp_arg st, cl_argtype = gp_argtype st\<rparr>"
  have state: "in_production (gp_state st)" using True by auto
  show ?thesis
  proof (cases "map_of (gp_callmap st) ?call")
    case (Some idx)
    then obtain st1 where st1: "change_last (\<lambda>p. p\<lparr>pd_callidx := idx\<rparr>) st = returnR st1" "st' = st1\<lparr>gp_state := ParseEndOfProduction\<rparr>"
      using run True by (auto simp: parse_close_brk_def Let_def bindR_eq_returnR)
    have "1 \<le> idx \<and> idx \<le> int (length (gp_callmap st))" using numbered_lookup [of "gp_callmap st"] Some ok by (simp add: gp_ok_def)
    then have "gp_ok re st1 \<and> gp_state st1 = gp_state st"
      using ok by (intro change_last_ok [OF ok st1(1)]) (auto simp: gp_ok_def prods_ok_def)
    then show ?thesis using state by (simp add: st1(2) gp_ok_state)
  next
    case None
    let ?idx = "int (length (gp_callmap st)) + 1"
    let ?st = "st\<lparr>gp_callmap := gp_callmap st @ [(?call, ?idx)], gp_calls := gp_calls st @ [?call]\<rparr>"
    obtain st1 where st1: "change_last (\<lambda>p. p\<lparr>pd_callidx := ?idx\<rparr>) ?st = returnR st1" "st' = st1\<lparr>gp_state := ParseEndOfProduction\<rparr>"
      using run True None by (auto simp: parse_close_brk_def Let_def bindR_eq_returnR)
    have "prods_ok (gp_prodlist st) (gp_ntids st) (gp_prodmap st) ?idx" using ok unfolding gp_ok_def prods_ok_def by fastforce
    then have "gp_ok re ?st" using ok numbered_add [OF _ None] by (simp add: gp_ok_def add.commute)
    then have "gp_ok re st1 \<and> gp_state st1 = gp_state ?st"
      using ok by (intro change_last_ok [OF _ st1(1)]) (auto simp: gp_ok_def prods_ok_def)
    then show ?thesis using state by (simp add: st1(2) gp_ok_state)
  qed
next
  case False
  then show ?thesis using ok run by (auto simp: parse_close_brk_def unexpected_def split: if_splits elim!: gp_ok_change)
qed

lemma parse_step_scope_ok: "gp_ok re st \<Longrightarrow> parse_step_scope flag l st = returnR st' \<Longrightarrow> gp_ok re st'"
proof -
  assume ok: "gp_ok re st" and run: "parse_step_scope flag l st = returnR st'"
  let ?f = "\<lambda>p. p\<lparr>pd_scope := flag\<rparr>"
  have "bindR (last_prod st) (\<lambda>p. if pd_scope p \<noteq> NoScope then throwR (Error DuplicateScopeInGrammarDef []) else change_last ?f st) = returnR st'"
    using run by (simp add: parse_step_scope_def unexpected_def split: if_splits)
  then have change: "change_last ?f st = returnR st'" unfolding bindR_eq_returnR by (meson returnR_neq_throwR)
  have "gp_ok re st' \<and> gp_state st' = gp_state st" by (rule change_last_ok [OF ok change]) (use ok in \<open>auto simp: gp_ok_def prods_ok_def\<close>)
  then show ?thesis ..
qed

lemma parse_priority_ok: "gp_ok re st \<Longrightarrow> parse_priority l st = returnR st' \<Longrightarrow> gp_ok re st'"
  by (cases "gp_state st") (auto simp: parse_priority_def unexpected_def bindR_eq_returnR split: if_splits elim!: gp_ok_change)

lemma parse_open_curly_ok: "gp_ok re st \<Longrightarrow> parse_open_curly l st = returnR st' \<Longrightarrow> gp_ok re st'"
  by (cases "gp_state st") (auto simp: parse_open_curly_def unexpected_def bindR_eq_returnR split: if_splits elim!: gp_ok_change)

lemma parse_close_curly_ok: "gp_ok re st \<Longrightarrow> parse_close_curly l st = returnR st' \<Longrightarrow> gp_ok re st'"
  by (cases "gp_state st") (auto simp: parse_close_curly_def unexpected_def bindR_eq_returnR split: if_splits elim!: gp_ok_change)

lemma parse_comma_ok: "gp_ok re st \<Longrightarrow> parse_comma l st = returnR st' \<Longrightarrow> gp_ok re st'"
  by (cases "gp_state st") (auto simp: parse_comma_def unexpected_def bindR_eq_returnR split: if_splits elim!: gp_ok_change)

lemma parse_epsilon_ok: "gp_ok re st \<Longrightarrow> parse_epsilon l st = returnR st' \<Longrightarrow> gp_ok re st'"
  by (cases "gp_state st") (auto simp: parse_epsilon_def unexpected_def bindR_eq_returnR split: if_splits elim!: gp_ok_change)

lemma parse_percent_ok: "gp_ok re st \<Longrightarrow> parse_percent l st = returnR st' \<Longrightarrow> gp_ok re st'"
  by (cases "gp_state st") (auto simp: parse_percent_def unexpected_def bindR_eq_returnR split: if_splits elim!: gp_ok_change)

lemma parse_slash_ok: "gp_ok re st \<Longrightarrow> parse_slash l st = returnR st' \<Longrightarrow> gp_ok re st'"
  by (cases "gp_state st") (auto simp: parse_slash_def unexpected_def bindR_eq_returnR split: if_splits elim!: gp_ok_change)

lemma parse_number_ok: "gp_ok re st \<Longrightarrow> parse_number l st = returnR st' \<Longrightarrow> gp_ok re st'"
  by (cases "gp_state st") (auto simp: parse_number_def unexpected_def bindR_eq_returnR elim!: gp_ok_change)

lemma parse_ddot_ok: "gp_ok re st \<Longrightarrow> parse_ddot l st = returnR st' \<Longrightarrow> gp_ok re st'"
  by (cases "gp_state st") (auto simp: parse_ddot_def unexpected_def elim!: gp_ok_change)

lemma parse_string_ok:
  assumes ok: "gp_ok re st" and run: "parse_string re quote l view st = returnR st'"
  shows "gp_ok re st'"
proof (cases "gp_state st = ParseProductionElement")
  case True
  obtain st1 where st1: "(if lexem_id (lm_value l) (gp_lexer st) = 0
      then bindR (define_keyword re view (gp_lexer st)) (\<lambda>(_, lx). returnR (st\<lparr>gp_lexer := lx\<rparr>)) else returnR st) = returnR st1"
    and push: "push_element (lm_value l) False st1 = returnR st'"
    using run True by (auto simp: parse_string_def bindR_eq_returnR)
  have reach: "lexer_reachable re (gp_lexer st)" using ok by (simp add: gp_ok_def)
  have "gp_ok re st1"
  proof (cases "lexem_id (lm_value l) (gp_lexer st) = 0")
    case True
    then obtain n lx where "define_keyword re view (gp_lexer st) = returnR (n, lx)" "st1 = st\<lparr>gp_lexer := lx\<rparr>"
      using st1 by (auto simp: bindR_eq_returnR)
    then show ?thesis using gp_ok_lexer [OF ok lexer_keyword [OF reach]] by blast
  next
    case False
    then show ?thesis using st1 ok by simp
  qed
  with push_element_ok push show ?thesis by blast
next
  case False
  then show ?thesis using assms by (cases "gp_state st") (auto simp: parse_string_def unexpected_def elim!: gp_ok_change)
qed

lemma parse_assign_ok:
  assumes ok: "gp_ok re st" and run: "parse_assign is_equal l st = returnR st'"
  shows "gp_ok re st'"
proof (cases "gp_state st = ParseProductionAttributes \<or> gp_state st = ParseAssign")
  case True
  let ?st1 = "push_production l st"
  let ?st2 = "?st1\<lparr>gp_ntids := gp_ntids st @ [(gp_rulename st, int (length (gp_ntids st)) + 1)],
      gp_nonterminals := gp_nonterminals st @ [gp_rulename st]\<rparr>"
  have same [simp]: "gp_ntids ?st1 = gp_ntids st" "gp_rulename ?st1 = gp_rulename st" "gp_nonterminals ?st1 = gp_nonterminals st"
    "gp_prodlist ?st1 \<noteq> []" by (simp_all add: push_production_def)
  have st': "st' = (case map_of (gp_ntids st) (gp_rulename st) of None \<Rightarrow> ?st2 | Some _ \<Rightarrow> ?st1)\<lparr>gp_state := ParseProductionElement\<rparr>"
    using run True unfolding parse_assign_def Let_def same by (auto split: if_splits option.splits)
  show ?thesis
  proof (cases "map_of (gp_ntids st) (gp_rulename st)")
    case None
    then have "gp_ok re ?st2" by (rule push_production_ok(2) [OF ok])
    then show ?thesis using None by (simp add: st' gp_ok_def)
  next
    case (Some i)
    then have known: "gp_rulename st \<in> fst ` set (gp_ntids st)" by (force dest: map_of_SomeD)
    then have "set (left_names (gp_prodlist st)) \<noteq> {}" using ok by (auto simp: gp_ok_def prods_ok_def)
    then have "gp_ok re ?st1" using push_production_ok(1) [OF ok known] by (simp add: left_names_def)
    then show ?thesis using Some known by (simp add: st' gp_ok_def)
  qed
next
  case False
  then show ?thesis using assms by (auto simp: parse_assign_def unexpected_def split: if_splits elim!: gp_ok_change)
qed

lemma parse_or_ok: "gp_ok re st \<Longrightarrow> parse_or l st = returnR st' \<Longrightarrow> gp_ok re st'"
proof -
  assume ok: "gp_ok re st" and run: "parse_or l st = returnR st'"
  then have "in_production (gp_state st)" and st': "st' = (push_production l st)\<lparr>gp_argtype := NoArg, gp_function := [], gp_arg := [],
      gp_state := ParseProductionElement\<rparr>"
    by (auto simp: parse_or_def unexpected_def split: if_splits)
  then have "gp_rulename st \<in> fst ` set (gp_ntids st)" "gp_prodlist st \<noteq> []" using ok by (simp_all add: gp_ok_def)
  with push_production_ok(1) [OF ok this, of l] show ?thesis by (simp add: st' gp_ok_def push_production_def)
qed

lemma run_command_ok: "gp_ok re st \<Longrightarrow> run_command re l st = returnR st' \<Longrightarrow> gp_ok re st'"
proof -
  assume ok: "gp_ok re st" and run: "run_command re l st = returnR st'"
  have lexer: "gp_ok re st'" if "bindR r (\<lambda>lx. returnR (st\<lparr>gp_lexer := lx\<rparr>)) = returnR st'" "\<And>lx. r = returnR lx \<Longrightarrow> lexer_reachable re lx" for r
    using that gp_ok_lexer [OF ok] by (auto simp: bindR_eq_returnR)
  have reach: "lexer_reachable re (gp_lexer st)" using ok by (simp add: gp_ok_def)
  have same: "gp_ok re (st\<lparr>gp_language := a\<rparr>)" "gp_ok re (st\<lparr>gp_typesystem := a\<rparr>)" "gp_ok re (st\<lparr>gp_cmdline := a\<rparr>)" for a
    using ok by (auto elim!: gp_ok_change)
  show ?thesis
    using run unfolding run_command_def Let_def
    by (auto simp: bindR_eq_returnR same split: if_splits intro!: gp_ok_lexer [OF ok]
        intro: lexer_ignore [OF reach] lexer_bad [OF reach] lexer_eoln [OF reach] lexer_bracket [OF reach] lexer_indent [OF reach])
qed

lemma parse_semicolon_ok:
  assumes ok: "gp_ok re st" and run: "parse_semicolon re l st = returnR st'"
  shows "gp_ok re st'"
proof -
  have reach: "lexer_reachable re (gp_lexer st)" using ok by (simp add: gp_ok_def)
  have "\<exists>st1. gp_ok re st1 \<and> st' = st1\<lparr>gp_state := Init\<rparr>"
    using run ok by (cases "gp_state st")
      (auto simp: parse_semicolon_def bindR_eq_returnR dest: run_command_ok intro!: gp_ok_lexer [OF ok] lexer_define [OF reach])
  then show ?thesis by (auto elim!: gp_ok_change)
qed

lemma parse_lexem_ok: "gp_ok re st \<Longrightarrow> parse_lexem re l view st = returnR st' \<Longrightarrow> gp_ok re st'"
  by (cases "grammar_token_of (lm_id l)")
    (auto simp: parse_lexem_def dest: parse_ident_ok parse_call_ok parse_open_brk_ok parse_close_brk_ok parse_step_scope_ok parse_priority_ok
      parse_number_ok parse_open_curly_ok parse_close_curly_ok parse_comma_ok parse_string_ok parse_epsilon_ok parse_percent_ok
      parse_slash_ok parse_assign_ok parse_ddot_ok parse_semicolon_ok parse_or_ok)

lemma parse_loop_ok: "parse_loop re glx sc line st = returnR (st', line') \<Longrightarrow> gp_ok re st \<Longrightarrow> gp_ok re st'"
proof -
  let ?P = "\<lambda>(re' :: regex_engine) (glx :: lexer) (sc :: scanner) (line :: int) (st :: grammar_parser) (y :: error + (grammar_parser \<times> int)).
    re' = re \<longrightarrow> gp_ok re st \<longrightarrow> (case y of Inl e \<Rightarrow> True | Inr (st', line') \<Rightarrow> gp_ok re st')"
  have "?P re glx sc line st y" if "parse_loop re glx sc line st = Some y" for y
    using that
  proof (rule parse_loop.raw_induct [where P = ?P, rotated])
    fix self re' glx sc line st y
    assume IH: "\<And>re' glx sc line st y. self re' glx sc line st = Some y \<Longrightarrow> ?P re' glx sc line st y"
      and body: "bindR (relocate line (lexer_next_view re' glx sc)) (\<lambda>(l, view, sc').
       if lexem_empty l then returnR (st, lm_line l)
       else bindR (relocate (lm_line l) (parse_lexem re' l view st)) (\<lambda>st'. self re' glx sc' (lm_line l) st')) = Some y"
    show "?P re' glx sc line st y"
    proof (intro impI, cases y)
      case (Inr r)
      assume re: "re' = re" and ok: "gp_ok re st"
      have "bindR (relocate line (lexer_next_view re glx sc)) (\<lambda>(l, view, sc').
         if lexem_empty l then returnR (st, lm_line l)
         else bindR (relocate (lm_line l) (parse_lexem re l view st)) (\<lambda>st'. self re glx sc' (lm_line l) st')) = returnR r"
        using body unfolding Inr re returnR_def .
      then obtain l view sc' where r: "(if lexem_empty l then returnR (st, lm_line l)
         else bindR (relocate (lm_line l) (parse_lexem re l view st)) (\<lambda>st'. self re glx sc' (lm_line l) st')) = returnR r"
        unfolding bindR_eq_returnR by auto
      show "case y of Inl e \<Rightarrow> True | Inr (st', line') \<Rightarrow> gp_ok re st'"
      proof (cases "lexem_empty l")
        case True
        then show ?thesis using r ok by (auto simp: Inr)
      next
        case False
        then obtain st1 where st1: "parse_lexem re l view st = returnR st1" "self re glx sc' (lm_line l) st1 = returnR r"
          using r by (auto simp: bindR_eq_returnR)
        have "self re glx sc' (lm_line l) st1 = Some y" using st1(2) by (simp add: Inr returnR_def)
        from IH [OF this] parse_lexem_ok [OF ok st1(1)] show ?thesis by blast
      qed
    qed simp
  qed
  then show "parse_loop re glx sc line st = returnR (st', line') \<Longrightarrow> gp_ok re st \<Longrightarrow> gp_ok re st'"
    by (fastforce simp: returnR_def)
qed

subsection \<open>The checks of the grammar\<close>

text \<open>An element resolved against the names of the lexer and the nonterminals.\<close>

definition nd_labelled :: "lexer \<Rightarrow> (string \<times> int) list \<Rightarrow> production_node_def \<Rightarrow> bool" where
  "nd_labelled lx ntids nd \<longleftrightarrow>
     nd_type nd = Terminal \<and> nd_index nd = lexem_id (nd_name nd) lx \<and> nd_index nd \<noteq> 0 \<or>
     nd_type nd = NonTerminal \<and> map_of ntids (nd_name nd) = Some (nd_index nd)"

definition nonterminal_names :: "production_node_def list \<Rightarrow> string set" where
  "nonterminal_names nds = {nd_name nd | nd. nd \<in> set nds \<and> nd_type nd = NonTerminal}"

lemma nonterminal_names_simps [simp]:
  "nonterminal_names [] = {}"
  "nonterminal_names (nd # nds) = (if nd_type nd = NonTerminal then {nd_name nd} else {}) \<union> nonterminal_names nds"
  by (auto simp: nonterminal_names_def)

lemma label_element_ok:
  assumes "label_element lx ntids nd (right, used) = returnR acc" "nd_type nd = Unresolved"
  shows "\<exists>nd'. nd_labelled lx ntids nd' \<and> acc = (right @ [nd'], used \<union> nonterminal_names [nd'])"
proof (cases "map_of ntids (nd_name nd)")
  case None
  then show ?thesis using assms
    by (intro exI [of _ "define_as_terminal (lexem_id (nd_name nd) lx) nd"])
      (simp add: label_element_def nd_labelled_def Let_def define_as_terminal_def split: if_splits)
next
  case (Some nt)
  then show ?thesis using assms
    by (intro exI [of _ "define_as_nonterminal nt nd"])
      (simp add: label_element_def nd_labelled_def Let_def define_as_nonterminal_def split: if_splits)
qed

lemma label_right_ok:
  assumes "runR (label_element lx ntids) nds (right, used) = returnR (right', used')" "\<forall>nd \<in> set nds. nd_type nd = Unresolved"
  shows "\<exists>nds'. right' = right @ nds' \<and> (\<forall>nd \<in> set nds'. nd_labelled lx ntids nd) \<and> used' = used \<union> nonterminal_names nds'"
  using assms
proof (induction nds arbitrary: right used)
  case (Cons nd nds)
  obtain acc where "label_element lx ntids nd (right, used) = returnR acc" and rest: "runR (label_element lx ntids) nds acc = returnR (right', used')"
    using Cons.prems(1) by (auto simp: bindR_eq_returnR)
  with label_element_ok Cons.prems(2) obtain nd' where nd': "nd_labelled lx ntids nd'" "acc = (right @ [nd'], used \<union> nonterminal_names [nd'])"
    by fastforce
  obtain nds' where "right' = (right @ [nd']) @ nds'" "\<forall>nd \<in> set nds'. nd_labelled lx ntids nd"
    "used' = used \<union> nonterminal_names [nd'] \<union> nonterminal_names nds'"
    using Cons.IH [OF rest [unfolded nd'(2)]] Cons.prems(2) by auto
  then show ?case using nd'(1) by (intro exI [of _ "nd' # nds'"]) auto
qed simp

definition prod_labelled :: "lexer \<Rightarrow> (string \<times> int) list \<Rightarrow> production_def \<Rightarrow> bool" where
  "prod_labelled lx ntids p \<longleftrightarrow> map_of ntids (nd_name (pd_left p)) = Some (pd_lhs p) \<and> (\<forall>nd \<in> set (pd_right p). nd_labelled lx ntids nd)"

lemma label_prod_ok:
  assumes "label_prod lx ntids p (ps, used) = returnR acc" "\<forall>nd \<in> set (pd_right p). nd_type nd = Unresolved"
  shows "\<exists>p'. prod_labelled lx ntids p' \<and> nd_name (pd_left p') = nd_name (pd_left p) \<and> pd_callidx p' = pd_callidx p \<and>
    acc = (ps @ [p'], used \<union> nonterminal_names (pd_right p'))"
proof -
  obtain nt right used' where nt: "map_of ntids (nd_name (pd_left p)) = Some nt"
    and right: "runR (label_element lx ntids) (pd_right p) ([], used) = returnR (right, used')"
    and acc: "acc = (ps @ [p\<lparr>pd_left := define_as_nonterminal nt (pd_left p), pd_right := right\<rparr>], used')"
    using assms(1) by (auto simp: label_prod_def bindR_eq_returnR liftR_eq_returnR split: if_splits)
  have "(\<forall>nd \<in> set right. nd_labelled lx ntids nd) \<and> used' = used \<union> nonterminal_names right" using label_right_ok [OF right assms(2)] by simp
  then show ?thesis unfolding acc
    by (intro exI [of _ "p\<lparr>pd_left := define_as_nonterminal nt (pd_left p), pd_right := right\<rparr>"])
      (simp add: nt prod_labelled_def define_as_nonterminal_def pd_lhs_def)
qed

lemma label_prods_ok:
  assumes "runR (label_prod lx ntids) ps (qs, used) = returnR (qs', used')"
    "\<forall>p \<in> set ps. 0 \<le> pd_callidx p \<and> pd_callidx p \<le> n \<and> (\<forall>nd \<in> set (pd_right p). nd_type nd = Unresolved)"
  shows "\<exists>rs. qs' = qs @ rs \<and> left_names rs = left_names ps \<and>
    (\<forall>p \<in> set rs. prod_labelled lx ntids p \<and> 0 \<le> pd_callidx p \<and> pd_callidx p \<le> n) \<and>
    used' = used \<union> (\<Union>p \<in> set rs. nonterminal_names (pd_right p))"
  using assms
proof (induction ps arbitrary: qs used)
  case Nil
  then show ?case by (simp add: left_names_def)
next
  case (Cons p ps)
  obtain acc where acc: "label_prod lx ntids p (qs, used) = returnR acc" and rest: "runR (label_prod lx ntids) ps acc = returnR (qs', used')"
    using Cons.prems(1) by (auto simp: bindR_eq_returnR)
  have "\<forall>nd \<in> set (pd_right p). nd_type nd = Unresolved" using Cons.prems(2) by simp
  from label_prod_ok [OF acc this] obtain p' where p': "prod_labelled lx ntids p'" "nd_name (pd_left p') = nd_name (pd_left p)"
    "pd_callidx p' = pd_callidx p" "acc = (qs @ [p'], used \<union> nonterminal_names (pd_right p'))" by blast
  obtain rs where "qs' = (qs @ [p']) @ rs" "left_names rs = left_names ps"
    "\<forall>p \<in> set rs. prod_labelled lx ntids p \<and> 0 \<le> pd_callidx p \<and> pd_callidx p \<le> n"
    "used' = used \<union> nonterminal_names (pd_right p') \<union> (\<Union>p \<in> set rs. nonterminal_names (pd_right p))"
    using Cons.IH [OF rest [unfolded p'(4)]] Cons.prems(2) unfolding list.set by blast
  then show ?case using p' Cons.prems(2) by (intro exI [of _ "p' # rs"]) (simp add: left_names_def Un_assoc)
qed

lemma reachable_steps:
  assumes "runR (reachable_step ntids used) pm s = returnR []"
  shows "s = [] \<and> (\<forall>k \<in> fst ` set pm. \<exists>nt. map_of ntids k = Some nt \<and> (k \<in> used \<longrightarrow> nt \<noteq> 1) \<and> (k \<notin> used \<longrightarrow> nt = 1 \<or> k = []))"
  using assms
proof (induction pm arbitrary: s)
  case (Cons pr pm)
  obtain s1 where s1: "reachable_step ntids used pr s = returnR s1" "runR (reachable_step ntids used) pm s1 = returnR []"
    using Cons.prems by (auto simp: bindR_eq_returnR)
  obtain nt where "map_of ntids (fst pr) = Some nt" using s1(1) by (auto simp: reachable_step_def bindR_eq_returnR liftR_eq_returnR)
  moreover have "s1 = []" using Cons.IH [OF s1(2)] by simp
  ultimately have "s = [] \<and> (fst pr \<in> used \<longrightarrow> nt \<noteq> 1) \<and> (fst pr \<notin> used \<longrightarrow> nt = 1 \<or> fst pr = [])"
    using s1(1) by (auto simp: reachable_step_def split: if_splits)
  then show ?case using Cons.IH [OF s1(2)] \<open>map_of ntids (fst pr) = Some nt\<close> by auto
qed simp

lemma check_duplicates_ok:
  assumes "runR check_duplicate ps S = returnR S'"
  shows "distinct (map prodstring ps) \<and> prodstring ` set ps \<inter> S = {}"
  using assms
proof (induction ps arbitrary: S)
  case (Cons p ps)
  have p: "prodstring p \<notin> S" and rest: "runR check_duplicate ps (insert (prodstring p) S) = returnR S'"
    using Cons.prems by (auto simp: bindR_eq_returnR check_duplicate_def [of p] split: if_splits)
  from Cons.IH [OF rest] p show ?case by auto
qed simp

subsection \<open>The language of a source\<close>

text \<open>The number of a nonterminal is its position, counted from 1, in the list of names.\<close>

definition nonterminal_is :: "language_def \<Rightarrow> string \<Rightarrow> int \<Rightarrow> bool" where
  "nonterminal_is ld name i \<longleftrightarrow> 1 \<le> i \<and> i \<le> int (length (ld_nonterminals ld)) \<and> ld_nonterminals ld ! nat (i - 1) = name"

definition element_typed :: "language_def \<Rightarrow> lexer \<Rightarrow> production_node_def \<Rightarrow> bool" where
  "element_typed ld lx nd \<longleftrightarrow>
     nd_type nd = Terminal \<and> nd_index nd = lexem_id (nd_name nd) lx \<and> 1 \<le> nd_index nd \<and> nd_index nd \<le> nof_terminals (ld_lexer ld) \<or>
     nd_type nd = NonTerminal \<and> nonterminal_is ld (nd_name nd) (nd_index nd) \<and> nd_index nd \<noteq> 1"

definition prod_typed :: "language_def \<Rightarrow> lexer \<Rightarrow> production_def \<Rightarrow> bool" where
  "prod_typed ld lx p \<longleftrightarrow> nonterminal_is ld (nd_name (pd_left p)) (pd_lhs p) \<and> (\<forall>nd \<in> set (pd_right p). element_typed ld lx nd) \<and>
     0 \<le> pd_callidx p \<and> pd_callidx p \<le> int (length (ld_calls ld))"

lemma finish_grammar_parts:
  assumes "gp_ok re st" "finish_grammar st = returnR (ld, lx)"
  obtains ps where "lx = gp_lexer st" "ld_lexer ld = lexer_names_of lx" "ld_prodlist ld = ps" "ld_nonterminals ld = map fst (gp_ntids st)"
    "ld_calls ld = gp_calls st" "left_names ps = left_names (gp_prodlist st)"
    "\<forall>p \<in> set ps. prod_labelled lx (gp_ntids st) p \<and> 0 \<le> pd_callidx p \<and> pd_callidx p \<le> int (length (gp_callmap st))"
    "\<forall>k \<in> fst ` set (gp_ntids st). \<exists>nt. map_of (gp_ntids st) k = Some nt \<and>
       (k \<in> (\<Union>p \<in> set ps. nonterminal_names (pd_right p)) \<longrightarrow> nt \<noteq> 1) \<and> (k \<notin> (\<Union>p \<in> set ps. nonterminal_names (pd_right p)) \<longrightarrow> nt = 1 \<or> k = [])"
    "length (filter (\<lambda>p. pd_lhs p = 1) ps) = 1" "length (gp_ntids st) < 256" "distinct (map prodstring ps)"
proof -
  obtain ps used where label: "runR (label_prod (gp_lexer st) (gp_ntids st)) (gp_prodlist st) ([], {}) = returnR (ps, used)"
    and reach: "check_reachable (gp_ntids st) used (gp_prodmap st) = returnR ()" and start: "check_start ps = returnR ()"
    and small: "int (length (gp_ntids st)) < max_nonterminal" and dup: "\<exists>S. runR check_duplicate ps {} = returnR S"
    and ld: "ld = \<lparr>ld_language = gp_language st, ld_typesystem = gp_typesystem st, ld_cmdline = gp_cmdline st,
                ld_lexer = lexer_names_of (gp_lexer st), ld_prodlist = ps, ld_calls = gp_calls st, ld_nonterminals = gp_nonterminals st\<rparr>"
    and lx: "lx = gp_lexer st"
    using assms(2) by (auto simp: finish_grammar_def label_prods_def bindR_eq_returnR split: if_splits)
  have ok: "prods_ok (gp_prodlist st) (gp_ntids st) (gp_prodmap st) (int (length (gp_callmap st)))" "gp_nonterminals st = map fst (gp_ntids st)"
    using assms(1) by (simp_all add: gp_ok_def)
  have unresolved: "\<forall>p \<in> set (gp_prodlist st). 0 \<le> pd_callidx p \<and> pd_callidx p \<le> int (length (gp_callmap st)) \<and>
      (\<forall>nd \<in> set (pd_right p). nd_type nd = Unresolved)" using ok(1) by (simp add: prods_ok_def)
  have labelled: "left_names ps = left_names (gp_prodlist st)" "used = (\<Union>p \<in> set ps. nonterminal_names (pd_right p))"
    "\<forall>p \<in> set ps. prod_labelled (gp_lexer st) (gp_ntids st) p \<and> 0 \<le> pd_callidx p \<and> pd_callidx p \<le> int (length (gp_callmap st))"
    using label_prods_ok [OF label unresolved] by simp_all
  have "runR (reachable_step (gp_ntids st) used) (gp_prodmap st) [] = returnR []"
    using reach by (auto simp: check_reachable_def bindR_eq_returnR split: if_splits)
  note steps = reachable_steps [OF this]
  have keys: "fst ` set (gp_prodmap st) = fst ` set (gp_ntids st)" using ok(1) by (simp add: prods_ok_def)
  show ?thesis
  proof (rule that [of ps])
    show "length (filter (\<lambda>p. pd_lhs p = 1) ps) = 1"
      using start by (auto simp: check_start_def Let_def pd_lhs_def not_less le_Suc_eq split: if_splits)
    show "distinct (map prodstring ps)" using dup check_duplicates_ok by blast
    show "\<forall>k \<in> fst ` set (gp_ntids st). \<exists>nt. map_of (gp_ntids st) k = Some nt \<and>
       (k \<in> (\<Union>p \<in> set ps. nonterminal_names (pd_right p)) \<longrightarrow> nt \<noteq> 1) \<and> (k \<notin> (\<Union>p \<in> set ps. nonterminal_names (pd_right p)) \<longrightarrow> nt = 1 \<or> k = [])"
      using conjunct2 [OF steps] unfolding keys labelled(2) [symmetric] by blast
  qed (use small labelled lx ld ok(2) in \<open>simp_all add: max_nonterminal_def shift_nonterminal_def\<close>)
qed

lemma parsed_parts:
  assumes "parse_language_def re source = returnR (ld, lx)"
  obtains st where "gp_ok re st" "finish_grammar st = returnR (ld, lx)"
proof -
  obtain glx st line where "parse_loop re glx (scanner_new source) 1 grammar_parser_new = returnR (st, line)"
    and fin: "relocate line (finish_grammar st) = returnR (ld, lx)"
    using assms by (auto simp: parse_language_def_def bindR_eq_returnR)
  from parse_loop_ok [OF this(1) gp_ok_new] fin show ?thesis by (intro that [of st]) simp_all
qed

lemma lexem_id_range: "lexer_ok lx \<Longrightarrow> lexem_id name lx \<noteq> 0 \<Longrightarrow> 1 \<le> lexem_id name lx \<and> lexem_id name lx \<le> nof_terminals (lexer_names_of lx)"
proof -
  assume ok: "lexer_ok lx" and "lexem_id name lx \<noteq> 0"
  then have "(name, lexem_id name lx) \<in> set (lr_nameidmap lx)" by (auto simp: lexem_id_def dest: map_of_SomeD split: option.splits)
  with names_ok_id have "1 \<le> lexem_id name lx \<and> lexem_id name lx \<le> int (length (lr_nameidmap lx))"
    using ok unfolding lexer_ok_def by blast
  then show ?thesis using ok by (simp add: lexer_ok_def names_ok_def nof_terminals_def lexer_names_of_def)
qed

text \<open>What holds of a language that was parsed.\<close>

lemma parsed_grammar:
  assumes "parse_language_def re source = returnR (ld, lx)"
  shows "lexer_reachable re lx" "ld_lexer ld = lexer_names_of lx" "length (ld_nonterminals ld) < 256" "distinct (ld_nonterminals ld)"
    "\<And>p. p \<in> set (ld_prodlist ld) \<Longrightarrow> prod_typed ld lx p"
    "ld_prodlist ld \<noteq> []" "pd_lhs (ld_prodlist ld ! 0) = 1" "\<And>p. p \<in> set (tl (ld_prodlist ld)) \<Longrightarrow> pd_lhs p \<noteq> 1"
    "\<And>A. 1 \<le> A \<Longrightarrow> A \<le> int (length (ld_nonterminals ld)) \<Longrightarrow> A \<in> pd_lhs ` set (ld_prodlist ld)"
    "\<And>A. 2 \<le> A \<Longrightarrow> A \<le> int (length (ld_nonterminals ld)) \<Longrightarrow> ld_nonterminals ld ! nat (A - 1) \<noteq> [] \<Longrightarrow>
      \<exists>p \<in> set (ld_prodlist ld). NT A \<in> set (pd_rhs p)"
    "distinct (map prodstring (ld_prodlist ld))"
proof -
  obtain st where ok: "gp_ok re st" and fin: "finish_grammar st = returnR (ld, lx)" by (rule parsed_parts [OF assms])
  let ?m = "gp_ntids st"
  obtain ps where lx: "lx = gp_lexer st" "ld_lexer ld = lexer_names_of lx" and ld: "ld_prodlist ld = ps" "ld_nonterminals ld = map fst ?m"
    "ld_calls ld = gp_calls st" "left_names ps = left_names (gp_prodlist st)"
    and labelled: "\<forall>p \<in> set ps. prod_labelled lx ?m p \<and> 0 \<le> pd_callidx p \<and> pd_callidx p \<le> int (length (gp_callmap st))"
    and reach: "\<forall>k \<in> fst ` set ?m. \<exists>nt. map_of ?m k = Some nt \<and>
       (k \<in> (\<Union>p \<in> set ps. nonterminal_names (pd_right p)) \<longrightarrow> nt \<noteq> 1) \<and> (k \<notin> (\<Union>p \<in> set ps. nonterminal_names (pd_right p)) \<longrightarrow> nt = 1 \<or> k = [])"
    and start: "length (filter (\<lambda>p. pd_lhs p = 1) ps) = 1" and small: "length ?m < 256" and dup: "distinct (map prodstring ps)"
    by (rule finish_grammar_parts [OF ok fin])
  note labelled = bspec [OF labelled] and reach = bspec [OF reach]
  have num: "numbered ?m" using ok by (simp add: gp_ok_def)
  have names: "set (left_names ps) = fst ` set ?m" "ps \<noteq> [] \<Longrightarrow> hd (left_names ps) = fst (hd ?m)"
    using ok ld(4) by (auto simp: gp_ok_def prods_ok_def left_names_def)
  have nt: "nonterminal_is ld k i \<longleftrightarrow> map_of ?m k = Some i" for k i
    using numbered_lookup [OF num, of k i] by (simp add: nonterminal_is_def ld(2))
  have lhs: "map_of ?m (nd_name (pd_left p)) = Some (pd_lhs p)" if "p \<in> set ps" for p
    using labelled [OF that] by (simp add: prod_labelled_def)
  show "lexer_reachable re lx" using ok lx by (simp add: gp_ok_def)
  then have lxok: "lexer_ok lx" by (rule lexer_reachable_ok)
  show "ld_lexer ld = lexer_names_of lx" by (rule lx(2))
  show "length (ld_nonterminals ld) < 256" "distinct (ld_nonterminals ld)" "distinct (map prodstring (ld_prodlist ld))"
    using small num dup by (simp_all add: ld numbered_def)
  have element: "element_typed ld lx nd" if "p \<in> set ps" "nd \<in> set (pd_right p)" for p nd
  proof -
    have "nd_labelled lx ?m nd" using labelled [OF that(1)] that(2) by (simp add: prod_labelled_def)
    moreover have "nd_index nd \<noteq> 1" if "nd_type nd = NonTerminal" "map_of ?m (nd_name nd) = Some (nd_index nd)"
    proof -
      have "nd_name nd \<in> (\<Union>p \<in> set ps. nonterminal_names (pd_right p))"
        using that(1) \<open>p \<in> set ps\<close> \<open>nd \<in> set (pd_right p)\<close> by (auto simp: nonterminal_names_def)
      moreover have "nd_name nd \<in> fst ` set ?m" using that(2) by (force dest: map_of_SomeD)
      ultimately show ?thesis using reach [of "nd_name nd"] that(2) by auto
    qed
    ultimately show ?thesis using lexem_id_range [OF lxok, of "nd_name nd"]
      by (auto simp: nd_labelled_def element_typed_def nt lx(2))
  qed
  show "\<And>p. p \<in> set (ld_prodlist ld) \<Longrightarrow> prod_typed ld lx p"
    using element labelled lhs ok by (auto simp: ld prod_typed_def nt gp_ok_def)
  show ne: "ld_prodlist ld \<noteq> []" using start by (auto simp: ld)
  then obtain p0 ps' where ps: "ps = p0 # ps'" by (cases ps) (auto simp: ld)
  have "?m \<noteq> []" using names(1) by (auto simp: ps left_names_def)
  then have "map_of ?m (fst (hd ?m)) = Some 1" using numbered_lookup [OF num, of "fst (hd ?m)" 1] by (cases ?m) auto
  moreover have "nd_name (pd_left p0) = fst (hd ?m)" using names(2) by (simp add: ps left_names_def)
  ultimately have p0: "pd_lhs p0 = 1" using lhs [of p0] by (simp add: ps)
  then show "pd_lhs (ld_prodlist ld ! 0) = 1" by (simp add: ld ps)
  have "filter (\<lambda>p. pd_lhs p = 1) ps' = []" using start p0 by (simp add: ps)
  then show "\<And>p. p \<in> set (tl (ld_prodlist ld)) \<Longrightarrow> pd_lhs p \<noteq> 1" by (auto simp: ld ps filter_empty_conv)
  fix A
  assume A: "A \<le> int (length (ld_nonterminals ld))"
  let ?k = "ld_nonterminals ld ! nat (A - 1)"
  { assume "1 \<le> A"
    then have "map_of ?m ?k = Some A" using A nt [of ?k A] by (simp add: nonterminal_is_def)
    moreover from this have k: "?k \<in> fst ` set ?m" by (force dest: map_of_SomeD)
    then have "?k \<in> set (left_names ps)" by (simp add: names(1))
    then obtain p where "p \<in> set ps" "nd_name (pd_left p) = ?k" by (auto simp: left_names_def)
    ultimately show "A \<in> pd_lhs ` set (ld_prodlist ld)" using lhs [of p] by (force simp: ld) }
  assume "2 \<le> A" "?k \<noteq> []"
  then have kA: "map_of ?m ?k = Some A" using A nt [of ?k A] by (simp add: nonterminal_is_def)
  then have "?k \<in> fst ` set ?m" by (force dest: map_of_SomeD)
  then have "?k \<in> (\<Union>p \<in> set ps. nonterminal_names (pd_right p))" using reach [of ?k] kA \<open>2 \<le> A\<close> \<open>?k \<noteq> []\<close> by auto
  then obtain p nd where p: "p \<in> set ps" "nd \<in> set (pd_right p)" "nd_type nd = NonTerminal" "nd_name nd = ?k"
    by (auto simp: nonterminal_names_def)
  then have "nd_index nd = A" using labelled [OF p(1)] kA by (auto simp: prod_labelled_def nd_labelled_def)
  then have "nd_node nd = NT A" using p(3) by (simp add: nd_node_def)
  then have "NT A \<in> set (pd_rhs p)" using p(2) by (force simp: pd_rhs_def)
  then show "\<exists>p \<in> set (ld_prodlist ld). NT A \<in> set (pd_rhs p)" using p(1) by (auto simp: ld)
qed

end
