(* ===== verification/GrammarTokens.thy ===== *)
theory GrammarTokens
  imports GrammarParserProps
begin

text \<open>
  The lexer for grammars, evaluated: its tables, and the numbers of its lexems, which the parser of grammars
  takes for the constants of \<open>GrammarLexer::LexemType\<close>.
\<close>

subsection \<open>Evaluation of patterns\<close>

text \<open>The characters of a range, as the numbers of signed characters.\<close>

definition chars_between :: "int \<Rightarrow> int \<Rightarrow> string" where
  "chars_between a b = map schar_of [a..b]"

lemma schar_of_schar [simp]: "schar_of (schar c) = c"
proof -
  have "nat (schar c mod 256) = byte c" using byte_less [of c] by (auto simp: schar_def mod_pos_pos_trivial)
  then show ?thesis by (simp add: schar_of_def byte_def)
qed

lemma schar_schar_of: "-128 \<le> i \<Longrightarrow> i \<le> 127 \<Longrightarrow> schar (schar_of i) = i"
proof -
  assume i: "-128 \<le> i" "i \<le> 127"
  have m: "i mod 256 = (if 0 \<le> i then i else i + 256)"
  proof (cases "0 \<le> i")
    case False
    have "i mod 256 = (i + 256) mod 256" by simp
    also have "\<dots> = i + 256" using i False by (intro mod_pos_pos_trivial) auto
    finally show ?thesis using False by simp
  qed (use i in \<open>simp add: mod_pos_pos_trivial\<close>)
  have "byte (schar_of i) = nat (i mod 256)" by (simp add: schar_of_def byte_def)
  then show ?thesis using i by (auto simp: schar_def m)
qed

lemma chars_between_iff: "-128 \<le> a \<Longrightarrow> b \<le> 127 \<Longrightarrow> c \<in> set (chars_between a b) \<longleftrightarrow> a \<le> schar c \<and> schar c \<le> b"
proof -
  assume r: "-128 \<le> a" "b \<le> 127"
  have "c = schar_of i \<longleftrightarrow> i = schar c" if "a \<le> i" "i \<le> b" for i
  proof
    assume "c = schar_of i"
    then show "i = schar c" using that r schar_schar_of [of i] by simp
  qed simp
  moreover have "c \<in> set (chars_between a b) \<longleftrightarrow> (\<exists>i. a \<le> i \<and> i \<le> b \<and> c = schar_of i)"
    unfolding chars_between_def set_map set_upto image_iff Bex_def atLeastAtMost_iff conj_assoc by (rule refl)
  ultimately show ?thesis by (metis r schar_of_schar)
qed

lemma case_returnR: "(case returnR x of None \<Rightarrow> a | Some (Inl e) \<Rightarrow> b e | Some (Inr y) \<Rightarrow> c y) = c x"
  by (simp add: returnR_def)

lemma push_range_chars: "schar to \<noteq> 127 \<Longrightarrow> push_range from to res = returnR (res @ chars_between (schar from + 1) (schar to))"
  by (simp add: push_range_def chars_between_def)

lemmas pattern_class_eval = case_returnR push_range_chars extract_first_characters_def extract_first_loop.simps schar_def
  skip_multiplicator_def skip_brackets_def parse_char_def

text \<open>The patterns of the grammar lexer with their first characters.\<close>

lemma ident_activation: "activation ''[a-zA-Z_][a-zA-Z_0-9]*'' = returnR (''a'' @ chars_between 98 122 @ ''A'' @ chars_between 66 90 @ ''_'')"
  by (simp add: pattern_eval pattern_class_eval)

lemma number_activation: "activation ''[0-9]+'' = returnR (''0'' @ chars_between 49 57)" "activation ''[0-9]+[LR]'' = returnR (''0'' @ chars_between 49 57)"
  by (simp_all add: pattern_eval pattern_class_eval)

lemma call_activation: "activation ''[-]{0,1}[a-zA-Z_][.a-zA-Z_0-9]*'' = returnR (''-a'' @ chars_between 98 122 @ ''A'' @ chars_between 66 90 @ ''_'')"
  by (simp add: pattern_eval pattern_class_eval)

lemma string_activation: "activation (string_pattern dq) = returnR [dq]" "activation (string_pattern sq) = returnR [sq]"
  by (simp_all add: string_pattern_def dq_def sq_def bs_def pattern_eval pattern_class_eval)

subsection \<open>The tables of a lexer with new definitions only\<close>

text \<open>
  A lexer to which definitions with different names were added one by one after its comments: the name, the
  pattern, the selected group, the keyword flag and the first characters of each. The indices of the
  definitions a character activates come in their order, behind those of the comments.
\<close>

type_synonym entry = "string \<times> string \<times> nat \<times> bool \<times> string"

definition entry_def :: "nat \<Rightarrow> entry \<Rightarrow> lexem_def" where
  "entry_def i e = (case e of (name, pattern, select, keyword, chars) \<Rightarrow>
     \<lparr>df_line = 0, df_name = name, df_source = pattern, df_activate = chars, df_select = select, df_id = int i + 1, df_keyword = keyword\<rparr>)"

definition entry_chars :: "entry \<Rightarrow> string" where
  "entry_chars e = snd (snd (snd (snd e)))"

definition lexer_tables :: "lexer \<Rightarrow> entry list \<Rightarrow> (nat \<Rightarrow> int list) \<Rightarrow> bool" where
  "lexer_tables lx es com \<longleftrightarrow>
     distinct (map fst es) \<and>
     lr_nameidmap lx = map (\<lambda>i. (fst (es ! i), int i + 1)) [0..<length es] \<and>
     lr_defar lx = map (\<lambda>i. entry_def i (es ! i)) [0..<length es] \<and>
     sorted (map fst (lr_firstmap lx)) \<and>
     (\<forall>c < 256. multimap_equal_range (lr_firstmap lx) c = com c @ map int (filter (\<lambda>i. char_of c \<in> set (entry_chars (es ! i))) [0..<length es]))"

lemma sorted_multimap_insert: "sorted (map fst m) \<Longrightarrow> sorted (map fst (multimap_insert m k v))"
proof (induction m k v rule: multimap_insert.induct)
  case (2 k' v' m k v)
  have "fst ` set (multimap_insert m k v) = insert k (fst ` set m)" by (auto simp: multimap_insert_set image_insert)
  then show ?case using 2 by auto
qed simp

lemma equal_range_insert:
  "sorted (map fst m) \<Longrightarrow> multimap_equal_range (multimap_insert m k v) c = multimap_equal_range m c @ (if k = c then [v] else [])"
proof (induction m k v rule: multimap_insert.induct)
  case (2 k' v' m k v)
  show ?case
  proof (cases "k < k'")
    case True
    have "filter (\<lambda>p. fst p = k) m = []" using True 2(2) by (force simp: filter_empty_conv)
    then show ?thesis using True by (auto simp: multimap_equal_range_def)
  qed (use 2 in \<open>auto simp: multimap_equal_range_def\<close>)
qed (simp add: multimap_equal_range_def)

lemma equal_range_fold_insert:
  "sorted (map fst m) \<Longrightarrow> distinct ks \<Longrightarrow>
     sorted (map fst (fold (\<lambda>k m. multimap_insert m k v) ks m)) \<and>
     multimap_equal_range (fold (\<lambda>k m. multimap_insert m k v) ks m) c = multimap_equal_range m c @ (if c \<in> set ks then [v] else [])"
proof (induction ks arbitrary: m)
  case (Cons k ks)
  from Cons.IH [OF sorted_multimap_insert [OF Cons.prems(1)]] Cons.prems(2) show ?case
    by (auto simp: equal_range_insert [OF Cons.prems(1)])
qed simp

lemma entry_names: "map (\<lambda>i. fst (es ! i)) [0..<length es] = map fst es"
  by (rule nth_equalityI) simp_all

lemma tables_known: "lexer_tables lx es com \<Longrightarrow> i < length es \<Longrightarrow> lexem_id (fst (es ! i)) lx = int i + 1"
proof -
  assume t: "lexer_tables lx es com" and i: "i < length es"
  have "distinct (map fst (lr_nameidmap lx))" using t by (simp add: lexer_tables_def comp_def entry_names)
  moreover have "(fst (es ! i), int i + 1) \<in> set (lr_nameidmap lx)" using t i by (simp add: lexer_tables_def)
  ultimately show ?thesis by (simp add: lexem_id_def)
qed

lemma tables_unknown: "lexer_tables lx es com \<Longrightarrow> name \<notin> fst ` set es \<Longrightarrow> map_of (lr_nameidmap lx) name = None"
proof -
  assume t: "lexer_tables lx es com" and "name \<notin> fst ` set es"
  moreover have "map fst (lr_nameidmap lx) = map fst es" using t by (simp add: lexer_tables_def comp_def entry_names)
  ultimately show ?thesis by (metis image_set map_of_eq_None_iff)
qed

definition lexer_rest :: "lexer \<Rightarrow> string \<times> (int \<times> string \<times> string) list \<times> (int \<times> string) list \<times> indent_lexems" where
  "lexer_rest lx = (lr_errorvalue lx, lr_bracketcomments lx, lr_eolncomments lx, lr_indent lx)"

lemma nth_upt_snoc: "map (\<lambda>i. f i ((xs @ [x]) ! i)) [0..<Suc (length xs)] = map (\<lambda>i. f i (xs ! i)) [0..<length xs] @ [f (length xs) x]"
  by (simp add: nth_append)

lemma filter_upt_snoc: "filter (\<lambda>i. P ((xs @ [x]) ! i)) [0..<Suc (length xs)] = filter (\<lambda>i. P (xs ! i)) [0..<length xs] @ (if P x then [length xs] else [])"
proof -
  have "filter (\<lambda>i. P ((xs @ [x]) ! i)) [0..<length xs] = filter (\<lambda>i. P (xs ! i)) [0..<length xs]"
    by (rule filter_cong) (simp_all add: nth_append)
  then show ?thesis by simp
qed

lemma define_entry_tables:
  assumes t: "lexer_tables lx es com" and new: "name \<notin> fst ` set es" "name \<noteq> []" and re: "re_valid re pattern" "pattern \<noteq> []"
    and act: "activation pattern = returnR chars" "chars \<noteq> []"
  shows "\<exists>lx'. define_lexem_entry re 0 name pattern keyword select lx = returnR (int (length es) + 1, lx') \<and>
    lexer_tables lx' (es @ [(name, pattern, select, keyword, chars)]) com \<and> lexer_rest lx' = lexer_rest lx"
proof -
  let ?e = "(name, pattern, select, keyword, chars)"
  let ?n = "length es"
  let ?d = "entry_def ?n ?e"
  let ?ks = "grow_keywords (?n + 1) (lr_id2keyword lx)"
  let ?chars = "filter (\<lambda>ii. char_of ii \<in> set chars) [0..<256::nat]"
  let ?lx = "lx\<lparr>lr_nameidmap := lr_nameidmap lx @ [(name, int ?n + 1)], lr_namelist := lr_namelist lx @ [if keyword then name_string name else name],
      lr_id2keyword := (if keyword then ?ks[?n + 1 := True] else ?ks), lr_defar := lr_defar lx @ [?d]\<rparr>"
  let ?fm = "fold (\<lambda>ii m. multimap_insert m ii (int ?n)) ?chars (lr_firstmap lx)"
  have len: "length (lr_nameidmap lx) = ?n" "length (lr_defar lx) = ?n" using t by (simp_all add: lexer_tables_def)
  have "mk_lexem_def re 0 name pattern (int ?n + 1) keyword select = returnR ?d"
    using re act by (simp add: mk_lexem_def_def entry_def_def)
  then have enter: "enter_lexem_def re 0 name pattern keyword select lx = returnR (int ?n + 1, ?lx)"
    using new tables_unknown [OF t new(1)] by (simp add: enter_lexem_def_def Let_def len add.commute)
  have "byte (hd chars) \<in> set ?chars" using act(2) byte_less [of "hd chars"] by (simp add: byte_def)
  then have "?chars \<noteq> []" by force
  then have "add_first_chars ?lx = returnR (?lx\<lparr>lr_firstmap := ?fm\<rparr>)"
    by (simp add: add_first_chars_def entry_def_def len Let_def)
  then have def: "define_lexem_entry re 0 name pattern keyword select lx = returnR (int ?n + 1, ?lx\<lparr>lr_firstmap := ?fm\<rparr>)"
    using enter re(2) by (simp add: define_lexem_entry_def)
  have fm: "sorted (map fst ?fm)" "multimap_equal_range ?fm c = multimap_equal_range (lr_firstmap lx) c @ (if c \<in> set ?chars then [int ?n] else [])" for c
    using equal_range_fold_insert [of "lr_firstmap lx" ?chars "int ?n" c] t by (simp_all add: lexer_tables_def)
  have "lexer_tables (?lx\<lparr>lr_firstmap := ?fm\<rparr>) (es @ [?e]) com"
    unfolding lexer_tables_def
  proof (intro conjI allI impI)
    show "distinct (map fst (es @ [?e]))" using t new(1) by (simp add: lexer_tables_def)
    show "lr_nameidmap (?lx\<lparr>lr_firstmap := ?fm\<rparr>) = map (\<lambda>i. (fst ((es @ [?e]) ! i), int i + 1)) [0..<length (es @ [?e])]"
      using t nth_upt_snoc [of "\<lambda>i e. (fst e, int i + 1)" es ?e] by (simp add: lexer_tables_def)
    show "lr_defar (?lx\<lparr>lr_firstmap := ?fm\<rparr>) = map (\<lambda>i. entry_def i ((es @ [?e]) ! i)) [0..<length (es @ [?e])]"
      using t nth_upt_snoc [of entry_def es ?e] by (simp add: lexer_tables_def)
    show "sorted (map fst (lr_firstmap (?lx\<lparr>lr_firstmap := ?fm\<rparr>)))" using fm(1) by simp
    fix c :: nat
    assume "c < 256"
    then show "multimap_equal_range (lr_firstmap (?lx\<lparr>lr_firstmap := ?fm\<rparr>)) c =
        com c @ map int (filter (\<lambda>i. char_of c \<in> set (entry_chars ((es @ [?e]) ! i))) [0..<length (es @ [?e])])"
      using t fm(2) [of c] filter_upt_snoc [of "\<lambda>e. char_of c \<in> set (entry_chars e)" es ?e]
      by (simp add: lexer_tables_def) (simp add: entry_chars_def)
  qed
  then show ?thesis using def by (auto simp: lexer_rest_def)
qed

text \<open>The definitions of the grammar lexer, each with its first characters.\<close>

lemma define_patterns_tables:
  assumes "lexer_tables lx es com" "distinct (map fst es @ map (\<lambda>(n, _). n) ps)"
    "\<forall>(n, p, s) \<in> set ps. n \<noteq> [] \<and> re_valid re p \<and> p \<noteq> [] \<and> activation p = returnR (act p) \<and> act p \<noteq> []"
  shows "\<exists>lx'. define_patterns re ps lx = returnR lx' \<and> lexer_tables lx' (es @ map (\<lambda>(n, p, s). (n, p, s, False, act p)) ps) com \<and>
    lexer_rest lx' = lexer_rest lx"
  using assms
proof (induction ps arbitrary: lx es)
  case (Cons x ps)
  obtain n p s where x: "x = (n, p, s)" by (cases x)
  have new: "n \<notin> fst ` set es" using Cons.prems(2) by (auto simp: x)
  obtain lx1 where lx1: "define_lexem_entry re 0 n p False s lx = returnR (int (length es) + 1, lx1)"
    "lexer_tables lx1 (es @ [(n, p, s, False, act p)]) com" "lexer_rest lx1 = lexer_rest lx"
    using define_entry_tables [OF Cons.prems(1) new, of re p "act p" False s] Cons.prems(3) by (auto simp: x)
  have "distinct (map fst (es @ [(n, p, s, False, act p)]) @ map (\<lambda>(n, _). n) ps)" using Cons.prems(2) by (auto simp: x)
  from Cons.IH [OF lx1(2) this] Cons.prems(3) lx1(1,3) show ?case
    by (auto simp: x define_patterns_def define_lexem_def)
qed (simp add: define_patterns_def)

lemma define_operators_tables:
  assumes "lexer_tables lx es com" "distinct (map fst es @ ops)"
    "\<forall>n \<in> set ops. n \<noteq> [] \<and> re_valid re (string_to_regex (n, [])) \<and> string_to_regex (n, []) \<noteq> [] \<and>
       activation (string_to_regex (n, [])) = returnR [hd n]"
  shows "\<exists>lx'. define_operators re ops lx = returnR lx' \<and>
    lexer_tables lx' (es @ map (\<lambda>n. (n, string_to_regex (n, []), 0, True, [hd n])) ops) com \<and> lexer_rest lx' = lexer_rest lx"
  using assms
proof (induction ops arbitrary: lx es)
  case (Cons n ops)
  let ?e = "(n, string_to_regex (n, []), 0, True, [hd n])"
  have new: "n \<notin> fst ` set es" using Cons.prems(2) by auto
  obtain lx1 where lx1: "define_lexem_entry re 0 n (string_to_regex (n, [])) True 0 lx = returnR (int (length es) + 1, lx1)"
    "lexer_tables lx1 (es @ [?e]) com" "lexer_rest lx1 = lexer_rest lx"
    using define_entry_tables [OF Cons.prems(1) new, of re "string_to_regex (n, [])" "[hd n]" True 0] Cons.prems(3) by auto
  have "distinct (map fst (es @ [?e]) @ ops)" using Cons.prems(2) by auto
  from Cons.IH [OF lx1(2) this] Cons.prems(3) lx1(1,3) show ?case
    by (auto simp: define_operators_def define_keyword_def)
qed (simp add: define_operators_def)

subsection \<open>The tables of the grammar lexer\<close>

definition call_pattern :: "string \<times> string \<times> nat" where
  "call_pattern = (''CALL'', ''[-]{0,1}[a-zA-Z_][.a-zA-Z_0-9]*'', 0)"

definition operators1 :: "string list" where
  "operators1 = [''%'', ''/'', ''='', [CHR 0xE2, CHR 0x86, CHR 0x92], '':'', '';'', [CHR 0xCE, CHR 0xB5]]"

definition operators2 :: "string list" where
  "operators2 = [''{'', ''}'', '','', ''('', '')'', ''|'', ''>>'', ''{}'']"

text \<open>The regular expressions of the grammar lexer are valid.\<close>

definition grammar_regex_ok :: "regex_engine \<Rightarrow> bool" where
  "grammar_regex_ok re \<longleftrightarrow> (\<forall>(n, p, s) \<in> set (grammar_patterns @ [call_pattern]). re_valid re p) \<and>
     (\<forall>n \<in> set (operators1 @ operators2). re_valid re (string_to_regex (n, [])))"

definition pattern_chars :: "string \<Rightarrow> string" where
  "pattern_chars p = (case activation p of Some (Inr chars) \<Rightarrow> chars | _ \<Rightarrow> [])"

definition operator_entry :: "string \<Rightarrow> entry" where
  "operator_entry n = (n, string_to_regex (n, []), 0, True, [hd n])"

definition pattern_entry :: "string \<times> string \<times> nat \<Rightarrow> entry" where
  "pattern_entry x = (case x of (n, p, s) \<Rightarrow> (n, p, s, False, pattern_chars p))"

definition grammar_entries :: "entry list" where
  "grammar_entries = map pattern_entry grammar_patterns @ map operator_entry operators1 @ [pattern_entry call_pattern] @ map operator_entry operators2"

definition grammar_comments :: "nat \<Rightarrow> int list" where
  "grammar_comments c = (if c = 35 then [match_eoln_comment] else if c = 47 then [match_eoln_comment, match_bracket_comment] else [])"

lemma pattern_chars_eq: "activation p = returnR chars \<Longrightarrow> pattern_chars p = chars"
  by (simp add: pattern_chars_def returnR_def)

lemma operators_activation:
  "\<forall>n \<in> set (operators1 @ operators2). n \<noteq> [] \<and> string_to_regex (n, []) \<noteq> [] \<and> activation (string_to_regex (n, [])) = returnR [hd n]"
  by (simp add: operators1_def operators2_def pattern_eval)

lemma string_pattern_not_Nil: "string_pattern q \<noteq> []"
  by (simp add: string_pattern_def)

lemma patterns_activation:
  "\<forall>(n, p, s) \<in> set (grammar_patterns @ [call_pattern]). n \<noteq> [] \<and> p \<noteq> [] \<and> activation p = returnR (pattern_chars p) \<and> pattern_chars p \<noteq> []"
  by (simp add: grammar_patterns_def call_pattern_def ident_activation number_activation call_activation string_activation
      pattern_chars_eq [OF ident_activation] pattern_chars_eq [OF number_activation(1)] pattern_chars_eq [OF number_activation(2)]
      pattern_chars_eq [OF call_activation] pattern_chars_eq [OF string_activation(1)] pattern_chars_eq [OF string_activation(2)]
      string_pattern_not_Nil)

lemma entry_name_lists:
  "map fst (map pattern_entry grammar_patterns) = [''IDENT'', ''NUMBER'', ''PRIORITY'', ''DQSTRING'', ''SQSTRING'']"
  "map fst (map operator_entry ops) = ops" "map fst (map pattern_entry [call_pattern]) = [''CALL'']" "map (\<lambda>(n, _). n) [call_pattern] = [''CALL'']"
  "map (\<lambda>(n, _). n) grammar_patterns = [''IDENT'', ''NUMBER'', ''PRIORITY'', ''DQSTRING'', ''SQSTRING'']"
  by (simp_all add: grammar_patterns_def call_pattern_def pattern_entry_def operator_entry_def comp_def)

lemma grammar_names: "map fst grammar_entries = [''IDENT'', ''NUMBER'', ''PRIORITY'', ''DQSTRING'', ''SQSTRING''] @ operators1 @ [''CALL''] @ operators2"
  using entry_name_lists by (simp add: grammar_entries_def)

lemma grammar_names_distinct:
  "distinct (map fst [] @ map (\<lambda>(n, _). n) grammar_patterns)"
  "distinct (map fst (map pattern_entry grammar_patterns) @ operators1)"
  "distinct (map fst (map pattern_entry grammar_patterns @ map operator_entry operators1) @ map (\<lambda>(n, _). n) [call_pattern])"
  "distinct (map fst ((map pattern_entry grammar_patterns @ map operator_entry operators1) @ map pattern_entry [call_pattern]) @ operators2)"
  unfolding map_append entry_name_lists by (simp_all add: operators1_def operators2_def)

lemma grammar_lexer_tables:
  assumes "grammar_regex_ok re"
  shows "\<exists>glx. grammar_lexer re = returnR glx \<and> lexer_tables glx grammar_entries grammar_comments \<and>
    lexer_rest glx = (''?'', [(0, ''/*'', ''*/'')], [(0, ''//''), (0, ''#'')], lr_indent lexer_new)"
proof -
  define lx0 where "lx0 = lexer_new\<lparr>lr_eolncomments := [(0, ''//''), (0, ''#'')], lr_bracketcomments := [(0, ''/*'', ''*/'')],
     lr_firstmap := [(35, match_eoln_comment), (47, match_eoln_comment), (47, match_bracket_comment)]\<rparr>"
  have t0: "lexer_tables lx0 [] grammar_comments"
    by (simp add: lexer_tables_def lx0_def lexer_new_def grammar_comments_def multimap_equal_range_def)
  have r0: "lexer_rest lx0 = (''?'', [(0, ''/*'', ''*/'')], [(0, ''//''), (0, ''#'')], lr_indent lexer_new)"
    by (simp add: lexer_rest_def lx0_def lexer_new_def)
  have re: "\<forall>(n, p, s) \<in> set (grammar_patterns @ [call_pattern]). re_valid re p"
    "\<forall>n \<in> set (operators1 @ operators2). re_valid re (string_to_regex (n, []))"
    using assms by (simp_all add: grammar_regex_ok_def)
  have entries: "map (\<lambda>(n, p, s). (n, p, s, False, pattern_chars p)) ps = map pattern_entry ps"
    "map (\<lambda>n. (n, string_to_regex (n, []), 0, True, [hd n])) ops = map operator_entry ops" for ps ops
    by (simp_all add: pattern_entry_def operator_entry_def fun_eq_iff)
  have pats: "\<forall>(n, p, s) \<in> set ps. n \<noteq> [] \<and> re_valid re p \<and> p \<noteq> [] \<and> activation p = returnR (pattern_chars p) \<and> pattern_chars p \<noteq> []"
    if "set ps \<subseteq> set (grammar_patterns @ [call_pattern])" for ps
    using that re(1) patterns_activation by blast
  have ops: "\<forall>n \<in> set ops. n \<noteq> [] \<and> re_valid re (string_to_regex (n, [])) \<and> string_to_regex (n, []) \<noteq> [] \<and>
       activation (string_to_regex (n, [])) = returnR [hd n]" if "set ops \<subseteq> set (operators1 @ operators2)" for ops
    using that re(2) operators_activation by blast
  obtain lx1 where lx1: "define_patterns re grammar_patterns lx0 = returnR lx1"
    "lexer_tables lx1 (map pattern_entry grammar_patterns) grammar_comments" "lexer_rest lx1 = lexer_rest lx0"
    using define_patterns_tables [OF t0 grammar_names_distinct(1) pats [of grammar_patterns]] unfolding entries by auto
  obtain lx2 where lx2: "define_operators re operators1 lx1 = returnR lx2"
    "lexer_tables lx2 (map pattern_entry grammar_patterns @ map operator_entry operators1) grammar_comments" "lexer_rest lx2 = lexer_rest lx1"
    using define_operators_tables [OF lx1(2) grammar_names_distinct(2) ops [of operators1]] unfolding entries by auto
  obtain lx3 where lx3: "define_patterns re [call_pattern] lx2 = returnR lx3"
    "lexer_tables lx3 ((map pattern_entry grammar_patterns @ map operator_entry operators1) @ map pattern_entry [call_pattern]) grammar_comments"
    "lexer_rest lx3 = lexer_rest lx2"
    using define_patterns_tables [OF lx2(2) grammar_names_distinct(3) pats [of "[call_pattern]"]] unfolding entries by auto
  obtain lx4 where lx4: "define_operators re operators2 lx3 = returnR lx4"
    "lexer_tables lx4 (((map pattern_entry grammar_patterns @ map operator_entry operators1) @ map pattern_entry [call_pattern]) @ map operator_entry operators2)
      grammar_comments" "lexer_rest lx4 = lexer_rest lx3"
    using define_operators_tables [OF lx3(2) grammar_names_distinct(4) ops [of operators2]] unfolding entries by auto
  have "bindR (define_eoln_comment 0 ''//'' lexer_new) (\<lambda>lx. bindR (define_eoln_comment 0 ''#'' lx) (define_bracket_comment 0 ''/*'' ''*/'')) = returnR lx0"
    by (simp add: define_eoln_comment_def define_bracket_comment_def lexer_new_def lx0_def byte_def)
  then obtain a b where "define_eoln_comment 0 ''//'' lexer_new = returnR a" "define_eoln_comment 0 ''#'' a = returnR b"
    "define_bracket_comment 0 ''/*'' ''*/'' b = returnR lx0" by (auto simp: bindR_eq_returnR)
  then have "grammar_lexer re = returnR lx4"
    using lx1(1) lx2(1) lx3(1) lx4(1) by (simp add: grammar_lexer_def operators1_def operators2_def call_pattern_def)
  then show ?thesis using lx4(2,3) lx3(3) lx2(3) lx1(3) r0 by (simp add: grammar_entries_def)
qed

subsection \<open>Properties\<close>

text \<open>
  C40: The lexer for grammars can be built, and the ids it numbers its lexems with are the constants the parser of
  grammars distinguishes them by: every pattern, operator and bracket is read as the token it is meant to be.
\<close>

theorem grammar_lexer_tokens:
  assumes "grammar_regex_ok re"
  shows "\<exists>glx. grammar_lexer re = returnR glx \<and>
    map (\<lambda>name. grammar_token_of (lexem_id name glx))
      ([''IDENT'', ''NUMBER'', ''PRIORITY'', ''DQSTRING'', ''SQSTRING'', ''%'', ''/'', ''='', [CHR 0xE2, CHR 0x86, CHR 0x92], '':'', '';'',
        [CHR 0xCE, CHR 0xB5], ''CALL'', ''{'', ''}'', '','', ''('', '')'', ''|'', ''>>'', ''{}'']) =
      [G_Ident, G_Number, G_Priority, G_DQString, G_SQString, G_Percent, G_Slash, G_Equal, G_Arrow, G_DDot, G_Semicolon,
       G_Epsilon, G_Call, G_OpenCurly, G_CloseCurly, G_Comma, G_OpenBrk, G_CloseBrk, G_Or, G_Step, G_Scope]"
proof -
  obtain glx where glx: "grammar_lexer re = returnR glx" "lexer_tables glx grammar_entries grammar_comments"
    using grammar_lexer_tables [OF assms] by blast
  have len: "length grammar_entries = 21" by (simp add: grammar_entries_def grammar_patterns_def operators1_def operators2_def)
  have "map (\<lambda>name. lexem_id name glx) (map fst grammar_entries) = map (\<lambda>i. int i + 1) [0..<21]"
    by (rule nth_equalityI) (use tables_known [OF glx(2)] len in simp_all)
  then have ids: "map (\<lambda>name. grammar_token_of (lexem_id name glx)) (map fst grammar_entries) = map (\<lambda>i. grammar_token_of (int i + 1)) [0..<21]"
    by (drule_tac f = "map grammar_token_of" in arg_cong) (simp only: list.map_comp comp_def)
  have "map (\<lambda>i. grammar_token_of (int i + 1)) [0..<21] =
      [G_Ident, G_Number, G_Priority, G_DQString, G_SQString, G_Percent, G_Slash, G_Equal, G_Arrow, G_DDot, G_Semicolon,
       G_Epsilon, G_Call, G_OpenCurly, G_CloseCurly, G_Comma, G_OpenBrk, G_CloseBrk, G_Or, G_Step, G_Scope]"
    by code_simp
  with ids glx(1) show ?thesis unfolding grammar_names operators1_def operators2_def append.simps by (intro exI [of _ glx] conjI) simp_all
qed

text \<open>
  A small engine for examples: names of one letter, strings of one character, and every other pattern
  taken literally.
\<close>

definition tiny_engine :: regex_engine where
  "tiny_engine = \<lparr>re_valid = (\<lambda>_. True),
     re_search = (\<lambda>p s.
       if p = ''[a-zA-Z_][a-zA-Z_0-9]*'' then
         (case s of [] \<Rightarrow> None | c # _ \<Rightarrow> if c \<in> {CHR ''S'', CHR ''a''} then Some [(0, 1)] else None)
       else if p = string_pattern sq then (if length s > 2 \<and> s ! 0 = sq \<and> s ! 2 = sq then Some [(0, 3), (1, 1)] else None)
       else if p \<noteq> [] \<and> take (length p) s = p then Some [(0, length p)] else None)\<rparr>"

lemma tiny_engine_ok: "regex_ok tiny_engine"
proof -
  have "length p \<le> length s" if "take (length p) s = p" for p s :: string using that by (metis length_take min.cobounded1)
  then show ?thesis by (auto simp: regex_ok_def tiny_engine_def split: if_splits list.splits)
qed

lemma tiny_grammar_ok: "grammar_regex_ok tiny_engine"
  by (simp add: grammar_regex_ok_def tiny_engine_def)

theorem grammar_lexer_tokens_witness:
  "\<exists>glx. grammar_lexer tiny_engine = returnR glx \<and> map (\<lambda>name. grammar_token_of (lexem_id name glx)) [''IDENT'', ''{}''] = [G_Ident, G_Scope]"
  using grammar_lexer_tokens [OF tiny_grammar_ok] by auto

end
