(* ===== verification/Compiler.thy ===== *)
theory Compiler
  imports GrammarTokens
begin

text \<open>
  The whole way from a grammar to the parser of its language: the source of the grammar is parsed, the
  automaton is built from it, and the automaton runs over the lexems of another source.
\<close>

subsection \<open>An example\<close>

text \<open>A grammar of one lexem, \<open>S=a;a:'y';\<close>, read with the small engine.\<close>

definition small_grammar :: string where
  "small_grammar = ''S=a;a:'' @ [sq] @ ''y'' @ [sq] @ '';''"

definition small_scanner :: "nat \<Rightarrow> scanner" where
  "small_scanner pos = \<lparr>sn_src = small_grammar, sn_pos = pos, sn_line = 1, sn_indentstk = [], sn_consumed = False\<rparr>"

lemma small_rest: "sn_rest (small_scanner pos) = drop pos small_grammar"
  by (simp add: sn_rest_def small_scanner_def)

lemma grammar_entry_list: "grammar_entries =
   [(''IDENT'', ''[a-zA-Z_][a-zA-Z_0-9]*'', 0, False, ''a'' @ chars_between 98 122 @ ''A'' @ chars_between 66 90 @ ''_''),
    (''NUMBER'', ''[0-9]+'', 0, False, ''0'' @ chars_between 49 57), (''PRIORITY'', ''[0-9]+[LR]'', 0, False, ''0'' @ chars_between 49 57),
    (''DQSTRING'', string_pattern dq, 1, False, [dq]), (''SQSTRING'', string_pattern sq, 1, False, [sq])] @
   map operator_entry operators1 @
   [(''CALL'', ''[-]{0,1}[a-zA-Z_][.a-zA-Z_0-9]*'', 0, False, ''-a'' @ chars_between 98 122 @ ''A'' @ chars_between 66 90 @ ''_'')] @
   map operator_entry operators2"
  by (simp add: grammar_entries_def grammar_patterns_def call_pattern_def pattern_entry_def ident_activation number_activation call_activation
      string_activation pattern_chars_eq [OF ident_activation] pattern_chars_eq [OF number_activation(1)] pattern_chars_eq [OF number_activation(2)]
      pattern_chars_eq [OF call_activation] pattern_chars_eq [OF string_activation(1)] pattern_chars_eq [OF string_activation(2)])

text \<open>The definitions a character activates.\<close>

definition activated :: "char \<Rightarrow> nat list" where
  "activated c = filter (\<lambda>i. c \<in> set (entry_chars (grammar_entries ! i))) [0..<21]"

lemma activated_eq: "activated c = concat (map (\<lambda>(i, e). if c \<in> set (entry_chars e) then [i] else []) (enumerate 0 grammar_entries))"
proof -
  have len: "length grammar_entries = 21" by (simp add: grammar_entry_list operators1_def operators2_def)
  have "filter (\<lambda>i. P (xs ! i)) [0..<length xs] = concat (map (\<lambda>(i, e). if P e then [i] else []) (enumerate 0 xs))" for P and xs :: "entry list"
  proof (induction xs rule: rev_induct)
    case (snoc x xs)
    then show ?case unfolding length_append_singleton filter_upt_snoc by (simp add: enumerate_append_eq)
  qed simp
  from this [where xs = grammar_entries] show ?thesis by (simp only: activated_def len)
qed

lemma activated_chars:
  "activated (CHR ''S'') = [0, 12]" "activated (CHR ''a'') = [0, 12]" "activated (CHR ''='') = [7]" "activated (CHR '':'') = [9]"
  "activated (CHR '';'') = [10]" "activated (CHR 0x27) = [4]"
  by (simp_all add: activated_eq grammar_entry_list entry_chars_def operator_entry_def operators1_def operators2_def chars_between_iff
      schar_def byte_def sq_def dq_def)

subsection \<open>Reading the example\<close>

definition is_grammar_lexer :: "lexer \<Rightarrow> bool" where
  "is_grammar_lexer glx \<longleftrightarrow> lexer_tables glx grammar_entries grammar_comments \<and>
     lexer_rest glx = (''?'', [(0, ''/*'', ''*/'')], [(0, ''//''), (0, ''#'')], lr_indent lexer_new)"

lemma length_grammar_entries: "length grammar_entries = 21"
  by (simp add: grammar_entry_list operators1_def operators2_def)

lemma grammar_range:
  assumes "is_grammar_lexer glx" "grammar_comments (byte c) = []"
  shows "multimap_equal_range (lr_firstmap glx) (byte c) = map int (activated c)"
  using assms byte_less [of c] by (simp add: is_grammar_lexer_def lexer_tables_def activated_def length_grammar_entries byte_def)

lemma grammar_def_at:
  "is_grammar_lexer glx \<Longrightarrow> i < 21 \<Longrightarrow> vec_at (lr_defar glx) (int i) = Some (entry_def i (grammar_entries ! i))"
  "is_grammar_lexer glx \<Longrightarrow> length (lr_defar glx) = 21"
  by (simp_all add: is_grammar_lexer_def lexer_tables_def length_grammar_entries vec_at_def)

text \<open>The best of the definitions a character activates, for a lexer whose definitions match by a function.\<close>

fun best_entry :: "(nat \<Rightarrow> view \<times> nat) \<Rightarrow> (nat \<Rightarrow> bool) \<Rightarrow> nat list \<Rightarrow> best_match \<Rightarrow> best_match" where
  "best_entry matched keyword [] bm = bm"
| "best_entry matched keyword (i # ids) bm =
     (case matched i of (view, len) \<Rightarrow>
      best_entry matched keyword ids
        (if bm_len bm \<le> len \<and> (bm_len bm < len \<or> keyword i) then \<lparr>bm_len = len, bm_idx = int i, bm_view = view\<rparr> else bm))"

lemma grammar_lexer_range:
  assumes "is_grammar_lexer glx" "\<forall>i \<in> set ids. i < 21"
  shows "lexer_range re glx (map int ids) bm sc = returnR (RangeEnd (best_entry (\<lambda>i. def_match re (entry_def i (grammar_entries ! i)) (sn_rest sc))
    (\<lambda>i. df_keyword (entry_def i (grammar_entries ! i))) ids bm), sc)"
  using assms(2)
proof (induction ids arbitrary: bm)
  case (Cons i ids)
  have "int i \<noteq> match_eoln_comment" "int i \<noteq> match_bracket_comment" by (simp_all add: match_eoln_comment_def match_bracket_comment_def)
  then show ?case using Cons grammar_def_at [OF assms(1)]
    by (cases "def_match re (entry_def i (grammar_entries ! i)) (sn_rest sc)") auto
qed simp

lemma grammar_next_lexem:
  assumes glx: "is_grammar_lexer glx" and sc: "sn_rest sc = c # cs" "\<not> blank c" "c \<noteq> nul" "sn_pos sc \<le> length (sn_src sc)"
    and com: "grammar_comments (byte c) = []"
    and best: "best_entry (\<lambda>i. def_match re (entry_def i (grammar_entries ! i)) (c # cs)) (\<lambda>i. df_keyword (entry_def i (grammar_entries ! i)))
        (activated c) \<lparr>bm_len = 0, bm_idx = -1, bm_view = ([], [])\<rparr> = \<lparr>bm_len = len, bm_idx = int i, bm_view = view\<rparr>" "i < 21"
    and next': "scanner_next (int len) sc = returnR sc'"
  shows "lexer_next_view re glx sc =
    returnR (\<lparr>lm_name = fst (grammar_entries ! i), lm_value = fst view, lm_id = int i + 1, lm_line = sn_line sc\<rparr>, view, sc')"
proof -
  have same: "scanner_next 0 sc = returnR sc" using scanner_next_same [of sc] sc by (simp add: scanner_ok_def)
  have "\<forall>i \<in> set (activated c). i < 21" by (simp add: activated_def)
  from grammar_lexer_range [OF glx this] have range: "lexer_range re glx (multimap_equal_range (lr_firstmap glx) (byte c))
      \<lparr>bm_len = 0, bm_idx = -1, bm_view = ([], [])\<rparr> sc = returnR (RangeEnd \<lparr>bm_len = len, bm_idx = int i, bm_view = view\<rparr>, sc)"
    unfolding grammar_range [OF glx com] by (simp add: sc(1) best(1))
  have il: "il_open (lr_indent glx) = 0" using glx by (simp add: is_grammar_lexer_def lexer_rest_def lexer_new_def)
  have take: "lexer_take glx \<lparr>bm_len = len, bm_idx = int i, bm_view = view\<rparr> sc = returnR (Some (\<lparr>lm_name = fst (grammar_entries ! i), lm_value = fst view,
      lm_id = int i + 1, lm_line = sn_line sc\<rparr>, view), sc')"
    using grammar_def_at(1) [OF glx best(2)] next' il by (simp add: lexer_take_def entry_def_def split: prod.split)
  have "lexer_iteration re glx sc = returnR (Some (\<lparr>lm_name = fst (grammar_entries ! i), lm_value = fst view, lm_id = int i + 1, lm_line = sn_line sc\<rparr>, view), sc')"
    using same range take sc by (simp add: lexer_iteration_def c_str_def deref_def)
  then show ?thesis by (simp add: lexer_next_view.simps)
qed

definition small_lexem :: "nat \<Rightarrow> string \<Rightarrow> lexem" where
  "small_lexem i value = \<lparr>lm_name = fst (grammar_entries ! i), lm_value = value, lm_id = int i + 1, lm_line = 1\<rparr>"

lemma small_next:
  assumes "is_grammar_lexer glx" "drop pos small_grammar = c # cs" "\<not> blank c" "c \<noteq> nul" "grammar_comments (byte c) = []" "pos \<le> 10"
    "best_entry (\<lambda>i. def_match tiny_engine (entry_def i (grammar_entries ! i)) (c # cs)) (\<lambda>i. df_keyword (entry_def i (grammar_entries ! i)))
        (activated c) \<lparr>bm_len = 0, bm_idx = -1, bm_view = ([], [])\<rparr> = \<lparr>bm_len = len, bm_idx = int i, bm_view = view\<rparr>" "i < 21"
    "scanner_next (int len) (small_scanner pos) = returnR (small_scanner (pos + len))"
  shows "lexer_next_view tiny_engine glx (small_scanner pos) = returnR (small_lexem i (fst view), view, small_scanner (pos + len))"
proof -
  have "length small_grammar = 10" by (simp add: small_grammar_def)
  then have "sn_pos (small_scanner pos) \<le> length (sn_src (small_scanner pos))" using assms(6) by (simp add: small_scanner_def)
  from grammar_next_lexem [OF assms(1) _ assms(3,4) this assms(5,7,8,9)] assms(2) show ?thesis
    by (simp add: small_rest small_lexem_def) (simp add: small_scanner_def)
qed

lemmas small_eval = small_grammar_def activated_chars grammar_entry_list entry_def_def def_match_def tiny_engine_def operator_entry_def
  operators1_def operators2_def scanner_next_def small_scanner_def sn_rest_def count_newlines_def blank_def nul_def newline_def byte_def
  grammar_comments_def string_pattern_def sq_def bs_def Let_def pattern_eval

lemma small_token_S:
  "is_grammar_lexer glx \<Longrightarrow> lexer_next_view tiny_engine glx (small_scanner 0) =
    returnR (small_lexem 0 ''S'', (''S'', drop 1 small_grammar), small_scanner 1)"
  using small_next [of glx 0 "CHR ''S''" "drop 1 small_grammar" 1 0 "(''S'', drop 1 small_grammar)"]
  by (simp add: small_eval)

lemma small_token_equal:
  "is_grammar_lexer glx \<Longrightarrow> lexer_next_view tiny_engine glx (small_scanner 1) =
    returnR (small_lexem 7 ''='', (''='', drop 2 small_grammar), small_scanner 2)"
  using small_next [of glx 1 "CHR ''=''" "drop 2 small_grammar" 1 7 "(''='', drop 2 small_grammar)"]
  by (simp add: small_eval)

lemma small_token_a:
  "is_grammar_lexer glx \<Longrightarrow> lexer_next_view tiny_engine glx (small_scanner 2) =
    returnR (small_lexem 0 ''a'', (''a'', drop 3 small_grammar), small_scanner 3)"
  using small_next [of glx 2 "CHR ''a''" "drop 3 small_grammar" 1 0 "(''a'', drop 3 small_grammar)"]
  by (simp add: small_eval)

lemma small_token_semicolon:
  "is_grammar_lexer glx \<Longrightarrow> lexer_next_view tiny_engine glx (small_scanner 3) =
    returnR (small_lexem 10 '';'', ('';'', drop 4 small_grammar), small_scanner 4)"
  using small_next [of glx 3 "CHR '';''" "drop 4 small_grammar" 1 10 "('';'', drop 4 small_grammar)"]
  by (simp add: small_eval)

lemma small_token_name:
  "is_grammar_lexer glx \<Longrightarrow> lexer_next_view tiny_engine glx (small_scanner 4) =
    returnR (small_lexem 0 ''a'', (''a'', drop 5 small_grammar), small_scanner 5)"
  using small_next [of glx 4 "CHR ''a''" "drop 5 small_grammar" 1 0 "(''a'', drop 5 small_grammar)"]
  by (simp add: small_eval)

lemma small_token_colon:
  "is_grammar_lexer glx \<Longrightarrow> lexer_next_view tiny_engine glx (small_scanner 5) =
    returnR (small_lexem 9 '':'', ('':'', drop 6 small_grammar), small_scanner 6)"
  using small_next [of glx 5 "CHR '':''" "drop 6 small_grammar" 1 9 "('':'', drop 6 small_grammar)"]
  by (simp add: small_eval)

lemma small_token_string:
  "is_grammar_lexer glx \<Longrightarrow> lexer_next_view tiny_engine glx (small_scanner 6) =
    returnR (small_lexem 4 ''y'', (''y'', drop 8 small_grammar), small_scanner 9)"
  using small_next [of glx 6 "sq" "drop 7 small_grammar" 3 4 "(''y'', drop 8 small_grammar)"]
  by (simp add: small_eval)

lemma small_token_last:
  "is_grammar_lexer glx \<Longrightarrow> lexer_next_view tiny_engine glx (small_scanner 9) =
    returnR (small_lexem 10 '';'', ('';'', drop 10 small_grammar), small_scanner 10)"
  using small_next [of glx 9 "CHR '';''" "drop 10 small_grammar" 1 10 "('';'', drop 10 small_grammar)"]
  by (simp add: small_eval)

lemma small_end:
  assumes "is_grammar_lexer glx"
  shows "lexer_next_view tiny_engine glx (small_scanner 10) = returnR (eof_lexem 1, ([], []), small_scanner 10)"
proof -
  have "il_open (lr_indent glx) = 0" using assms by (simp add: is_grammar_lexer_def lexer_rest_def lexer_new_def)
  then have "lexer_iteration tiny_engine glx (small_scanner 10) = returnR (Some (eof_lexem 1, ([], [])), small_scanner 10)"
    by (simp add: lexer_iteration_def small_eval c_str_def deref_def)
  then show ?thesis by (simp add: lexer_next_view.simps)
qed

lemma relocate_returnR [simp]: "relocate line (returnR x) = returnR x"
  by (simp add: relocate_def returnR_def)

lemma parse_loop_step:
  assumes "lexer_next_view re glx sc = returnR (l, view, sc')" "\<not> lexem_empty l" "parse_lexem re l view st = returnR st'"
  shows "parse_loop re glx sc line st = parse_loop re glx sc' (lm_line l) st'"
  by (subst parse_loop.simps) (simp add: assms)

text \<open>The parser behind each lexem of the example, and the lexer it defines.\<close>

definition small_lexer :: lexer where
  "small_lexer = \<lparr>lr_errorline = 0, lr_errorvalue = ''?'',
     lr_defar = [\<lparr>df_line = 1, df_name = ''a'', df_source = ''y'', df_activate = ''y'', df_select = 0, df_id = 1, df_keyword = False\<rparr>],
     lr_firstmap = [(121, 0)], lr_nameidmap = [(''a'', 1)], lr_namelist = [''a''], lr_id2keyword = [False, False], lr_bracketcomments = [],
     lr_eolncomments = [], lr_indent = \<lparr>il_line = 0, il_open = 0, il_close = 0, il_newline = 0, il_tabsize = 0\<rparr>\<rparr>"

lemma small_lexer_define: "define_lexem tiny_engine 1 ''a'' ''y'' 0 lexer_new = returnR (1, small_lexer)"
  by (simp add: small_lexer_def define_lexem_def define_lexem_entry_def enter_lexem_def_def mk_lexem_def_def add_first_chars_def
      first_chars_single grow_keywords_def lexer_new_def tiny_engine_def pattern_eval Let_def upt_rec_numeral)

definition small_production :: "production_node_def list \<Rightarrow> production_def" where
  "small_production right = mk_production_def 1 ''S'' right no_priority 0 NoScope"

definition small_parser1 :: grammar_parser where
  "small_parser1 = grammar_parser_new\<lparr>gp_rulename := ''S'', gp_state := ParseProductionAttributes\<rparr>"

definition small_parser2 :: "production_node_def list \<Rightarrow> gp_state \<Rightarrow> grammar_parser" where
  "small_parser2 right state = grammar_parser_new\<lparr>gp_rulename := ''S'', gp_prodlist := [small_production right], gp_prodmap := [(''S'', 0)],
     gp_ntids := [(''S'', 1)], gp_nonterminals := [''S''], gp_state := state\<rparr>"

definition small_parser3 :: "string \<Rightarrow> lexer \<Rightarrow> gp_state \<Rightarrow> grammar_parser" where
  "small_parser3 pattern lx state = (small_parser2 [mk_node_def ''a'' True] state)\<lparr>gp_rulename := ''a'', gp_pattern := pattern, gp_lexer := lx\<rparr>"

lemmas small_parse_eval = parse_lexem_def grammar_token_of_def small_lexem_def Let_def grammar_entry_list operators1_def operators2_def operator_entry_def
  parse_ident_def parse_assign_def parse_semicolon_def parse_ddot_def parse_string_def push_element_def change_last_def last_prod_def
  small_parser1_def small_parser2_def small_parser3_def small_production_def push_production_def grammar_parser_new_def mk_production_def_def mk_node_def_def

lemma small_parse:
  "parse_lexem tiny_engine (small_lexem 0 ''S'') v grammar_parser_new = returnR small_parser1"
  "parse_lexem tiny_engine (small_lexem 7 ''='') v small_parser1 = returnR (small_parser2 [] ParseProductionElement)"
  "parse_lexem tiny_engine (small_lexem 0 ''a'') v (small_parser2 [] ParseProductionElement) = returnR (small_parser2 [mk_node_def ''a'' True] ParseProductionElement)"
  "parse_lexem tiny_engine (small_lexem 10 '';'') v (small_parser2 [mk_node_def ''a'' True] ParseProductionElement) = returnR (small_parser2 [mk_node_def ''a'' True] Init)"
  "parse_lexem tiny_engine (small_lexem 0 ''a'') v (small_parser2 [mk_node_def ''a'' True] Init) = returnR (small_parser3 [] lexer_new ParseProductionAttributes)"
  "parse_lexem tiny_engine (small_lexem 9 '':'') v (small_parser3 [] lexer_new ParseProductionAttributes) = returnR (small_parser3 [] lexer_new ParsePattern)"
  "parse_lexem tiny_engine (small_lexem 4 ''y'') v (small_parser3 [] lexer_new ParsePattern) = returnR (small_parser3 ''y'' lexer_new ParsePatternSelect)"
  "parse_lexem tiny_engine (small_lexem 10 '';'') v (small_parser3 ''y'' lexer_new ParsePatternSelect) = returnR (small_parser3 ''y'' small_lexer Init)"
  using small_lexer_define by (simp_all add: small_parse_eval)

lemma small_parse_loop:
  assumes "is_grammar_lexer glx"
  shows "parse_loop tiny_engine glx (scanner_new small_grammar) 1 grammar_parser_new = returnR (small_parser3 ''y'' small_lexer Init, 1)"
proof -
  have line: "lm_line (small_lexem i v) = 1" "\<not> lexem_empty (small_lexem i v)" if "v \<noteq> []" for i v
    using that by (simp_all add: small_lexem_def lexem_empty_def)
  note step = parse_loop_step [where re = tiny_engine and glx = glx]
  have "parse_loop tiny_engine glx (small_scanner 10) 1 (small_parser3 ''y'' small_lexer Init) = returnR (small_parser3 ''y'' small_lexer Init, 1)"
    by (subst parse_loop.simps) (simp add: small_end [OF assms] eof_lexem_def lexem_empty_def)
  then have "parse_loop tiny_engine glx (small_scanner 0) 1 grammar_parser_new = returnR (small_parser3 ''y'' small_lexer Init, 1)"
    by (simp del: One_nat_def add: line step [OF small_token_S [OF assms] _ small_parse(1)] step [OF small_token_equal [OF assms] _ small_parse(2)]
        step [OF small_token_a [OF assms] _ small_parse(3)] step [OF small_token_semicolon [OF assms] _ small_parse(4)]
        step [OF small_token_name [OF assms] _ small_parse(5)] step [OF small_token_colon [OF assms] _ small_parse(6)]
        step [OF small_token_string [OF assms] _ small_parse(7)] step [OF small_token_last [OF assms] _ small_parse(8)])
  moreover have "scanner_new small_grammar = small_scanner 0" by (simp add: scanner_new_def small_scanner_def)
  ultimately show ?thesis by simp
qed

text \<open>The language of the example.\<close>

definition small_language :: language_def where
  "small_language =
     \<lparr>ld_language = [], ld_typesystem = [], ld_cmdline = [], ld_lexer = \<lparr>lx_namelist = [''a''], lx_id2keyword = [False, False]\<rparr>,
      ld_prodlist = [\<lparr>pd_left = \<lparr>nd_type = NonTerminal, nd_index = 1, nd_name = ''S'', nd_symbol = True\<rparr>,
        pd_right = [\<lparr>nd_type = Terminal, nd_index = 1, nd_name = ''a'', nd_symbol = True\<rparr>],
        pd_priority = no_priority, pd_callidx = 0, pd_scope = NoScope, pd_line = 1\<rparr>],
      ld_calls = [], ld_nonterminals = [''S'']\<rparr>"

lemma small_finish: "finish_grammar (small_parser3 ''y'' small_lexer Init) = returnR (small_language, small_lexer)"
  by (simp add: finish_grammar_def small_parser3_def small_parser2_def small_lexer_def small_production_def grammar_parser_new_def
      label_prods_def label_prod_def label_element_def lexem_id_def Let_def check_reachable_def reachable_step_def check_start_def
      max_nonterminal_def shift_nonterminal_def check_duplicate_def mk_production_def_def mk_node_def_def define_as_terminal_def define_as_nonterminal_def
      small_language_def lexer_names_of_def)

lemma small_parsed: "parse_language_def tiny_engine small_grammar = returnR (small_language, small_lexer)"
proof -
  obtain glx where glx: "grammar_lexer tiny_engine = returnR glx" "is_grammar_lexer glx"
    using grammar_lexer_tables [OF tiny_grammar_ok] by (auto simp: is_grammar_lexer_def)
  show ?thesis using glx(1) small_parse_loop [OF glx(2)] small_finish
    by (simp add: parse_language_def_def)
qed

definition small_automaton :: automaton where
  "small_automaton = \<lparr>am_language = [], am_typesystem = [], am_cmdline = [],
     am_lexer = \<lparr>lx_namelist = [''a''], lx_id2keyword = [False, False]\<rparr>,
     am_actions = [(ActionKey 1 1, Action Shift NoScope 2 0 0), (ActionKey 2 0, Action Accept NoScope 1 0 1)],
     am_gotos = [], am_calls = [], am_nonterminals = [''S'']\<rparr>"

definition source_lexem :: lexem where
  "source_lexem = \<lparr>lm_name = ''a'', lm_value = ''y'', lm_id = 1, lm_line = 1\<rparr>"

definition source_scanner :: "nat \<Rightarrow> scanner" where
  "source_scanner pos = \<lparr>sn_src = ''y'', sn_pos = pos, sn_line = 1, sn_indentstk = [], sn_consumed = False\<rparr>"

lemma small_build: "build id small_language [] empty_automaton = returnR (small_automaton, [])"
  by code_simp

lemma small_fits: "follow_sets_fit (ld_prodlist small_language)"
  by code_simp

lemma source_next:
  "lexer_next tiny_engine small_lexer (source_scanner 0) = returnR (source_lexem, source_scanner 1)"
  "lexer_next tiny_engine small_lexer (source_scanner 1) = returnR (eof_lexem 1, source_scanner 1)"
  unfolding lexer_next_def
  by (subst lexer_next_view.simps, simp add: lexer_iteration_def lexer_take_def source_scanner_def small_lexer_def source_lexem_def tiny_engine_def
      def_match_def multimap_equal_range_def vec_at_def match_eoln_comment_def match_bracket_comment_def sn_rest_def count_newlines_def blank_def
      c_str_def deref_def nul_def newline_def byte_def scanner_next_def string_pattern_def sq_def bs_def)+

lemma source_feed:
  "\<exists>ctx. feed_loop small_automaton source_lexem compiler_context_new = returnR ctx \<and> stack_check ctx \<and>
    bindR (feed_loop small_automaton (eof_lexem 1) ctx) (\<lambda>ctx'. returnR (cc_nodes ctx')) = returnR [Lexem_Node ''a'' ''y'' 1]"
proof -
  let ?ctx = "case feed_loop small_automaton source_lexem compiler_context_new of Some (Inr ctx) \<Rightarrow> ctx | _ \<Rightarrow> compiler_context_new"
  have "feed_loop small_automaton source_lexem compiler_context_new = returnR ?ctx \<and> stack_check ?ctx \<and>
    bindR (feed_loop small_automaton (eof_lexem 1) ?ctx) (\<lambda>ctx'. returnR (cc_nodes ctx')) = returnR [Lexem_Node ''a'' ''y'' 1]"
    by code_simp
  then show ?thesis by blast
qed

lemma small_run: "run_compiler (lexer_next tiny_engine small_lexer) small_automaton (scanner_new ''y'') = returnR [Lexem_Node ''a'' ''y'' 1]"
proof -
  obtain ctx where ctx: "feed_loop small_automaton source_lexem compiler_context_new = returnR ctx" "stack_check ctx"
    "bindR (feed_loop small_automaton (eof_lexem 1) ctx) (\<lambda>ctx'. returnR (cc_nodes ctx')) = returnR [Lexem_Node ''a'' ''y'' 1]"
    using source_feed by blast
  have "lexem_loop (lexer_next tiny_engine small_lexer) small_automaton (source_scanner 1) ctx = returnR (eof_lexem 1, ctx)"
    by (subst lexem_loop.simps) (simp add: source_next(2) [simplified] eof_lexem_def lexem_empty_def)
  then have "lexem_loop (lexer_next tiny_engine small_lexer) small_automaton (source_scanner 0) compiler_context_new = returnR (eof_lexem 1, ctx)"
    using ctx(1,2) by (subst lexem_loop.simps) (simp add: source_next(1) source_lexem_def lexem_empty_def)
  moreover have "scanner_new ''y'' = source_scanner 0" by (simp add: scanner_new_def source_scanner_def)
  ultimately show ?thesis using ctx(3) by (simp add: run_compiler_def)
qed

subsection \<open>Properties\<close>

text \<open>
  C2: A language definition that was parsed is well formed for the automaton: the nonterminals are less than 256
  different names, the number of each left side and of each nonterminal on a right side is the position of its
  name, every other symbol of a right side is a terminal with the id its name has in the lexer of the language,
  the start symbol is on no right side, and calls exist. The lexer is one its operations make.
\<close>

theorem parsed_grammar_typed:
  assumes "parse_language_def re source = returnR (ld, lx)"
  shows "lexer_reachable re lx \<and> ld_lexer ld = lexer_names_of lx \<and> length (ld_nonterminals ld) < 256 \<and> distinct (ld_nonterminals ld) \<and>
    (\<forall>p \<in> set (ld_prodlist ld). prod_typed ld lx p)"
  using parsed_grammar(1-5) [OF assms] by blast

theorem parsed_grammar_typed_witness:
  "lexer_reachable tiny_engine small_lexer \<and> prod_typed small_language small_lexer (hd (ld_prodlist small_language))"
proof -
  have "hd (ld_prodlist small_language) \<in> set (ld_prodlist small_language)" by (simp add: small_language_def)
  then show ?thesis using parsed_grammar_typed [OF small_parsed] by blast
qed

text \<open>
  C36: The checks of the grammar hold in what was parsed: the first production is the only one of the start symbol,
  every nonterminal has a production, every other nonterminal with a name is on some right side, and no two
  productions are printed alike.
\<close>

theorem parsed_grammar_checked:
  assumes "parse_language_def re source = returnR (ld, lx)"
  shows "ld_prodlist ld \<noteq> [] \<and> pd_lhs (ld_prodlist ld ! 0) = 1 \<and> (\<forall>p \<in> set (tl (ld_prodlist ld)). pd_lhs p \<noteq> 1) \<and>
    (\<forall>A. 1 \<le> A \<and> A \<le> int (length (ld_nonterminals ld)) \<longrightarrow> A \<in> pd_lhs ` set (ld_prodlist ld) \<and>
       (A \<noteq> 1 \<and> ld_nonterminals ld ! nat (A - 1) \<noteq> [] \<longrightarrow> (\<exists>p \<in> set (ld_prodlist ld). NT A \<in> set (pd_rhs p)))) \<and>
    distinct (map prodstring (ld_prodlist ld))"
proof (intro conjI ballI allI impI)
  fix A
  assume "1 \<le> A \<and> A \<le> int (length (ld_nonterminals ld))"
  then show "A \<in> pd_lhs ` set (ld_prodlist ld)" using parsed_grammar(9) [OF assms] by blast
next
  fix A
  assume "1 \<le> A \<and> A \<le> int (length (ld_nonterminals ld))" "A \<noteq> 1 \<and> ld_nonterminals ld ! nat (A - 1) \<noteq> []"
  then show "\<exists>p \<in> set (ld_prodlist ld). NT A \<in> set (pd_rhs p)" using parsed_grammar(10) [OF assms, of A] by auto
qed (use parsed_grammar(6-8,11) [OF assms] in blast)+

theorem parsed_grammar_checked_witness:
  "pd_lhs (ld_prodlist small_language ! 0) = 1 \<and> 1 \<in> pd_lhs ` set (ld_prodlist small_language)"
  using parsed_grammar_checked [OF small_parsed] by (simp add: small_language_def)

lemma parsed_grammar_ok:
  assumes "parse_language_def re source = returnR (ld, lx)" "build_limits ld = returnR ()"
  shows "grammar_ok (ld_prodlist ld)"
proof -
  have small: "length (ld_nonterminals ld) < 256" by (rule parsed_grammar(3) [OF assms(1)])
  have "nof_terminals (ld_lexer ld) < 1024"
    using assms(2) by (auto simp: build_limits_def max_terminal_def shift_terminal_def split: if_splits)
  then have "node_resolved nd" if "element_typed ld lx nd" for nd
    using that small by (auto simp: element_typed_def nonterminal_is_def node_resolved_def)
  moreover have "0 < pd_lhs p \<and> pd_lhs p < 32768" if "prod_typed ld lx p" for p
    using that small by (auto simp: prod_typed_def nonterminal_is_def)
  ultimately show ?thesis using parsed_grammar(5,6) [OF assms(1)] unfolding grammar_ok_def prod_typed_def by blast
qed



end
