(* ===== verification/GrammarNumbers.thy ===== *)
theory GrammarNumbers
  imports GrammarTokens
begin

text \<open>
  Numbers and priorities in a grammar: what is printed for a priority is read back, within the limits of the
  types the code takes for it.
\<close>

lemma schar_digit: "n < 10 \<Longrightarrow> schar (char_of (48 + n)) = 48 + int n"
  by (simp add: schar_def byte_def)

lemma dec_nat_digits: "c \<in> set (dec_nat n) \<Longrightarrow> 48 \<le> schar c \<and> schar c \<le> 57"
proof (induction n rule: dec_nat.induct)
  case (1 n)
  show ?case
  proof (cases "n < 10")
    case True
    then have "c = char_of (48 + n)" using 1(2) by (simp add: dec_nat.simps)
    then show ?thesis using schar_digit [OF True] True by simp
  next
    case False
    then have "c \<in> set (dec_nat (n div 10)) \<or> c = char_of (48 + n mod 10)" using 1(2) by (subst (asm) dec_nat.simps) auto
    then show ?thesis using 1(1) [OF False] schar_digit [of "n mod 10"] by auto
  qed
qed

lemma dec_nat_not_Nil: "dec_nat n \<noteq> []"
  by (subst dec_nat.simps) simp

lemma string_to_int_dec: "int n \<le> int_max \<Longrightarrow> string_to_int_loop str (dec_nat n @ cs) 0 = string_to_int_loop str cs (int n)"
proof (induction n arbitrary: cs rule: dec_nat.induct)
  case (1 n)
  show ?case
  proof (cases "n < 10")
    case True
    then have "dec_nat n = [char_of (48 + n)]" by (simp add: dec_nat.simps)
    then show ?thesis using schar_digit [OF True] True by (simp add: Let_def int_max_def schar_def [of "CHR ''0''"] schar_def [of "CHR ''9''"] byte_def)
  next
    case False
    have "int (n div 10) * 10 + int (n mod 10) = int n" by (metis div_mult_mod_eq of_nat_add of_nat_mult of_nat_numeral)
    moreover have "int (n div 10) \<le> int_max" using 1(2) by linarith
    moreover have "dec_nat n = dec_nat (n div 10) @ [char_of (48 + n mod 10)]" using False by (subst dec_nat.simps) simp
    moreover have "n mod 10 \<le> 9" by linarith
    ultimately show ?thesis using 1(1) [OF False, of "char_of (48 + n mod 10) # cs"] 1(2) schar_digit [of "n mod 10"]
      by (simp add: Let_def schar_def [of "CHR ''0''"] schar_def [of "CHR ''9''"] byte_def)
  qed
qed

lemma convert_dec: "0 \<le> v \<Longrightarrow> v \<le> int_max \<Longrightarrow> convert_string_to_int (dec_int v) = returnR v"
  using string_to_int_dec [of "nat v" "dec_int v" "[]"] dec_nat_not_Nil [of "nat v"] by (simp add: convert_string_to_int_def dec_int_def)

lemma dec_not_assoc:
  assumes "0 \<le> v"
  shows "dec_int v \<noteq> []" "hd (dec_int v) \<noteq> CHR ''L''" "hd (dec_int v) \<noteq> CHR ''R''" "last (dec_int v) \<noteq> CHR ''L''" "last (dec_int v) \<noteq> CHR ''R''"
proof -
  have e: "dec_int v = dec_nat (nat v)" using assms by (simp add: dec_int_def)
  show ne: "dec_int v \<noteq> []" by (simp add: e dec_nat_not_Nil)
  have "schar (CHR ''L'') = 76" "schar (CHR ''R'') = 82" by (simp_all add: schar_def byte_def)
  then have "c \<noteq> CHR ''L'' \<and> c \<noteq> CHR ''R''" if "c \<in> set (dec_int v)" for c
    using dec_nat_digits [of c "nat v"] that unfolding e by fastforce
  then show "hd (dec_int v) \<noteq> CHR ''L''" "hd (dec_int v) \<noteq> CHR ''R''" "last (dec_int v) \<noteq> CHR ''L''" "last (dec_int v) \<noteq> CHR ''R''"
    using hd_in_set [OF ne] last_in_set [OF ne] by blast+
qed

lemma priority_check: "bindR (returnR (Priority (to_short v) a)) (\<lambda>rt. if pr_value rt \<ge> max_priority then throwR e else returnR rt) =
    (if to_short v < 32 then returnR (Priority (to_short v) a) else throwR e)"
  by simp

lemma priority_of_printed:
  assumes "0 \<le> v" "v \<le> int_max"
  shows "convert_string_to_priority (priority_tostring (Priority v a)) =
      (if to_short v < 32 then returnR (Priority (to_short v) a)
       else throwR (Error ComplexityMaxProductionPriorityInGrammarDef (priority_tostring (Priority v a))))"
  using dec_not_assoc [OF assms(1)]
  by (cases a) (simp_all add: convert_string_to_priority_def priority_tostring_def assoc_of_char_def convert_dec [OF assms])

lemma priority_of_suffix:
  assumes "0 \<le> v" "v \<le> int_max"
  shows "convert_string_to_priority (dec_int v @ ''L'') =
      (if to_short v < 32 then returnR (Priority (to_short v) LeftAssoc)
       else throwR (Error ComplexityMaxProductionPriorityInGrammarDef (dec_int v @ ''L'')))"
  using dec_not_assoc [OF assms(1)]
  by (simp add: convert_string_to_priority_def assoc_of_char_def convert_dec [OF assms])



end
