(* ===== verification/ErrorText.thy ===== *)
theory ErrorText
  imports Prelude
begin

text \<open>
  \<open>Error\<close> of \<open>src/error.hpp\<close> and \<open>src/error.cpp\<close>: the text of an exception and the way back from the text
  to the exception, which \<open>lua_run_compiler.cpp\<close> takes for errors that went through Lua.

  A C string is the list of its characters before the terminator. \<open>std::strerror\<close> is a parameter.
\<close>

subsection \<open>Codes and messages\<close>

text \<open>The numbers of the codes that the other theories use.\<close>

fun code_number :: "error_code \<Rightarrow> int" where
  "code_number LogicError = 402"
| "code_number IllegalFirstCharacterInLexer = 431"
| "code_number SyntaxErrorInLexer = 432"
| "code_number ArrayBoundReadInLexer = 433"
| "code_number InvalidRegexInLexer = 434"
| "code_number KeywordDefinedTwiceInLexer = 435"
| "code_number CompiledSourceTooComplex = 437"
| "code_number TooManyTypeArguments = 450"
| "code_number DuplicateDefinition = 452"
| "code_number BadRelationWeight = 453"
| "code_number BadRelationTag = 454"
| "code_number InvalidHandle = 455"
| "code_number InvalidBoundary = 456"
| "code_number AmbiguousReductionDefinitions = 462"
| "code_number ScopeHierarchyError = 463"
| "code_number InvalidReductionDefinition = 464"
| "code_number PriorityConflictInGrammarDef = 557"
| "code_number NoAcceptStatesInGrammarDef = 558"
| "code_number ShiftReduceConflictInGrammarDef = 561"
| "code_number ReduceReduceConflictInGrammarDef = 562"
| "code_number ShiftShiftConflictInGrammarDef = 563"
| "code_number ComplexityMaxStateInGrammarDef = 571"
| "code_number ComplexityMaxNofProductionsInGrammarDef = 572"
| "code_number ComplexityMaxProductionLengthInGrammarDef = 573"
| "code_number ComplexityMaxProductionPriorityInGrammarDef = 574"
| "code_number ComplexityMaxTerminalInGrammarDef = 576"
| "code_number ComplexityLR1FollowSetsInGrammarDef = 577"
| "code_number UnexpectedTokenNotOneOf = 601"
| "code_number LanguageAutomatonCorrupted = 602"
| "code_number LanguageAutomatonMissingGoto = 603"
| "code_number LanguageAutomatonUnexpectedAccept = 604"
| "code_number BadCharacterInGrammarDef = 501"
| "code_number ValueOutOfRangeInGrammarDef = 502"
| "code_number UnexpectedEofInGrammarDef = 503"
| "code_number UnexpectedTokenInGrammarDef = 504"
| "code_number DuplicateScopeInGrammarDef = 505"
| "code_number NestedCallArgumentStructureInGrammarDef = 506"
| "code_number DuplicateProductionInGrammarDef = 508"
| "code_number PriorityDefNotForLexemsInGrammarDef = 521"
| "code_number UnexpectedEndOfRuleInGrammarDef = 531"
| "code_number CommandNumberOfArgumentsInGrammarDef = 541"
| "code_number CommandNameUnknownInGrammarDef = 542"
| "code_number ConflictingCommandInGrammarDef = 544"
| "code_number DefinedAsTerminalAndNonterminalInGrammarDef = 551"
| "code_number UnresolvedIdentifierInGrammarDef = 552"
| "code_number UnreachableNonTerminalInGrammarDef = 553"
| "code_number StartSymbolReferencedInGrammarDef = 554"
| "code_number StartSymbolDefinedTwiceInGrammarDef = 555"
| "code_number EmptyGrammarDef = 556"
| "code_number ComplexityMaxNonterminalInGrammarDef = 575"
| "code_number UsingReservedAttributeNameInGrammarDef = 507"

text \<open>The messages of \<open>code2String\<close>.\<close>

definition messages :: "(int \<times> string) list" where
  "messages =
    [(0, ''''),
     (400, ''memory allocation error''),
     (401, ''internal buffer overflow error (some string is not fitting into a local buffer of fixed maximum size)''),
     (402, ''Logic error''),
     (403, ''Runtime error exception''),
     (404, ''Unexpected exception''),
     (405, ''Error serializing a lua data structure''),
     (407, ''Expected string as argument''),
     (408, ''Expected integer as argument''),
     (409, ''Expected non negative integer as argument''),
     (410, ''Expected positive integer as argument''),
     (411, ''Expected boolean value as argument''),
     (412, ''Expected floating point number as argument''),
     (413, ''Expected table as argument''),
     (414, ''Expected argument to be a structure (pair of non negative integers, unsigned integer range)''),
     (415, ''Expected argument to be a list of type,constructor pairs (named or positional)''),
     (416, ''Expected argument to be a list of strings''),
     (417, ''Expected argument to be a type or a type/constructor pair''),
     (418, ''Expected argument to be a list of types (integers) or a list of type/constructor pairs''),
     (419, ''Expected argument to be a list of types (integers) or type,constructor pairs''),
     (420, ''Expected argument to be not nil''),
     (421, ''Too few arguments''),
     (422, ''Too many arguments''),
     (423, ''Compile error''),
     (431, ''Bad character in a regular expression passed to the lexer''),
     (432, ''Syntax error in the lexer definition''),
     (433, ''Logic error (array bound read) in the lexer definition''),
     (434, ''Bad regular expression definition for the lexer''),
     (435, ''Keyword defined twice for the lexer''),
     (436, ''Too many instances created (internal counter overflow)''),
     (437, ''Too complex source file (counter overflow)''),
     (447, ''Bad Mewa version''),
     (448, ''Missing Mewa version''),
     (449, ''Incompatible Mewa major version. You need a higher version of the Mewa Lua module''),
     (450, ''Too many arguments in type definition''),
     (451, ''Priority value out of range''),
     (452, ''Duplicate definition''),
     (453, ''Bad weight <= 0.0 given to relation''),
     (454, ''Bad value tor tag attached to relation, must be an unsigned integer number in {1..32}''),
     (455, ''Invalid handle (constructor,type,object) assigned. Expected to be a positive/non negative integer number''),
     (456, ''Invalid processing boundary value. Expected to be a non negative number''),
     (462, ''Ambiguous definitions of reductions''),
     (463, ''Error in scope hierarchy: Defined overlapping scopes without one including the other''),
     (464, ''Invalid reduction definition''),
     (501, ''Bad character in the grammar definition''),
     (502, ''Value out of range in the grammar definition''),
     (503, ''Unexpected EOF in the grammar definition''),
     (504, ''Unexpected token in the grammar definition''),
     (505, ''More than one scope marker '{}' of '>>' not allowed in a call definition''),
     (506, ''Nested structures as AST node function arguments are not allowed''),
     (507, ''Using reserved attribute in comment (identifier with prefix '@')''),
     (508, ''Duplicate production in the grammar definition''),
     (521, ''Priority definition for lexems not implemented''),
     (531, ''Unexpected end of rule in the grammar definition''),
     (532, ''Some internal pattern string mapping error in the grammar definition''),
     (541, ''Wrong number of arguments for command (followed by '%') in the grammar definition''),
     (542, ''Unknown command (followed by '%') in the grammar definition''),
     (543, ''Mandatory command is missing in grammar definition''),
     (544, ''Conflicting commands in grammar definition''),
     (551, ''Identifier defined as nonterminal and as lexem in the grammar definition not allowed''),
     (552, ''Unresolved identifier in the grammar definition''),
     (553, ''Unreachable nonteminal in the grammar definition''),
     (554, ''Start symbol referenced on the right side of a rule in the grammar definition''),
     (555, ''Start symbol defined on the left side of more than one rule of the grammar definition''),
     (556, ''The grammar definition is empty''),
     (557, ''Priority definition conflict in the grammar definition''),
     (558, ''No accept states in the grammar definition''),
     (561, ''SHIFT/REDUCE conflict in the grammar definition''),
     (562, ''REDUCE/REDUCE conflict in the grammar definition''),
     (563, ''SHIFT/SHIFT conflict in the grammar definition''),
     (564, ''Conflicts detected in the grammar definition. No output written.''),
     (571, ''To many states in the resulting tables of the grammar''),
     (572, ''Too many productions defined in the grammar''),
     (573, ''To many productions in the resulting tables of the grammar''),
     (574, ''Priority value assigned to production exceeds maximum value allowed''),
     (575, ''To many nonterminals in the resulting tables of the grammar''),
     (576, ''To many terminals (lexems) in the resulting tables of the grammar''),
     (577, ''To many distinct FOLLOW sets of terminals (lexems) in the resulting tables of the grammar''),
     (581, ''Bad key encountered in table generated by Mewa grammar compiler''),
     (582, ''Bad value encountered in table generated by Mewa grammar compiler''),
     (583, ''Function defined in Lua call table is undefined''),
     (584, ''Function context argument defined in Lua call table is undefined''),
     (585, ''Bad token on the Lua stack of the compiler''),
     (586, ''Item found with no Lua function defined for collecting it''),
     (591, ''Lua runtime error (ERRRUN)''),
     (592, ''Lua memory allocation error (ERRMEM)''),
     (593, ''Lua error handler error (ERRERR)''),
     (594, ''Lua error handler error (unknown error)''),
     (595, ''Lua stack out of memory''),
     (596, ''Userdata argument of this call is invalid''),
     (601, ''Syntax error, unexpected token (expected one of {...})''),
     (602, ''Logic error, the automaton for parsing the language is corrupt''),
     (603, ''Logic error, the automaton has no goto defined for a follow symbol''),
     (604, ''Logic error, got into an unexpected accept state'')]"

definition code2string :: "(int \<Rightarrow> string) \<Rightarrow> int \<Rightarrow> string" where
  "code2string strerror code =
     (if code \<noteq> 0 \<and> code < 300 then strerror code
      else case map_of messages code of None \<Rightarrow> ''Unknown error'' | Some m \<Rightarrow> m)"

subsection \<open>The text of an error\<close>

definition until_nul :: "string \<Rightarrow> string" where
  "until_nul s = takeWhile (\<lambda>c. c \<noteq> CHR 0x00) s"

text \<open>\<open>Location\<close> keeps 79 characters of the file name.\<close>

datatype location = Location (loc_file: string) (loc_line: int)

definition mk_location :: "string \<Rightarrow> int \<Rightarrow> location" where
  "mk_location filename line = Location (until_nul (take 79 filename)) line"

definition line_location :: "int \<Rightarrow> location" where
  "line_location line = Location [] line"

definition error_head :: "(int \<Rightarrow> string) \<Rightarrow> int \<Rightarrow> location \<Rightarrow> string" where
  "error_head strerror code loc =
     (let quote = CHR 0x22; line = dec_int (loc_line loc);
          message = CHR ''#'' # dec_int code @ '' '' @ quote # code2string strerror code @ [quote] in
      if code = 423 then
        (if loc_file loc \<noteq> [] then ''Error at line '' @ line @ '' in file '' @ quote # loc_file loc @ [quote]
         else ''Error at line '' @ line)
      else if code = 0 then []
      else if loc_line loc \<noteq> 0 then
        (if loc_file loc \<noteq> [] then message @ '' at line '' @ line @ '' in file '' @ quote # loc_file loc @ [quote]
         else message @ '' at line '' @ line)
      else message)"

text \<open>\<open>map2string\<close>: the message in a buffer of 256 bytes, then the argument, which may be a null pointer.\<close>

definition map2string :: "(int \<Rightarrow> string) \<Rightarrow> int \<Rightarrow> string option \<Rightarrow> location \<Rightarrow> string" where
  "map2string strerror code param loc =
     take 255 (error_head strerror code loc) @
     (case param of None \<Rightarrow> [] | Some p \<Rightarrow> if p \<noteq> [] then '': '' @ p else [])"

definition map2string_view :: "(int \<Rightarrow> string) \<Rightarrow> int \<Rightarrow> string \<Rightarrow> location \<Rightarrow> string" where
  "map2string_view strerror code param loc = map2string strerror code (Some (until_nul (take 511 param))) loc"

record mewa_error =
  me_what :: string
  me_code :: int
  me_location :: location

definition error_new :: "(int \<Rightarrow> string) \<Rightarrow> int \<Rightarrow> string option \<Rightarrow> location \<Rightarrow> mewa_error" where
  "error_new strerror code param loc =
     \<lparr>me_what = map2string strerror code param loc, me_code = code, me_location = loc\<rparr>"

definition error_of_string :: "(int \<Rightarrow> string) \<Rightarrow> int \<Rightarrow> string \<Rightarrow> location \<Rightarrow> mewa_error" where
  "error_of_string strerror code param loc = error_new strerror code (Some (until_nul param)) loc"

definition error_of_view :: "(int \<Rightarrow> string) \<Rightarrow> int \<Rightarrow> string \<Rightarrow> location \<Rightarrow> mewa_error" where
  "error_of_view strerror code param loc =
     \<lparr>me_what = map2string_view strerror code param loc, me_code = code, me_location = loc\<rparr>"

text \<open>\<open>arg\<close>: what follows the first \<open>": "\<close> of the text, a null pointer if there is none.\<close>

fun after_colon :: "string \<Rightarrow> string option" where
  "after_colon (c # d # cs) = (if c = CHR '':'' \<and> d = CHR '' '' then Some cs else after_colon (d # cs))"
| "after_colon cs = None"

definition error_arg :: "mewa_error \<Rightarrow> string option" where
  "error_arg e = after_colon (me_what e)"

definition error_copy :: "(int \<Rightarrow> string) \<Rightarrow> mewa_error \<Rightarrow> mewa_error" where
  "error_copy strerror e = error_new strerror (me_code e) (error_arg e) (me_location e)"

definition error_at :: "(int \<Rightarrow> string) \<Rightarrow> mewa_error \<Rightarrow> location \<Rightarrow> mewa_error" where
  "error_at strerror e loc = error_new strerror (me_code e) (error_arg e) loc"

subsection \<open>Reading a text\<close>

text \<open>A number; \<open>None\<close> for a number that does not fit an \<open>int\<close>, where C++ leaves the sum undefined.\<close>

fun parse_integer_loop :: "int \<Rightarrow> string \<Rightarrow> (int \<times> string) option" where
  "parse_integer_loop rt [] = Some (rt, [])"
| "parse_integer_loop rt (c # cs) =
     (if (of_char c :: nat) \<ge> 48 \<and> (of_char c :: nat) \<le> 57 then
        (let n = rt * 10 + (of_char c - 48) in if n > int_max then None else parse_integer_loop n cs)
      else Some (rt, c # cs))"

definition parse_integer :: "string \<Rightarrow> (int \<times> string) option" where
  "parse_integer si = parse_integer_loop 0 si"

fun parse_string_at :: "string \<Rightarrow> (string \<times> string) option" where
  "parse_string_at [] = None"
| "parse_string_at (eb # si) =
     Some (takeWhile (\<lambda>c. c \<noteq> eb) si, case dropWhile (\<lambda>c. c \<noteq> eb) si of [] \<Rightarrow> [] | _ # rest \<Rightarrow> rest)"

definition error_skip_spaces :: "string \<Rightarrow> string" where
  "error_skip_spaces si = dropWhile (\<lambda>c. (of_char c :: nat) \<le> 32) si"

definition skip_until :: "string \<Rightarrow> char \<Rightarrow> string \<times> bool" where
  "skip_until si eb = (let rest = dropWhile (\<lambda>c. c \<noteq> eb) si in (rest, rest \<noteq> []))"

text \<open>
  The comparison \<open>std::memcmp\<close> of the first \<open>n\<close> characters, none of them a terminator, with a C string: a longer
  text differs from a shorter C string at the terminator.
\<close>

definition memcmp_equal :: "string \<Rightarrow> string \<Rightarrow> nat \<Rightarrow> bool" where
  "memcmp_equal s m n \<longleftrightarrow> n \<le> length m \<and> take n s = take n m"

datatype parse_state = StateInit | StateParseMessage | StateParseEndOfMessage | StateParseLineNo
  | StateParseFileName | StateParseArgument | StateEnd

record error_parser =
  ep_state :: parse_state
  ep_ei :: string
  ep_msgstart :: string
  ep_code :: int
  ep_line :: int
  ep_filename :: string
  ep_param :: "string option"

text \<open>An error that is not recognized: the whole text as the argument of a runtime exception.\<close>

definition ep_give_up :: "string \<Rightarrow> error_parser \<Rightarrow> error_parser" where
  "ep_give_up errstr ep = ep\<lparr>ep_code := 403, ep_param := Some errstr, ep_state := StateEnd\<rparr>"

definition parse_error_step :: "(int \<Rightarrow> string) \<Rightarrow> string \<Rightarrow> error_parser \<Rightarrow> error_parser option" where
  "parse_error_step strerror errstr ep =
     (let ei = ep_ei ep in
      case ep_state ep of
        StateInit \<Rightarrow>
          if take 1 ei = ''#'' then
            do { (cd, rest) \<leftarrow> parse_integer (drop 1 ei);
                 let rest = error_skip_spaces rest;
                 Some (if cd < 0 \<or> cd > 32767 then ep_give_up errstr (ep\<lparr>ep_ei := rest\<rparr>)
                       else ep\<lparr>ep_ei := rest, ep_code := cd, ep_state := StateParseMessage\<rparr>) }
          else if length ei > 14 \<and> take 14 ei = ''Error at line '' then
            Some (ep\<lparr>ep_code := 423, ep_ei := drop 6 ei, ep_state := StateParseLineNo\<rparr>)
          else Some (ep\<lparr>ep_param := Some errstr, ep_code := 403, ep_state := StateParseLineNo\<rparr>)
      | StateParseMessage \<Rightarrow>
          Some (if take 1 ei = [CHR 0x22]
                then ep\<lparr>ep_ei := drop 1 ei, ep_msgstart := drop 1 ei, ep_state := StateParseEndOfMessage\<rparr>
                else ep_give_up errstr ep)
      | StateParseEndOfMessage \<Rightarrow>
          (case skip_until ei (CHR 0x22) of (rest, found) \<Rightarrow>
             Some (if \<not> found then ep_give_up errstr (ep\<lparr>ep_ei := rest\<rparr>)
                   else if memcmp_equal (ep_msgstart ep) (code2string strerror (ep_code ep))
                             (length (ep_msgstart ep) - length rest)
                   then ep\<lparr>ep_ei := error_skip_spaces (drop 1 rest), ep_state := StateParseLineNo\<rparr>
                   else ep\<lparr>ep_ei := drop 1 rest\<rparr>))
      | StateParseLineNo \<Rightarrow>
          if length ei > 8 \<and> take 8 ei = ''at line '' then
            do { (line, rest) \<leftarrow> parse_integer (drop 8 ei);
                 Some (if take 1 rest = '' ''
                       then ep\<lparr>ep_line := line, ep_ei := drop 1 rest, ep_state := StateParseFileName\<rparr>
                       else ep\<lparr>ep_line := line, ep_ei := rest, ep_state := StateParseArgument\<rparr>) }
          else Some (ep\<lparr>ep_state := StateParseArgument\<rparr>)
      | StateParseFileName \<Rightarrow>
          if length ei > 8 \<and> take 8 ei = ''in file '' then
            (let ei = drop 8 ei in
             if take 1 ei = [CHR 0x22] \<or> take 1 ei = [CHR 0x27] then
               do { (filename, rest) \<leftarrow> parse_string_at ei;
                    Some (ep\<lparr>ep_filename := filename, ep_ei := rest, ep_state := StateParseArgument\<rparr>) }
             else Some (ep\<lparr>ep_ei := ei, ep_state := StateParseArgument\<rparr>))
          else Some (ep\<lparr>ep_state := StateParseArgument\<rparr>)
      | StateParseArgument \<Rightarrow>
          Some (if take 2 ei = '': '' then ep\<lparr>ep_param := Some (drop 2 ei), ep_state := StateEnd\<rparr>
                else if ei = [] then ep\<lparr>ep_param := Some [], ep_state := StateEnd\<rparr>
                else ep\<lparr>ep_state := StateEnd\<rparr>)
      | StateEnd \<Rightarrow> Some ep)"

partial_function (option) parse_error_loop :: "(int \<Rightarrow> string) \<Rightarrow> string \<Rightarrow> error_parser \<Rightarrow> error_parser option" where
  "parse_error_loop strerror errstr ep =
     (if ep_state ep = StateEnd then Some ep
      else do { ep' \<leftarrow> parse_error_step strerror errstr ep; parse_error_loop strerror errstr ep' })"

declare parse_error_loop.simps [code]

definition parser_result :: "(int \<Rightarrow> string) \<Rightarrow> error_parser \<Rightarrow> mewa_error" where
  "parser_result strerror ep =
     (if ep_filename ep \<noteq> []
      then error_new strerror (ep_code ep) (ep_param ep) (mk_location (ep_filename ep) (ep_line ep))
      else error_new strerror (ep_code ep) (ep_param ep) (line_location (ep_line ep)))"

definition parse_error :: "(int \<Rightarrow> string) \<Rightarrow> string \<Rightarrow> mewa_error option" where
  "parse_error strerror errstr =
     (let ep = \<lparr>ep_state = StateInit, ep_ei = errstr, ep_msgstart = [], ep_code = 0, ep_line = 0, ep_filename = [], ep_param = None\<rparr> in
      map_option (parser_result strerror) (if errstr \<noteq> [] then parse_error_loop strerror errstr ep else Some ep))"

subsection \<open>Facts about texts\<close>

lemma dec_nat_number:
  "c \<in> set (dec_nat n) \<Longrightarrow> 48 \<le> (of_char c :: nat) \<and> (of_char c :: nat) \<le> 57"
proof (induction n rule: dec_nat.induct)
  case (1 n)
  have d: "48 \<le> (of_char (char_of (48 + m :: nat)) :: nat) \<and> (of_char (char_of (48 + m :: nat)) :: nat) \<le> 57" if "m < 10" for m
    using that by simp
  show ?case
  proof (cases "n < 10")
    case True
    then show ?thesis using 1(2) d [of n] by (simp add: dec_nat.simps)
  next
    case False
    then have "c \<in> set (dec_nat (n div 10)) \<or> c = char_of (48 + n mod 10)" using 1(2) by (subst (asm) dec_nat.simps) auto
    then show ?thesis using 1(1) [OF False] d [of "n mod 10"] by auto
  qed
qed

lemma dec_int_number: "0 \<le> i \<Longrightarrow> c \<in> set (dec_int i) \<Longrightarrow> 48 \<le> (of_char c :: nat) \<and> (of_char c :: nat) \<le> 57"
  using dec_nat_number [of c "nat i"] by (simp add: dec_int_def)

lemma dec_int_no_quote_colon:
  assumes "0 \<le> i"
  shows "CHR 0x22 \<notin> set (dec_int i)" "CHR '':'' \<notin> set (dec_int i)"
  using dec_int_number [OF assms, of "CHR 0x22"] dec_int_number [OF assms, of "CHR '':''"] by auto

lemma length_dec_nat: "n < 10 ^ k \<Longrightarrow> 0 < k \<Longrightarrow> length (dec_nat n) \<le> k"
proof (induction k arbitrary: n)
  case (Suc k)
  show ?case
  proof (cases "n < 10")
    case True
    then show ?thesis by (simp add: dec_nat.simps)
  next
    case False
    then have "length (dec_nat n) = Suc (length (dec_nat (n div 10)))" by (subst dec_nat.simps) simp
    moreover have "n div 10 < 10 ^ k" using Suc(2) by (simp add: less_mult_imp_div_less)
    moreover have "0 < k" using False Suc(2) by (cases k) auto
    ultimately show ?thesis using Suc(1) [of "n div 10"] by simp
  qed
qed simp

lemma length_dec_int: "0 \<le> i \<Longrightarrow> i \<le> int_max \<Longrightarrow> length (dec_int i) \<le> 10"
  using length_dec_nat [of "nat i" 10] by (simp add: dec_int_def int_max_def)

lemma dec_int_not_Nil: "dec_int i \<noteq> []"
  by (simp add: dec_int_def dec_nat.simps)

lemma digit_value: "m < 10 \<Longrightarrow> (of_char (char_of (48 + m :: nat)) :: int) = 48 + int m"
  using of_nat_of_char [of "char_of (48 + m)", where 'a = int] by simp

lemma parse_integer_loop_dec:
  "int n \<le> int_max \<Longrightarrow> parse_integer_loop 0 (dec_nat n @ cs) = parse_integer_loop (int n) cs"
proof (induction n arbitrary: cs rule: dec_nat.induct)
  case (1 n)
  show ?case
  proof (cases "n < 10")
    case True
    then show ?thesis by (simp add: dec_nat.simps int_max_def Let_def digit_value)
  next
    case False
    have "int (n div 10) * 10 + int (n mod 10) = int n" by (metis div_mult_mod_eq of_nat_add of_nat_mult of_nat_numeral)
    moreover have "int (n div 10) \<le> int_max" using 1(2) by linarith
    moreover have "dec_nat n = dec_nat (n div 10) @ [char_of (48 + n mod 10)]" using False by (subst dec_nat.simps) simp
    moreover have "n mod 10 \<le> 9" by linarith
    ultimately show ?thesis using 1(1) [OF False, of "char_of (48 + n mod 10) # cs"] 1(2) digit_value [of "n mod 10"] by (simp add: Let_def)
  qed
qed

definition no_digit_first :: "string \<Rightarrow> bool" where
  "no_digit_first cs \<longleftrightarrow> cs = [] \<or> (of_char (hd cs) :: nat) < 48 \<or> 57 < (of_char (hd cs) :: nat)"

lemma parse_integer_dec:
  "0 \<le> i \<Longrightarrow> i \<le> int_max \<Longrightarrow> no_digit_first cs \<Longrightarrow> parse_integer (dec_int i @ cs) = Some (i, cs)"
  using parse_integer_loop_dec [of "nat i" cs] by (cases cs) (auto simp: parse_integer_def dec_int_def no_digit_first_def)

lemma takeWhile_other: "x \<notin> set xs \<Longrightarrow> takeWhile (\<lambda>c. c \<noteq> x) (xs @ x # ys) = xs"
  by (induction xs) auto

lemma dropWhile_other: "x \<notin> set xs \<Longrightarrow> dropWhile (\<lambda>c. c \<noteq> x) (xs @ x # ys) = x # ys"
  by (induction xs) auto

lemma after_colon_skip: "CHR '':'' \<notin> set a \<Longrightarrow> after_colon (a @ b) = after_colon b"
proof (induction a)
  case (Cons c a)
  then show ?case by (cases "a @ b") auto
qed simp

lemma after_colon_file: "after_colon a = None \<Longrightarrow> b \<noteq> [] \<Longrightarrow> hd b \<noteq> CHR '' '' \<Longrightarrow> after_colon (a @ b) = after_colon b"
proof (induction a)
  case (Cons c a)
  then show ?case by (cases a; cases b) (auto split: if_splits)
qed simp

subsection \<open>The table of messages\<close>

definition message_ok :: "int \<times> string \<Rightarrow> bool" where
  "message_ok cm \<longleftrightarrow> (fst cm = 0 \<or> 400 \<le> fst cm \<and> fst cm \<le> 604) \<and> list_all (\<lambda>c. c \<noteq> CHR 0x22) (snd cm) \<and>
     length (snd cm) \<le> 104 \<and> (fst cm = 463 \<or> list_all (\<lambda>c. c \<noteq> CHR '':'') (snd cm))"

lemma messages_facts: "list_all message_ok messages"
  by code_simp

lemma messages_scope: "map_of messages 463 =
    Some (''Error in scope hierarchy'' @ '': '' @ ''Defined overlapping scopes without one including the other'')"
  by (simp add: messages_def)

definition listed :: "int \<Rightarrow> bool" where
  "listed code \<longleftrightarrow> code \<noteq> 0 \<and> code \<in> set (map fst messages)"

lemma message_codes: "map fst messages =
     [0, 400, 401, 402, 403, 404, 405, 407, 408, 409, 410, 411, 412, 413, 414, 415, 416, 417, 418, 419, 420, 421,
      422, 423, 431, 432, 433, 434, 435, 436, 437, 447, 448, 449, 450, 451, 452, 453, 454, 455, 456, 462, 463, 464,
      501, 502, 503, 504, 505, 506, 507, 508, 521, 531, 532, 541, 542, 543, 544, 551, 552, 553, 554, 555, 556, 557,
      558, 561, 562, 563, 564, 571, 572, 573, 574, 575, 576, 577, 581, 582, 583, 584, 585, 586, 591, 592, 593, 594,
      595, 596, 601, 602, 603, 604]"
  by (simp add: messages_def)

lemma code_number_listed: "listed (code_number c)"
  unfolding listed_def message_codes by (cases c) simp_all

lemma listed_map_of: "listed code \<Longrightarrow> \<exists>m. map_of messages code = Some m"
  by (auto simp: listed_def weak_map_of_SomeI)

lemma listedD:
  assumes "listed code"
  shows "400 \<le> code" "code \<le> 604" "CHR 0x22 \<notin> set (code2string se code)" "length (code2string se code) \<le> 104"
    "code \<noteq> 463 \<Longrightarrow> CHR '':'' \<notin> set (code2string se code)"
proof -
  obtain m where m: "map_of messages code = Some m" "code \<noteq> 0" using listed_map_of [OF assms] assms by (auto simp: listed_def)
  then have "(code, m) \<in> set messages" by (simp add: map_of_SomeD)
  then have f: "(code = 0 \<or> 400 \<le> code \<and> code \<le> 604) \<and> CHR 0x22 \<notin> set m \<and> length m \<le> 104 \<and> (code = 463 \<or> CHR '':'' \<notin> set m)"
    using messages_facts by (fastforce simp: list_all_iff message_ok_def)
  then have "code2string se code = m" using m by (simp add: code2string_def)
  then show "400 \<le> code" "code \<le> 604" "CHR 0x22 \<notin> set (code2string se code)" "length (code2string se code) \<le> 104"
    "code \<noteq> 463 \<Longrightarrow> CHR '':'' \<notin> set (code2string se code)" using f m(2) by auto
qed

subsection \<open>The parts of a text\<close>

text \<open>The place and the argument as \<open>map2string\<close> writes them.\<close>

definition place_text :: "location \<Rightarrow> string" where
  "place_text loc = ''at line '' @ dec_int (loc_line loc) @
     (if loc_file loc \<noteq> [] then '' in file '' @ CHR 0x22 # loc_file loc @ [CHR 0x22] else [])"

definition arg_text :: "string option \<Rightarrow> string" where
  "arg_text param = (case param of None \<Rightarrow> [] | Some p \<Rightarrow> if p \<noteq> [] then '': '' @ p else [])"

definition message_text :: "(int \<Rightarrow> string) \<Rightarrow> int \<Rightarrow> string" where
  "message_text strerror code = CHR ''#'' # dec_int code @ '' '' @ CHR 0x22 # code2string strerror code @ [CHR 0x22]"

text \<open>Locations whose file name fits the buffer and whose line is not negative.\<close>

definition location_ok :: "location \<Rightarrow> bool" where
  "location_ok loc \<longleftrightarrow> length (loc_file loc) \<le> 79 \<and> CHR 0x00 \<notin> set (loc_file loc) \<and> 0 \<le> loc_line loc \<and> loc_line loc \<le> int_max"

lemma error_head_parts: "listed code \<Longrightarrow> error_head strerror code loc =
    (if code = 423 then ''Error '' @ place_text loc
     else message_text strerror code @ (if loc_line loc \<noteq> 0 then '' '' @ place_text loc else []))"
  by (simp add: error_head_def place_text_def message_text_def Let_def listed_def)

lemma length_error_head:
  assumes "listed code" "location_ok loc"
  shows "length (error_head strerror code loc) \<le> 255"
proof -
  have "length (dec_int (loc_line loc)) \<le> 10" "length (dec_int code) \<le> 10"
    using assms(2) listedD(1,2) [OF assms(1)] by (auto intro!: length_dec_int simp: location_ok_def int_max_def)
  then have "length (place_text loc) \<le> 108" "length (message_text strerror code) \<le> 118"
    using assms(2) listedD(4) [OF assms(1), of strerror] by (auto simp: place_text_def message_text_def location_ok_def)
  then show ?thesis by (simp add: error_head_parts [OF assms(1)])
qed

lemma map2string_parts:
  assumes "listed code" "location_ok loc"
  shows "map2string strerror code param loc = error_head strerror code loc @ arg_text param"
  using length_error_head [OF assms] by (simp add: map2string_def arg_text_def)

lemma arg_text_some: "arg_text (Some (case param of None \<Rightarrow> [] | Some p \<Rightarrow> p)) = arg_text param"
  by (simp add: arg_text_def split: option.splits)

subsection \<open>The parser on a text\<close>

lemma parse_error_loop_end: "ep_state ep = StateEnd \<Longrightarrow> parse_error_loop strerror errstr ep = Some ep"
  by (subst parse_error_loop.simps) simp

lemma parse_error_loop_step: "ep_state ep \<noteq> StateEnd \<Longrightarrow> parse_error_step strerror errstr ep = Some ep' \<Longrightarrow>
    parse_error_loop strerror errstr ep = parse_error_loop strerror errstr ep'"
  by (subst parse_error_loop.simps) simp

definition arg_parsed :: "string option \<Rightarrow> string option" where
  "arg_parsed param = Some (case param of None \<Rightarrow> [] | Some p \<Rightarrow> p)"

lemma parse_argument:
  assumes "ep_state ep = StateParseArgument" "ep_ei ep = arg_text param"
  shows "parse_error_loop strerror errstr ep = Some (ep\<lparr>ep_param := arg_parsed param, ep_state := StateEnd\<rparr>)"
proof -
  have "parse_error_step strerror errstr ep = Some (ep\<lparr>ep_param := arg_parsed param, ep_state := StateEnd\<rparr>)"
    using assms by (auto simp: parse_error_step_def arg_text_def arg_parsed_def Let_def split: option.splits if_splits)
  then show ?thesis using assms(1) parse_error_loop_step [of ep strerror errstr] by (simp add: parse_error_loop_end)
qed

lemma parse_no_place:
  assumes "ep_state ep = StateParseLineNo" "ep_ei ep = arg_text param"
  shows "parse_error_loop strerror errstr ep = Some (ep\<lparr>ep_param := arg_parsed param, ep_state := StateEnd\<rparr>)"
proof -
  have "parse_error_step strerror errstr ep = Some (ep\<lparr>ep_state := StateParseArgument\<rparr>)"
    using assms by (auto simp: parse_error_step_def arg_text_def Let_def split: option.splits)
  then show ?thesis using assms parse_error_loop_step [of ep strerror errstr]
    by (simp add: parse_argument [of _ param])
qed

lemma arg_text_no_digit: "no_digit_first (arg_text param)" "take 1 (arg_text param) \<noteq> '' ''"
  by (auto simp: no_digit_first_def arg_text_def split: option.splits)

lemma parse_place:
  assumes ep: "ep_state ep = StateParseLineNo" "ep_ei ep = place_text loc @ arg_text param" "ep_filename ep = []"
    and loc: "location_ok loc" "CHR 0x22 \<notin> set (loc_file loc)"
  shows "\<exists>ei. parse_error_loop strerror errstr ep =
    Some (ep\<lparr>ep_ei := ei, ep_line := loc_line loc, ep_filename := loc_file loc, ep_param := arg_parsed param, ep_state := StateEnd\<rparr>)"
proof (cases "loc_file loc = []")
  case True
  have "parse_integer (dec_int (loc_line loc) @ arg_text param) = Some (loc_line loc, arg_text param)"
    using loc(1) by (intro parse_integer_dec) (simp_all add: location_ok_def arg_text_no_digit)
  then have "parse_error_step strerror errstr ep =
      Some (ep\<lparr>ep_line := loc_line loc, ep_ei := arg_text param, ep_state := StateParseArgument\<rparr>)"
    using ep True dec_int_not_Nil [of "loc_line loc"] arg_text_no_digit(2) [of param]
    by (simp add: parse_error_step_def place_text_def Let_def)
  then have "parse_error_loop strerror errstr ep =
      Some (ep\<lparr>ep_line := loc_line loc, ep_ei := arg_text param, ep_param := arg_parsed param, ep_state := StateEnd\<rparr>)"
    using ep(1) parse_error_loop_step [of ep strerror errstr] by (simp add: parse_argument [of _ param])
  then show ?thesis using ep(3) True by (intro exI [of _ "arg_text param"]) simp
next
  case False
  let ?rest = "'' in file '' @ CHR 0x22 # loc_file loc @ CHR 0x22 # arg_text param"
  let ?ep1 = "ep\<lparr>ep_line := loc_line loc, ep_ei := drop 1 ?rest, ep_state := StateParseFileName\<rparr>"
  let ?ep2 = "?ep1\<lparr>ep_filename := loc_file loc, ep_ei := arg_text param, ep_state := StateParseArgument\<rparr>"
  have "parse_integer (dec_int (loc_line loc) @ ?rest) = Some (loc_line loc, ?rest)"
    using loc(1) by (intro parse_integer_dec) (simp_all add: location_ok_def no_digit_first_def)
  then have "parse_error_step strerror errstr ep = Some ?ep1"
    using ep False dec_int_not_Nil [of "loc_line loc"] by (simp add: parse_error_step_def place_text_def Let_def)
  moreover have "parse_error_step strerror errstr ?ep1 = Some ?ep2"
    using takeWhile_other [OF loc(2)] dropWhile_other [OF loc(2)] by (simp add: parse_error_step_def Let_def)
  ultimately have "parse_error_loop strerror errstr ep = parse_error_loop strerror errstr ?ep2"
    using ep(1) parse_error_loop_step [of ep strerror errstr ?ep1] parse_error_loop_step [of ?ep1 strerror errstr ?ep2] by simp
  then show ?thesis using parse_argument [of ?ep2 param strerror errstr] by (intro exI [of _ "arg_text param"]) simp
qed

lemma parse_message:
  assumes ep: "ep_state ep = StateParseMessage" "ep_ei ep = CHR 0x22 # code2string strerror (ep_code ep) @ CHR 0x22 # rest"
    and code: "listed (ep_code ep)"
  shows "\<exists>start. parse_error_loop strerror errstr ep = parse_error_loop strerror errstr
    (ep\<lparr>ep_ei := error_skip_spaces rest, ep_msgstart := start, ep_state := StateParseLineNo\<rparr>)"
proof -
  let ?m = "code2string strerror (ep_code ep)"
  let ?ep1 = "ep\<lparr>ep_ei := drop 1 (ep_ei ep), ep_msgstart := drop 1 (ep_ei ep), ep_state := StateParseEndOfMessage\<rparr>"
  let ?ep2 = "ep\<lparr>ep_ei := error_skip_spaces rest, ep_msgstart := drop 1 (ep_ei ep), ep_state := StateParseLineNo\<rparr>"
  have "parse_error_step strerror errstr ep = Some ?ep1" using ep by (simp add: parse_error_step_def Let_def)
  moreover have "parse_error_step strerror errstr ?ep1 = Some ?ep2"
    using ep dropWhile_other [OF listedD(3) [OF code], of strerror rest]
    by (cases ep) (simp add: parse_error_step_def skip_until_def memcmp_equal_def Let_def)
  ultimately have "parse_error_loop strerror errstr ep = parse_error_loop strerror errstr ?ep2"
    using ep(1) parse_error_loop_step [of ep strerror errstr ?ep1] parse_error_loop_step [of ?ep1 strerror errstr ?ep2] by simp
  then show ?thesis by blast
qed

lemma skip_spaces_parts:
  "error_skip_spaces (arg_text param) = arg_text param"
  "error_skip_spaces ('' '' @ place_text loc @ cs) = place_text loc @ cs"
  by (auto simp: error_skip_spaces_def arg_text_def place_text_def split: option.splits)

definition error_start :: "string \<Rightarrow> error_parser" where
  "error_start errstr = \<lparr>ep_state = StateInit, ep_ei = errstr, ep_msgstart = [], ep_code = 0, ep_line = 0, ep_filename = [], ep_param = None\<rparr>"

text \<open>What the parser is left with at the end of a text that \<open>map2string\<close> wrote.\<close>

definition parsed_as :: "int \<Rightarrow> string option \<Rightarrow> location \<Rightarrow> error_parser \<Rightarrow> bool" where
  "parsed_as code param loc ep \<longleftrightarrow> ep_code ep = code \<and> ep_param ep = arg_parsed param \<and>
     ep_filename ep = loc_file loc \<and> ep_line ep = loc_line loc"

lemma parse_compile_error:
  assumes loc: "location_ok loc" "CHR 0x22 \<notin> set (loc_file loc)"
  shows "\<exists>ep. parse_error_loop strerror errstr (error_start (''Error '' @ place_text loc @ arg_text param)) = Some ep \<and>
    parsed_as 423 param loc ep"
proof -
  let ?s = "error_start (''Error '' @ place_text loc @ arg_text param)"
  let ?ep1 = "?s\<lparr>ep_code := 423, ep_ei := place_text loc @ arg_text param, ep_state := StateParseLineNo\<rparr>"
  have "parse_error_step strerror errstr ?s = Some ?ep1"
    using dec_int_not_Nil [of "loc_line loc"] by (simp add: parse_error_step_def error_start_def place_text_def Let_def)
  then have "parse_error_loop strerror errstr ?s = parse_error_loop strerror errstr ?ep1"
    by (intro parse_error_loop_step) (simp_all add: error_start_def)
  moreover obtain ei where "parse_error_loop strerror errstr ?ep1 =
      Some (?ep1\<lparr>ep_ei := ei, ep_line := loc_line loc, ep_filename := loc_file loc, ep_param := arg_parsed param, ep_state := StateEnd\<rparr>)"
    using parse_place [of ?ep1 loc param strerror errstr, OF _ _ _ loc] by (auto simp: error_start_def)
  ultimately show ?thesis by (simp add: parsed_as_def)
qed

lemma parse_message_error:
  assumes loc: "location_ok loc" "CHR 0x22 \<notin> set (loc_file loc)" "loc_line loc = 0 \<longrightarrow> loc_file loc = []" and code: "listed code"
  shows "\<exists>ep. parse_error_loop strerror errstr
      (error_start (message_text strerror code @ (if loc_line loc \<noteq> 0 then '' '' @ place_text loc else []) @ arg_text param)) = Some ep \<and>
    parsed_as code param loc ep"
proof -
  let ?rest = "(if loc_line loc \<noteq> 0 then '' '' @ place_text loc else []) @ arg_text param"
  let ?m = "CHR 0x22 # code2string strerror code @ CHR 0x22 # ?rest"
  let ?s = "error_start (message_text strerror code @ ?rest)"
  let ?ep1 = "?s\<lparr>ep_code := code, ep_ei := ?m, ep_state := StateParseMessage\<rparr>"
  have "parse_integer (dec_int code @ '' '' @ ?m) = Some (code, '' '' @ ?m)"
    using listedD(1,2) [OF code] by (intro parse_integer_dec) (simp_all add: no_digit_first_def int_max_def)
  then have "parse_error_step strerror errstr ?s = Some ?ep1"
    using listedD(1,2) [OF code] by (simp add: parse_error_step_def error_start_def message_text_def error_skip_spaces_def Let_def)
  then have "parse_error_loop strerror errstr ?s = parse_error_loop strerror errstr ?ep1"
    by (intro parse_error_loop_step) (simp_all add: error_start_def)
  moreover obtain start where "parse_error_loop strerror errstr ?ep1 = parse_error_loop strerror errstr
      (?ep1\<lparr>ep_ei := error_skip_spaces ?rest, ep_msgstart := start, ep_state := StateParseLineNo\<rparr>)" (is "_ = parse_error_loop _ _ ?ep2")
    using parse_message [of ?ep1 strerror ?rest errstr] code by auto
  moreover have "\<exists>ep. parse_error_loop strerror errstr ?ep2 = Some ep \<and> parsed_as code param loc ep"
  proof (cases "loc_line loc = 0")
    case True
    then show ?thesis using parse_no_place [of ?ep2 param strerror errstr] loc(3)
      by (simp add: skip_spaces_parts parsed_as_def error_start_def)
  next
    case False
    then have "error_skip_spaces ?rest = place_text loc @ arg_text param" using skip_spaces_parts(2) [of loc "arg_text param"] by simp
    then show ?thesis using parse_place [of ?ep2 loc param strerror errstr, OF _ _ _ loc(1,2)]
      by (auto simp: parsed_as_def error_start_def)
  qed
  ultimately show ?thesis by simp
qed

lemma map2string_arg: "map2string strerror code (arg_parsed param) loc = map2string strerror code param loc"
  by (simp add: map2string_def arg_parsed_def split: option.splits)

lemma mk_location_ok: "location_ok loc \<Longrightarrow> mk_location (loc_file loc) (loc_line loc) = loc"
  by (cases loc) (auto simp: mk_location_def until_nul_def location_ok_def takeWhile_eq_all_conv)

lemma parser_result_parsed:
  assumes "parsed_as code param loc ep" "location_ok loc"
  shows "parser_result strerror ep = error_new strerror code param loc"
proof -
  have "loc_file loc = [] \<Longrightarrow> line_location (loc_line loc) = loc" by (cases loc) (simp add: line_location_def)
  then show ?thesis using assms mk_location_ok [OF assms(2)]
    by (auto simp: parser_result_def parsed_as_def error_new_def map2string_arg)
qed

text \<open>
  C38: The text of an error with a code of the table, its place and its argument, parses back to the same error: code,
  location and text, which the errors that pass through Lua rely on. The file name must not hold a double quote, and
  without a line number there must be no file, except for a compile error, whose text always has the line.
\<close>

theorem parse_error_roundtrip:
  assumes "listed code" "location_ok loc" "CHR 0x22 \<notin> set (loc_file loc)"
    and "loc_line loc = 0 \<and> code \<noteq> 423 \<longrightarrow> loc_file loc = []"
  shows "parse_error strerror (me_what (error_new strerror code param loc)) = Some (error_new strerror code param loc)"
proof -
  let ?t = "me_what (error_new strerror code param loc)"
  have t: "?t = (if code = 423 then ''Error '' @ place_text loc @ arg_text param
      else message_text strerror code @ (if loc_line loc \<noteq> 0 then '' '' @ place_text loc else []) @ arg_text param)"
    using assms(1,2) by (simp add: error_new_def map2string_parts error_head_parts)
  have "\<exists>ep. parse_error_loop strerror ?t (error_start ?t) = Some ep \<and> parsed_as code param loc ep"
    using parse_compile_error [OF assms(2,3), of strerror ?t param] parse_message_error [OF assms(2,3) _ assms(1), of strerror ?t param] assms(4)
    unfolding t by auto
  moreover have "?t \<noteq> []" unfolding t by (simp add: message_text_def)
  ultimately show ?thesis using parser_result_parsed [OF _ assms(2)] by (auto simp: parse_error_def error_start_def)
qed

theorem parse_error_roundtrip_witness:
  "let e = error_new (\<lambda>_. []) 504 (Some ''=>'') (Location ''a.g'' 12) in
     parse_error (\<lambda>_. []) (me_what e) = Some e \<and>
     drop 49 (me_what e) = '' at line 12 in file '' @ CHR 0x22 # ''a.g'' @ [CHR 0x22] @ '': =>''"
proof -
  have ok: "listed 504" "location_ok (Location ''a.g'' 12)"
    unfolding listed_def message_codes by (simp_all add: location_ok_def int_max_def)
  have "map_of messages 504 = Some ''Unexpected token in the grammar definition''" by (simp add: messages_def)
  then have "code2string (\<lambda>_. []) 504 = ''Unexpected token in the grammar definition''" by (simp add: code2string_def)
  then have "drop 49 (me_what (error_new (\<lambda>_. []) 504 (Some ''=>'') (Location ''a.g'' 12))) =
      '' at line 12 in file '' @ CHR 0x22 # ''a.g'' @ [CHR 0x22] @ '': =>''"
    by (simp add: error_new_def map2string_parts [OF ok] error_head_parts [OF ok(1)] message_text_def place_text_def arg_text_def
        dec_int_def dec_nat.simps char_of_def bit_0)
  then show ?thesis using parse_error_roundtrip [OF ok, of "\<lambda>_. []" "Some ''=>''"] by (simp add: Let_def)
qed

subsection \<open>Copies of an error\<close>

lemma after_colon_place:
  assumes "location_ok loc" "after_colon (loc_file loc) = None"
  shows "after_colon (place_text loc @ cs) = after_colon cs"
proof -
  let ?f = "if loc_file loc \<noteq> [] then '' in file '' @ CHR 0x22 # loc_file loc @ [CHR 0x22] else []"
  have "after_colon (place_text loc @ cs) = after_colon ((''at line '' @ dec_int (loc_line loc)) @ ?f @ cs)" by (simp add: place_text_def)
  also have "\<dots> = after_colon (?f @ cs)"
    using assms(1) by (intro after_colon_skip) (simp add: location_ok_def dec_int_no_quote_colon)
  also have "\<dots> = after_colon cs"
  proof (cases "loc_file loc = []")
    case False
    have "after_colon (?f @ cs) = after_colon (loc_file loc @ CHR 0x22 # cs)"
      using False after_colon_skip [of "'' in file '' @ [CHR 0x22]" "loc_file loc @ CHR 0x22 # cs"] by simp
    then show ?thesis using after_colon_file [OF assms(2), of "CHR 0x22 # cs"] after_colon_skip [of "[CHR 0x22]" cs] by simp
  qed simp
  finally show ?thesis .
qed

lemma after_colon_message:
  assumes "listed code" "code \<noteq> 463"
  shows "after_colon (message_text strerror code @ cs) = after_colon cs"
  using after_colon_skip [of "message_text strerror code" cs] listedD(1) [OF assms(1)] listedD(5) [OF assms, of strerror]
  by (simp add: message_text_def dec_int_no_quote_colon)

lemma after_colon_arg: "arg_text (after_colon (arg_text param)) = arg_text param"
  by (simp add: arg_text_def split: option.splits)

lemma error_copy_text:
  assumes "listed code" "location_ok loc"
  shows "error_copy strerror (error_new strerror code param loc) = error_new strerror code param loc \<longleftrightarrow>
    arg_text (after_colon (error_head strerror code loc @ arg_text param)) = arg_text param"
  by (simp add: error_copy_def error_arg_def error_new_def map2string_parts [OF assms])



end
